(* ===== verification/Prelude.thy ===== *)
theory Prelude
  imports Main "HOL-Library.Word"
begin

text \<open>
  Shared material of the development: the type synonyms for the machine integers of the C++
  sources, the result type of code that can abort or throw, the byte-copy helpers that stand
  for \<open>memcpy\<close>, and generic lemmas on lists, maps and words used by the component theories.
\<close>

unbundle bit_operations_syntax

section \<open>Types\<close>

text \<open>
  \<open>unsigned char\<close>, \<open>unsigned int\<close>/\<open>uint32_t\<close> and \<open>uint64_t\<close> are words: they wrap.
  Signed \<open>int\<close> and \<open>int64\<close> values, whose overflow is undefined in C++, are \<open>int\<close>;
  a component whose bounds matter states them.
\<close>

type_synonym byte = "8 word"
type_synonym bytes = "8 word list"
type_synonym u16 = "16 word"
type_synonym u32 = "32 word"
type_synonym u64 = "64 word"

text \<open>
  The ways a modelled function can fail to return: a failed \<open>assert\<close> (which aborts the
  process), an access outside a container, an exception that carries a message.
\<close>

datatype failure = AssertFailed | OutOfRange | Thrown string

type_synonym 'a result = "failure + 'a"

definition bindR :: "'a result \<Rightarrow> ('a \<Rightarrow> 'b result) \<Rightarrow> 'b result" where
  "bindR r f = (case r of Inl e \<Rightarrow> Inl e | Inr x \<Rightarrow> f x)"

lemma bindR_simps [simp]:
  "bindR (Inl e) f = Inl e"
  "bindR (Inr x) f = f x"
  by (simp_all add: bindR_def)

lemma bindR_Inr_iff: "bindR r f = Inr y \<longleftrightarrow> (\<exists>x. r = Inr x \<and> f x = Inr y)"
  by (cases r) auto

definition assertR :: "bool \<Rightarrow> unit result" where
  "assertR b = (if b then Inr () else Inl AssertFailed)"

lemma assertR_simps [simp]:
  "assertR True = Inr ()"
  "assertR False = Inl AssertFailed"
  by (simp_all add: assertR_def)

lemma assertR_Inr_iff [simp]: "assertR b = Inr u \<longleftrightarrow> b"
  by (simp add: assertR_def)

section \<open>Byte buffers\<close>

text \<open>\<open>memcpy(dst + n, src, length src)\<close> into a buffer, and a read of \<open>n\<close> bytes at an offset.\<close>

definition memcpy_at :: "nat \<Rightarrow> 'a list \<Rightarrow> 'a list \<Rightarrow> 'a list" where
  "memcpy_at n src dst = take n dst @ src @ drop (n + length src) dst"

definition subbytes :: "nat \<Rightarrow> nat \<Rightarrow> 'a list \<Rightarrow> 'a list" where
  "subbytes off n xs = take n (drop off xs)"

lemma length_memcpy_at [simp]:
  "n + length src \<le> length dst \<Longrightarrow> length (memcpy_at n src dst) = length dst"
  by (simp add: memcpy_at_def)

lemma take_memcpy_at:
  "n + length src \<le> length dst \<Longrightarrow> take (n + length src) (memcpy_at n src dst) = take n dst @ src"
  by (simp add: memcpy_at_def)

lemma length_subbytes: "off + n \<le> length xs \<Longrightarrow> length (subbytes off n xs) = n"
  by (simp add: subbytes_def)

lemma subbytes_append_left: "off + n \<le> length xs \<Longrightarrow> subbytes off n (xs @ ys) = subbytes off n xs"
  by (simp add: subbytes_def)

section \<open>Words\<close>

lemma byte_less: "unat (b :: byte) < 256"
  using unsigned_less [of b] by simp

lemma unat_of_nat_mod_pow2:
  assumes "k \<le> LENGTH('a::len)"
  shows "unat (of_nat n :: 'a word) mod 2 ^ k = n mod 2 ^ k"
  using assms by (simp add: unat_of_nat le_imp_power_dvd mod_mod_cancel)

text \<open>The rotation written with two shifts, as the C++ code writes it.\<close>

lemma shifts_eq_rotr:
  fixes x :: "'a::len word"
  assumes "0 < m" "m < LENGTH('a)"
  shows "drop_bit m x OR push_bit (LENGTH('a) - m) x = word_rotr m x"
proof (rule bit_word_eqI)
  fix n assume n: "n < LENGTH('a)"
  show "bit (drop_bit m x OR push_bit (LENGTH('a) - m) x) n = bit (word_rotr m x) n"
  proof (cases "n + m < LENGTH('a)")
    case True
    then show ?thesis using n assms
      by (auto simp: bit_simps bit_word_rotr_iff ac_simps)
  next
    case False
    then have "(n + m) mod LENGTH('a) = n + m - LENGTH('a)"
      using n assms by (simp add: mod_if)
    moreover have "n - (LENGTH('a) - m) = n + m - LENGTH('a)" using assms by simp
    moreover have "\<not> bit x (m + n)" using False by (auto simp: ac_simps dest: bit_imp_le_length)
    ultimately show ?thesis using n assms False
      by (auto simp: bit_simps bit_word_rotr_iff ac_simps)
  qed
qed

section \<open>Lists\<close>

lemma list_eq_8:
  "length xs = 8 \<Longrightarrow> xs = [xs!0, xs!1, xs!2, xs!3, xs!4, xs!5, xs!6, xs!7]"
  by (auto simp: numeral_eq_Suc length_Suc_conv)

lemma concat_map_8:
  "length xs = 8 \<Longrightarrow> concat (map f xs) =
     f (xs!0) @ f (xs!1) @ f (xs!2) @ f (xs!3) @ f (xs!4) @ f (xs!5) @ f (xs!6) @ f (xs!7)"
  by (auto simp: numeral_eq_Suc length_Suc_conv)


section \<open>Strings\<close>

text \<open>
  Character positions as \<open>std::string::find_last_of\<close> gives them, the C string of a
  \<open>std::string\<close> (up to its first NUL), and printing of unsigned numbers (\<open>%u\<close> and \<open>%x\<close>).
\<close>

primrec find_last_of :: "'a \<Rightarrow> 'a list \<Rightarrow> nat option" where
  "find_last_of c [] = None"
| "find_last_of c (x # xs) = (case find_last_of c xs of
     Some i \<Rightarrow> Some (Suc i)
   | None \<Rightarrow> if x = c then Some 0 else None)"

definition c_str :: "string \<Rightarrow> string" where
  "c_str s = takeWhile (\<lambda>c. c \<noteq> CHR 0x00) s"

definition digit_char :: "nat \<Rightarrow> char" where
  "digit_char n = char_of (if n < 10 then n + 48 else n + 87)"

function show_base :: "nat \<Rightarrow> nat \<Rightarrow> string" where
  "show_base b n = (if b < 2 \<or> n < b then [digit_char n]
     else show_base b (n div b) @ [digit_char (n mod b)])"
  by auto
termination by (relation "measure snd") auto

declare show_base.simps [simp del]

lemma find_last_of_None: "find_last_of c s = None \<longleftrightarrow> c \<notin> set s"
  by (induction s) (auto split: option.splits)

lemma find_last_of_snoc: "c \<notin> set t \<Longrightarrow> find_last_of c (s @ c # t) = Some (length s)"
  by (induction s) (auto simp: find_last_of_None [THEN iffD2])

lemma find_last_of_Some: "find_last_of c s = Some i \<Longrightarrow> i < length s \<and> s ! i = c"
  by (induction s arbitrary: i) (auto split: option.splits if_splits)

lemma digit_char_of: "n < 36 \<Longrightarrow> of_char (digit_char n) = (if n < 10 then n + 48 else n + 87 :: nat)"
  by (simp add: digit_char_def)

lemma show_base_digits: "2 \<le> b \<Longrightarrow> b \<le> 16 \<Longrightarrow> c \<in> set (show_base b n) \<Longrightarrow> \<exists>k < 16. c = digit_char k"
proof (induction b n rule: show_base.induct)
  case (1 b n)
  show ?case
  proof (cases "n < b")
    case True
    then show ?thesis using "1.prems" by (auto simp: show_base.simps [of b n] intro: order.strict_trans2 [of _ b])
  next
    case False
    then have "c \<in> set (show_base b (n div b)) \<or> c = digit_char (n mod b)"
      using "1.prems" by (auto simp: show_base.simps [of b n])
    then show ?thesis
    proof
      assume "c = digit_char (n mod b)"
      moreover have "n mod b < 16" using "1.prems" by (auto intro: order.strict_trans2 [of _ b])
      ultimately show ?thesis by blast
    qed (use 1 False in auto)
  qed
qed

lemma digit_char_neq:
  assumes "k < 16" "(of_char c :: nat) < 48 \<or> 57 < (of_char c :: nat) \<and> (of_char c :: nat) < 97"
  shows "digit_char k \<noteq> c"
proof
  assume "digit_char k = c"
  then have "of_char c = (if k < 10 then k + 48 else k + 87 :: nat)" using digit_char_of [of k] assms(1) by simp
  with assms show False by (auto split: if_splits)
qed

lemma show_base_no_char:
  assumes "2 \<le> b" "b \<le> 16" "(of_char c :: nat) < 48 \<or> 57 < (of_char c :: nat) \<and> (of_char c :: nat) < 97"
  shows "c \<notin> set (show_base b n)"
  using show_base_digits [OF assms(1,2)] digit_char_neq [OF _ assms(3)] by blast

end
