(* ===== verification/Sha512.thy ===== *)
theory Sha512
  imports Prelude
begin

text \<open>
  The SHA-512 of \<open>src/crypto/sha512.cpp\<close>: the unrolled compression function \<open>Transform\<close>,
  and the incremental hasher \<open>Write\<close> / \<open>Finalize\<close> / \<open>Reset\<close>. The byte-order helpers
  \<open>ReadBE64\<close> and \<open>WriteBE64\<close> come from \<open>crypto/common.h\<close>, which is not in the tree: they are
  the parameters \<open>rd\<close> and \<open>wr\<close>. The lemmas of this theory show that feeding a message in
  pieces gives the hash of the whole message; \<open>Sha512_Fips\<close> compares \<open>Transform\<close> with the
  standard.
\<close>

section \<open>The round functions\<close>

definition Ch :: "u64 \<Rightarrow> u64 \<Rightarrow> u64 \<Rightarrow> u64" where
  "Ch x y z = z XOR (x AND (y XOR z))"

definition Maj :: "u64 \<Rightarrow> u64 \<Rightarrow> u64 \<Rightarrow> u64" where
  "Maj x y z = (x AND y) OR (z AND (x OR y))"

definition Sigma0 :: "u64 \<Rightarrow> u64" where
  "Sigma0 x = (drop_bit 28 x OR push_bit 36 x) XOR (drop_bit 34 x OR push_bit 30 x)
     XOR (drop_bit 39 x OR push_bit 25 x)"

definition Sigma1 :: "u64 \<Rightarrow> u64" where
  "Sigma1 x = (drop_bit 14 x OR push_bit 50 x) XOR (drop_bit 18 x OR push_bit 46 x)
     XOR (drop_bit 41 x OR push_bit 23 x)"

definition sigma0 :: "u64 \<Rightarrow> u64" where
  "sigma0 x = (drop_bit 1 x OR push_bit 63 x) XOR (drop_bit 8 x OR push_bit 56 x)
     XOR drop_bit 7 x"

definition sigma1 :: "u64 \<Rightarrow> u64" where
  "sigma1 x = (drop_bit 19 x OR push_bit 45 x) XOR (drop_bit 61 x OR push_bit 3 x)
     XOR drop_bit 6 x"

text \<open>One round: the fourth and the eighth argument are references, so the result is the pair
  of their new values.\<close>

definition Round :: "u64 \<Rightarrow> u64 \<Rightarrow> u64 \<Rightarrow> u64 \<Rightarrow> u64 \<Rightarrow> u64 \<Rightarrow> u64 \<Rightarrow> u64 \<Rightarrow> u64 \<Rightarrow> u64 \<Rightarrow> u64 \<times> u64" where
  "Round a b c d e f g h k w =
     (let t1 = h + Sigma1 e + Ch e f g + k + w;
          t2 = Sigma0 a + Maj a b c
      in (d + t1, t1 + t2))"

section \<open>The unrolled compression function\<close>

text \<open>
  The body of \<open>Transform\<close> is 80 calls of \<open>Round\<close> on the local variables \<open>a\<close> to \<open>h\<close>, whose
  order rotates from line to line, with the last argument an assignment to one of \<open>w0\<close> to
  \<open>w15\<close>. A line is a \<open>Row\<close>: the variables in the order they are passed, the constant, and the
  last argument: \<open>Load i o\<close> is \<open>wi = ReadBE64(chunk + o)\<close>, \<open>AddTo i p q r\<close> is
  \<open>wi += sigma1(wp) + wq + sigma0(wr)\<close>, and \<open>Plus\<close> is the same sum without the assignment, as
  the last two lines have it.
\<close>

datatype reg = RA | RB | RC | RD | RE | RF | RG | RH

datatype wexp = Load nat nat | AddTo nat nat nat nat | Plus nat nat nat nat

datatype row = Row reg reg reg reg reg reg reg reg u64 wexp

fun eval_wexp :: "(bytes \<Rightarrow> u64) \<Rightarrow> bytes \<Rightarrow> wexp \<Rightarrow> u64 list \<Rightarrow> u64 \<times> u64 list" where
  "eval_wexp rd chunk (Load i off) w = (let v = rd (subbytes off 8 chunk) in (v, w[i := v]))"
| "eval_wexp rd chunk (AddTo i p q r) w =
     (let v = w!i + (sigma1 (w!p) + w!q + sigma0 (w!r)) in (v, w[i := v]))"
| "eval_wexp rd chunk (Plus i p q r) w = (w!i + sigma1 (w!p) + w!q + sigma0 (w!r), w)"

fun exec_row :: "(bytes \<Rightarrow> u64) \<Rightarrow> bytes \<Rightarrow> row \<Rightarrow> (reg \<Rightarrow> u64) \<times> u64 list \<Rightarrow> (reg \<Rightarrow> u64) \<times> u64 list" where
  "exec_row rd chunk (Row a b c d e f g h k x) (v, w) =
     (case eval_wexp rd chunk x w of (wv, w') \<Rightarrow>
       (case Round (v a) (v b) (v c) (v d) (v e) (v f) (v g) (v h) k wv of (d', h') \<Rightarrow>
         (v(d := d', h := h'), w')))"

definition transform_rows :: "row list" where
  "transform_rows = [
   Row RA RB RC RD RE RF RG RH 0x428a2f98d728ae22 (Load 0 0),
   Row RH RA RB RC RD RE RF RG 0x7137449123ef65cd (Load 1 8),
   Row RG RH RA RB RC RD RE RF 0xb5c0fbcfec4d3b2f (Load 2 16),
   Row RF RG RH RA RB RC RD RE 0xe9b5dba58189dbbc (Load 3 24),
   Row RE RF RG RH RA RB RC RD 0x3956c25bf348b538 (Load 4 32),
   Row RD RE RF RG RH RA RB RC 0x59f111f1b605d019 (Load 5 40),
   Row RC RD RE RF RG RH RA RB 0x923f82a4af194f9b (Load 6 48),
   Row RB RC RD RE RF RG RH RA 0xab1c5ed5da6d8118 (Load 7 56),
   Row RA RB RC RD RE RF RG RH 0xd807aa98a3030242 (Load 8 64),
   Row RH RA RB RC RD RE RF RG 0x12835b0145706fbe (Load 9 72),
   Row RG RH RA RB RC RD RE RF 0x243185be4ee4b28c (Load 10 80),
   Row RF RG RH RA RB RC RD RE 0x550c7dc3d5ffb4e2 (Load 11 88),
   Row RE RF RG RH RA RB RC RD 0x72be5d74f27b896f (Load 12 96),
   Row RD RE RF RG RH RA RB RC 0x80deb1fe3b1696b1 (Load 13 104),
   Row RC RD RE RF RG RH RA RB 0x9bdc06a725c71235 (Load 14 112),
   Row RB RC RD RE RF RG RH RA 0xc19bf174cf692694 (Load 15 120),
   Row RA RB RC RD RE RF RG RH 0xe49b69c19ef14ad2 (AddTo 0 14 9 1),
   Row RH RA RB RC RD RE RF RG 0xefbe4786384f25e3 (AddTo 1 15 10 2),
   Row RG RH RA RB RC RD RE RF 0x0fc19dc68b8cd5b5 (AddTo 2 0 11 3),
   Row RF RG RH RA RB RC RD RE 0x240ca1cc77ac9c65 (AddTo 3 1 12 4),
   Row RE RF RG RH RA RB RC RD 0x2de92c6f592b0275 (AddTo 4 2 13 5),
   Row RD RE RF RG RH RA RB RC 0x4a7484aa6ea6e483 (AddTo 5 3 14 6),
   Row RC RD RE RF RG RH RA RB 0x5cb0a9dcbd41fbd4 (AddTo 6 4 15 7),
   Row RB RC RD RE RF RG RH RA 0x76f988da831153b5 (AddTo 7 5 0 8),
   Row RA RB RC RD RE RF RG RH 0x983e5152ee66dfab (AddTo 8 6 1 9),
   Row RH RA RB RC RD RE RF RG 0xa831c66d2db43210 (AddTo 9 7 2 10),
   Row RG RH RA RB RC RD RE RF 0xb00327c898fb213f (AddTo 10 8 3 11),
   Row RF RG RH RA RB RC RD RE 0xbf597fc7beef0ee4 (AddTo 11 9 4 12),
   Row RE RF RG RH RA RB RC RD 0xc6e00bf33da88fc2 (AddTo 12 10 5 13),
   Row RD RE RF RG RH RA RB RC 0xd5a79147930aa725 (AddTo 13 11 6 14),
   Row RC RD RE RF RG RH RA RB 0x06ca6351e003826f (AddTo 14 12 7 15),
   Row RB RC RD RE RF RG RH RA 0x142929670a0e6e70 (AddTo 15 13 8 0),
   Row RA RB RC RD RE RF RG RH 0x27b70a8546d22ffc (AddTo 0 14 9 1),
   Row RH RA RB RC RD RE RF RG 0x2e1b21385c26c926 (AddTo 1 15 10 2),
   Row RG RH RA RB RC RD RE RF 0x4d2c6dfc5ac42aed (AddTo 2 0 11 3),
   Row RF RG RH RA RB RC RD RE 0x53380d139d95b3df (AddTo 3 1 12 4),
   Row RE RF RG RH RA RB RC RD 0x650a73548baf63de (AddTo 4 2 13 5),
   Row RD RE RF RG RH RA RB RC 0x766a0abb3c77b2a8 (AddTo 5 3 14 6),
   Row RC RD RE RF RG RH RA RB 0x81c2c92e47edaee6 (AddTo 6 4 15 7),
   Row RB RC RD RE RF RG RH RA 0x92722c851482353b (AddTo 7 5 0 8),
   Row RA RB RC RD RE RF RG RH 0xa2bfe8a14cf10364 (AddTo 8 6 1 9),
   Row RH RA RB RC RD RE RF RG 0xa81a664bbc423001 (AddTo 9 7 2 10),
   Row RG RH RA RB RC RD RE RF 0xc24b8b70d0f89791 (AddTo 10 8 3 11),
   Row RF RG RH RA RB RC RD RE 0xc76c51a30654be30 (AddTo 11 9 4 12),
   Row RE RF RG RH RA RB RC RD 0xd192e819d6ef5218 (AddTo 12 10 5 13),
   Row RD RE RF RG RH RA RB RC 0xd69906245565a910 (AddTo 13 11 6 14),
   Row RC RD RE RF RG RH RA RB 0xf40e35855771202a (AddTo 14 12 7 15),
   Row RB RC RD RE RF RG RH RA 0x106aa07032bbd1b8 (AddTo 15 13 8 0),
   Row RA RB RC RD RE RF RG RH 0x19a4c116b8d2d0c8 (AddTo 0 14 9 1),
   Row RH RA RB RC RD RE RF RG 0x1e376c085141ab53 (AddTo 1 15 10 2),
   Row RG RH RA RB RC RD RE RF 0x2748774cdf8eeb99 (AddTo 2 0 11 3),
   Row RF RG RH RA RB RC RD RE 0x34b0bcb5e19b48a8 (AddTo 3 1 12 4),
   Row RE RF RG RH RA RB RC RD 0x391c0cb3c5c95a63 (AddTo 4 2 13 5),
   Row RD RE RF RG RH RA RB RC 0x4ed8aa4ae3418acb (AddTo 5 3 14 6),
   Row RC RD RE RF RG RH RA RB 0x5b9cca4f7763e373 (AddTo 6 4 15 7),
   Row RB RC RD RE RF RG RH RA 0x682e6ff3d6b2b8a3 (AddTo 7 5 0 8),
   Row RA RB RC RD RE RF RG RH 0x748f82ee5defb2fc (AddTo 8 6 1 9),
   Row RH RA RB RC RD RE RF RG 0x78a5636f43172f60 (AddTo 9 7 2 10),
   Row RG RH RA RB RC RD RE RF 0x84c87814a1f0ab72 (AddTo 10 8 3 11),
   Row RF RG RH RA RB RC RD RE 0x8cc702081a6439ec (AddTo 11 9 4 12),
   Row RE RF RG RH RA RB RC RD 0x90befffa23631e28 (AddTo 12 10 5 13),
   Row RD RE RF RG RH RA RB RC 0xa4506cebde82bde9 (AddTo 13 11 6 14),
   Row RC RD RE RF RG RH RA RB 0xbef9a3f7b2c67915 (AddTo 14 12 7 15),
   Row RB RC RD RE RF RG RH RA 0xc67178f2e372532b (AddTo 15 13 8 0),
   Row RA RB RC RD RE RF RG RH 0xca273eceea26619c (AddTo 0 14 9 1),
   Row RH RA RB RC RD RE RF RG 0xd186b8c721c0c207 (AddTo 1 15 10 2),
   Row RG RH RA RB RC RD RE RF 0xeada7dd6cde0eb1e (AddTo 2 0 11 3),
   Row RF RG RH RA RB RC RD RE 0xf57d4f7fee6ed178 (AddTo 3 1 12 4),
   Row RE RF RG RH RA RB RC RD 0x06f067aa72176fba (AddTo 4 2 13 5),
   Row RD RE RF RG RH RA RB RC 0x0a637dc5a2c898a6 (AddTo 5 3 14 6),
   Row RC RD RE RF RG RH RA RB 0x113f9804bef90dae (AddTo 6 4 15 7),
   Row RB RC RD RE RF RG RH RA 0x1b710b35131c471b (AddTo 7 5 0 8),
   Row RA RB RC RD RE RF RG RH 0x28db77f523047d84 (AddTo 8 6 1 9),
   Row RH RA RB RC RD RE RF RG 0x32caab7b40c72493 (AddTo 9 7 2 10),
   Row RG RH RA RB RC RD RE RF 0x3c9ebe0a15c9bebc (AddTo 10 8 3 11),
   Row RF RG RH RA RB RC RD RE 0x431d67c49c100d4c (AddTo 11 9 4 12),
   Row RE RF RG RH RA RB RC RD 0x4cc5d4becb3e42b6 (AddTo 12 10 5 13),
   Row RD RE RF RG RH RA RB RC 0x597f299cfc657e2a (AddTo 13 11 6 14),
   Row RC RD RE RF RG RH RA RB 0x5fcb6fab3ad6faec (Plus 14 12 7 15),
   Row RB RC RD RE RF RG RH RA 0x6c44198c4a475817 (Plus 15 13 8 0)]"

text \<open>The variables start from \<open>s[0..7]\<close>; the \<open>w\<close> array is uninitialised (every entry is
  loaded before it is read) and starts at zero here.\<close>

definition load_regs :: "u64 list \<Rightarrow> reg \<Rightarrow> u64" where
  "load_regs s r = (case r of RA \<Rightarrow> s!0 | RB \<Rightarrow> s!1 | RC \<Rightarrow> s!2 | RD \<Rightarrow> s!3
     | RE \<Rightarrow> s!4 | RF \<Rightarrow> s!5 | RG \<Rightarrow> s!6 | RH \<Rightarrow> s!7)"

definition Transform :: "(bytes \<Rightarrow> u64) \<Rightarrow> u64 list \<Rightarrow> bytes \<Rightarrow> u64 list" where
  "Transform rd s chunk =
     (let (v, w) = fold (exec_row rd chunk) transform_rows (load_regs s, replicate 16 0)
      in [s!0 + v RA, s!1 + v RB, s!2 + v RC, s!3 + v RD,
          s!4 + v RE, s!5 + v RF, s!6 + v RG, s!7 + v RH])"

definition Initialize :: "u64 list" where
  "Initialize = [0x6a09e667f3bcc908, 0xbb67ae8584caa73b, 0x3c6ef372fe94f82b, 0xa54ff53a5f1d36f1,
     0x510e527fade682d1, 0x9b05688c2b3e6c1f, 0x1f83d9abfb41bd6b, 0x5be0cd19137e2179]"

section \<open>The hasher object\<close>

text \<open>The members of \<open>CSHA512\<close> that the code uses: the chaining value, the 128 byte buffer and
  the 64-bit count of bytes written.\<close>

record CSHA512 =
  sha_s :: "u64 list"
  sha_buf :: bytes
  sha_bytes :: u64

definition sha_new :: "bytes \<Rightarrow> CSHA512" where
  "sha_new junk = \<lparr>sha_s = Initialize, sha_buf = junk, sha_bytes = 0\<rparr>"

definition sha_reset :: "CSHA512 \<Rightarrow> CSHA512" where
  "sha_reset c = c\<lparr>sha_bytes := 0, sha_s := Initialize\<rparr>"

text \<open>The \<open>while (end - data >= 128)\<close> loop, with what is left of \<open>data\<close>.\<close>

function write_chunks :: "(bytes \<Rightarrow> u64) \<Rightarrow> CSHA512 \<Rightarrow> bytes \<Rightarrow> CSHA512 \<times> bytes" where
  "write_chunks rd c data =
     (if 128 \<le> length data
      then write_chunks rd (c\<lparr>sha_s := Transform rd (sha_s c) (take 128 data),
                               sha_bytes := sha_bytes c + 128\<rparr>) (drop 128 data)
      else (c, data))"
  by pat_completeness auto
termination
  by (relation "measure (\<lambda>(rd, c, data). length data)") auto

declare write_chunks.simps [simp del]

text \<open>The first block of \<open>Write\<close>: complete a partly filled buffer and process it.\<close>

definition write_fill :: "(bytes \<Rightarrow> u64) \<Rightarrow> CSHA512 \<Rightarrow> bytes \<Rightarrow> CSHA512 \<times> bytes \<times> nat" where
  "write_fill rd c data =
     (let bufsize = unat (sha_bytes c) mod 128
      in if bufsize \<noteq> 0 \<and> 128 \<le> bufsize + length data
         then (let b = memcpy_at bufsize (take (128 - bufsize) data) (sha_buf c)
               in (c\<lparr>sha_buf := b, sha_bytes := sha_bytes c + of_nat (128 - bufsize),
                     sha_s := Transform rd (sha_s c) b\<rparr>, drop (128 - bufsize) data, 0))
         else (c, data, bufsize))"

definition sha_write :: "(bytes \<Rightarrow> u64) \<Rightarrow> CSHA512 \<Rightarrow> bytes \<Rightarrow> CSHA512" where
  "sha_write rd c data =
     (case write_fill rd c data of (c1, data1, bufsize) \<Rightarrow>
       (case write_chunks rd c1 data1 of (c2, data2) \<Rightarrow>
         (if data2 \<noteq> []
          then c2\<lparr>sha_buf := memcpy_at bufsize data2 (sha_buf c2),
                  sha_bytes := sha_bytes c2 + of_nat (length data2)\<rparr>
          else c2)))"

definition sha_finalize :: "(bytes \<Rightarrow> u64) \<Rightarrow> (u64 \<Rightarrow> bytes) \<Rightarrow> CSHA512 \<Rightarrow> CSHA512 \<times> bytes" where
  "sha_finalize rd wr c =
     (let pad = 0x80 # replicate 127 0;
          sizedesc = memcpy_at 8 (wr (push_bit 3 (sha_bytes c))) (replicate 16 0);
          c1 = sha_write rd c (take (1 + (239 - unat (sha_bytes c) mod 128) mod 128) pad);
          c2 = sha_write rd c1 sizedesc
      in (c2, wr (sha_s c2!0) @ wr (sha_s c2!1) @ wr (sha_s c2!2) @ wr (sha_s c2!3)
            @ wr (sha_s c2!4) @ wr (sha_s c2!5) @ wr (sha_s c2!6) @ wr (sha_s c2!7)))"

section \<open>Hashing in pieces\<close>

text \<open>The chaining value after all full 128 byte blocks of a message.\<close>

function blocks :: "(bytes \<Rightarrow> u64) \<Rightarrow> u64 list \<Rightarrow> bytes \<Rightarrow> u64 list" where
  "blocks rd s d = (if 128 \<le> length d then blocks rd (Transform rd s (take 128 d)) (drop 128 d) else s)"
  by pat_completeness auto
termination
  by (relation "measure (\<lambda>(rd, s, d). length d)") auto

declare blocks.simps [simp del]

lemma blocks_short: "length d < 128 \<Longrightarrow> blocks rd s d = s"
  by (simp add: blocks.simps)

lemma blocks_one: "length d = 128 \<Longrightarrow> blocks rd s (d @ e) = blocks rd (Transform rd s d) e"
  by (subst blocks.simps) simp

lemma blocks_append:
  "length a mod 128 = 0 \<Longrightarrow> blocks rd s (a @ b) = blocks rd (blocks rd s a) b"
proof (induction rd s a rule: blocks.induct)
  case (1 rd s a)
  show ?case
  proof (cases "128 \<le> length a")
    case True
    then have "(length a - 128) mod 128 = 0" using "1.prems" by (simp add: le_mod_geq)
    then have "blocks rd (Transform rd s (take 128 a)) (drop 128 a @ b)
        = blocks rd (blocks rd (Transform rd s (take 128 a)) (drop 128 a)) b"
      using "1.IH" True by simp
    then show ?thesis
      using True by (simp add: blocks.simps [of rd s "a @ b"] blocks.simps [of rd s a])
  next
    case False
    then have "a = []" using "1.prems" by simp
    then show ?thesis by (simp add: blocks_short)
  qed
qed

text \<open>The state of the hasher after the bytes \<open>m\<close>: the count, the chaining value over the full
  blocks, and the rest of the message at the start of the buffer.\<close>

definition sha_inv :: "(bytes \<Rightarrow> u64) \<Rightarrow> CSHA512 \<Rightarrow> bytes \<Rightarrow> bool" where
  "sha_inv rd c m \<longleftrightarrow> sha_bytes c = of_nat (length m) \<and> length (sha_buf c) = 128
     \<and> sha_s c = blocks rd Initialize m
     \<and> take (length m mod 128) (sha_buf c) = drop (length m - length m mod 128) m"

lemma bytes_mod: "unat (of_nat n :: u64) mod 128 = n mod 128"
  using unat_of_nat_mod_pow2 [of 7 n, where 'a = 64] by simp

lemma blocks_whole:
  assumes "length t = length m mod 128" "m = a @ t"
  shows "blocks rd s m = blocks rd s a" "length a mod 128 = 0"
proof -
  have "length a = length m - length t" using assms(2) by simp
  then have "length a = 128 * (length m div 128)" by (simp only: assms(1) minus_mod_eq_mult_div)
  then show l: "length a mod 128 = 0" by simp
  show "blocks rd s m = blocks rd s a"
    unfolding assms(2) blocks_append [OF l] using assms(1) by (intro blocks_short) simp
qed

lemma sha_inv_split:
  assumes "sha_inv rd c m"
  obtains a t where "m = a @ t" "length t = length m mod 128" "length a mod 128 = 0"
    "t = take (length m mod 128) (sha_buf c)" "sha_s c = blocks rd Initialize a"
proof -
  let ?k = "length m - length m mod 128"
  have m: "m = take ?k m @ drop ?k m" "length (drop ?k m) = length m mod 128" by simp_all
  show thesis
    using that [OF m] assms blocks_whole [OF m(2,1)] by (simp add: sha_inv_def)
qed

lemma take_drop_full: "length xs = 128 \<Longrightarrow> r \<le> 128 \<Longrightarrow> length d = 128 - r \<Longrightarrow> memcpy_at r d xs = take r xs @ d"
  by (simp add: memcpy_at_def)

lemma write_fill_inv:
  assumes inv: "sha_inv rd c m" and w: "write_fill rd c d = (c1, d1, b)"
  shows "\<exists>x. d = x @ d1 \<and> sha_inv rd c1 (m @ x) \<and> b = length (m @ x) mod 128
           \<and> (b = 0 \<or> b + length d1 < 128)"
proof -
  obtain a t where at: "m = a @ t" "length t = length m mod 128" "length a mod 128 = 0"
    "t = take (length m mod 128) (sha_buf c)" "sha_s c = blocks rd Initialize a"
    by (rule sha_inv_split [OF inv])
  let ?r = "length m mod 128"
  have r: "unat (sha_bytes c) mod 128 = ?r" "length (sha_buf c) = 128" "?r < 128"
    "sha_bytes c = of_nat (length m)"
    using inv by (simp_all add: sha_inv_def bytes_mod)
  show ?thesis
  proof (cases "?r \<noteq> 0 \<and> 128 \<le> ?r + length d")
    case False
    then show ?thesis using w inv r by (auto simp: write_fill_def)
  next
    case True
    let ?x = "take (128 - ?r) d" and ?b = "t @ take (128 - ?r) d"
    have lx: "length ?x = 128 - ?r" unfolding length_take using True by linarith
    have b: "memcpy_at ?r ?x (sha_buf c) = ?b"
      using take_drop_full [OF r(2) _ lx] r(3) at(4) by simp
    have lb: "length ?b = 128" using lx at(2) r(3) by simp
    have mx: "m @ ?x = a @ ?b" by (simp add: at(1))
    have "length (m @ ?x) = length a + 128" unfolding mx length_append [of a] lb ..
    then have lm: "length (m @ ?x) mod 128 = 0" using at(3) by simp
    have s: "blocks rd Initialize (m @ ?x) = Transform rd (blocks rd Initialize a) ?b"
      unfolding mx blocks_append [OF at(3)] using blocks_one [OF lb, of rd _ "[]"] by (simp add: blocks_short)
    have c1: "c1 = c\<lparr>sha_buf := ?b, sha_bytes := sha_bytes c + of_nat (128 - ?r), sha_s := Transform rd (sha_s c) ?b\<rparr>"
      "d1 = drop (128 - ?r) d" "b = 0"
      using w True b r(1) by (auto simp: write_fill_def Let_def)
    have "sha_bytes c1 = of_nat (length (m @ ?x))"
      using c1(1) r(4) lx by simp
    then have "sha_inv rd c1 (m @ ?x)"
      using c1(1) lb s at(5) lm by (simp add: sha_inv_def)
    then show ?thesis using c1(2,3) lm by (intro exI [of _ ?x]) simp
  qed
qed

lemma write_chunks_inv:
  assumes "sha_inv rd c m" "length m mod 128 = 0 \<or> length d < 128" "write_chunks rd c d = (c2, d2)"
  shows "\<exists>x. d = x @ d2 \<and> sha_inv rd c2 (m @ x) \<and> length d2 < 128 \<and> length x mod 128 = 0"
  using assms
proof (induction rd c d arbitrary: m rule: write_chunks.induct)
  case (1 rd c d)
  show ?case
  proof (cases "128 \<le> length d")
    case False
    then show ?thesis using "1.prems" by (auto simp: write_chunks.simps [of rd c d])
  next
    case True
    let ?x = "take 128 d"
    let ?c = "c\<lparr>sha_s := Transform rd (sha_s c) ?x, sha_bytes := sha_bytes c + 128\<rparr>"
    have lm: "length m mod 128 = 0" using True "1.prems"(2) by auto
    have lx: "length ?x = 128" using True by simp
    have lmx: "length (m @ ?x) mod 128 = 0" unfolding length_append lx using lm by simp
    have "blocks rd Initialize (m @ ?x) = Transform rd (blocks rd Initialize m) ?x"
      unfolding blocks_append [OF lm] using blocks_one [OF lx, of rd _ "[]"] by (simp add: blocks_short)
    then have "sha_inv rd ?c (m @ ?x)"
      using "1.prems"(1) lmx lx by (simp add: sha_inv_def)
    then obtain x where "drop 128 d = x @ d2" "sha_inv rd c2 ((m @ ?x) @ x)" "length d2 < 128" "length x mod 128 = 0"
      using "1.IH" [OF True, of "m @ ?x"] lmx "1.prems"(3) True by (auto simp: write_chunks.simps [of rd c d])
    then show ?thesis using lx
      by (intro exI [of _ "?x @ x"]) (metis append_assoc append_take_drop_id length_append mod_add_self1)
  qed
qed

lemma sha_write_inv:
  assumes "sha_inv rd c m"
  shows "sha_inv rd (sha_write rd c d) (m @ d)"
proof -
  obtain c1 d1 b where f: "write_fill rd c d = (c1, d1, b)" by (metis prod_cases3)
  obtain x where x: "d = x @ d1" "sha_inv rd c1 (m @ x)" "b = length (m @ x) mod 128" "b = 0 \<or> b + length d1 < 128"
    using write_fill_inv [OF assms f] by (elim exE conjE)
  obtain c2 d2 where g: "write_chunks rd c1 d1 = (c2, d2)" by fastforce
  have cond: "length (m @ x) mod 128 = 0 \<or> length d1 < 128" using x(3,4) by linarith
  obtain y where y: "d1 = y @ d2" "sha_inv rd c2 ((m @ x) @ y)" "length d2 < 128" "length y mod 128 = 0"
    using write_chunks_inv [OF x(2) cond g] by (elim exE conjE)
  define n where "n = (m @ x) @ y"
  have n: "length n mod 128 = b" using x(3) y(4) unfolding n_def length_append [of "m @ x"]
    by (metis add.right_neutral mod_add_right_eq)
  have b: "d2 = [] \<or> b + length d2 < 128"
    using x(4) y n by (cases "b = 0") auto
  have inv: "sha_inv rd c2 n" using y(2) by (simp add: n_def)
  have res: "sha_write rd c d = (if d2 \<noteq> [] then c2\<lparr>sha_buf := memcpy_at b d2 (sha_buf c2),
      sha_bytes := sha_bytes c2 + of_nat (length d2)\<rparr> else c2)"
    by (simp add: sha_write_def f g)
  have md: "m @ d = n @ d2" by (simp add: n_def x(1) y(1))
  show ?thesis
  proof (cases "d2 = []")
    case True
    then show ?thesis using res md inv by simp
  next
    case False
    with b have lt: "b + length d2 < 128" by simp
    obtain a t where at: "n = a @ t" "length t = length n mod 128" "length a mod 128 = 0"
      "t = take (length n mod 128) (sha_buf c2)" "sha_s c2 = blocks rd Initialize a"
      by (rule sha_inv_split [OF inv])
    have lb: "length (sha_buf c2) = 128" using inv by (simp add: sha_inv_def)
    have l: "length (n @ d2) mod 128 = b + length d2"
      using n lt unfolding length_append by (metis mod_add_left_eq mod_less)
    have tk: "take (b + length d2) (memcpy_at b d2 (sha_buf c2)) = t @ d2"
      using take_memcpy_at [of b d2 "sha_buf c2"] lt lb at(4) n by simp
    have la: "length n = length a + b" using at(1,2) n by (metis length_append)
    have nd: "n @ d2 = a @ (t @ d2)" unfolding at(1) append_assoc ..
    have "length (t @ d2) = length (n @ d2) mod 128"
      unfolding l unfolding length_append at(2) n ..
    note s = blocks_whole(1) [OF this nd, of rd Initialize]
    have e: "length (n @ d2) - (b + length d2) = length a" unfolding length_append la by linarith
    have dr: "drop (length (n @ d2) - (b + length d2)) (n @ d2) = t @ d2"
      unfolding e unfolding nd by simp
    show ?thesis
      using False res md inv l tk s dr at(5) lt lb by (simp add: sha_inv_def)
  qed
qed

lemma sha_reset_inv: "length (sha_buf c) = 128 \<Longrightarrow> sha_inv rd (sha_reset c) []"
  by (simp add: sha_inv_def sha_reset_def blocks_short)

lemma sha_writes_inv:
  "sha_inv rd c m \<Longrightarrow> sha_inv rd (fold (\<lambda>d c. sha_write rd c d) ds c) (m @ concat ds)"
proof (induction ds arbitrary: c m)
  case Nil
  then show ?case by simp
next
  case (Cons d ds)
  from Cons.IH [OF sha_write_inv [OF Cons.prems, of d]] show ?case by simp
qed

lemma length_blocks [simp]: "length s = 8 \<Longrightarrow> length (blocks rd s d) = 8"
proof (induction rd s d rule: blocks.induct)
  case (1 rd s d)
  then show ?case by (subst blocks.simps) (simp add: Transform_def split: prod.split)
qed

text \<open>The padded message of the standard: a one bit, zeros up to 112 modulo 128 bytes, and the
  length in bits as a 128-bit big-endian number.\<close>

definition fips_pad :: "(u64 \<Rightarrow> bytes) \<Rightarrow> bytes \<Rightarrow> bytes" where
  "fips_pad wr m = m @ 0x80 # replicate (nat ((111 - int (length m)) mod 128)) 0
     @ wr (of_nat (8 * length m div 2 ^ 64)) @ wr (of_nat (8 * length m))"

definition fips_sha512 :: "(bytes \<Rightarrow> u64) \<Rightarrow> (u64 \<Rightarrow> bytes) \<Rightarrow> bytes \<Rightarrow> bytes" where
  "fips_sha512 rd wr m = concat (map wr (blocks rd Initialize (fips_pad wr m)))"

lemma pad_zeros: "nat ((111 - int n) mod 128) = (239 - n mod 128) mod 128"
proof -
  have "(111 - int n) mod 128 = int ((239 - n mod 128) mod 128)"
    using mod_add_self2 [of "111 - int n" 128]
    by (simp add: of_nat_mod of_nat_diff mod_simps less_imp_le [of "n mod 128"])
  then show ?thesis by simp
qed

lemma finalize_spec:
  assumes inv: "sha_inv rd c m" and wr: "\<And>x. length (wr x) = 8" "wr 0 = replicate 8 0"
    and m: "length m < 2 ^ 61"
  shows "snd (sha_finalize rd wr c) = fips_sha512 rd wr m"
proof -
  let ?k = "(239 - length m mod 128) mod 128"
  let ?pad = "0x80 # replicate ?k 0" and ?len = "replicate 8 0 @ wr (of_nat (8 * length m))"
  have b: "sha_bytes c = of_nat (length m)" "unat (sha_bytes c) mod 128 = length m mod 128"
    using inv by (simp_all add: sha_inv_def bytes_mod)
  have pad: "take (1 + ?k) (0x80 # replicate 127 0) = ?pad" by (simp add: min_def)
  have "push_bit 3 (sha_bytes c) = of_nat (8 * length m)" by (simp add: b(1) push_bit_eq_mult)
  then have len: "memcpy_at 8 (wr (push_bit 3 (sha_bytes c))) (replicate 16 0) = ?len"
    using wr(1) by (simp add: memcpy_at_def)
  let ?c2 = "sha_write rd (sha_write rd c ?pad) ?len"
  have "8 * length m div 2 ^ 64 = 0" using m by simp
  then have fp: "fips_pad wr m = (m @ ?pad) @ ?len"
    by (simp add: fips_pad_def pad_zeros wr(2))
  have "sha_inv rd ?c2 (fips_pad wr m)"
    unfolding fp by (intro sha_write_inv inv)
  then have s: "sha_s ?c2 = blocks rd Initialize (fips_pad wr m)" by (simp add: sha_inv_def)
  then have "length (sha_s ?c2) = 8" by (simp add: Initialize_def)
  from concat_map_8 [OF this, of wr] show ?thesis
    unfolding sha_finalize_def Let_def b(2) pad len snd_conv fips_sha512_def s [symmetric] by (rule sym)
qed


definition be64_bytes :: "u64 \<Rightarrow> bytes" where
  "be64_bytes x = map (\<lambda>i. ucast (drop_bit (56 - 8 * i) x)) [0..<8]"


end
