(* ===== verification/Sha512_Fips.thy ===== *)
theory Sha512_Fips
  imports Sha512
begin

text \<open>
  The compression function of FIPS 180-4 (\<open>fips_...\<close>) and the proof that the unrolled
  \<open>Transform\<close> of \<open>src/crypto/sha512.cpp\<close>, with its rotating variable names and in-place message
  schedule, computes it; and the check of the round constants against their definition from primes.
\<close>

section \<open>The standard: FIPS 180-4\<close>

definition fips_Ch :: "u64 \<Rightarrow> u64 \<Rightarrow> u64 \<Rightarrow> u64" where
  "fips_Ch x y z = (x AND y) XOR (NOT x AND z)"

definition fips_Maj :: "u64 \<Rightarrow> u64 \<Rightarrow> u64 \<Rightarrow> u64" where
  "fips_Maj x y z = (x AND y) XOR (x AND z) XOR (y AND z)"

definition fips_S0 :: "u64 \<Rightarrow> u64" where
  "fips_S0 x = word_rotr 28 x XOR word_rotr 34 x XOR word_rotr 39 x"

definition fips_S1 :: "u64 \<Rightarrow> u64" where
  "fips_S1 x = word_rotr 14 x XOR word_rotr 18 x XOR word_rotr 41 x"

definition fips_s0 :: "u64 \<Rightarrow> u64" where
  "fips_s0 x = word_rotr 1 x XOR word_rotr 8 x XOR drop_bit 7 x"

definition fips_s1 :: "u64 \<Rightarrow> u64" where
  "fips_s1 x = word_rotr 19 x XOR word_rotr 61 x XOR drop_bit 6 x"

text \<open>The message schedule over the 16 words of a block, and one round on the eight working
  variables.\<close>

fun fips_W :: "(nat \<Rightarrow> u64) \<Rightarrow> nat \<Rightarrow> u64" where
  "fips_W m t = (if t < 16 then m t
     else fips_s1 (fips_W m (t - 2)) + fips_W m (t - 7) + fips_s0 (fips_W m (t - 15)) + fips_W m (t - 16))"

declare fips_W.simps [simp del]

lemma fips_W_lt: "t < 16 \<Longrightarrow> fips_W m t = m t"
  by (simp add: fips_W.simps)

lemma fips_W_ge:
  "16 \<le> t \<Longrightarrow> fips_W m t = fips_s1 (fips_W m (t - 2)) + fips_W m (t - 7)
     + fips_s0 (fips_W m (t - 15)) + fips_W m (t - 16)"
  by (subst fips_W.simps) simp

fun fips_round :: "u64 \<Rightarrow> u64 \<Rightarrow> u64 list \<Rightarrow> u64 list" where
  "fips_round k w [a, b, c, d, e, f, g, h] =
     (let t1 = h + fips_S1 e + fips_Ch e f g + k + w;
          t2 = fips_S0 a + fips_Maj a b c
      in [t1 + t2, a, b, c, d + t1, e, f, g])"
| "fips_round k w v = v"

fun row_const :: "row \<Rightarrow> u64" where
  "row_const (Row a b c d e f g h k x) = k"

fun row_regs :: "row \<Rightarrow> reg list" where
  "row_regs (Row a b c d e f g h k x) = [a, b, c, d, e, f, g, h]"

fun row_wexp :: "row \<Rightarrow> wexp" where
  "row_wexp (Row a b c d e f g h k x) = x"

definition fips_rounds :: "(nat \<Rightarrow> u64) \<Rightarrow> nat \<Rightarrow> u64 list \<Rightarrow> u64 list" where
  "fips_rounds m n v = fold (\<lambda>t. fips_round (row_const (transform_rows!t)) (fips_W m t)) [0..<n] v"

definition fips_compress :: "u64 list \<Rightarrow> (nat \<Rightarrow> u64) \<Rightarrow> u64 list" where
  "fips_compress s m = map2 (+) s (fips_rounds m 80 s)"

text \<open>The shift and mask forms of the code are the rotations and choice functions of the standard.\<close>

lemma Ch_eq: "Ch x y z = fips_Ch x y z"
  unfolding Ch_def fips_Ch_def by (rule bit_word_eqI) (auto simp: bit_simps)

lemma Maj_eq: "Maj x y z = fips_Maj x y z"
  unfolding Maj_def fips_Maj_def by (rule bit_word_eqI) (auto simp: bit_simps)

lemma rot64: "0 < m \<Longrightarrow> m < 64 \<Longrightarrow> n = 64 - m \<Longrightarrow> drop_bit m (x::u64) OR push_bit n x = word_rotr m x"
  using shifts_eq_rotr [of m x] by simp

lemma Sigma_eqs:
  "Sigma0 x = fips_S0 x" "Sigma1 x = fips_S1 x" "sigma0 x = fips_s0 x" "sigma1 x = fips_s1 x"
  by (simp_all add: Sigma0_def Sigma1_def sigma0_def sigma1_def
      fips_S0_def fips_S1_def fips_s0_def fips_s1_def rot64)

lemma Round_eq:
  "Round a b c d e f g h k w =
     (let r = fips_round k w [a, b, c, d, e, f, g, h] in (r!4, r!0))"
  by (simp add: Round_def Ch_eq Maj_eq Sigma_eqs Let_def)

text \<open>The line \<open>n\<close> of the code in closed form: the variables rotate by one place per line, the
  \<open>w\<close> index runs modulo 16.\<close>

definition all_regs :: "reg list" where
  "all_regs = [RA, RB, RC, RD, RE, RF, RG, RH]"

definition order :: "nat \<Rightarrow> reg list" where
  "order n = map (\<lambda>j. all_regs ! ((j + 7 * n) mod 8)) [0..<8]"

definition wexp_of :: "nat \<Rightarrow> wexp" where
  "wexp_of n = (if n < 16 then Load n (8 * n)
     else if n < 78 then AddTo (n mod 16) ((n + 14) mod 16) ((n + 9) mod 16) ((n + 1) mod 16)
     else Plus (n mod 16) ((n + 14) mod 16) ((n + 9) mod 16) ((n + 1) mod 16))"

lemma transform_rows_regular:
  "map row_regs transform_rows = map order [0..<80]"
  "map row_wexp transform_rows = map wexp_of [0..<80]"
  by (simp_all add: transform_rows_def order_def wexp_of_def all_regs_def upt_rec)

lemma length_transform_rows [simp]: "length transform_rows = 80"
  by (simp add: transform_rows_def)

lemma nth_regular:
  assumes "map f xs = map g [0..<k]" "n < k"
  shows "f (xs ! n) = g n"
proof -
  have "length xs = k" using arg_cong [OF assms(1), of length] by simp
  then have "f (xs ! n) = map f xs ! n" using assms(2) by simp
  also have "\<dots> = g n" unfolding assms(1) using assms(2) by simp
  finally show ?thesis .
qed

lemma row_regs_nth: "n < 80 \<Longrightarrow> row_regs (transform_rows ! n) = order n"
  by (rule nth_regular [OF transform_rows_regular(1)])

lemma row_wexp_nth: "n < 80 \<Longrightarrow> row_wexp (transform_rows ! n) = wexp_of n"
  by (rule nth_regular [OF transform_rows_regular(2)])

lemma order_mod: "order n = order (n mod 8)"
proof -
  have "(j + 7 * n) mod 8 = (j + 7 * (n mod 8)) mod 8" for j :: nat
    by (metis mod_add_right_eq mod_mult_right_eq)
  then show ?thesis unfolding order_def by metis
qed

lemma order_table:
  "order 0 = [RA, RB, RC, RD, RE, RF, RG, RH]" "order 1 = [RH, RA, RB, RC, RD, RE, RF, RG]"
  "order 2 = [RG, RH, RA, RB, RC, RD, RE, RF]" "order 3 = [RF, RG, RH, RA, RB, RC, RD, RE]"
  "order 4 = [RE, RF, RG, RH, RA, RB, RC, RD]" "order 5 = [RD, RE, RF, RG, RH, RA, RB, RC]"
  "order 6 = [RC, RD, RE, RF, RG, RH, RA, RB]" "order 7 = [RB, RC, RD, RE, RF, RG, RH, RA]"
  by code_simp+

lemma order_step:
  assumes "order n = [a, b, c, d, e, f, g, h]"
  shows "order (Suc n) = [h, a, b, c, d, e, f, g] \<and> distinct [a, b, c, d, e, f, g, h]"
proof -
  have "n mod 8 \<in> {0, 1, 2, 3, 4, 5, 6, 7}" using mod_less_divisor [of 8 n] by auto
  moreover have "order (Suc n) = order (Suc (n mod 8) mod 8)"
    using order_mod [of "Suc n"] by (simp add: mod_Suc_eq)
  moreover have "order (n mod 8) = [a, b, c, d, e, f, g, h]"
    using assms order_mod [of n] by simp
  ultimately show ?thesis by (auto simp: order_table [unfolded One_nat_def] order_table(3) [unfolded numeral_2_eq_2])
qed

lemma exec_row_step:
  assumes "order n = row_regs r"
    and "eval_wexp rd chunk (row_wexp r) w = (wv, w')"
    and "exec_row rd chunk r (v, w) = (v', w'')"
  shows "w'' = w'" "map v' (order (Suc n)) = fips_round (row_const r) wv (map v (order n))"
proof -
  obtain a b c d e f g h k x where r: "r = Row a b c d e f g h k x" by (cases r)
  from assms(1) r have o: "order n = [a, b, c, d, e, f, g, h]" by simp
  note s = conjunct1 [OF order_step [OF o]] conjunct2 [OF order_step [OF o]]
  show "w'' = w'" "map v' (order (Suc n)) = fips_round (row_const r) wv (map v (order n))"
    using assms(2,3) s(2) by (auto simp: r o s(1) Round_eq Let_def)
qed

section \<open>The unrolled code is the standard's loop\<close>

text \<open>The \<open>w\<close> variables before line \<open>n\<close> hold the last 16 words of the schedule.\<close>

definition sched_inv :: "(nat \<Rightarrow> u64) \<Rightarrow> nat \<Rightarrow> u64 list \<Rightarrow> bool" where
  "sched_inv m n w \<longleftrightarrow> length w = 16 \<and> (\<forall>j < n. n \<le> j + 16 \<longrightarrow> w ! (j mod 16) = fips_W m j)"

lemma mod16_neq: 
  assumes "j < n" "n < j + 16"
  shows "j mod 16 \<noteq> n mod (16::nat)"
proof
  assume "j mod 16 = n mod 16"
  then have "16 dvd n - j" using assms(1) mod_eq_dvd_iff_nat [of j n 16] by auto
  then show False using assms by (auto dest: dvd_imp_le)
qed

lemma sched_lookup:
  "sched_inv m n w \<Longrightarrow> j < n \<Longrightarrow> n \<le> j + 16 \<Longrightarrow> i = j mod 16 \<Longrightarrow> w ! i = fips_W m j"
  by (simp add: sched_inv_def)

lemma mod16_back: "d \<le> 16 \<Longrightarrow> 16 \<le> n \<Longrightarrow> (n + (16 - d)) mod 16 = (n - d) mod (16::nat)"
  by (metis Nat.add_diff_assoc add.commute le_trans mod_add_self2 ordered_cancel_comm_monoid_diff_class.add_diff_assoc2)

lemma sched_value:
  assumes "sched_inv m n w" "16 \<le> n"
  shows "w ! (n mod 16) + sigma1 (w ! ((n + 14) mod 16)) + w ! ((n + 9) mod 16)
           + sigma0 (w ! ((n + 1) mod 16)) = fips_W m n"
proof -
  have "w ! ((n + 14) mod 16) = fips_W m (n - 2)" "w ! ((n + 9) mod 16) = fips_W m (n - 7)"
    "w ! ((n + 1) mod 16) = fips_W m (n - 15)" "w ! (n mod 16) = fips_W m (n - 16)"
    using assms mod16_back [of 2 n] mod16_back [of 7 n] mod16_back [of 15 n] mod16_back [of 16 n]
    by (simp_all add: sched_lookup)
  then show ?thesis using assms(2) by (simp add: Sigma_eqs fips_W_ge ac_simps)
qed

lemma sched_inv_update:
  assumes "sched_inv m n w" "v = fips_W m n"
  shows "sched_inv m (Suc n) (w[n mod 16 := v])"
  unfolding sched_inv_def
proof (intro conjI allI impI)
  show "length (w[n mod 16 := v]) = 16" using assms by (simp add: sched_inv_def)
  fix j assume j: "j < Suc n" "Suc n \<le> j + 16"
  show "w[n mod 16 := v] ! (j mod 16) = fips_W m j"
  proof (cases "j = n")
    case True
    then show ?thesis using assms by (simp add: sched_inv_def)
  next
    case False
    with j mod16_neq [of j n] show ?thesis
      using assms by (simp add: sched_inv_def)
  qed
qed

lemma eval_wexp_store:
  assumes inv: "sched_inv (\<lambda>t. rd (subbytes (8 * t) 8 chunk)) n w" and n: "n < 78"
  shows "\<exists>w'. eval_wexp rd chunk (wexp_of n) w = (fips_W (\<lambda>t. rd (subbytes (8 * t) 8 chunk)) n, w')
           \<and> sched_inv (\<lambda>t. rd (subbytes (8 * t) 8 chunk)) (Suc n) w'"
proof (cases "n < 16")
  case True
  then show ?thesis
    using sched_inv_update [OF inv refl] by (simp add: wexp_of_def Let_def fips_W_lt)
next
  case False
  then have x: "wexp_of n = AddTo (n mod 16) ((n + 14) mod 16) ((n + 9) mod 16) ((n + 1) mod 16)"
    using n by (simp add: wexp_of_def)
  let ?v = "fips_W (\<lambda>t. rd (subbytes (8 * t) 8 chunk)) n"
  have v: "w ! (n mod 16) + (sigma1 (w ! ((n + 14) mod 16)) + w ! ((n + 9) mod 16)
      + sigma0 (w ! ((n + 1) mod 16))) = fips_W (\<lambda>t. rd (subbytes (8 * t) 8 chunk)) n"
    using sched_value [OF inv, simplified add.assoc] False by (simp only: add.assoc not_less)
  have "eval_wexp rd chunk (wexp_of n) w = (?v, w[n mod 16 := ?v])"
    unfolding x eval_wexp.simps v Let_def by (rule refl)
  with sched_inv_update [OF inv refl] show ?thesis by (intro exI conjI)
qed

lemma eval_wexp_last:
  assumes inv: "sched_inv m 78 w"
  shows "eval_wexp rd chunk (wexp_of 78) w = (fips_W m 78, w)"
    and "eval_wexp rd chunk (wexp_of 79) w = (fips_W m 79, w)"
proof -
  have "w ! 14 = fips_W m 62" "w ! 12 = fips_W m 76" "w ! 7 = fips_W m 71" "w ! 15 = fips_W m 63"
    by (auto intro!: sched_lookup [OF inv])
  moreover have "wexp_of 78 = Plus 14 12 7 15" by code_simp
  ultimately show "eval_wexp rd chunk (wexp_of 78) w = (fips_W m 78, w)"
    by (simp add: Sigma_eqs fips_W_ge [of 78] ac_simps)
  have "w ! 15 = fips_W m 63" "w ! 13 = fips_W m 77" "w ! 8 = fips_W m 72" "w ! 0 = fips_W m 64"
    by (auto intro!: sched_lookup [OF inv])
  moreover have "wexp_of 79 = Plus 15 13 8 0" by code_simp
  ultimately show "eval_wexp rd chunk (wexp_of 79) w = (fips_W m 79, w)"
    by (simp add: Sigma_eqs fips_W_ge [of 79] ac_simps)
qed

text \<open>After \<open>n\<close> lines the variables, read in the order of line \<open>n\<close>, hold the working variables
  after \<open>n\<close> rounds.\<close>

lemma exec_rows:
  assumes "length s = 8" "n \<le> 80"
  shows "\<exists>v w. fold (exec_row rd chunk) (take n transform_rows) (load_regs s, replicate 16 0) = (v, w)
     \<and> map v (order n) = fips_rounds (\<lambda>t. rd (subbytes (8 * t) 8 chunk)) n s
     \<and> sched_inv (\<lambda>t. rd (subbytes (8 * t) 8 chunk)) (min n 78) w"
  using assms(2)
proof (induction n)
  case 0
  have "order 0 = all_regs" by code_simp
  then have "map (load_regs s) (order 0) = s"
    using list_eq_8 [OF assms(1)] by (simp add: all_regs_def load_regs_def)
  then show ?case by (simp add: fips_rounds_def sched_inv_def)
next
  case (Suc n)
  let ?m = "\<lambda>t. rd (subbytes (8 * t) 8 chunk)"
  let ?r = "transform_rows ! n"
  obtain v w where IH: "fold (exec_row rd chunk) (take n transform_rows) (load_regs s, replicate 16 0) = (v, w)"
    "map v (order n) = fips_rounds ?m n s" "sched_inv ?m (min n 78) w"
    using Suc by auto
  have n: "n < 80" "row_regs ?r = order n" "row_wexp ?r = wexp_of n"
    using Suc.prems row_regs_nth row_wexp_nth by auto
  obtain w' where w': "eval_wexp rd chunk (wexp_of n) w = (fips_W ?m n, w')"
    "sched_inv ?m (min (Suc n) 78) w'"
  proof (cases "n < 78")
    case True
    then show ?thesis using eval_wexp_store [of rd chunk n w] IH(3) that by auto
  next
    case False
    then have "n = 78 \<or> n = 79" "min n 78 = 78" "min (Suc n) 78 = 78" using n by auto
    then show ?thesis using eval_wexp_last [of ?m w rd chunk] IH(3) that by auto
  qed
  obtain v' w'' where x: "exec_row rd chunk ?r (v, w) = (v', w'')" by fastforce
  have "eval_wexp rd chunk (row_wexp ?r) w = (fips_W ?m n, w')" using w' n by simp
  note st = exec_row_step [OF n(2)[symmetric] this x]
  have "map v' (order (Suc n)) = fips_rounds ?m (Suc n) s"
    using st(2) IH(2) by (simp add: fips_rounds_def)
  moreover have "fold (exec_row rd chunk) (take (Suc n) transform_rows) (load_regs s, replicate 16 0) = (v', w')"
    using IH(1) n x st(1) by (simp add: take_Suc_conv_app_nth)
  ultimately show ?case using w'(2) by blast
qed



text \<open>The constants of the standard: the first 64 bits of the fractional parts of the cube roots
  (round constants) and of the square roots (initial value) of the first primes.\<close>

definition first_primes :: "int list" where
  "first_primes = filter (\<lambda>p. list_all (\<lambda>d. p \<le> d \<or> p mod d \<noteq> 0) [2, 3, 5, 7, 11, 13, 17, 19]) [2..409]"

definition root_frac64 :: "nat \<Rightarrow> int \<Rightarrow> u64 \<Rightarrow> bool" where
  "root_frac64 e p k \<longleftrightarrow>
     (let q = int (length (filter (\<lambda>i. i ^ e \<le> p) [1, 2, 3, 4, 5, 6, 7]));
          r = q * 2 ^ 64 + uint k;
          n = p * 2 ^ (64 * e)
      in r ^ e \<le> n \<and> n < (r + 1) ^ e)"

text \<open>The 80 round constants of the unrolled code are the first 64 bits of the fractional parts
  of the cube roots of the first 80 primes, in order, and the eight initial words those of the
  square roots of the first eight primes.\<close>

theorem constants_from_primes:
  "list_all2 (root_frac64 3) first_primes (map row_const transform_rows)
   \<and> list_all2 (root_frac64 2) (take 8 first_primes) Initialize"
proof -
  have p: "first_primes = [2, 3, 5, 7, 11, 13, 17, 19, 23, 29, 31, 37, 41, 43, 47, 53, 59, 61, 67, 71,
    73, 79, 83, 89, 97, 101, 103, 107, 109, 113, 127, 131, 137, 139, 149, 151, 157, 163, 167, 173, 179,
    181, 191, 193, 197, 199, 211, 223, 227, 229, 233, 239, 241, 251, 257, 263, 269, 271, 277, 281, 283,
    293, 307, 311, 313, 317, 331, 337, 347, 349, 353, 359, 367, 373, 379, 383, 389, 397, 401, 409]"
    by code_simp
  have "take 8 first_primes = [2, 3, 5, 7, 11, 13, 17, 19]" unfolding p by simp
  then show ?thesis
    unfolding p transform_rows_def Initialize_def list.map row_const.simps
    by (simp only: list_all2_Cons list_all2_Nil simp_thms) (simp add: root_frac64_def Let_def)
qed

end
