(* ===== verification/Hash.thy ===== *)
theory Hash
  imports Prelude
begin

text \<open>
  The hash functions of hash.cpp: \<open>MurmurHash3\<close>, the seeded hash of the Bloom filters, and the message
  that \<open>BIP32Hash\<close> feeds to HMAC-SHA-512. The loop over the blocks runs on a negative index from the
  end of the blocks, and the switch on the remaining bytes falls through; both are kept. The blocks are
  read as \<open>uint32_t\<close> through a cast pointer, so the bytes of a block are in the order of the machine,
  taken to be little endian, as the published test vectors of the function are.
  The number of blocks is an \<open>int\<close>, so the data is taken to be shorter than 8 GB.
  \<open>CHMAC_SHA512\<close> is not in the repository and is a parameter.
\<close>

section \<open>MurmurHash3\<close>

definition ROTL32 :: "u32 \<Rightarrow> nat \<Rightarrow> u32" where
  "ROTL32 x r = push_bit r x OR drop_bit (32 - r) x"

definition mm_c1 :: u32 where "mm_c1 = 0xcc9e2d51"
definition mm_c2 :: u32 where "mm_c2 = 0x1b873593"

definition le32_at :: "bytes \<Rightarrow> nat \<Rightarrow> u32" where
  "le32_at d p = ucast (d ! p) OR push_bit 8 (ucast (d ! (p + 1))) OR push_bit 16 (ucast (d ! (p + 2))) OR
     push_bit 24 (ucast (d ! (p + 3)))"

text \<open>One turn of the loop: \<open>blocks\<close> points behind the last block and \<open>i\<close> is negative.\<close>

definition mm_scramble :: "u32 \<Rightarrow> u32" where
  "mm_scramble k1 = (let k1 = k1 * mm_c1; k1 = ROTL32 k1 15 in k1 * mm_c2)"

definition mm_step :: "u32 \<Rightarrow> u32 \<Rightarrow> u32" where
  "mm_step h1 k = (let h1 = h1 XOR mm_scramble k; h1 = ROTL32 h1 13 in h1 * 5 + 0xe6546b64)"

function mm_body :: "bytes \<Rightarrow> int \<Rightarrow> int \<Rightarrow> u32 \<Rightarrow> u32" where
  "mm_body d nblocks i h1 = (if i \<ge> 0 then h1
     else mm_body d nblocks (i + 1) (mm_step h1 (le32_at d (nat (4 * (nblocks + i))))))"
  by auto
termination by (relation "measure (\<lambda>(d, n, i, h). nat (- i))") auto

declare mm_body.simps [simp del]

text \<open>The switch: the cases 3 and 2 fall through to the next one.\<close>

definition mm_tail :: "bytes \<Rightarrow> nat \<Rightarrow> u32 \<Rightarrow> u32" where
  "mm_tail d t h1 = (let r = length d mod 4; k1 = 0;
     k1 = (if r = 3 then k1 XOR push_bit 16 (ucast (d ! (t + 2))) else k1);
     k1 = (if r = 3 \<or> r = 2 then k1 XOR push_bit 8 (ucast (d ! (t + 1))) else k1)
     in if r = 3 \<or> r = 2 \<or> r = 1 then h1 XOR mm_scramble (k1 XOR ucast (d ! t)) else h1)"

definition mm_final :: "nat \<Rightarrow> u32 \<Rightarrow> u32" where
  "mm_final len h1 = (let h1 = h1 XOR of_nat len;
     h1 = h1 XOR drop_bit 16 h1;
     h1 = h1 * 0x85ebca6b;
     h1 = h1 XOR drop_bit 13 h1;
     h1 = h1 * 0xc2b2ae35
     in h1 XOR drop_bit 16 h1)"

definition MurmurHash3 :: "u32 \<Rightarrow> bytes \<Rightarrow> u32" where
  "MurmurHash3 nHashSeed d = (let h1 = nHashSeed;
     h1 = (if 0 < length d then
        let nblocks = int (length d div 4)
        in mm_tail d (length d div 4 * 4) (mm_body d nblocks (- nblocks) h1)
      else h1)
     in mm_final (length d) h1)"

text \<open>The published test vectors.\<close>

lemma murmur_vectors:
  "MurmurHash3 0 [] = 0" "MurmurHash3 0xFBA4C795 [] = 0x6a396f08" "MurmurHash3 0xFBA4C795 [0] = 0xea3f0b17"
  "MurmurHash3 0 [0x00, 0x11] = 0x16c6b7ab" "MurmurHash3 0 [0x00, 0x11, 0x22] = 0x8eb51c3d"
  "MurmurHash3 0 [0x00, 0x11, 0x22, 0x33] = 0xb4471bf8"
  "MurmurHash3 0 [0x00, 0x11, 0x22, 0x33, 0x44] = 0xe2301fa8"
  "MurmurHash3 0 [0x00, 0x11, 0x22, 0x33, 0x44, 0x55] = 0xfc2e4a15"
  "MurmurHash3 0 [0x00, 0x11, 0x22, 0x33, 0x44, 0x55, 0x66] = 0xb074502c"
  "MurmurHash3 0 [0x00, 0x11, 0x22, 0x33, 0x44, 0x55, 0x66, 0x77] = 0x8034d2a0"
  "MurmurHash3 0 [0x00, 0x11, 0x22, 0x33, 0x44, 0x55, 0x66, 0x77, 0x88] = 0xb4698def"
  by code_simp+

section \<open>The hash without pointers\<close>

text \<open>The bytes read four at a time from the front; a shorter rest is a number of its own.\<close>

primrec le_word :: "bytes \<Rightarrow> u32" where
  "le_word [] = 0"
| "le_word (b # bs) = ucast b OR push_bit 8 (le_word bs)"

fun mm_fold :: "u32 \<Rightarrow> bytes \<Rightarrow> u32" where
  "mm_fold h (a # b # c # d # rest) = mm_fold (mm_step h (le_word [a, b, c, d])) rest"
| "mm_fold h [] = h"
| "mm_fold h rest = h XOR mm_scramble (le_word rest)"

lemma le32_at_word:
  "p + 4 \<le> length d \<Longrightarrow> le32_at d p = le_word [d ! p, d ! (p + 1), d ! (p + 2), d ! (p + 3)]"
  by (simp add: le32_at_def push_bit_or ac_simps)

lemma drop_4: "p + 4 \<le> length d \<Longrightarrow> drop p d = d ! p # d ! (p + 1) # d ! (p + 2) # d ! (p + 3) # drop (p + 4) d"
  by (simp add: Cons_nth_drop_Suc [symmetric] eval_nat_numeral)

lemma le_word_xor: "le_word (b # bs) = ucast b XOR push_bit 8 (le_word bs)"
proof -
  have "n < 8" if "bit (ucast b :: u32) n" for n using that by (auto simp: bit_simps dest: bit_imp_le_length)
  then have "\<not> (bit (ucast b :: u32) n \<and> 8 \<le> n)" for n by (meson not_le)
  then show ?thesis by (auto intro!: bit_word_eqI simp: bit_or_iff bit_xor_iff bit_push_bit_iff)
qed

lemma mm_tail_fold:
  assumes l: "length d = p + length d mod 4"
  shows "mm_tail d p h = mm_fold h (drop p d)"
proof -
  have "length d mod 4 < 4" by simp
  then consider "length d mod 4 = 0" | "length d mod 4 = 1" | "length d mod 4 = 2" | "length d mod 4 = 3" by linarith
  then show ?thesis
  proof cases
    case 1
    then have "drop p d = []" using l by simp
    then show ?thesis using 1 by (simp add: mm_tail_def Let_def)
  next
    case 2
    then have "drop p d = [d ! p]" using l by (simp add: Cons_nth_drop_Suc [symmetric])
    then show ?thesis using 2 by (simp add: mm_tail_def Let_def)
  next
    case 3
    then have "drop p d = [d ! p, d ! (p + 1)]" using l by (simp add: Cons_nth_drop_Suc [symmetric])
    then show ?thesis using 3 by (simp add: mm_tail_def Let_def le_word_xor push_bit_xor ac_simps del: le_word.simps(2))
  next
    case 4
    then have "drop p d = [d ! p, d ! (p + 1), d ! (p + 2)]" using l by (simp add: Cons_nth_drop_Suc [symmetric])
    then show ?thesis using 4 by (simp add: mm_tail_def Let_def le_word_xor push_bit_xor ac_simps del: le_word.simps(2))
  qed
qed

lemma mm_body_fold:
  assumes "n = int (length d div 4)" "- n \<le> i" "i \<le> 0"
  shows "mm_tail d (length d div 4 * 4) (mm_body d n i h) = mm_fold h (drop (nat (4 * (n + i))) d)"
  using assms
proof (induction d n i h rule: mm_body.induct)
  case (1 d n i h)
  show ?case
  proof (cases "0 \<le> i")
    case True
    then have "nat (4 * (n + i)) = length d div 4 * 4" using "1.prems" by simp
    then show ?thesis using True by (simp add: mm_body.simps [of d n i] mm_tail_fold)
  next
    case False
    define p where "p = nat (4 * (n + i))"
    have p: "p + 4 \<le> length d" "nat (4 * (n + (i + 1))) = p + 4" using "1.prems" False by (auto simp: p_def)
    have b: "mm_body d n i h = mm_body d n (i + 1) (mm_step h (le32_at d p))"
      unfolding mm_body.simps [of d n i h] using False by (simp add: p_def)
    have "mm_tail d (length d div 4 * 4) (mm_body d n i h) = mm_fold (mm_step h (le32_at d p)) (drop (p + 4) d)"
      unfolding b p(2) [symmetric] by (rule "1.IH" [folded p_def]) (use "1.prems" False in auto)
    also have "\<dots> = mm_fold h (drop p d)" by (simp add: drop_4 [OF p(1)] le32_at_word [OF p(1)])
    finally show ?thesis by (simp add: p_def)
  qed
qed

lemma MurmurHash3_eq_fold: "MurmurHash3 s d = mm_final (length d) (mm_fold s d)"
  by (simp add: MurmurHash3_def Let_def mm_body_fold)

section \<open>Nothing is lost on the way\<close>

text \<open>Every step of the hash can be undone: exclusive or, rotation, shifts and odd factors are bijections.\<close>

lemma ROTL32_rotl: "0 < r \<Longrightarrow> r < 32 \<Longrightarrow> ROTL32 x r = word_rotr (32 - r) x"
  using shifts_eq_rotr [of "32 - r" x] by (simp add: ROTL32_def or.commute)

lemma ROTL32_inject: "0 < r \<Longrightarrow> r < 32 \<Longrightarrow> ROTL32 x r = ROTL32 y r \<longleftrightarrow> x = y"
  by (metis ROTL32_rotl word_rot_rl)

lemma odd_times_inject:
  assumes "c * c' = 1"
  shows "a * c = b * c \<longleftrightarrow> a = (b :: u32)"
proof
  assume "a * c = b * c"
  then have "a * c * c' = b * c * c'" by simp
  then show "a = b" by (simp only: mult.assoc assms mult_1_right)
qed simp

lemma xor_again: "a XOR (a XOR b) = (b :: u32)"
  by (subst xor.assoc [symmetric]) simp

lemma xor_inject: "c XOR a = c XOR b \<longleftrightarrow> a = (b :: u32)" "a XOR c = b XOR c \<longleftrightarrow> a = b"
  by (metis xor_again, metis xor_again xor.commute)

lemma shift_xor_undo:
  fixes z :: u32
  assumes "11 \<le> k"
  defines "y \<equiv> z XOR drop_bit k z"
  shows "y XOR drop_bit k y XOR drop_bit (k + k) y = z"
proof -
  have "drop_bit (k + (k + k)) z = 0"
  proof (rule bit_word_eqI)
    fix n
    show "bit (drop_bit (k + (k + k)) z) n = bit (0 :: u32) n"
      using bit_imp_le_length [of z "k + (k + k) + n"] assms(1) by (fastforce simp: bit_drop_bit_eq)
  qed
  then show ?thesis
    by (simp add: y_def drop_bit_xor xor.assoc xor_again add.assoc)
qed

lemma shift_xor_inject:
  assumes "11 \<le> k"
  shows "x XOR drop_bit k x = y XOR drop_bit k y \<longleftrightarrow> x = (y :: u32)"
proof
  assume "x XOR drop_bit k x = y XOR drop_bit k y"
  then show "x = y" using shift_xor_undo [OF assms, of x] shift_xor_undo [OF assms, of y] by simp
qed simp

lemma shift_xor_13: "x XOR drop_bit 13 x = y XOR drop_bit 13 y \<longleftrightarrow> x = (y :: u32)"
  by (rule shift_xor_inject) simp

lemma shift_xor_16: "x XOR drop_bit 16 x = y XOR drop_bit 16 y \<longleftrightarrow> x = (y :: u32)"
  by (rule shift_xor_inject) simp

lemma mm_scramble_inject: "mm_scramble a = mm_scramble b \<longleftrightarrow> a = b"
proof -
  have c: "mm_c1 * 0xdee13bb1 = 1" "mm_c2 * 0x56ed309b = 1" by (simp_all add: mm_c1_def mm_c2_def)
  show ?thesis by (simp add: mm_scramble_def Let_def odd_times_inject [OF c(1)] odd_times_inject [OF c(2)] ROTL32_inject)
qed

lemma mm_step_inject: "mm_step h a = mm_step h b \<longleftrightarrow> a = b" "mm_step g a = mm_step h a \<longleftrightarrow> g = h"
proof -
  have c: "(5 :: u32) * 0xcccccccd = 1" by simp
  show "mm_step h a = mm_step h b \<longleftrightarrow> a = b" "mm_step g a = mm_step h a \<longleftrightarrow> g = h"
    by (simp_all add: mm_step_def Let_def odd_times_inject [OF c] ROTL32_inject xor_inject mm_scramble_inject)
qed

lemma mm_final_inject: "mm_final n a = mm_final n b \<longleftrightarrow> a = b"
proof -
  have c: "(0x85ebca6b :: u32) * 0xa5cb9243 = 1" "(0xc2b2ae35 :: u32) * 0x7ed1b41d = 1" by simp_all
  show ?thesis
    by (simp only: mm_final_def Let_def shift_xor_13 shift_xor_16 odd_times_inject [OF c(1)] odd_times_inject [OF c(2)] xor_inject)
qed

lemma le_word_bit: "bit (le_word bs) n \<Longrightarrow> n < 8 * length bs"
proof (induction bs arbitrary: n)
  case (Cons b bs)
  then show ?case using Cons.IH [of "n - 8"] by (fastforce simp: bit_simps dest: bit_imp_le_length)
qed simp

lemma le_word_head: "(ucast (le_word (b # bs)) :: byte) = b"
  by (auto intro!: bit_word_eqI simp: bit_simps)

lemma le_word_rest: "length bs < 4 \<Longrightarrow> drop_bit 8 (le_word (b # bs)) = le_word bs"
  by (rule bit_word_eqI) (auto simp: bit_simps dest: le_word_bit bit_imp_le_length)

lemma le_word_inject: "length a = length b \<Longrightarrow> length a \<le> 4 \<Longrightarrow> le_word a = le_word b \<longleftrightarrow> a = b"
proof (induction a b rule: list_induct2)
  case (Cons x xs y ys)
  then have l: "length xs < 4" "length ys < 4" by simp_all
  show ?case
  proof
    assume e: "le_word (x # xs) = le_word (y # ys)"
    have "x = y" using e le_word_head by metis
    moreover have "le_word xs = le_word ys" using e le_word_rest l by metis
    ultimately show "x # xs = y # ys" using Cons by simp
  qed simp
qed simp

text \<open>Whole blocks in front can be hashed first.\<close>

lemma mm_fold_append: "length xs mod 4 = 0 \<Longrightarrow> mm_fold h (xs @ ys) = mm_fold (mm_fold h xs) ys"
  by (induction h xs rule: mm_fold.induct) auto

lemma mm_fold_short:
  assumes "length b = length b'" "length b \<le> 4"
  shows "mm_fold h b = mm_fold h b' \<longleftrightarrow> b = b'"
proof -
  have d: "mm_fold h c = (if length c = 4 then mm_step h (le_word c) else if c = [] then h else h XOR mm_scramble (le_word c))"
    if "length c \<le> 4" for c
    using that by (cases "(h, c)" rule: mm_fold.cases) (auto simp del: le_word.simps)
  show ?thesis using assms
    by (auto simp: d mm_step_inject xor_inject mm_scramble_inject le_word_inject simp del: le_word.simps)
qed

lemma mm_fold_seed: "mm_fold g d = mm_fold h d \<longleftrightarrow> g = h"
  by (induction g d arbitrary: h rule: mm_fold.induct) (simp_all add: mm_step_inject xor_inject)

lemma mm_fold_one_block:
  assumes "length xs mod 4 = 0" "length b = length b'" "length b \<le> 4" "length b = 4 \<or> ys = []"
  shows "mm_fold h (xs @ b @ ys) = mm_fold h (xs @ b' @ ys) \<longleftrightarrow> b = b'"
proof (cases "ys = []")
  case True
  then show ?thesis using assms by (simp add: mm_fold_append mm_fold_short)
next
  case False
  then have "length b mod 4 = 0" "length b' mod 4 = 0" using assms by auto
  then show ?thesis using assms by (simp add: mm_fold_append mm_fold_seed mm_fold_short)
qed

section \<open>Child keys\<close>

text \<open>The number of the child is written big endian behind the header byte and the 32 bytes of key data.\<close>

definition bip32_message :: "u32 \<Rightarrow> byte \<Rightarrow> bytes \<Rightarrow> bytes" where
  "bip32_message nChild header data = [header] @ take 32 data @
     [ucast (drop_bit 24 nChild AND 0xFF), ucast (drop_bit 16 nChild AND 0xFF), ucast (drop_bit 8 nChild AND 0xFF),
      ucast (drop_bit 0 nChild AND 0xFF)]"

definition BIP32Hash :: "(bytes \<Rightarrow> bytes \<Rightarrow> bytes) \<Rightarrow> bytes \<Rightarrow> u32 \<Rightarrow> byte \<Rightarrow> bytes \<Rightarrow> bytes" where
  "BIP32Hash CHMAC_SHA512 chainCode nChild header data =
     CHMAC_SHA512 (take 32 chainCode) (bip32_message nChild header data)"

lemma big_endian_inject:
  fixes m n :: u32
  assumes "\<And>k. k \<in> {0, 8, 16, 24} \<Longrightarrow> (ucast (drop_bit k m AND 0xFF) :: byte) = ucast (drop_bit k n AND 0xFF)"
  shows "m = n"
proof (rule bit_word_eqI)
  fix i assume i: "i < LENGTH(32)"
  have b: "bit (ucast (drop_bit k x AND 0xFF) :: byte) j = bit x (k + j)" if "j < 8" for k j and x :: u32
  proof -
    have "bit (0xFF :: u32) j" using that by (auto simp: less_Suc_eq numeral_eq_Suc)
    then show ?thesis using that by (simp add: bit_ucast_iff bit_and_iff bit_drop_bit_eq)
  qed
  define k where "k = i div 8 * 8"
  have k: "k \<in> {0, 8, 16, 24}" "i - k < 8" "k + (i - k) = i" using i by (auto simp: k_def)
  show "bit m i = bit n i" using b [OF k(2), of k m] b [OF k(2), of k n] assms [OF k(1)] k(3) by simp
qed

section \<open>Properties\<close>

text \<open>The loop over the blocks with its negative index, the switch that falls through and the
  final mixing compute the hash defined by taking the bytes four at a time from the front, for data
  of every length.\<close>

theorem MurmurHash3_from_front: "MurmurHash3 s d = mm_final (length d) (mm_fold s d)"
  by (rule MurmurHash3_eq_fold)

text \<open>C32. Inputs of one length that differ in a single block of four bytes, or in the bytes behind the
  last block, never collide under one seed, and two seeds never give one input the same hash: when two
  such hashes are equal, the seeds are equal exactly when the blocks are.\<close>

theorem MurmurHash3_one_block:
  assumes "MurmurHash3 s (xs @ b @ ys) = MurmurHash3 s' (xs @ b' @ ys)"
    and "length xs mod 4 = 0" "length b = length b'" "length b \<le> 4" "length b = 4 \<or> ys = []"
  shows "s = s' \<longleftrightarrow> b = b'"
proof -
  have e: "mm_fold s (xs @ b @ ys) = mm_fold s' (xs @ b' @ ys)"
    using assms(1,3) by (simp add: MurmurHash3_eq_fold mm_final_inject)
  show ?thesis
  proof
    assume "s = s'"
    then show "b = b'" using e mm_fold_one_block [OF assms(2-5)] by simp
  next
    assume "b = b'"
    then show "s = s'" using e mm_fold_seed by simp
  qed
qed

lemma MurmurHash3_one_block_witness:
  "MurmurHash3 0 [1, 2, 3, 4, 5] = MurmurHash3 0 ([1, 2, 3, 4] @ [5] @ []) \<and> ((0 :: u32) = 0 \<longleftrightarrow> [5 :: byte] = [5])"
  using MurmurHash3_one_block [of 0 "[1, 2, 3, 4]" "[5]" "[]" 0 "[5]"] by simp

text \<open>The message of \<open>BIP32Hash\<close> determines the child's number, the header and the key data.\<close>

theorem bip32_message_inject:
  assumes "length data = 32" "length data' = 32"
  shows "bip32_message n header data = bip32_message n' header' data' \<longleftrightarrow> n = n' \<and> header = header' \<and> data = data'"
proof
  assume e: "bip32_message n header data = bip32_message n' header' data'"
  then have "header = header' \<and> data = data'" using assms by (simp add: bip32_message_def)
  moreover have "n = n'" by (rule big_endian_inject) (use e assms in \<open>auto simp: bip32_message_def\<close>)
  ultimately show "n = n' \<and> header = header' \<and> data = data'" by blast
qed simp

lemma bip32_message_inject_witness:
  "bip32_message 1 0 (replicate 32 7) \<noteq> bip32_message 256 0 (replicate 32 7)"
  using bip32_message_inject [of "replicate 32 7" "replicate 32 7" 1 0 256 0] by simp

end
