(* ===== verification/Units.thy ===== *)
theory Units
  imports Prelude
begin

text \<open>
  Amounts as the graphical interface shows and reads them (qt/dystaterunits.cpp): the three units, how
  an amount is printed in one of them and how a typed amount is read. A \<open>QString\<close> is a list of
  characters; its operations that only move characters about (\<open>rightJustified\<close>, \<open>leftJustified\<close>, \<open>chop\<close>,
  \<open>split\<close>) are written out, and the conversions between numbers and digits (\<open>QString::number\<close>,
  \<open>toLongLong\<close>) are parameters, described by \<open>qt_numbers\<close>. The header that numbers the units is not in the
  repository, so a unit is one of three names or some other \<open>int\<close>. A \<open>qint64\<close> is an \<open>int\<close>; the only
  value the code cannot take the absolute value of is the least one.
\<close>

section \<open>Units\<close>

datatype Unit = DYST | mDYST | uDYST | OtherUnit int

definition availableUnits :: "Unit list" where
  "availableUnits = [DYST, mDYST, uDYST]"

fun valid_unit :: "Unit \<Rightarrow> bool" where
  "valid_unit DYST = True" | "valid_unit mDYST = True" | "valid_unit uDYST = True" | "valid_unit (OtherUnit _) = False"

fun factor :: "Unit \<Rightarrow> int" where
  "factor DYST = 100000000" | "factor mDYST = 100000" | "factor uDYST = 100" | "factor (OtherUnit _) = 100000000"

fun amountDigits :: "Unit \<Rightarrow> nat" where
  "amountDigits DYST = 8" | "amountDigits mDYST = 11" | "amountDigits uDYST = 14" | "amountDigits (OtherUnit _) = 0"

fun decimals :: "Unit \<Rightarrow> nat" where
  "decimals DYST = 8" | "decimals mDYST = 5" | "decimals uDYST = 2" | "decimals (OtherUnit _) = 0"

section \<open>Strings\<close>

record qt_env =
  number :: "int \<Rightarrow> string"
  toLongLong :: "string \<Rightarrow> int \<times> bool"

definition rightJustified :: "nat \<Rightarrow> char \<Rightarrow> string \<Rightarrow> string" where
  "rightJustified w c s = replicate (w - length s) c @ s"

definition leftJustified :: "nat \<Rightarrow> char \<Rightarrow> string \<Rightarrow> string" where
  "leftJustified w c s = s @ replicate (w - length s) c"

definition chop :: "nat \<Rightarrow> string \<Rightarrow> string" where
  "chop n s = take (length s - n) s"

fun split_at_char :: "char \<Rightarrow> string \<Rightarrow> string list" where
  "split_at_char c [] = [[]]"
| "split_at_char c (x # s) = (if x = c then [] # split_at_char c s
     else case split_at_char c s of p # ps \<Rightarrow> (x # p) # ps | [] \<Rightarrow> [[x]])"

section \<open>Printing\<close>

text \<open>The loop that counts the zeros to trim runs down from the last character and stops at the second.\<close>

fun trim_from :: "string \<Rightarrow> nat \<Rightarrow> nat" where
  "trim_from s 0 = 0"
| "trim_from s (Suc i) = (if Suc i \<ge> 2 \<and> s ! Suc i = CHR ''0'' then Suc (trim_from s i) else 0)"

definition trim_decimals :: "string \<Rightarrow> string" where
  "trim_decimals s = chop (trim_from s (length s - 1)) s"

definition format :: "qt_env \<Rightarrow> Unit \<Rightarrow> int \<Rightarrow> bool \<Rightarrow> string" where
  "format E unit n fPlus = (if \<not> valid_unit unit then []
     else
       let coin = factor unit;
           num_decimals = decimals unit;
           n_abs = (if n > 0 then n else - n);
           quotient = n_abs div coin;
           remainder = n_abs mod coin;
           quotient_str = number E quotient;
           remainder_str = trim_decimals (rightJustified num_decimals (CHR ''0'') (number E remainder));
           quotient_str = (if n < 0 then CHR ''-'' # quotient_str
             else if fPlus \<and> n > 0 then CHR ''+'' # quotient_str else quotient_str)
       in quotient_str @ ''.'' @ remainder_str)"

section \<open>Reading\<close>

text \<open>The result is what the function returns and what it writes to \<open>*val_out\<close>, if anything.\<close>

definition parse :: "qt_env \<Rightarrow> Unit \<Rightarrow> string \<Rightarrow> bool \<times> int option" where
  "parse E unit value = (if \<not> valid_unit unit \<or> value = [] then (False, None)
     else
       let num_decimals = decimals unit;
           parts = split_at_char (CHR ''.'') value
       in if length parts > 2 then (False, None)
          else
            let whole = parts ! 0;
                decs = (if length parts > 1 then parts ! 1 else [])
            in if length decs > num_decimals then (False, None)
               else
                 let str = whole @ leftJustified num_decimals (CHR ''0'') decs
                 in if length str > 18 then (False, None)
                    else let (retvalue, ok) = toLongLong E str in (ok, Some retvalue))"

section \<open>Digits\<close>

definition is_digit :: "char \<Rightarrow> bool" where
  "is_digit c \<longleftrightarrow> of_char c \<ge> (48 :: nat) \<and> of_char c \<le> (57 :: nat)"

definition dec :: "string \<Rightarrow> nat" where
  "dec s = foldl (\<lambda>a c. 10 * a + (of_char c - 48)) 0 s"

text \<open>
  What Qt documents of the conversions: a number that is not negative is printed in its decimal digits, and up
  to eighteen digits, behind a sign or not, are read as the number they show.
\<close>

definition qt_numbers :: "qt_env \<Rightarrow> bool" where
  "qt_numbers E \<longleftrightarrow> (\<forall>n \<ge> 0. number E n = show_base 10 (nat n)) \<and>
     (\<forall>s. s \<noteq> [] \<longrightarrow> length s \<le> 18 \<longrightarrow> list_all is_digit s \<longrightarrow>
        toLongLong E s = (int (dec s), True) \<and> toLongLong E (CHR ''-'' # s) = (- int (dec s), True) \<and>
        toLongLong E (CHR ''+'' # s) = (int (dec s), True))"

lemma dec_snoc: "dec (s @ [c]) = 10 * dec s + (of_char c - 48)"
  by (simp add: dec_def)

lemma dec_Nil [simp]: "dec [] = 0" by (simp add: dec_def)

lemma dec_append: "dec (s @ t) = dec s * 10 ^ length t + dec t"
  by (induction t rule: rev_induct) (simp_all add: dec_snoc append_assoc [symmetric] algebra_simps del: append_assoc)

lemma dec_zeros [simp]: "dec (replicate k (CHR ''0'')) = 0"
  by (induction k) (simp_all add: dec_def)

lemma dec_digit: "n < 10 \<Longrightarrow> dec [digit_char n] = n"
  using digit_char_of [of n] by (simp add: dec_def)

lemma dec_show: "dec (show_base 10 n) = n"
proof (induction "10 :: nat" n rule: show_base.induct)
  case (1 n)
  then show ?case
    by (cases "n < 10") (simp_all add: show_base.simps [of 10 n] dec_digit dec_append)
qed

lemma digits_show: "list_all is_digit (show_base 10 n)"
proof (induction "10 :: nat" n rule: show_base.induct)
  case (1 n)
  have "k < 10 \<Longrightarrow> is_digit (digit_char k)" for k using digit_char_of [of k] by (simp add: is_digit_def)
  with 1 show ?case by (cases "n < 10") (simp_all add: show_base.simps [of 10 n])
qed

lemma length_show: "n < 10 ^ k \<Longrightarrow> 0 < k \<Longrightarrow> length (show_base 10 n) \<le> k"
proof (induction "10 :: nat" n arbitrary: k rule: show_base.induct)
  case (1 n)
  show ?case
  proof (cases "n < 10")
    case False
    with "1.prems" have "1 < k" by (cases "k = 1") auto
    then obtain j where "k = Suc j" "0 < j" by (metis Suc_lessE One_nat_def)
    then show ?thesis using 1 False by (simp add: show_base.simps [of 10 n] less_mult_imp_div_less mult.commute)
  qed (use "1.prems" in \<open>simp add: show_base.simps [of 10 n]\<close>)
qed

lemma show_not_Nil [simp]: "show_base b n \<noteq> []"
  by (simp add: show_base.simps [of b n])

lemma digits_no_dot: "list_all is_digit s \<Longrightarrow> CHR ''.'' \<notin> set s"
  by (auto simp: list_all_iff is_digit_def)

lemma split_none: "c \<notin> set s \<Longrightarrow> split_at_char c s = [s]"
  by (induction s) auto

lemma split_one: "c \<notin> set s \<Longrightarrow> split_at_char c (s @ c # t) = s # split_at_char c t"
  by (induction s) auto

section \<open>Trimming\<close>

lemma trim_from_zeros:
  "i < length s \<Longrightarrow> trim_from s i \<le> i \<and> (\<forall>j. i - trim_from s i < j \<and> j \<le> i \<longrightarrow> s ! j = CHR ''0'')"
proof (induction i)
  case (Suc i)
  then show ?case by (auto simp: Suc_diff_le le_Suc_eq)
qed simp

lemma trim_decimals_zeros:
  "s \<noteq> [] \<Longrightarrow> s = trim_decimals s @ replicate (length s - length (trim_decimals s)) (CHR ''0'') \<and> trim_decimals s \<noteq> []"
proof -
  assume ne: "s \<noteq> []"
  define t where "t = trim_from s (length s - 1)"
  have t: "t \<le> length s - 1" "\<And>j. length s - 1 - t < j \<Longrightarrow> j \<le> length s - 1 \<Longrightarrow> s ! j = CHR ''0''"
    using trim_from_zeros [of "length s - 1" s] ne by (auto simp: t_def)
  have l: "length (trim_decimals s) = length s - t" by (simp add: trim_decimals_def chop_def t_def)
  have "drop (length s - t) s = replicate t (CHR ''0'')"
    by (rule nth_equalityI) (use t ne in auto)
  then have "s = trim_decimals s @ replicate t (CHR ''0'')"
    by (metis append_take_drop_id chop_def trim_decimals_def t_def)
  moreover have "trim_decimals s \<noteq> []" using l t(1) ne by (metis Suc_diff_1 diff_is_0_eq length_greater_0_conv list.size(3) not_less_eq_eq)
  ultimately show ?thesis using l t(1) ne by (simp add: less_imp_le)
qed

lemma trim_from_stops: "trim_from s i \<le> i - 1"
  by (induction i) auto

lemma trim_decimals_two: "2 \<le> length s \<Longrightarrow> 2 \<le> length (trim_decimals s)"
  using trim_from_stops [of s "length s - 1"] by (simp add: trim_decimals_def chop_def)

section \<open>Printed amounts\<close>

text \<open>The two runs of digits that an amount is made of.\<close>

definition whole_digits :: "Unit \<Rightarrow> int \<Rightarrow> string" where
  "whole_digits u n = show_base 10 (nat (\<bar>n\<bar> div factor u))"

definition decimal_digits :: "Unit \<Rightarrow> int \<Rightarrow> string" where
  "decimal_digits u n = rightJustified (decimals u) (CHR ''0'') (show_base 10 (nat (\<bar>n\<bar> mod factor u)))"

lemma factor_pow: "valid_unit u \<Longrightarrow> factor u = 10 ^ decimals u"
  by (cases u) simp_all

lemma decimals_pos: "valid_unit u \<Longrightarrow> 2 \<le> decimals u"
  by (cases u) simp_all

lemma format_digits:
  assumes "qt_numbers E" "valid_unit u"
  shows "format E u n fPlus = (if n < 0 then ''-'' else if fPlus \<and> n > 0 then ''+'' else []) @ whole_digits u n @
    CHR ''.'' # trim_decimals (decimal_digits u n)"
proof -
  have a: "(if n > 0 then n else - n) = \<bar>n\<bar>" by simp
  have f: "0 < factor u" using assms(2) by (simp add: factor_pow)
  then have "0 \<le> \<bar>n\<bar> div factor u" "0 \<le> \<bar>n\<bar> mod factor u" by (simp_all add: pos_imp_zdiv_nonneg_iff)
  then have n: "number E (\<bar>n\<bar> div factor u) = whole_digits u n"
    "rightJustified (decimals u) (CHR ''0'') (number E (\<bar>n\<bar> mod factor u)) = decimal_digits u n"
    using assms(1) by (simp_all add: qt_numbers_def whole_digits_def decimal_digits_def)
  show ?thesis unfolding format_def Let_def a n using assms(2) by simp
qed

lemma decimal_digits_facts:
  assumes "valid_unit u"
  shows "length (decimal_digits u n) = decimals u" "list_all is_digit (decimal_digits u n)"
    "int (dec (decimal_digits u n)) = \<bar>n\<bar> mod factor u"
proof -
  have f: "0 < factor u" using assms by (simp add: factor_pow)
  have "nat (\<bar>n\<bar> mod factor u) < 10 ^ decimals u"
    using pos_mod_bound [OF f, of "\<bar>n\<bar>"] assms by (simp add: factor_pow nat_less_iff)
  then have "length (show_base 10 (nat (\<bar>n\<bar> mod factor u))) \<le> decimals u"
    using length_show decimals_pos [OF assms] by simp
  then show "length (decimal_digits u n) = decimals u" by (simp add: decimal_digits_def rightJustified_def)
  have "is_digit (CHR ''0'')" by (simp add: is_digit_def)
  then show "list_all is_digit (decimal_digits u n)"
    using digits_show by (auto simp: decimal_digits_def rightJustified_def list_all_iff)
  show "int (dec (decimal_digits u n)) = \<bar>n\<bar> mod factor u"
    using f by (simp add: decimal_digits_def rightJustified_def dec_append dec_show)
qed

lemma zdiv_below: "0 < (b :: int) \<Longrightarrow> a < c * b \<Longrightarrow> a div b < c"
  by (rule ccontr)
    (use mult_right_mono [of c "a div b" b] div_mult_mod_eq [of a b] pos_mod_sign [of b a] in linarith)

lemma whole_digits_facts:
  assumes "valid_unit u" "\<bar>n\<bar> < 10 ^ (k + decimals u)" "0 < k"
  shows "length (whole_digits u n) \<le> k" "list_all is_digit (whole_digits u n)" "int (dec (whole_digits u n)) = \<bar>n\<bar> div factor u"
    "whole_digits u n \<noteq> []"
proof -
  have f: "0 < factor u" using assms by (simp add: factor_pow)
  have "\<bar>n\<bar> div factor u < 10 ^ k"
    by (rule zdiv_below [OF f]) (use assms(2) in \<open>simp add: factor_pow [OF assms(1)] power_add\<close>)
  then show "length (whole_digits u n) \<le> k" unfolding whole_digits_def
    by (intro length_show) (use assms(3) in \<open>simp_all add: nat_less_iff\<close>)
  show "list_all is_digit (whole_digits u n)" "whole_digits u n \<noteq> []" by (simp_all add: whole_digits_def digits_show)
  show "int (dec (whole_digits u n)) = \<bar>n\<bar> div factor u"
    using f by (simp add: whole_digits_def dec_show pos_imp_zdiv_nonneg_iff)
qed

text \<open>Reading a sign, digits, a dot and at most as many digits as the unit has.\<close>

lemma parse_parts:
  assumes "valid_unit u" "CHR ''.'' \<notin> set w" "CHR ''.'' \<notin> set d"
  shows "parse E u (w @ CHR ''.'' # d) =
    (if decimals u < length d \<or> 18 < length w + decimals u then (False, None)
     else let (x, ok) = toLongLong E (w @ leftJustified (decimals u) (CHR ''0'') d) in (ok, Some x))"
proof -
  have "split_at_char (CHR ''.'') (w @ CHR ''.'' # d) = [w, d]"
    using assms by (simp add: split_one split_none)
  then show ?thesis using assms(1) by (auto simp: parse_def Let_def leftJustified_def)
qed

text \<open>Reading back what was printed, one number of characters for all the signs.\<close>

lemma sign_no_dot: "CHR ''.'' \<notin> set (if n < 0 then ''-'' else if b then ''+'' else [])"
  by simp

lemma format_parse:
  assumes q: "qt_numbers E" and u: "valid_unit u" and k: "\<bar>n\<bar> < 10 ^ (k + decimals u)" "0 < k"
    and l: "k + decimals u + (if n < 0 \<or> fPlus \<and> n > 0 then 1 else 0) \<le> 18"
  shows "parse E u (format E u n fPlus) = (True, Some n)"
proof -
  define W where "W = whole_digits u n"
  define D where "D = decimal_digits u n"
  define sg where "sg = (if n < 0 then ''-'' else if fPlus \<and> n > 0 then ''+'' else [])"
  note w = whole_digits_facts [OF u k, folded W_def] and d = decimal_digits_facts [OF u, of n, folded D_def]
  have ne: "D \<noteq> []" using d(1) decimals_pos [OF u] by auto
  note t = trim_decimals_zeros [OF ne]
  have pad: "leftJustified (decimals u) (CHR ''0'') (trim_decimals D) = D"
    using t d(1) unfolding leftJustified_def by simp
  have tl: "length (trim_decimals D) \<le> decimals u"
    using d(1) by (simp add: trim_decimals_def chop_def)
  have "list_all is_digit (trim_decimals D)" using d(2) t by (metis list_all_append)
  then have dot: "CHR ''.'' \<notin> set (trim_decimals D)" "CHR ''.'' \<notin> set (sg @ W)"
    using digits_no_dot w(2) by (auto simp: sg_def)
  have len: "length (sg @ W) + decimals u \<le> 18"
    using w(1) l by (auto simp: sg_def split: if_splits)
  have val: "int (dec (W @ D)) = \<bar>n\<bar>"
    using w(3) d(1,3) u by (simp add: dec_append factor_pow div_mult_mod_eq)
  have "length (W @ D) \<le> 18" "list_all is_digit (W @ D)" "W @ D \<noteq> []" using len d w by auto
  then have tL: "toLongLong E (W @ D) = (\<bar>n\<bar>, True)" "toLongLong E (CHR ''-'' # W @ D) = (- \<bar>n\<bar>, True)"
    "toLongLong E (CHR ''+'' # W @ D) = (\<bar>n\<bar>, True)"
    using q val unfolding qt_numbers_def by metis+
  have "format E u n fPlus = (sg @ W) @ CHR ''.'' # trim_decimals D"
    using format_digits [OF q u] by (simp add: sg_def W_def D_def)
  moreover have "toLongLong E ((sg @ W) @ D) = (n, True)"
    using tL by (auto simp: sg_def)
  ultimately show ?thesis using parse_parts [OF u dot(2,1)] len tl pad by auto
qed

section \<open>Properties\<close>

text \<open>C35. An amount printed in one of the units, with or without the plus sign, is read back as it was: every
  amount below \<open>10 ^ 17\<close> in size, which is more than the money there is, and in every unit.\<close>

theorem amount_roundtrip:
  assumes "qt_numbers E" "valid_unit u" "\<bar>n\<bar> < 10 ^ 17"
  shows "parse E u (format E u n fPlus) = (True, Some n)"
proof -
  have "decimals u \<le> 8" using assms(2) by (cases u) auto
  then show ?thesis using format_parse [of E u n "17 - decimals u" fPlus] assms by auto
qed

definition qt_demo :: qt_env where
  "qt_demo = \<lparr>number = (\<lambda>n. show_base 10 (nat n)),
     toLongLong = (\<lambda>s. case s of [] \<Rightarrow> (0, False)
       | c # r \<Rightarrow> if c = CHR ''-'' then (- int (dec r), True) else if c = CHR ''+'' then (int (dec r), True)
           else (int (dec s), list_all is_digit s))\<rparr>"

lemma qt_demo_numbers: "qt_numbers qt_demo"
  unfolding qt_numbers_def by (auto simp: qt_demo_def is_digit_def split: list.split)

lemma amount_roundtrip_witness:
  "parse qt_demo mDYST (format qt_demo mDYST (- 123456700) True) = (True, Some (- 123456700))"
  by (rule amount_roundtrip) (simp_all add: qt_demo_numbers)

text \<open>Digits, a dot and digits are refused exactly when there are more decimals than the unit has or more
  than eighteen digits in all; otherwise they are read as the exact number of the smallest units, whatever
  zeros are left out behind the last decimal.\<close>

theorem parse_exact:
  assumes "qt_numbers E" "valid_unit u" "list_all is_digit w" "list_all is_digit d"
  shows "parse E u (w @ CHR ''.'' # d) =
    (if decimals u < length d \<or> 18 < length w + decimals u then (False, None)
     else (True, Some (int (dec w) * factor u + int (dec d) * 10 ^ (decimals u - length d))))"
proof (cases "decimals u < length d \<or> 18 < length w + decimals u")
  case True
  then show ?thesis using assms parse_parts [OF assms(2)] digits_no_dot by simp
next
  case False
  define s where "s = w @ leftJustified (decimals u) (CHR ''0'') d"
  have "length s \<le> 18" "s \<noteq> []" using False decimals_pos [OF assms(2)] by (auto simp: s_def leftJustified_def)
  moreover have "list_all is_digit s" using assms(3,4) by (auto simp: s_def leftJustified_def list_all_iff is_digit_def)
  ultimately have "toLongLong E s = (int (dec s), True)" using assms(1) by (simp add: qt_numbers_def)
  moreover have "int (dec s) = int (dec w) * factor u + int (dec d) * 10 ^ (decimals u - length d)"
    using False assms(2) by (simp add: s_def leftJustified_def dec_append factor_pow)
  ultimately show ?thesis using False parse_parts [OF assms(2)] digits_no_dot [OF assms(3)] digits_no_dot [OF assms(4)]
    by (simp add: s_def)
qed

lemma parse_exact_witness: "parse qt_demo DYST ''1.05'' = (True, Some 105000000)"
  using parse_exact [of qt_demo DYST "''1''" "''05''"] qt_demo_numbers by (simp add: is_digit_def dec_def)

end
