(* ===== verification/NetAddr.thy ===== *)
theory NetAddr
  imports Prelude "HOL-Library.List_Lexorder" "HOL-Library.Char_ord"
begin

text \<open>
  Network addresses (\<open>netbase.h\<close>, \<open>netbase.cpp\<close>) and the peer address of \<open>protocol.h\<close>: the
  classification of the 16-byte address, its group, its reachability, services with a port and
  their order and key, host/port splitting, name lookup, and the proxy settings.

  The C++ inheritance \<open>CNetAddr \<leftarrow> CService \<leftarrow> CAddress\<close> is record extension, so an
  operation of a base class applies to every derived record.
\<close>

section \<open>Data\<close>

datatype Network = NET_UNROUTABLE | NET_IPV4 | NET_IPV6 | NET_TOR

definition NET_MAX :: nat where "NET_MAX = 4"

fun net_code :: "Network \<Rightarrow> nat" where
  "net_code NET_UNROUTABLE = 0"
| "net_code NET_IPV4 = 1"
| "net_code NET_IPV6 = 2"
| "net_code NET_TOR = 3"

record CNetAddr =
  ip :: bytes

record CService = CNetAddr +
  port :: u16

record CAddress = CService +
  nServices :: u64
  nTime :: u32
  nLastTry :: int

text \<open>Slicing an object to its base class.\<close>

definition netaddr :: "'a CNetAddr_scheme \<Rightarrow> CNetAddr" where
  "netaddr a = \<lparr>ip = ip a\<rparr>"

definition service :: "'a CService_scheme \<Rightarrow> CService" where
  "service a = \<lparr>ip = ip a, port = port a\<rparr>"

definition CNetAddr_Init :: CNetAddr where
  "CNetAddr_Init = \<lparr>ip = replicate 16 0\<rparr>"

definition mk_service :: "CNetAddr \<Rightarrow> u16 \<Rightarrow> CService" where
  "mk_service cip portIn = \<lparr>ip = ip cip, port = portIn\<rparr>"

definition CService_Init :: CService where
  "CService_Init = \<lparr>ip = replicate 16 0, port = 0\<rparr>"

definition NODE_NETWORK :: u64 where "NODE_NETWORK = 1"

definition mk_address :: "CService \<Rightarrow> u64 \<Rightarrow> CAddress" where
  "mk_address ipIn nServicesIn =
     \<lparr>ip = ip ipIn, port = port ipIn, nServices = nServicesIn, nTime = 100000000, nLastTry = 0\<rparr>"

section \<open>Classification\<close>

definition memcmp_eq :: "bytes \<Rightarrow> bytes \<Rightarrow> bool" where
  "memcmp_eq xs pat = (take (length pat) xs = pat)"

definition GetByte :: "'a CNetAddr_scheme \<Rightarrow> nat \<Rightarrow> byte" where
  "GetByte a n = ip a ! (15 - n)"

definition pchIPv4 :: bytes where
  "pchIPv4 = [0, 0, 0, 0, 0, 0, 0, 0, 0, 0, 0xff, 0xff]"

definition pchOnionCat :: bytes where
  "pchOnionCat = [0xFD, 0x87, 0xD8, 0x7E, 0xEB, 0x43]"

definition IsIPv4 :: "'a CNetAddr_scheme \<Rightarrow> bool" where
  "IsIPv4 a = memcmp_eq (ip a) pchIPv4"

definition IsTor :: "'a CNetAddr_scheme \<Rightarrow> bool" where
  "IsTor a = memcmp_eq (ip a) pchOnionCat"

definition IsIPv6 :: "'a CNetAddr_scheme \<Rightarrow> bool" where
  "IsIPv6 a = (\<not> IsIPv4 a \<and> \<not> IsTor a)"

definition IsRFC1918 :: "'a CNetAddr_scheme \<Rightarrow> bool" where
  "IsRFC1918 a = (IsIPv4 a \<and>
     (GetByte a 3 = 10 \<or>
      (GetByte a 3 = 192 \<and> GetByte a 2 = 168) \<or>
      (GetByte a 3 = 172 \<and> (GetByte a 2 \<ge> 16 \<and> GetByte a 2 \<le> 31))))"

definition IsRFC3927 :: "'a CNetAddr_scheme \<Rightarrow> bool" where
  "IsRFC3927 a = (IsIPv4 a \<and> (GetByte a 3 = 169 \<and> GetByte a 2 = 254))"

definition IsRFC3849 :: "'a CNetAddr_scheme \<Rightarrow> bool" where
  "IsRFC3849 a = (GetByte a 15 = 0x20 \<and> GetByte a 14 = 0x01 \<and> GetByte a 13 = 0x0D \<and> GetByte a 12 = 0xB8)"

definition IsRFC3964 :: "'a CNetAddr_scheme \<Rightarrow> bool" where
  "IsRFC3964 a = (GetByte a 15 = 0x20 \<and> GetByte a 14 = 0x02)"

definition IsRFC6052 :: "'a CNetAddr_scheme \<Rightarrow> bool" where
  "IsRFC6052 a = memcmp_eq (ip a) [0, 0x64, 0xFF, 0x9B, 0, 0, 0, 0, 0, 0, 0, 0]"

definition IsRFC4380 :: "'a CNetAddr_scheme \<Rightarrow> bool" where
  "IsRFC4380 a = (GetByte a 15 = 0x20 \<and> GetByte a 14 = 0x01 \<and> GetByte a 13 = 0 \<and> GetByte a 12 = 0)"

definition IsRFC4862 :: "'a CNetAddr_scheme \<Rightarrow> bool" where
  "IsRFC4862 a = memcmp_eq (ip a) [0xFE, 0x80, 0, 0, 0, 0, 0, 0]"

definition IsRFC4193 :: "'a CNetAddr_scheme \<Rightarrow> bool" where
  "IsRFC4193 a = ((GetByte a 15 AND 0xFE) = 0xFC)"

definition IsRFC6145 :: "'a CNetAddr_scheme \<Rightarrow> bool" where
  "IsRFC6145 a = memcmp_eq (ip a) [0, 0, 0, 0, 0, 0, 0, 0, 0xFF, 0xFF, 0, 0]"

definition IsRFC4843 :: "'a CNetAddr_scheme \<Rightarrow> bool" where
  "IsRFC4843 a = (GetByte a 15 = 0x20 \<and> GetByte a 14 = 0x01 \<and> GetByte a 13 = 0x00
     \<and> (GetByte a 12 AND 0xF0) = 0x10)"

definition IsLocal :: "'a CNetAddr_scheme \<Rightarrow> bool" where
  "IsLocal a = ((IsIPv4 a \<and> (GetByte a 3 = 127 \<or> GetByte a 3 = 0))
     \<or> memcmp_eq (ip a) [0, 0, 0, 0, 0, 0, 0, 0, 0, 0, 0, 0, 0, 0, 0, 1])"

definition IsMulticast :: "'a CNetAddr_scheme \<Rightarrow> bool" where
  "IsMulticast a = ((IsIPv4 a \<and> (GetByte a 3 AND 0xF0) = 0xE0) \<or> GetByte a 15 = 0xFF)"

definition IsValid :: "'a CNetAddr_scheme \<Rightarrow> bool" where
  "IsValid a =
    (if memcmp_eq (ip a) (drop 3 pchIPv4) then False
     else if memcmp_eq (ip a) (replicate 16 0) then False
     else if IsRFC3849 a then False
     else if IsIPv4 a then
       (if subbytes 12 4 (ip a) = replicate 4 0xff then False
        else if subbytes 12 4 (ip a) = replicate 4 0 then False
        else True)
     else True)"

definition IsRoutable :: "'a CNetAddr_scheme \<Rightarrow> bool" where
  "IsRoutable a = (IsValid a \<and>
     \<not> (IsRFC1918 a \<or> IsRFC3927 a \<or> IsRFC4862 a \<or> (IsRFC4193 a \<and> \<not> IsTor a) \<or> IsRFC4843 a \<or> IsLocal a))"

definition GetNetwork :: "'a CNetAddr_scheme \<Rightarrow> Network" where
  "GetNetwork a =
    (if \<not> IsRoutable a then NET_UNROUTABLE
     else if IsIPv4 a then NET_IPV4
     else if IsTor a then NET_TOR
     else NET_IPV6)"

section \<open>Groups\<close>

text \<open>The loop \<open>while (nBits >= 8)\<close> and the partial byte after it.\<close>

function group_loop :: "'a CNetAddr_scheme \<Rightarrow> nat \<Rightarrow> nat \<Rightarrow> bytes" where
  "group_loop a nStartByte nBits =
    (if nBits \<ge> 8 then GetByte a (15 - nStartByte) # group_loop a (nStartByte + 1) (nBits - 8)
     else if nBits > 0 then [GetByte a (15 - nStartByte) OR (push_bit nBits 1 - 1)]
     else [])"
  by auto
termination by (relation "measure (\<lambda>(a, s, n). n)") auto

declare group_loop.simps [simp del]

definition GetGroup :: "'a CNetAddr_scheme \<Rightarrow> bytes" where
  "GetGroup a =
    (let (nClass, nBits) = (if IsLocal a then (255, 0) else (net_code NET_IPV6, 16)) in
     if \<not> IsRoutable a then
       of_nat (net_code NET_UNROUTABLE) # group_loop a 0 0
     else if IsIPv4 a \<or> IsRFC6145 a \<or> IsRFC6052 a then
       of_nat (net_code NET_IPV4) # group_loop a 12 nBits
     else if IsRFC3964 a then
       of_nat (net_code NET_IPV4) # group_loop a 2 nBits
     else if IsRFC4380 a then
       [of_nat (net_code NET_IPV4), GetByte a 3 XOR 0xFF, GetByte a 2 XOR 0xFF]
     else if IsTor a then
       of_nat (net_code NET_TOR) # group_loop a 6 4
     else if GetByte a 15 = 0x20 \<and> GetByte a 14 = 0x01 \<and> GetByte a 13 = 0x04 \<and> GetByte a 12 = 0x70 then
       of_nat nClass # group_loop a 0 36
     else
       of_nat nClass # group_loop a 0 32)"

section \<open>Reachability\<close>

datatype Reachability =
    REACH_UNREACHABLE | REACH_DEFAULT | REACH_TEREDO | REACH_IPV6_WEAK
  | REACH_IPV4 | REACH_IPV6_STRONG | REACH_PRIVATE

datatype ExtNetwork = Net Network | NET_UNKNOWN | NET_TEREDO

definition GetExtNetwork :: "'a CNetAddr_scheme option \<Rightarrow> ExtNetwork" where
  "GetExtNetwork addr = (case addr of
     None \<Rightarrow> NET_UNKNOWN
   | Some a \<Rightarrow> if IsRFC4380 a then NET_TEREDO else Net (GetNetwork a))"

definition reach_to_ipv4 :: "ExtNetwork \<Rightarrow> Reachability" where
  "reach_to_ipv4 ourNet = (case ourNet of
     Net NET_IPV4 \<Rightarrow> REACH_IPV4 | _ \<Rightarrow> REACH_DEFAULT)"

definition reach_to_ipv6 :: "bool \<Rightarrow> ExtNetwork \<Rightarrow> Reachability" where
  "reach_to_ipv6 fTunnel ourNet = (case ourNet of
     NET_TEREDO \<Rightarrow> REACH_TEREDO
   | Net NET_IPV4 \<Rightarrow> REACH_IPV4
   | Net NET_IPV6 \<Rightarrow> if fTunnel then REACH_IPV6_WEAK else REACH_IPV6_STRONG
   | _ \<Rightarrow> REACH_DEFAULT)"

definition reach_to_tor :: "ExtNetwork \<Rightarrow> Reachability" where
  "reach_to_tor ourNet = (case ourNet of
     Net NET_IPV4 \<Rightarrow> REACH_IPV4 | Net NET_TOR \<Rightarrow> REACH_PRIVATE | _ \<Rightarrow> REACH_DEFAULT)"

definition reach_to_teredo :: "ExtNetwork \<Rightarrow> Reachability" where
  "reach_to_teredo ourNet = (case ourNet of
     NET_TEREDO \<Rightarrow> REACH_TEREDO
   | Net NET_IPV6 \<Rightarrow> REACH_IPV6_WEAK
   | Net NET_IPV4 \<Rightarrow> REACH_IPV4
   | _ \<Rightarrow> REACH_DEFAULT)"

definition reach_to_other :: "ExtNetwork \<Rightarrow> Reachability" where
  "reach_to_other ourNet = (case ourNet of
     NET_TEREDO \<Rightarrow> REACH_TEREDO
   | Net NET_IPV6 \<Rightarrow> REACH_IPV6_WEAK
   | Net NET_IPV4 \<Rightarrow> REACH_IPV4
   | Net NET_TOR \<Rightarrow> REACH_PRIVATE
   | _ \<Rightarrow> REACH_DEFAULT)"

definition GetReachabilityFrom :: "'a CNetAddr_scheme \<Rightarrow> 'b CNetAddr_scheme option \<Rightarrow> Reachability" where
  "GetReachabilityFrom this paddrPartner =
    (if \<not> IsRoutable this then REACH_UNREACHABLE
     else
       let ourNet = GetExtNetwork (Some this);
           theirNet = GetExtNetwork paddrPartner;
           fTunnel = (IsRFC3964 this \<or> IsRFC6052 this \<or> IsRFC6145 this)
       in case theirNet of
            Net NET_IPV4 \<Rightarrow> reach_to_ipv4 ourNet
          | Net NET_IPV6 \<Rightarrow> reach_to_ipv6 fTunnel ourNet
          | Net NET_TOR \<Rightarrow> reach_to_tor ourNet
          | NET_TEREDO \<Rightarrow> reach_to_teredo ourNet
          | _ \<Rightarrow> reach_to_other ourNet)"

section \<open>Services: equality, order, key\<close>

definition netaddr_eq :: "'a CNetAddr_scheme \<Rightarrow> 'b CNetAddr_scheme \<Rightarrow> bool" where
  "netaddr_eq a b = (ip a = ip b)"

definition netaddr_lt :: "'a CNetAddr_scheme \<Rightarrow> 'b CNetAddr_scheme \<Rightarrow> bool" where
  "netaddr_lt a b = (ip a < ip b)"

definition service_eq :: "'a CService_scheme \<Rightarrow> 'b CService_scheme \<Rightarrow> bool" where
  "service_eq a b = (netaddr_eq a b \<and> port a = port b)"

definition service_lt :: "'a CService_scheme \<Rightarrow> 'b CService_scheme \<Rightarrow> bool" where
  "service_lt a b = (netaddr_lt a b \<or> (netaddr_eq a b \<and> port a < port b))"

definition GetKey :: "'a CService_scheme \<Rightarrow> bytes" where
  "GetKey a = take 16 (ip a) @ [ucast (port a div 0x100), ucast (port a AND 0x0FF)]"

definition GetInAddr :: "'a CNetAddr_scheme \<Rightarrow> bytes option" where
  "GetInAddr a = (if \<not> IsIPv4 a then None else Some (subbytes 12 4 (ip a)))"

definition SetRaw :: "Network \<Rightarrow> bytes \<Rightarrow> CNetAddr result" where
  "SetRaw network ip_in = (case network of
     NET_IPV4 \<Rightarrow> Inr \<lparr>ip = pchIPv4 @ take 4 ip_in\<rparr>
   | NET_IPV6 \<Rightarrow> Inr \<lparr>ip = take 16 ip_in\<rparr>
   | _ \<Rightarrow> Inl AssertFailed)"


section \<open>The address as a number\<close>

definition be_nat :: "bytes \<Rightarrow> nat" where
  "be_nat bs = foldl (\<lambda>v b. v * 256 + unat b) 0 bs"

definition addr_nat :: "'a CNetAddr_scheme \<Rightarrow> nat" where
  "addr_nat a = be_nat (ip a)"

lemma be_nat_simps [simp]: "be_nat [] = 0" "be_nat (bs @ [b]) = be_nat bs * 256 + unat b"
  by (simp_all add: be_nat_def)

lemma be_nat_append: "be_nat (xs @ ys) = be_nat xs * 256 ^ length ys + be_nat ys"
proof (induction ys rule: rev_induct)
  case (snoc y ys)
  have "be_nat (xs @ ys @ [y]) = be_nat ((xs @ ys) @ [y])" by simp
  then show ?case unfolding be_nat_simps using snoc by (simp add: algebra_simps)
qed simp

lemma be_nat_Cons: "be_nat (b # bs) = unat b * 256 ^ length bs + be_nat bs"
  using be_nat_append [of "[b]" bs] by (simp add: be_nat_def)

lemma be_nat_less: "be_nat bs < 256 ^ length bs"
proof (induction bs)
  case (Cons b bs)
  have "unat b + 1 \<le> 256" using byte_less [of b] by simp
  then have "(unat b + 1) * 256 ^ length bs \<le> 256 * 256 ^ length bs" by (rule mult_le_mono1)
  then have "unat b * 256 ^ length bs + 256 ^ length bs \<le> 256 ^ length (b # bs)"
    by (simp only: distrib_right mult_1 power_Suc list.size add_Suc_right add_0_right)
  with Cons show ?case unfolding be_nat_Cons by linarith
qed simp

lemma addr_nat_div:
  assumes "length (ip a) = 16" "k \<le> 16"
  shows "addr_nat a div 256 ^ (16 - k) = be_nat (take k (ip a))"
    and "addr_nat a mod 256 ^ (16 - k) = be_nat (drop k (ip a))"
proof -
  have "addr_nat a = be_nat (take k (ip a)) * 256 ^ (16 - k) + be_nat (drop k (ip a))"
    using be_nat_append [of "take k (ip a)" "drop k (ip a)"] assms by (simp add: addr_nat_def)
  moreover have "be_nat (drop k (ip a)) < 256 ^ (16 - k)"
    using be_nat_less [of "drop k (ip a)"] assms by simp
  ultimately show "addr_nat a div 256 ^ (16 - k) = be_nat (take k (ip a))"
    "addr_nat a mod 256 ^ (16 - k) = be_nat (drop k (ip a))" by simp_all
qed

lemma ip_16:
  assumes "length (ip a) = 16"
  shows "ip a = [ip a!0, ip a!1, ip a!2, ip a!3, ip a!4, ip a!5, ip a!6, ip a!7,
                 ip a!8, ip a!9, ip a!10, ip a!11, ip a!12, ip a!13, ip a!14, ip a!15]"
  using assms by (auto simp: numeral_eq_Suc length_Suc_conv)



section \<open>Groups as prefixes of the address\<close>

text \<open>
  The group of an address, stated on the 128-bit number it is: the class and the bits that the
  group keeps (the /16 of the real or embedded IPv4 address, 4 bits of an onion address, a /36 of
  he.net, a /32 elsewhere).
\<close>

definition group_spec :: "'a CNetAddr_scheme \<Rightarrow> Network \<times> nat" where
  "group_spec a =
    (let v = addr_nat a in
     if \<not> IsRoutable a then (NET_UNROUTABLE, 0)
     else if IsIPv4 a \<or> IsRFC6145 a \<or> IsRFC6052 a then (NET_IPV4, v mod 2 ^ 32 div 2 ^ 16)
     else if IsRFC3964 a then (NET_IPV4, v div 2 ^ 96 mod 2 ^ 16)
     else if IsRFC4380 a then (NET_IPV4, (2 ^ 32 - 1 - v mod 2 ^ 32) div 2 ^ 16)
     else if IsTor a then (NET_TOR, v div 2 ^ 76 mod 2 ^ 4)
     else if v div 2 ^ 96 = 0x20010470 then (NET_IPV6, v div 2 ^ 92)
     else (NET_IPV6, v div 2 ^ 96))"

fun group_dec :: "bytes \<Rightarrow> Network \<times> nat" where
  "group_dec [c, x, y] = (NET_IPV4, unat x * 256 + unat y)"
| "group_dec [c, b] = (NET_TOR, unat b div 16)"
| "group_dec [c, w, x, y, z] = (NET_IPV6, be_nat [w, x, y, z])"
| "group_dec [c, w, x, y, z, b] = (NET_IPV6, be_nat [w, x, y, z] * 16 + unat b div 16)"
| "group_dec _ = (NET_UNROUTABLE, 0)"


lemma be_nat_inject: "length xs = length ys \<Longrightarrow> be_nat xs = be_nat ys \<longleftrightarrow> xs = ys"
proof (induction xs ys rule: list_induct2)
  case (Cons x xs y ys)
  let ?K = "256 ^ length ys :: nat"
  show ?case
  proof
    assume "be_nat (x # xs) = be_nat (y # ys)"
    then have e: "unat x * ?K + be_nat xs = unat y * ?K + be_nat ys" using Cons.hyps by (simp add: be_nat_Cons)
    have l: "be_nat xs < ?K" "be_nat ys < ?K" using be_nat_less [of xs] be_nat_less [of ys] Cons.hyps by simp_all
    have "unat x = (unat x * ?K + be_nat xs) div ?K" using l by simp
    also have "\<dots> = unat y" unfolding e using l by simp
    finally have "unat x = unat y" .
    with e Cons.IH show "x # xs = y # ys" by (simp add: word_unat_eq_iff)
  qed simp
qed simp

lemma byte_15: "(15 :: byte) = mask 4" by (simp add: mask_eq_exp_minus_1)

lemma or_15: "b OR 15 = of_nat (unat b div 16 * 16 + 15)" for b :: byte
proof -
  have "push_bit 4 (drop_bit 4 b) OR 15 = push_bit 4 (drop_bit 4 b) + 15"
    by (rule disjunctive_add [symmetric]) (auto simp: byte_15 bit_simps)
  moreover have "push_bit 4 (drop_bit 4 b) OR 15 = b OR 15"
    by (rule bit_word_eqI) (auto simp: byte_15 bit_simps)
  moreover have "push_bit 4 (drop_bit 4 b) = of_nat (unat b div 16 * 16)"
    by (simp add: push_bit_eq_mult unat_drop_bit_eq drop_bit_eq_div flip: of_nat_mult)
      (simp add: word_unat_eq_iff unat_word_ariths unat_div unat_of_nat)
  ultimately show ?thesis by simp
qed

lemma or_15_nat: "unat (b OR 15) div 16 = unat b div 16" for b :: byte
proof -
  have "unat b div 16 \<le> 15" using byte_less [of b] by simp
  then have "unat b div 16 * 16 + 15 < 256" by simp
  then have "unat (b OR 15) = unat b div 16 * 16 + 15"
    by (simp only: or_15 unat_of_nat) simp
  then show ?thesis by simp
qed

lemma xor_ff_nat: "unat (b XOR 0xFF) = 255 - unat b" for b :: byte
proof -
  have "b XOR 0xFF = NOT b"
    by (rule bit_word_eqI) (auto simp: bit_simps mask_eq_exp_minus_1 [of 8, where 'a="8 word", simplified, symmetric])
  moreover have "unat (- 1 - b) = 255 - unat b"
    using unat_sub [of b "- 1"] by (simp only: unsigned_minus_1_eq_mask) (simp add: mask_eq_exp_minus_1)
  moreover have "NOT b = - 1 - b" by (simp add: not_eq_complement)
  ultimately show ?thesis by (simp only:)
qed

lemma memcmp_eq_nth: "memcmp_eq xs pat \<Longrightarrow> i < length pat \<Longrightarrow> xs ! i = pat ! i"
  unfolding memcmp_eq_def by (metis nth_take)

lemma IsTor_nth:
  assumes "IsTor a" shows "ip a ! 0 = 0xFD" "ip a ! 1 = 0x87"
  using memcmp_eq_nth [OF assms [unfolded IsTor_def], of 0] memcmp_eq_nth [OF assms [unfolded IsTor_def], of 1]
  by (simp_all add: pchOnionCat_def)

lemma local_unroutable: "IsLocal a \<Longrightarrow> \<not> IsRoutable a"
  by (simp add: IsRoutable_def)

lemma group_loop_16 [simp]: "group_loop a s 16 = [GetByte a (15 - s), GetByte a (15 - (s + 1))]"
  by (simp add: group_loop.simps)

lemma group_loop_0 [simp]: "group_loop a s 0 = []" by (simp add: group_loop.simps)
lemma group_loop_4 [simp]: "group_loop a s 4 = [GetByte a (15 - s) OR 15]" by (simp add: group_loop.simps push_bit_eq_mult)
lemma group_loop_32 [simp]: "group_loop a 0 32 = [GetByte a 15, GetByte a 14, GetByte a 13, GetByte a 12]"
  by (simp add: group_loop.simps)
lemma group_loop_36 [simp]: "group_loop a 0 36 = [GetByte a 15, GetByte a 14, GetByte a 13, GetByte a 12, GetByte a 11 OR 15]"
  by (simp add: group_loop.simps push_bit_eq_mult)

lemma GetGroup_cases:
  "GetGroup a =
    (if \<not> IsRoutable a then [0]
     else if IsIPv4 a \<or> IsRFC6145 a \<or> IsRFC6052 a then [1, ip a ! 12, ip a ! 13]
     else if IsRFC3964 a then [1, ip a ! 2, ip a ! 3]
     else if IsRFC4380 a then [1, ip a ! 12 XOR 0xFF, ip a ! 13 XOR 0xFF]
     else if IsTor a then [3, ip a ! 6 OR 15]
     else if ip a ! 0 = 0x20 \<and> ip a ! 1 = 0x01 \<and> ip a ! 2 = 0x04 \<and> ip a ! 3 = 0x70 then [2, ip a ! 0, ip a ! 1, ip a ! 2, ip a ! 3, ip a ! 4 OR 15]
     else [2, ip a ! 0, ip a ! 1, ip a ! 2, ip a ! 3])"
  by (auto simp: GetGroup_def Let_def local_unroutable GetByte_def)


lemma be_nat_2: "be_nat [x, y] = unat x * 256 + unat y"
  by (simp add: be_nat_def)

lemma addr_parts:
  assumes n: "length (ip a) = 16"
  shows "addr_nat a mod 2 ^ 32 div 2 ^ 16 = be_nat [ip a ! 12, ip a ! 13]"
    and "addr_nat a div 2 ^ 96 mod 2 ^ 16 = be_nat [ip a ! 2, ip a ! 3]"
    and "addr_nat a div 2 ^ 76 mod 2 ^ 4 = unat (ip a ! 6) div 16"
    and "addr_nat a div 2 ^ 96 = be_nat [ip a ! 0, ip a ! 1, ip a ! 2, ip a ! 3]"
    and "addr_nat a div 2 ^ 92 = be_nat [ip a ! 0, ip a ! 1, ip a ! 2, ip a ! 3] * 16 + unat (ip a ! 4) div 16"
    and "(2 ^ 32 - 1 - addr_nat a mod 2 ^ 32) div 2 ^ 16 = be_nat [ip a ! 12 XOR 0xFF, ip a ! 13 XOR 0xFF]"
proof -
  have d: "drop 12 (ip a) = [ip a ! 12, ip a ! 13, ip a ! 14, ip a ! 15]"
    using n by (subst ip_16 [OF n]) simp
  have t4: "take 4 (ip a) = [ip a ! 0, ip a ! 1, ip a ! 2, ip a ! 3]"
    using n by (subst ip_16 [OF n]) simp
  have t5: "take 5 (ip a) = [ip a ! 0, ip a ! 1, ip a ! 2, ip a ! 3] @ [ip a ! 4]"
    using n by (subst ip_16 [OF n]) simp
  have t7: "take 7 (ip a) = [ip a ! 0, ip a ! 1, ip a ! 2, ip a ! 3, ip a ! 4, ip a ! 5] @ [ip a ! 6]"
    using n by (subst ip_16 [OF n]) simp
  have low: "addr_nat a mod 2 ^ 32 = be_nat [ip a ! 12, ip a ! 13] * 2 ^ 16 + be_nat [ip a ! 14, ip a ! 15]"
    using addr_nat_div(2) [OF n, of 12] be_nat_append [of "[ip a ! 12, ip a ! 13]" "[ip a ! 14, ip a ! 15]"]
    by (simp add: d)
  have lo: "be_nat [ip a ! 14, ip a ! 15] < 2 ^ 16" "be_nat [ip a ! 12, ip a ! 13] < 2 ^ 16"
    using be_nat_less [of "[ip a ! 14, ip a ! 15]"] be_nat_less [of "[ip a ! 12, ip a ! 13]"] by simp_all
  show "addr_nat a mod 2 ^ 32 div 2 ^ 16 = be_nat [ip a ! 12, ip a ! 13]"
    using low lo by simp
  show a4: "addr_nat a div 2 ^ 96 = be_nat [ip a ! 0, ip a ! 1, ip a ! 2, ip a ! 3]"
    using addr_nat_div(1) [OF n, of 4] by (simp add: t4)
  have "be_nat [ip a ! 0, ip a ! 1, ip a ! 2, ip a ! 3]
      = be_nat [ip a ! 0, ip a ! 1] * 2 ^ 16 + be_nat [ip a ! 2, ip a ! 3]"
    using be_nat_append [of "[ip a ! 0, ip a ! 1]" "[ip a ! 2, ip a ! 3]"] by simp
  then show "addr_nat a div 2 ^ 96 mod 2 ^ 16 = be_nat [ip a ! 2, ip a ! 3]"
    using a4 be_nat_less [of "[ip a ! 2, ip a ! 3]"] by simp
  have "addr_nat a div 2 ^ 76 = addr_nat a div 256 ^ 9 div 16"
    by (simp add: div_mult2_eq [symmetric])
  also have "addr_nat a div 256 ^ 9
      = be_nat [ip a ! 0, ip a ! 1, ip a ! 2, ip a ! 3, ip a ! 4, ip a ! 5] * 256 + unat (ip a ! 6)"
    using addr_nat_div(1) [OF n, of 7] unfolding t7 be_nat_simps by simp
  finally have "addr_nat a div 2 ^ 76
      = be_nat [ip a ! 0, ip a ! 1, ip a ! 2, ip a ! 3, ip a ! 4, ip a ! 5] * 16 + unat (ip a ! 6) div 16"
    using byte_less [of "ip a ! 6"] by simp
  then show "addr_nat a div 2 ^ 76 mod 2 ^ 4 = unat (ip a ! 6) div 16"
    using byte_less [of "ip a ! 6"] by simp
  have "addr_nat a div 2 ^ 92 = addr_nat a div 256 ^ 11 div 16"
    by (simp add: div_mult2_eq [symmetric])
  also have "addr_nat a div 256 ^ 11 = be_nat [ip a ! 0, ip a ! 1, ip a ! 2, ip a ! 3] * 256 + unat (ip a ! 4)"
    using addr_nat_div(1) [OF n, of 5] unfolding t5 be_nat_simps by simp
  finally show "addr_nat a div 2 ^ 92
      = be_nat [ip a ! 0, ip a ! 1, ip a ! 2, ip a ! 3] * 16 + unat (ip a ! 4) div 16"
    using byte_less [of "ip a ! 4"] by simp
  have "be_nat [ip a ! 12 XOR 0xFF, ip a ! 13 XOR 0xFF] = 65535 - be_nat [ip a ! 12, ip a ! 13]"
    using byte_less [of "ip a ! 12"] byte_less [of "ip a ! 13"] by (simp add: be_nat_2 xor_ff_nat)
  then show "(2 ^ 32 - 1 - addr_nat a mod 2 ^ 32) div 2 ^ 16 = be_nat [ip a ! 12 XOR 0xFF, ip a ! 13 XOR 0xFF]"
    using lo low by simp
qed


lemma heNet_iff:
  assumes n: "length (ip a) = 16"
  shows "addr_nat a div 2 ^ 96 = 0x20010470 \<longleftrightarrow>
    ip a ! 0 = 0x20 \<and> ip a ! 1 = 0x01 \<and> ip a ! 2 = 0x04 \<and> ip a ! 3 = 0x70"
proof -
  have "be_nat [0x20, 0x01, 0x04, 0x70] = 0x20010470" by (simp add: be_nat_def)
  then show ?thesis using be_nat_inject [of "[ip a ! 0, ip a ! 1, ip a ! 2, ip a ! 3]" "[0x20, 0x01, 0x04, 0x70]"]
    by (simp only: addr_parts(4) [OF n]) simp
qed

lemma group_dec_GetGroup:
  assumes n: "length (ip a) = 16"
  shows "group_dec (GetGroup a) = group_spec a"
  unfolding GetGroup_cases group_spec_def Let_def heNet_iff [OF n] addr_parts(1,2,3,5,6) [OF n]
  unfolding addr_parts(4) [OF n]
  by (simp add: or_15_nat be_nat_2)

definition group_shape :: "bytes \<Rightarrow> bool" where
  "group_shape g \<longleftrightarrow> g = [0] \<or> (\<exists>x y. g = [1, x, y]) \<or> (\<exists>b. g = [3, b OR 15])
     \<or> (\<exists>w x y z. g = [2, w, x, y, z]) \<or> (\<exists>b. g = [2, 0x20, 0x01, 0x04, 0x70, b OR 15])"

lemma group_shape_GetGroup: "group_shape (GetGroup a)"
  unfolding GetGroup_cases group_shape_def by auto

lemma or_15_inject: "unat b div 16 = unat c div 16 \<Longrightarrow> b OR 15 = c OR 15" for b c :: byte
  by (simp add: or_15)

lemma group_dec_inject:
  assumes "group_shape g" "group_shape h" "group_dec g = group_dec h"
  shows "g = h"
proof -
  have a: "unat x * 256 + unat y = unat x' * 256 + unat y' \<Longrightarrow> x = x' \<and> y = y'" for x y x' y' :: byte
    using be_nat_inject [of "[x, y]" "[x', y']"] by (simp add: be_nat_2)
  have b: "be_nat [w, x, y, z] < 2 ^ 32" for w x y z using be_nat_less [of "[w, x, y, z]"] by simp
  have c: "be_nat [0x20, 0x01, 0x04, 0x70] = 0x20010470" by (simp add: be_nat_def)
  have d: "be_nat [w, x, y, z] \<noteq> be_nat [0x20, 0x01, 0x04, 0x70] * 16 + n" for w x y z n
    using b [of w x y z] unfolding c by auto
  have e: "(be_nat [w, x, y, z] = be_nat [w', x', y', z']) = ([w, x, y, z] = [w', x', y', z'])"
    for w x y z w' x' y' z' by (rule be_nat_inject) simp
  show ?thesis
    using assms unfolding group_shape_def
    by (elim disjE exE) (auto simp: or_15_nat e d d [symmetric] dest: a or_15_inject)
qed


section \<open>Lexicographic comparison\<close>

lemma lex_append:
  fixes us vs :: "'a::linorder list"
  shows "length xs = length ys \<Longrightarrow> xs @ us < ys @ vs \<longleftrightarrow> xs < ys \<or> xs = ys \<and> us < vs"
  by (induction xs ys rule: list_induct2) auto

lemma div_mod_less:
  "m div 256 < n div 256 \<or> m div 256 = n div 256 \<and> m mod 256 < n mod 256 \<longleftrightarrow> m < n" for m n :: nat
proof -
  have "m = 256 * (m div 256) + m mod 256" "n = 256 * (n div 256) + n mod 256"
    "m mod 256 < 256" "n mod 256 < 256" by simp_all
  then show ?thesis by linarith
qed

lemma u16_bytes_less:
  "[ucast (p div 0x100), ucast (p AND 0x0FF)] < ([ucast (q div 0x100), ucast (q AND 0x0FF)] :: bytes)
    \<longleftrightarrow> p < q" for p q :: u16
proof -
  have b: "unat (ucast (r div 0x100) :: byte) = unat r div 256" "unat (ucast (r AND 0x0FF) :: byte) = unat r mod 256"
    for r :: u16
  proof -
    have l: "unat r < 65536" using unsigned_less [of r] by simp
    show "unat (ucast (r div 0x100) :: byte) = unat r div 256"
      using l by (simp add: unsigned_ucast_eq unsigned_take_bit_eq unat_div take_bit_eq_mod)
    have "r AND 0x0FF = take_bit 8 r" by (simp add: take_bit_eq_mask mask_eq_exp_minus_1)
    then show "unat (ucast (r AND 0x0FF) :: byte) = unat r mod 256"
      by (simp only: unsigned_ucast_eq unsigned_take_bit_eq) (simp add: take_bit_eq_mod)
  qed
  show ?thesis
    using div_mod_less [of "unat p" "unat q"]
    by (simp add: word_less_nat_alt b word_unat_eq_iff)
qed

lemma GetKey_less:
  assumes "length (ip a) = 16" "length (ip b) = 16"
  shows "GetKey a < GetKey b \<longleftrightarrow> service_lt a b"
  using assms
  by (simp only: GetKey_def lex_append u16_bytes_less length_take service_lt_def netaddr_lt_def netaddr_eq_def) simp

section \<open>Properties\<close>

text \<open>Address groups: two addresses are in the same group (the unit \<open>addrman\<close> spreads over
  buckets, and to which at most one connection is made) exactly when they have the same class and
  agree on the bits of that class: the upper 16 bits of the IPv4 address they are or embed (Teredo
  complements it), 4 bits of an onion address, 36 bits inside he.net and 32 bits otherwise.\<close>

theorem GetGroup_same_group:
  assumes "length (ip a) = 16" "length (ip b) = 16"
  shows "GetGroup a = GetGroup b \<longleftrightarrow> group_spec a = group_spec b"
  using group_dec_inject [OF group_shape_GetGroup group_shape_GetGroup, of a b] assms
  by (auto simp flip: group_dec_GetGroup)


theorem GetGroup_same_group_witness:
  "GetGroup \<lparr>ip = pchIPv4 @ [8, 8, 4, 4]\<rparr> = GetGroup \<lparr>ip = pchIPv4 @ [8, 8, 8, 8]\<rparr> \<longleftrightarrow>
   group_spec \<lparr>ip = pchIPv4 @ [8, 8, 4, 4]\<rparr> = group_spec \<lparr>ip = pchIPv4 @ [8, 8, 8, 8]\<rparr>"
  by (rule GetGroup_same_group) (simp_all add: pchIPv4_def)

text \<open>\<open>operator<\<close> on services is a strict total order that agrees with \<open>operator==\<close>, and
  \<open>GetKey\<close> is an order-preserving, injective encoding of a service.\<close>

theorem service_order:
  assumes "length (ip a) = 16" "length (ip b) = 16" "length (ip c) = 16"
  shows "\<not> service_lt a a \<and> (service_lt a b \<and> service_lt b c \<longrightarrow> service_lt a c) \<and>
    (service_lt a b \<or> service_eq a b \<or> service_lt b a) \<and>
    (service_lt a b \<longleftrightarrow> GetKey a < GetKey b) \<and> (service_eq a b \<longleftrightarrow> GetKey a = GetKey b)"
proof -
  have tri: "service_lt a b \<or> service_eq a b \<or> service_lt b a"
    by (auto simp: service_lt_def service_eq_def netaddr_lt_def netaddr_eq_def)
  have "service_lt a b \<and> service_lt b c \<longrightarrow> service_lt a c"
    using GetKey_less [OF assms(1,2)] GetKey_less [OF assms(2,3)] GetKey_less [OF assms(1,3)]
    by (auto intro: order.strict_trans)
  moreover have "service_eq a b \<longleftrightarrow> GetKey a = GetKey b"
    using tri GetKey_less [OF assms(1,2)] GetKey_less [OF assms(2,1)]
    by (auto simp: service_eq_def netaddr_eq_def GetKey_def)
  ultimately show ?thesis using tri GetKey_less [OF assms(1,1)] GetKey_less [OF assms(1,2)] by simp
qed

theorem service_order_witness:
  "service_lt \<lparr>ip = replicate 16 1, port = 0x1F90\<rparr> \<lparr>ip = replicate 16 1, port = 0x1F91\<rparr> \<longleftrightarrow>
   GetKey \<lparr>ip = replicate 16 1, port = 0x1F90\<rparr> < GetKey \<lparr>ip = replicate 16 1, port = 0x1F91\<rparr>"
  using service_order [of "\<lparr>ip = replicate 16 1, port = 0x1F90\<rparr>" "\<lparr>ip = replicate 16 1, port = 0x1F91\<rparr>"
      "\<lparr>ip = replicate 16 1, port = 0\<rparr>"] by simp

end
