(* ===== verification/Containers.thy ===== *)
theory Containers
  imports Prelude "HOL-Library.Mapping"
begin

text \<open>
  The two bounded containers of the node: \<open>mruset\<close> (\<open>mruset.h\<close>), a set that forgets its oldest elements,
  and \<open>limitedmap\<close> (\<open>limitedmap.h\<close>), a map that forgets its entries of lowest value. \<open>std::set\<close> is a set,
  \<open>std::deque\<close> a list, \<open>std::map\<close> a mapping, and the \<open>std::multimap\<close> from values to iterators a list of
  value-key pairs in its iteration order.
\<close>

section \<open>The interface\<close>

text \<open>A call that may fail, repeated over a list.\<close>

fun foldR :: "('x \<Rightarrow> 's \<Rightarrow> 's result) \<Rightarrow> 'x list \<Rightarrow> 's \<Rightarrow> 's result" where
  "foldR f [] s = Inr s"
| "foldR f (x # xs) s = bindR (f x s) (foldR f xs)"

text \<open>
  What both promise their callers: an insertion succeeds, the new key is in, nothing else comes in, and
  as long as there is room nothing goes out. A capacity of 0 means no bound.
\<close>

locale bounded_store =
  fixes inv :: "'s \<Rightarrow> bool" and content :: "'s \<Rightarrow> 'k set" and cap :: "'s \<Rightarrow> nat"
    and ins :: "'x \<Rightarrow> 's \<Rightarrow> 's result" and key :: "'x \<Rightarrow> 'k"
  assumes bound: "inv s \<Longrightarrow> finite (content s) \<and> (cap s \<noteq> 0 \<longrightarrow> card (content s) \<le> cap s)"
    and ins_ok: "inv s \<Longrightarrow> \<exists>s'. ins x s = Inr s' \<and> inv s' \<and> cap s' = cap s \<and> key x \<in> content s' \<and>
      content s' \<subseteq> insert (key x) (content s) \<and>
      (cap s = 0 \<or> card (insert (key x) (content s)) \<le> cap s \<longrightarrow> content s' = insert (key x) (content s))"
begin

lemma ins_all:
  assumes "inv s"
  shows "\<exists>s'. foldR ins xs s = Inr s' \<and> inv s' \<and> cap s' = cap s \<and> content s' \<subseteq> key ` set xs \<union> content s \<and>
    (xs \<noteq> [] \<longrightarrow> key (last xs) \<in> content s') \<and>
    (cap s = 0 \<or> card (key ` set xs \<union> content s) \<le> cap s \<longrightarrow> content s' = key ` set xs \<union> content s)"
  using assms
proof (induction xs arbitrary: s)
  case (Cons x xs)
  obtain t where t: "ins x s = Inr t" "inv t" "cap t = cap s" "key x \<in> content t" "content t \<subseteq> insert (key x) (content s)"
    "cap s = 0 \<or> card (insert (key x) (content s)) \<le> cap s \<longrightarrow> content t = insert (key x) (content s)"
    using ins_ok [OF Cons.prems, of x] by blast
  obtain s' where s': "foldR ins xs t = Inr s'" "inv s'" "cap s' = cap t" "content s' \<subseteq> key ` set xs \<union> content t"
    "xs \<noteq> [] \<longrightarrow> key (last xs) \<in> content s'"
    "cap t = 0 \<or> card (key ` set xs \<union> content t) \<le> cap t \<longrightarrow> content s' = key ` set xs \<union> content t"
    using Cons.IH [OF t(2)] by blast
  have fin: "finite (key ` set (x # xs) \<union> content s)" using bound [OF Cons.prems] by simp
  have room: "content s' = key ` set (x # xs) \<union> content s" if c: "cap s = 0 \<or> card (key ` set (x # xs) \<union> content s) \<le> cap s"
  proof -
    have "card (insert (key x) (content s)) \<le> card (key ` set (x # xs) \<union> content s)" by (rule card_mono [OF fin]) auto
    then have e: "content t = insert (key x) (content s)" using c t(6) by auto
    have "key ` set xs \<union> content t = key ` set (x # xs) \<union> content s" unfolding e by auto
    moreover have "cap t = 0 \<or> card (key ` set xs \<union> content t) \<le> cap t" unfolding calculation t(3) by (rule c)
    ultimately show ?thesis using s'(6) by blast
  qed
  have "key (last (x # xs)) \<in> content s'"
    using s'(1,5) t(4) by (cases "xs = []") auto
  then show ?case using t s' room by (intro exI [of _ s']) auto
qed simp

end

section \<open>The most recent elements\<close>

record 'a mruset =
  mru_set :: "'a set"
  mru_queue :: "'a list"
  mru_max :: nat

definition mruset_init :: "nat \<Rightarrow> 'a mruset" where
  "mruset_init nMaxSizeIn = \<lparr>mru_set = {}, mru_queue = [], mru_max = nMaxSizeIn\<rparr>"

definition mru_size :: "'a mruset \<Rightarrow> nat" where
  "mru_size s = card (mru_set s)"

definition mru_count :: "'a \<Rightarrow> 'a mruset \<Rightarrow> nat" where
  "mru_count k s = (if k \<in> mru_set s then 1 else 0)"

definition mru_clear :: "'a mruset \<Rightarrow> 'a mruset" where
  "mru_clear s = s\<lparr>mru_set := {}, mru_queue := []\<rparr>"

definition mru_insert :: "'a \<Rightarrow> 'a mruset \<Rightarrow> bool \<times> 'a mruset" where
  "mru_insert x s =
    (if x \<in> mru_set s then (False, s)
     else
       let s = s\<lparr>mru_set := insert x (mru_set s)\<rparr>;
           s = (if mru_max s \<noteq> 0 \<and> length (mru_queue s) = mru_max s
                then s\<lparr>mru_set := mru_set s - {hd (mru_queue s)}, mru_queue := tl (mru_queue s)\<rparr> else s)
       in (True, s\<lparr>mru_queue := mru_queue s @ [x]\<rparr>))"

fun mru_shrink :: "nat \<Rightarrow> 'a set \<Rightarrow> 'a list \<Rightarrow> 'a set \<times> 'a list" where
  "mru_shrink n st [] = (st, [])"
| "mru_shrink n st (x # q) = (if length (x # q) > n then mru_shrink n (st - {x}) q else (st, x # q))"

definition mru_max_size :: "nat \<Rightarrow> 'a mruset \<Rightarrow> 'a mruset" where
  "mru_max_size n s =
    (let (st, q) = (if n \<noteq> 0 then mru_shrink n (mru_set s) (mru_queue s) else (mru_set s, mru_queue s))
     in \<lparr>mru_set = st, mru_queue = q, mru_max = n\<rparr>)"

definition mru_inv :: "'a mruset \<Rightarrow> bool" where
  "mru_inv s \<longleftrightarrow> mru_set s = set (mru_queue s) \<and> distinct (mru_queue s) \<and> (mru_max s \<noteq> 0 \<longrightarrow> length (mru_queue s) \<le> mru_max s)"

text \<open>The specification: a bounded queue without repetitions.\<close>

definition fifo_insert :: "nat \<Rightarrow> 'a \<Rightarrow> 'a list \<Rightarrow> 'a list" where
  "fifo_insert n x q = (if x \<in> set q then q else (if n \<noteq> 0 \<and> length q = n then tl q else q) @ [x])"

lemma mru_insert_refines:
  assumes "mru_inv s"
  shows "mru_inv (snd (mru_insert x s))" "mru_queue (snd (mru_insert x s)) = fifo_insert (mru_max s) x (mru_queue s)"
    "mru_max (snd (mru_insert x s)) = mru_max s" "fst (mru_insert x s) \<longleftrightarrow> x \<notin> set (mru_queue s)"
proof -
  obtain q n where s: "s = \<lparr>mru_set = set q, mru_queue = q, mru_max = n\<rparr>" and q: "distinct q" "n \<noteq> 0 \<longrightarrow> length q \<le> n"
    using assms by (cases s) (auto simp: mru_inv_def)
  have e: "mru_insert x s = (x \<notin> set q, \<lparr>mru_set = set (fifo_insert n x q), mru_queue = fifo_insert n x q, mru_max = n\<rparr>)"
  proof (cases "x \<in> set q")
    case True
    then show ?thesis by (simp add: mru_insert_def fifo_insert_def s)
  next
    case False
    have "insert x (set q) - {hd q} = insert x (set (tl q))" if "q \<noteq> []" using that False q(1) by (cases q) auto
    then show ?thesis using False by (cases "q = []") (auto simp: mru_insert_def fifo_insert_def s Let_def)
  qed
  have "distinct (fifo_insert n x q)" "n \<noteq> 0 \<longrightarrow> length (fifo_insert n x q) \<le> n"
    using q by (cases q; auto simp: fifo_insert_def)+
  then show "mru_queue (snd (mru_insert x s)) = fifo_insert (mru_max s) x (mru_queue s)" "mru_max (snd (mru_insert x s)) = mru_max s"
    "fst (mru_insert x s) \<longleftrightarrow> x \<notin> set (mru_queue s)" "mru_inv (snd (mru_insert x s))"
    unfolding e by (simp_all add: s mru_inv_def)
qed

lemma mru_shrink_drop:
  "distinct q \<Longrightarrow> mru_shrink n (set q) q = (set (drop (length q - n) q), drop (length q - n) q)"
proof (induction q)
  case (Cons x q)
  have "set (x # q) - {x} = set q" using Cons.prems by auto
  then show ?case using Cons by (cases "length q < n") (simp_all add: Suc_diff_le)
qed simp

lemma mru_max_size_inv:
  assumes "mru_inv s"
  shows "mru_inv (mru_max_size n s)" "mru_queue (mru_max_size n s) = (if n = 0 then mru_queue s else drop (length (mru_queue s) - n) (mru_queue s))"
proof -
  have e: "mru_set s = set (mru_queue s)" and d: "distinct (mru_queue s)" using assms by (simp_all add: mru_inv_def)
  have m: "mru_max_size n s = (let q = (if n = 0 then mru_queue s else drop (length (mru_queue s) - n) (mru_queue s))
    in \<lparr>mru_set = set q, mru_queue = q, mru_max = n\<rparr>)"
    unfolding mru_max_size_def e mru_shrink_drop [OF d] by (simp add: Let_def)
  then show "mru_queue (mru_max_size n s) = (if n = 0 then mru_queue s else drop (length (mru_queue s) - n) (mru_queue s))"
    by (simp add: Let_def)
  show "mru_inv (mru_max_size n s)" unfolding m mru_inv_def Let_def using d by auto
qed

lemma mru_init_inv: "mru_inv (mruset_init n)" "mru_inv (mru_clear s)"
  by (simp_all add: mru_inv_def mruset_init_def mru_clear_def)

interpretation mru: bounded_store mru_inv mru_set mru_max "\<lambda>x s. Inr (snd (mru_insert x s))" "\<lambda>x. x"
proof unfold_locales
  fix s :: "'a mruset" and x
  assume s: "mru_inv s"
  then have c: "card (mru_set s) = length (mru_queue s)" by (simp add: mru_inv_def distinct_card)
  then show "finite (mru_set s) \<and> (mru_max s \<noteq> 0 \<longrightarrow> card (mru_set s) \<le> mru_max s)" using s by (simp add: mru_inv_def)
  note r = mru_insert_refines [OF s, of x]
  have q: "mru_set (snd (mru_insert x s)) = set (fifo_insert (mru_max s) x (mru_queue s))" using r(1,2) by (simp add: mru_inv_def)
  have e: "mru_set s = set (mru_queue s)" using s by (simp add: mru_inv_def)
  have "set (fifo_insert n x q) \<subseteq> insert x (set q)" "x \<in> set (fifo_insert n x q)" for n q
    by (auto simp: fifo_insert_def dest: list.set_sel(2))
  moreover have "set (fifo_insert (mru_max s) x (mru_queue s)) = insert x (mru_set s)"
    if "mru_max s = 0 \<or> card (insert x (mru_set s)) \<le> mru_max s"
  proof (cases "x \<in> mru_set s")
    case False
    then have "mru_max s \<noteq> 0 \<longrightarrow> length (mru_queue s) \<noteq> mru_max s" using that c e by auto
    then show ?thesis using False by (auto simp: fifo_insert_def e)
  qed (auto simp: fifo_insert_def e)
  moreover have "mru_set (snd (mru_insert x s)) \<subseteq> insert x (mru_set s)" "x \<in> mru_set (snd (mru_insert x s))"
    unfolding q e by (rule calculation)+
  ultimately show "\<exists>s'. Inr (snd (mru_insert x s)) = Inr s' \<and> mru_inv s' \<and> mru_max s' = mru_max s \<and> x \<in> mru_set s' \<and>
      mru_set s' \<subseteq> insert x (mru_set s) \<and>
      (mru_max s = 0 \<or> card (insert x (mru_set s)) \<le> mru_max s \<longrightarrow> mru_set s' = insert x (mru_set s))"
    using r(1,3) q by (intro exI [of _ "snd (mru_insert x s)"] conjI refl impI) simp_all
qed

text \<open>C39. \<open>mruset\<close> is a bounded queue without repetitions: inserting in any order, the set and the queue always
  agree, a new element goes to the back and pushes out only the oldest one and only when the bound is
  reached, a known element changes nothing, and the returned flag says whether the element was new.\<close>
theorem mruset_fifo:
  assumes "mru_inv s"
  shows "mru_inv (snd (mru_insert x s)) \<and> fst (mru_insert x s) = (x \<notin> mru_set s) \<and>
    mru_queue (snd (mru_insert x s)) = fifo_insert (mru_max s) x (mru_queue s) \<and>
    mru_inv (mru_max_size n s) \<and> (n \<noteq> 0 \<longrightarrow> mru_size (mru_max_size n s) \<le> n)"
  using mru_insert_refines [OF assms] mru_max_size_inv [OF assms, of n] assms
  by (auto simp: mru_inv_def mru_size_def distinct_card mru_max_size_def split: prod.splits)

theorem mruset_fifo_witness:
  "mru_queue (snd (mru_insert 4 \<lparr>mru_set = {1, 2, 3 :: nat}, mru_queue = [1, 2, 3], mru_max = 3\<rparr>)) = [2, 3, 4]"
proof -
  have "mru_inv \<lparr>mru_set = {1, 2, 3 :: nat}, mru_queue = [1, 2, 3], mru_max = 3\<rparr>" by (auto simp: mru_inv_def)
  from mruset_fifo [OF this, of 4 0] show ?thesis by (simp add: fifo_insert_def)
qed

section \<open>The entries of highest value\<close>

record ('k, 'v) limitedmap =
  lm_map :: "('k, 'v) mapping"
  lm_rmap :: "('v \<times> 'k) list"
  lm_max :: nat

definition lm_init :: "nat \<Rightarrow> ('k, 'v) limitedmap" where
  "lm_init nMaxSizeIn = \<lparr>lm_map = Mapping.empty, lm_rmap = [], lm_max = nMaxSizeIn\<rparr>"

definition lm_size :: "('k, 'v) limitedmap \<Rightarrow> nat" where
  "lm_size s = Mapping.size (lm_map s)"

text \<open>\<open>rmap.insert\<close> puts a pair behind those of the same value.\<close>

fun rmap_insert :: "'v :: linorder \<Rightarrow> 'k \<Rightarrow> ('v \<times> 'k) list \<Rightarrow> ('v \<times> 'k) list" where
  "rmap_insert v k [] = [(v, k)]"
| "rmap_insert v k ((w, j) # r) = (if w \<le> v then (w, j) # rmap_insert v k r else (v, k) # (w, j) # r)"

text \<open>The search of \<open>erase\<close> and \<open>update\<close> through \<open>equal_range\<close>.\<close>

fun rmap_remove :: "'v \<Rightarrow> 'k \<Rightarrow> ('v \<times> 'k) list \<Rightarrow> ('v \<times> 'k) list option" where
  "rmap_remove v k [] = None"
| "rmap_remove v k ((w, j) # r) =
    (if w = v \<and> j = k then Some r else map_option (\<lambda>r. (w, j) # r) (rmap_remove v k r))"

text \<open>Erasing \<open>rmap.begin()\<close> and its entry; on an empty \<open>rmap\<close> the code dereferences \<open>end()\<close>.\<close>

definition lm_evict :: "('k, 'v) limitedmap \<Rightarrow> ('k, 'v) limitedmap result" where
  "lm_evict s = (case lm_rmap s of
     [] \<Rightarrow> Inl OutOfRange
   | (v, k) # r \<Rightarrow> Inr (s\<lparr>lm_map := Mapping.delete k (lm_map s), lm_rmap := r\<rparr>))"

definition lm_insert :: "'k \<times> 'v \<Rightarrow> ('k, 'v :: linorder) limitedmap \<Rightarrow> ('k, 'v) limitedmap result" where
  "lm_insert x s =
    (if Mapping.lookup (lm_map s) (fst x) \<noteq> None then Inr s
     else
       let s = s\<lparr>lm_map := Mapping.update (fst x) (snd x) (lm_map s)\<rparr> in
       bindR (if lm_max s \<noteq> 0 \<and> lm_size s = lm_max s then lm_evict s else Inr s) (\<lambda>s.
         Inr (s\<lparr>lm_rmap := rmap_insert (snd x) (fst x) (lm_rmap s)\<rparr>)))"

definition lm_erase :: "'k \<Rightarrow> ('k, 'v) limitedmap \<Rightarrow> ('k, 'v) limitedmap result" where
  "lm_erase k s = (case Mapping.lookup (lm_map s) k of
     None \<Rightarrow> Inr s
   | Some v \<Rightarrow> (case rmap_remove v k (lm_rmap s) of
       None \<Rightarrow> Inl AssertFailed
     | Some r \<Rightarrow> Inr (s\<lparr>lm_map := Mapping.delete k (lm_map s), lm_rmap := r\<rparr>)))"

definition lm_update :: "'k \<Rightarrow> 'v \<Rightarrow> ('k, 'v :: linorder) limitedmap \<Rightarrow> ('k, 'v) limitedmap result" where
  "lm_update k v s = (case Mapping.lookup (lm_map s) k of
     None \<Rightarrow> Inr s
   | Some w \<Rightarrow> (case rmap_remove w k (lm_rmap s) of
       None \<Rightarrow> Inl AssertFailed
     | Some r \<Rightarrow> Inr (s\<lparr>lm_map := Mapping.update k v (lm_map s), lm_rmap := rmap_insert v k r\<rparr>)))"

text \<open>The eviction loop of \<open>max_size\<close>, over the entries of \<open>rmap\<close>.\<close>

fun lm_shrink :: "nat \<Rightarrow> ('k, 'v) mapping \<Rightarrow> ('v \<times> 'k) list \<Rightarrow> (('k, 'v) mapping \<times> ('v \<times> 'k) list) result" where
  "lm_shrink n m [] = (if Mapping.size m > n then Inl OutOfRange else Inr (m, []))"
| "lm_shrink n m ((v, k) # r) = (if Mapping.size m > n then lm_shrink n (Mapping.delete k m) r else Inr (m, (v, k) # r))"

definition lm_max_size :: "nat \<Rightarrow> ('k, 'v) limitedmap \<Rightarrow> ('k, 'v) limitedmap result" where
  "lm_max_size n s =
    bindR (if n \<noteq> 0 then lm_shrink n (lm_map s) (lm_rmap s) else Inr (lm_map s, lm_rmap s)) (\<lambda>(m, r).
      Inr \<lparr>lm_map = m, lm_rmap = r, lm_max = n\<rparr>)"

text \<open>The two indexes hold the same entries, the second in the order of the values.\<close>

definition lm_inv :: "('k, 'v :: linorder) limitedmap \<Rightarrow> bool" where
  "lm_inv s \<longleftrightarrow> distinct (map snd (lm_rmap s)) \<and> sorted (map fst (lm_rmap s)) \<and>
     (\<forall>k v. Mapping.lookup (lm_map s) k = Some v \<longleftrightarrow> (v, k) \<in> set (lm_rmap s))"

definition lm_keys :: "('k, 'v) limitedmap \<Rightarrow> 'k set" where
  "lm_keys s = Mapping.keys (lm_map s)"

lemma set_rmap_insert [simp]: "set (rmap_insert v k r) = insert (v, k) (set r)"
proof (induction v k r rule: rmap_insert.induct)
  case (2 v k w j r)
  then show ?case by (cases "w \<le> v") auto
qed simp

lemma rmap_insert_distinct: "distinct (map snd (rmap_insert v k r)) \<longleftrightarrow> k \<notin> snd ` set r \<and> distinct (map snd r)"
proof (induction v k r rule: rmap_insert.induct)
  case (2 v k w j r)
  then show ?case by (cases "w \<le> v") auto
qed simp

lemma rmap_insert_sorted: "sorted (map fst r) \<Longrightarrow> sorted (map fst (rmap_insert v k r))"
proof (induction v k r rule: rmap_insert.induct)
  case (2 v k w j r)
  then show ?case by (cases "w \<le> v") (auto intro: order_trans [of v w])
qed simp

lemma length_rmap_insert [simp]: "length (rmap_insert v k r) = Suc (length r)"
proof (induction v k r rule: rmap_insert.induct)
  case (2 v k w j r)
  then show ?case by (cases "w \<le> v") auto
qed simp

lemma rmap_remove_iff: "(v, k) \<in> set r \<Longrightarrow> rmap_remove v k r = Some (remove1 (v, k) r)"
proof (induction v k r rule: rmap_remove.induct)
  case (2 v k w j r)
  then show ?case by (cases "w = v \<and> j = k") auto
qed simp

lemma lm_inv_keys:
  assumes "lm_inv s"
  shows "lm_keys s = snd ` set (lm_rmap s)" "card (lm_keys s) = length (lm_rmap s)" "lm_size s = length (lm_rmap s)" "finite (lm_keys s)"
proof -
  show k: "lm_keys s = snd ` set (lm_rmap s)"
    using assms by (force simp: lm_keys_def keys_dom_lookup lm_inv_def dom_def image_iff)
  then show f: "finite (lm_keys s)" by simp
  have "card (lm_keys s) = card (set (map snd (lm_rmap s)))" by (simp add: k)
  also have "\<dots> = length (lm_rmap s)" using assms distinct_card [of "map snd (lm_rmap s)"] by (simp add: lm_inv_def)
  finally show c: "card (lm_keys s) = length (lm_rmap s)" .
  show "lm_size s = length (lm_rmap s)" using c f by (simp add: lm_size_def Mapping.size_def lm_keys_def)
qed

lemma lm_evict_ok:
  assumes "lm_inv s" "lm_rmap s = (v, k) # r"
  shows "lm_evict s = Inr (s\<lparr>lm_map := Mapping.delete k (lm_map s), lm_rmap := r\<rparr>)"
    "lm_inv (s\<lparr>lm_map := Mapping.delete k (lm_map s), lm_rmap := r\<rparr>)"
proof -
  show "lm_evict s = Inr (s\<lparr>lm_map := Mapping.delete k (lm_map s), lm_rmap := r\<rparr>)" by (simp add: lm_evict_def assms(2))
  have "Mapping.lookup (Mapping.delete k (lm_map s)) j = Some w \<longleftrightarrow> (w, j) \<in> set r" for j w
    using assms by (cases "j = k") (auto simp: lm_inv_def lookup_delete lookup_delete_neq image_iff)
  then show "lm_inv (s\<lparr>lm_map := Mapping.delete k (lm_map s), lm_rmap := r\<rparr>)"
    using assms by (simp add: lm_inv_def)
qed

lemma lm_inv_add:
  assumes "lm_inv s" "Mapping.lookup (lm_map s) k = None"
  shows "lm_inv (s\<lparr>lm_map := Mapping.update k v (lm_map s), lm_rmap := rmap_insert v k (lm_rmap s)\<rparr>)"
proof -
  have k: "k \<notin> snd ` set (lm_rmap s)" using assms by (force simp: lm_inv_def)
  have "Mapping.lookup (Mapping.update k v (lm_map s)) j = Some w \<longleftrightarrow> (w, j) \<in> insert (v, k) (set (lm_rmap s))" for j w
    using assms k by (cases "j = k") (auto simp: lm_inv_def Mapping.lookup_update' image_iff)
  then show ?thesis using assms k by (simp add: lm_inv_def rmap_insert_distinct rmap_insert_sorted)
qed

lemma lm_inv_remove:
  assumes "lm_inv s" "Mapping.lookup (lm_map s) k = Some v"
  shows "rmap_remove v k (lm_rmap s) = Some (remove1 (v, k) (lm_rmap s))"
    "lm_inv (s\<lparr>lm_map := Mapping.delete k (lm_map s), lm_rmap := remove1 (v, k) (lm_rmap s)\<rparr>)"
proof -
  have m: "(v, k) \<in> set (lm_rmap s)" using assms by (simp add: lm_inv_def)
  then show "rmap_remove v k (lm_rmap s) = Some (remove1 (v, k) (lm_rmap s))" by (rule rmap_remove_iff)
  have d: "distinct (map snd (lm_rmap s))" "sorted (map fst (lm_rmap s))" using assms(1) by (simp_all add: lm_inv_def)
  then have dr: "distinct (lm_rmap s)" by (simp add: distinct_map)
  have u: "w = v" if "(w, k) \<in> set (lm_rmap s)" for w
  proof -
    have "Mapping.lookup (lm_map s) k = Some w" using that assms(1) by (simp add: lm_inv_def)
    then show ?thesis using assms(2) by simp
  qed
  have "Mapping.lookup (Mapping.delete k (lm_map s)) j = Some w \<longleftrightarrow> (w, j) \<in> set (lm_rmap s) - {(v, k)}" for j w
  proof (cases "j = k")
    case True
    then show ?thesis using u by (auto simp: lookup_delete)
  next
    case False
    then show ?thesis using assms(1) by (simp add: lm_inv_def lookup_delete_neq)
  qed
  moreover have "distinct (map snd (remove1 (v, k) (lm_rmap s)))"
    using d(1) dr by (simp add: distinct_map set_remove1_eq inj_on_diff)
  moreover have "sorted (map fst (remove1 (v, k) (lm_rmap s)))"
    using d(2) by (rule sorted_map_remove1)
  ultimately show "lm_inv (s\<lparr>lm_map := Mapping.delete k (lm_map s), lm_rmap := remove1 (v, k) (lm_rmap s)\<rparr>)"
    using dr by (simp add: lm_inv_def set_remove1_eq)
qed

text \<open>A map that obeys its bound: it keeps one entry less than \<open>nMaxSize\<close>.\<close>

definition lm_bounded :: "('k, 'v :: linorder) limitedmap \<Rightarrow> bool" where
  "lm_bounded s \<longleftrightarrow> lm_inv s \<and> lm_max s \<noteq> 1 \<and> (lm_max s \<noteq> 0 \<longrightarrow> length (lm_rmap s) < lm_max s)"

lemma lm_insert_new:
  assumes "lm_inv s" "Mapping.lookup (lm_map s) k = None"
  shows "lm_insert (k, v) s =
    (if lm_max s \<noteq> 0 \<and> length (lm_rmap s) + 1 = lm_max s then
       (case lm_rmap s of
          [] \<Rightarrow> Inl OutOfRange
        | (w, j) # r \<Rightarrow> Inr (s\<lparr>lm_map := Mapping.delete j (Mapping.update k v (lm_map s)), lm_rmap := rmap_insert v k r\<rparr>))
     else Inr (s\<lparr>lm_map := Mapping.update k v (lm_map s), lm_rmap := rmap_insert v k (lm_rmap s)\<rparr>))"
proof -
  have "k \<notin> Mapping.keys (lm_map s)" using assms(2) by (simp add: keys_dom_lookup dom_def)
  then have "Mapping.size (Mapping.update k v (lm_map s)) = Mapping.size (lm_map s) + 1"
    by (simp add: Mapping.size_def lm_inv_keys(1) [OF assms(1), unfolded lm_keys_def])
  also have "Mapping.size (lm_map s) = length (lm_rmap s)" using lm_inv_keys(3) [OF assms(1)] by (simp add: lm_size_def)
  finally show ?thesis
    using assms(2) by (cases "lm_rmap s") (auto simp: lm_insert_def Let_def lm_size_def lm_evict_def)
qed

lemma lookup_delete_if: "Mapping.lookup (Mapping.delete j m) i = (if j = i then None else Mapping.lookup m i)"
  by (cases "j = i") (simp_all add: lookup_delete lookup_delete_neq)

lemma lm_bounded_insert:
  assumes "lm_bounded s"
  shows "\<exists>s'. lm_insert x s = Inr s' \<and> lm_bounded s' \<and> lm_max s' = lm_max s \<and> fst x \<in> lm_keys s' \<and>
    lm_keys s' \<subseteq> insert (fst x) (lm_keys s) \<and>
    (lm_max s - 1 = 0 \<or> card (insert (fst x) (lm_keys s)) \<le> lm_max s - 1 \<longrightarrow> lm_keys s' = insert (fst x) (lm_keys s)) \<and>
    (\<forall>k \<in> lm_keys s - lm_keys s'. \<forall>j \<in> lm_keys s. the (Mapping.lookup (lm_map s) k) \<le> the (Mapping.lookup (lm_map s) j))"
proof (cases "Mapping.lookup (lm_map s) (fst x)")
  case (Some w)
  then have "fst x \<in> lm_keys s" by (simp add: lm_keys_def keys_dom_lookup dom_def)
  then show ?thesis using Some assms by (auto simp: lm_insert_def)
next
  case None
  obtain k v where x: "x = (k, v)" by (cases x)
  have inv: "lm_inv s" and m1: "lm_max s \<noteq> 1" and b: "lm_max s \<noteq> 0 \<longrightarrow> length (lm_rmap s) < lm_max s"
    using assms by (simp_all add: lm_bounded_def)
  have k: "k \<notin> lm_keys s" using None by (simp add: x lm_keys_def keys_dom_lookup dom_def)
  have c: "card (insert k (lm_keys s)) = length (lm_rmap s) + 1"
  proof -
    have "finite (lm_keys s)" using lm_inv_keys(1) [OF inv] by simp
    moreover have "card (lm_keys s) = length (lm_rmap s)" by (rule lm_inv_keys(2) [OF inv])
    ultimately show ?thesis using k by simp
  qed
  have n: "Mapping.lookup (lm_map s) k = None" using None by (simp add: x)
  note ins = lm_insert_new [OF inv n, of v]
  show ?thesis
  proof (cases "lm_max s \<noteq> 0 \<and> length (lm_rmap s) + 1 = lm_max s")
    case False
    let ?s = "s\<lparr>lm_map := Mapping.update k v (lm_map s), lm_rmap := rmap_insert v k (lm_rmap s)\<rparr>"
    have "lm_insert x s = Inr ?s" unfolding x ins by (rule if_not_P [OF False])
    moreover have "lm_bounded ?s" using lm_inv_add [OF inv n] m1 b False by (auto simp: lm_bounded_def)
    moreover have "lm_keys ?s = insert k (lm_keys s)" by (simp add: lm_keys_def)
    ultimately show ?thesis by (auto simp: x)
  next
    case True
    obtain w j r where r: "lm_rmap s = (w, j) # r" using True m1 by (cases "lm_rmap s") auto
    let ?s = "s\<lparr>lm_map := Mapping.delete j (Mapping.update k v (lm_map s)), lm_rmap := rmap_insert v k r\<rparr>"
    have i: "lm_insert x s = Inr ?s" unfolding x ins if_P [OF True] by (simp add: r)
    note ev = lm_evict_ok(2) [OF inv r]
    have jk: "j \<noteq> k" using k lm_inv_keys(1) [OF inv] by (auto simp: r)
    have "Mapping.update k v (Mapping.delete j (lm_map s)) = Mapping.delete j (Mapping.update k v (lm_map s))"
      using jk by (intro mapping_eqI) (auto simp: Mapping.lookup_update' lookup_delete_if)
    moreover have "Mapping.lookup (Mapping.delete j (lm_map s)) k = None" using None jk by (simp add: x lookup_delete_neq)
    ultimately have "lm_inv ?s" using lm_inv_add [OF ev, of k v] by simp
    then have bs: "lm_bounded ?s" using True m1 r by (simp add: lm_bounded_def)
    have ks: "lm_keys ?s = insert k (lm_keys s) - {j}" by (auto simp: lm_keys_def)
    have min: "the (Mapping.lookup (lm_map s) j) \<le> the (Mapping.lookup (lm_map s) i)" if m: "i \<in> lm_keys s" for i
    proof -
      have "Mapping.lookup (lm_map s) j = Some w" using inv by (simp add: lm_inv_def r)
      moreover obtain u where u: "Mapping.lookup (lm_map s) i = Some u" using m by (auto simp: lm_keys_def keys_dom_lookup)
      then have "(u, i) \<in> set ((w, j) # r)" using inv r by (simp add: lm_inv_def)
      then have "w \<le> u" using inv r by (auto simp: lm_inv_def)
      ultimately show ?thesis using u by simp
    qed
    have "\<not> (lm_max s - 1 = 0 \<or> card (insert k (lm_keys s)) \<le> lm_max s - 1)" using True m1 c by auto
    then show ?thesis using i bs ks jk min by (auto simp: x)
  qed
qed

interpretation lm: bounded_store "lm_bounded :: ('k, 'v :: linorder) limitedmap \<Rightarrow> bool" lm_keys "\<lambda>s. lm_max s - 1" lm_insert fst
proof unfold_locales
  fix s :: "('k, 'v) limitedmap" and x
  assume s: "lm_bounded s"
  then have inv: "lm_inv s" by (simp add: lm_bounded_def)
  have "card (lm_keys s) = length (lm_rmap s)" by (rule lm_inv_keys(2) [OF inv])
  then show "finite (lm_keys s) \<and> (lm_max s - 1 \<noteq> 0 \<longrightarrow> card (lm_keys s) \<le> lm_max s - 1)"
    using s lm_inv_keys(1) [OF inv] by (auto simp: lm_bounded_def)
  show "\<exists>s'. lm_insert x s = Inr s' \<and> lm_bounded s' \<and> lm_max s' - 1 = lm_max s - 1 \<and> fst x \<in> lm_keys s' \<and>
      lm_keys s' \<subseteq> insert (fst x) (lm_keys s) \<and>
      (lm_max s - 1 = 0 \<or> card (insert (fst x) (lm_keys s)) \<le> lm_max s - 1 \<longrightarrow> lm_keys s' = insert (fst x) (lm_keys s))"
    using lm_bounded_insert [OF s, of x] by metis
qed

lemma lm_init_bounded: "n \<noteq> 1 \<Longrightarrow> lm_bounded (lm_init n)"
  by (simp add: lm_bounded_def lm_inv_def lm_init_def)

text \<open>From an empty \<open>limitedmap\<close> of size \<open>n \<ge> 2\<close>, any sequence of insertions succeeds, leaves at most
  \<open>n - 1\<close> entries, always keeps the last one inserted, and loses nothing as long as at most \<open>n - 1\<close> different
  keys were inserted.\<close>
theorem limitedmap_bound:
  assumes "2 \<le> n"
  shows "\<exists>s. foldR lm_insert xs (lm_init n) = Inr s \<and> lm_size s \<le> n - 1 \<and> (xs \<noteq> [] \<longrightarrow> fst (last xs) \<in> lm_keys s) \<and>
    (card (fst ` set xs) \<le> n - 1 \<longrightarrow> lm_keys s = fst ` set xs)"
proof -
  have i: "lm_bounded (lm_init n)" using assms by (intro lm_init_bounded) simp
  have e: "lm_keys (lm_init n) = {}" "lm_max (lm_init n) = n" by (simp_all add: lm_keys_def lm_init_def)
  obtain s where s: "foldR lm_insert xs (lm_init n) = Inr s" "lm_bounded s" "lm_max s - 1 = n - 1"
    "xs \<noteq> [] \<longrightarrow> fst (last xs) \<in> lm_keys s"
    "n - 1 = 0 \<or> card (fst ` set xs \<union> {}) \<le> n - 1 \<longrightarrow> lm_keys s = fst ` set xs \<union> {}"
    using lm.ins_all [OF i, of xs] unfolding e by blast
  have "lm_inv s" using s(2) by (simp add: lm_bounded_def)
  then have "lm_size s = card (lm_keys s)" using lm_inv_keys(2,3) [of s] by simp
  then have "lm_size s \<le> n - 1" using lm.bound [OF s(2)] s(3) assms by simp
  then show ?thesis using s by auto
qed

theorem limitedmap_bound_witness:
  "\<exists>s. foldR lm_insert [(1 :: nat, 5 :: nat), (2, 3), (3, 4)] (lm_init 3) = Inr s \<and> lm_size s \<le> 2 \<and> 3 \<in> lm_keys s"
  using limitedmap_bound [of 3 "[(1 :: nat, 5 :: nat), (2, 3), (3, 4)]"] by auto

lemma lm_shrink_stop: "Mapping.size m \<le> n \<Longrightarrow> lm_shrink n m r = Inr (m, r)"
  by (cases r) auto

lemma lm_grow:
  assumes "lm_inv s" "lm_max s \<noteq> 0" "lm_max s \<le> length (lm_rmap s)" "distinct (map fst xs)" "\<forall>x \<in> set xs. fst x \<notin> lm_keys s"
  shows "\<exists>s'. foldR lm_insert xs s = Inr s' \<and> lm_size s' = lm_size s + length xs"
  using assms
proof (induction xs arbitrary: s)
  case (Cons x xs)
  obtain k v where x: "x = (k, v)" by (cases x)
  have n: "Mapping.lookup (lm_map s) k = None" using Cons.prems(5) by (auto simp: x lm_keys_def keys_dom_lookup)
  let ?s = "s\<lparr>lm_map := Mapping.update k v (lm_map s), lm_rmap := rmap_insert v k (lm_rmap s)\<rparr>"
  have i: "lm_insert x s = Inr ?s" using lm_insert_new [OF Cons.prems(1) n, of v] Cons.prems(3) by (simp add: x)
  have inv: "lm_inv ?s" by (rule lm_inv_add [OF Cons.prems(1) n])
  have "lm_size ?s = lm_size s + 1" using lm_inv_keys(3) [OF inv] lm_inv_keys(3) [OF Cons.prems(1)] by simp
  moreover have "\<exists>s'. foldR lm_insert xs ?s = Inr s' \<and> lm_size s' = lm_size ?s + length xs"
    using Cons.prems(2-5) by (intro Cons.IH inv) (auto simp: x lm_keys_def)
  ultimately show ?case using i by auto
qed simp

text \<open>The bound of a \<open>limitedmap\<close> can be lost for good: after \<open>max_size(n)\<close> on a map that holds exactly
  \<open>n\<close> entries every insertion of a new key makes it one larger (the size is compared for equality with the
  bound, and has already passed it), and a map created with bound 1 dereferences the end of its empty index
  on the first insertion.\<close>
theorem limitedmap_escapes:
  assumes "lm_inv s" "lm_size s = n" "n \<noteq> 0" "distinct (map fst xs)" "\<forall>x \<in> set xs. fst x \<notin> lm_keys s"
  shows "\<exists>s0 s'. lm_max_size n s = Inr s0 \<and> lm_max s0 = n \<and> foldR lm_insert xs s0 = Inr s' \<and> lm_size s' = n + length xs \<and>
    lm_insert x (lm_init 1) = Inl OutOfRange"
proof -
  let ?s = "\<lparr>lm_map = lm_map s, lm_rmap = lm_rmap s, lm_max = n\<rparr>"
  have len: "length (lm_rmap s) = n" using lm_inv_keys(3) [OF assms(1)] assms(2) by simp
  have "lm_max_size n s = Inr ?s" using assms(2) by (simp add: lm_max_size_def lm_shrink_stop lm_size_def)
  moreover have "lm_inv ?s" "lm_keys ?s = lm_keys s" "lm_size ?s = n" using assms(1,2) by (simp_all add: lm_inv_def lm_keys_def lm_size_def)
  moreover have "lm_insert x (lm_init 1) = Inl OutOfRange"
    using lm_insert_new [of "lm_init 1" "fst x" "snd x"] by (simp add: lm_inv_def lm_init_def)
  ultimately show ?thesis using lm_grow [of ?s xs] assms(3-5) len by auto
qed

theorem limitedmap_escapes_witness:
  "\<exists>s0 s'. lm_max_size 1 \<lparr>lm_map = Mapping.of_alist [(1 :: nat, 2 :: nat)], lm_rmap = [(2, 1)], lm_max = 0\<rparr> = Inr s0 \<and> lm_max s0 = 1 \<and>
     foldR lm_insert [(2, 2), (3, 9)] s0 = Inr s' \<and> lm_size s' = 3"
proof -
  let ?s = "\<lparr>lm_map = Mapping.of_alist [(1 :: nat, 2 :: nat)], lm_rmap = [(2, 1)], lm_max = 0\<rparr>"
  have i: "lm_inv ?s" by (auto simp: lm_inv_def Mapping.lookup_of_alist split: if_splits)
  have "lm_size ?s = 1" using lm_inv_keys(3) [OF i] by simp
  moreover have "\<forall>x \<in> set [(2, 2), (3, 9)]. fst x \<notin> lm_keys ?s" using lm_inv_keys(1) [OF i] by simp
  moreover have "distinct (map fst [(2 :: nat, 2 :: nat), (3, 9)])" by simp
  ultimately obtain s0 s' where "lm_max_size 1 ?s = Inr s0" "lm_max s0 = 1" "foldR lm_insert [(2, 2), (3, 9)] s0 = Inr s'"
    "lm_size s' = 1 + length [(2 :: nat, 2 :: nat), (3, 9)]"
    using limitedmap_escapes [OF i _ one_neq_zero, of "[(2, 2), (3, 9)]" undefined] by blast
  then show ?thesis by (intro exI [of _ s0] exI [of _ s']) simp
qed

end
