(* ===== verification/NetMsg.thy ===== *)
theory NetMsg
  imports Prelude
begin

text \<open>
  Messages on the wire: \<open>CMessageHeader\<close> and \<open>CInv\<close> (protocol.h, protocol.cpp), the framing of received
  bytes by \<open>CNetMessage\<close> and \<open>CNode::ReceiveMsgBytes\<close>, and the send queue that \<open>SocketSendData\<close>
  empties (net.h, net.cpp). \<open>serialize.h\<close> is not in the repository: writing and reading an
  unsigned int is a parameter with its round trip as hypothesis. Received bytes are specified by
  \<open>frames\<close>, which cuts a whole stream into messages; \<open>ReceiveMsgBytes\<close> refines it however
  the stream was cut into pieces.
\<close>

section \<open>Headers\<close>

record stream_lib =
  put_u32 :: "u32 \<Rightarrow> bytes"
  get_u32 :: "bytes \<Rightarrow> u32"

definition stream_laws :: "stream_lib \<Rightarrow> bool" where
  "stream_laws L \<longleftrightarrow> (\<forall>x. length (put_u32 L x) = 4 \<and> get_u32 L (put_u32 L x) = x)"

record CMessageHeader =
  pchMessageStart :: bytes
  pchCommand :: bytes
  nMessageSize :: u32
  nChecksum :: u32

definition COMMAND_SIZE :: nat where "COMMAND_SIZE = 12"
definition HEADER_SIZE :: nat where "HEADER_SIZE = 24"

text \<open>\<open>strncpy\<close>: up to the terminating zero, padded with zeros, and no zero when there is no room.\<close>

definition strncpy :: "bytes \<Rightarrow> nat \<Rightarrow> bytes" where
  "strncpy s n = (let t = takeWhile (\<lambda>c. c \<noteq> 0) s in take n t @ replicate (n - length t) 0)"

definition CMessageHeader_Init :: "bytes \<Rightarrow> CMessageHeader" where
  "CMessageHeader_Init start = \<lparr>pchMessageStart = start, pchCommand = (replicate COMMAND_SIZE 0)[1 := 1],
     nMessageSize = -1, nChecksum = 0\<rparr>"

definition mk_header :: "bytes \<Rightarrow> bytes \<Rightarrow> u32 \<Rightarrow> CMessageHeader" where
  "mk_header start pszCommand nMessageSizeIn = \<lparr>pchMessageStart = start, pchCommand = strncpy pszCommand COMMAND_SIZE,
     nMessageSize = nMessageSizeIn, nChecksum = 0\<rparr>"

definition header_GetCommand :: "CMessageHeader \<Rightarrow> bytes" where
  "header_GetCommand h =
     (if pchCommand h ! (COMMAND_SIZE - 1) = 0 then takeWhile (\<lambda>c. c \<noteq> 0) (pchCommand h)
      else take COMMAND_SIZE (pchCommand h))"

text \<open>The command check: \<open>char\<close> is signed, so a byte above 0x7f is below \<open>' '\<close>.\<close>

fun command_ok :: "bytes \<Rightarrow> bool" where
  "command_ok [] = True"
| "command_ok (c # cs) =
     (if c = 0 then list_all (\<lambda>d. d = 0) (c # cs)
      else if sint c < 0x20 \<or> sint c > 0x7E then False
      else command_ok cs)"

definition header_IsValid :: "bytes \<Rightarrow> u32 \<Rightarrow> CMessageHeader \<Rightarrow> bool" where
  "header_IsValid start MAX_SIZE h =
     (if pchMessageStart h \<noteq> start then False
      else if \<not> command_ok (pchCommand h) then False
      else if nMessageSize h > MAX_SIZE then False
      else True)"

text \<open>\<open>IMPLEMENT_SERIALIZE\<close>: the start string, the command, the size, the checksum.\<close>

definition header_bytes :: "stream_lib \<Rightarrow> CMessageHeader \<Rightarrow> bytes" where
  "header_bytes L h = pchMessageStart h @ pchCommand h @ put_u32 L (nMessageSize h) @ put_u32 L (nChecksum h)"

definition header_of_bytes :: "stream_lib \<Rightarrow> bytes \<Rightarrow> CMessageHeader" where
  "header_of_bytes L b = \<lparr>pchMessageStart = subbytes 0 4 b, pchCommand = subbytes 4 12 b,
     nMessageSize = get_u32 L (subbytes 16 4 b), nChecksum = get_u32 L (subbytes 20 4 b)\<rparr>"

definition header_ok :: "CMessageHeader \<Rightarrow> bool" where
  "header_ok h \<longleftrightarrow> length (pchMessageStart h) = 4 \<and> length (pchCommand h) = 12"

lemma length_header_bytes: "stream_laws L \<Longrightarrow> header_ok h \<Longrightarrow> length (header_bytes L h) = 24"
  by (simp add: header_bytes_def stream_laws_def header_ok_def)

lemma header_of_header_bytes:
  "stream_laws L \<Longrightarrow> header_ok h \<Longrightarrow> header_of_bytes L (header_bytes L h) = h"
  by (cases h) (simp add: header_of_bytes_def header_bytes_def stream_laws_def header_ok_def subbytes_def)

text \<open>\<open>COMMAND_SIZE\<close> characters survive, whatever the length of the command.\<close>

definition command_char :: "byte \<Rightarrow> bool" where
  "command_char c \<longleftrightarrow> 0x20 \<le> sint c \<and> sint c \<le> 0x7E"

lemma command_char_nonzero: "list_all command_char cmd \<Longrightarrow> takeWhile (\<lambda>c. c \<noteq> 0) cmd = cmd"
  by (induction cmd) (auto simp: command_char_def)

lemma command_ok_append:
  "list_all command_char cmd \<Longrightarrow> command_ok (cmd @ replicate n 0)"
proof (induction cmd)
  case Nil
  then show ?case by (cases n) (simp_all add: list_all_iff)
next
  case (Cons c cmd)
  then have "c \<noteq> 0" "\<not> sint c < 0x20" "\<not> sint c > 0x7E" by (auto simp: command_char_def)
  with Cons show ?case by simp
qed

lemma list_all_take: "list_all P xs \<Longrightarrow> list_all P (take n xs)"
  by (auto simp: list_all_iff dest: in_set_takeD)

text \<open>A header made for a command of printable characters and a size within the limit is valid, and
  reading its command gives the command back, cut to the twelve characters the field has room for
  (with no terminating zero when all twelve are used).\<close>
theorem header_command_roundtrip:
  assumes "list_all command_char cmd" "nSize \<le> M"
  shows "header_IsValid start M (mk_header start cmd nSize) \<and> header_GetCommand (mk_header start cmd nSize) = take 12 cmd"
proof -
  let ?p = "take 12 cmd @ replicate (12 - length cmd) 0"
  have p: "pchCommand (mk_header start cmd nSize) = ?p"
    by (simp add: mk_header_def strncpy_def Let_def command_char_nonzero[OF assms(1)] COMMAND_SIZE_def)
  have t: "list_all command_char (take 12 cmd)" by (rule list_all_take[OF assms(1)])
  have v: "command_ok ?p" by (rule command_ok_append[OF t])
  have g: "header_GetCommand (mk_header start cmd nSize) = take 12 cmd"
  proof (cases "length cmd < 12")
    case True
    then have "?p ! 11 = 0" by (simp add: nth_append)
    moreover have "takeWhile (\<lambda>c. c \<noteq> 0) ?p = cmd"
      using True command_char_nonzero[OF assms(1)] by (simp add: takeWhile_append takeWhile_eq_all_conv)
    ultimately show ?thesis using True by (simp add: header_GetCommand_def p COMMAND_SIZE_def)
  next
    case False
    then have "?p = take 12 cmd" by simp
    moreover from this False t have "?p ! 11 \<noteq> 0" by (auto simp: list_all_length command_char_def dest: spec[of _ 11])
    ultimately show ?thesis by (simp add: header_GetCommand_def p COMMAND_SIZE_def)
  qed
  with v p assms(2) show ?thesis by (simp add: header_IsValid_def not_less mk_header_def)
qed

theorem header_command_roundtrip_witness:
  "header_IsValid [1, 2, 3, 4] 9 (mk_header [1, 2, 3, 4] [0x70, 0x6f, 0x6e, 0x67] 8) \<and>
   header_GetCommand (mk_header [1, 2, 3, 4] [0x70, 0x6f, 0x6e, 0x67] 8) = [0x70, 0x6f, 0x6e, 0x67]"
  using header_command_roundtrip[of "[0x70, 0x6f, 0x6e, 0x67]" 8 9 "[1, 2, 3, 4]"] by (simp add: command_char_def)

section \<open>Inventory entries\<close>

definition ppszTypeName :: "string list" where
  "ppszTypeName = [''ERROR'', ''tx'', ''block'', ''filtered block'']"

record CInv =
  inv_type :: int
  inv_hash :: nat

definition CInv_Init :: CInv where
  "CInv_Init = \<lparr>inv_type = 0, inv_hash = 0\<rparr>"

definition CInv_of_name :: "string \<Rightarrow> nat \<Rightarrow> CInv result" where
  "CInv_of_name strType h =
     (case List.find (\<lambda>i. strType = ppszTypeName ! i) [1..<length ppszTypeName] of
        None \<Rightarrow> Inl OutOfRange
      | Some i \<Rightarrow> Inr \<lparr>inv_type = int i, inv_hash = h\<rparr>)"

definition inv_less :: "CInv \<Rightarrow> CInv \<Rightarrow> bool" where
  "inv_less a b \<longleftrightarrow> inv_type a < inv_type b \<or> (inv_type a = inv_type b \<and> inv_hash a < inv_hash b)"

definition IsKnownType :: "CInv \<Rightarrow> bool" where
  "IsKnownType i \<longleftrightarrow> inv_type i \<ge> 1 \<and> inv_type i < int (length ppszTypeName)"

definition inv_GetCommand :: "CInv \<Rightarrow> string result" where
  "inv_GetCommand i = (if \<not> IsKnownType i then Inl OutOfRange else Inr (ppszTypeName ! nat (inv_type i)))"

lemma CInv_of_name_GetCommand:
  "inv_GetCommand i = Inr n \<Longrightarrow> CInv_of_name n h = Inr \<lparr>inv_type = inv_type i, inv_hash = h\<rparr>"
proof -
  assume a: "inv_GetCommand i = Inr n"
  then have "inv_type i = 1 \<or> inv_type i = 2 \<or> inv_type i = 3"
    by (auto simp: inv_GetCommand_def IsKnownType_def ppszTypeName_def split: if_splits)
  with a show ?thesis by (auto simp: inv_GetCommand_def IsKnownType_def CInv_of_name_def ppszTypeName_def upt_rec)
qed

section \<open>Receiving\<close>

record CNetMessage =
  in_data :: bool
  hdrbuf :: bytes
  hdr :: CMessageHeader
  nHdrPos :: nat
  vRecv :: bytes
  nDataPos :: nat
  msg_nTime :: int

definition CNetMessage_Init :: "bytes \<Rightarrow> CNetMessage" where
  "CNetMessage_Init start = \<lparr>in_data = False, hdrbuf = replicate 24 0, hdr = CMessageHeader_Init start,
     nHdrPos = 0, vRecv = [], nDataPos = 0, msg_nTime = 0\<rparr>"

definition complete :: "CNetMessage \<Rightarrow> bool" where
  "complete m = (if \<not> in_data m then False else unat (nMessageSize (hdr m)) = nDataPos m)"

definition readHeader :: "stream_lib \<Rightarrow> u32 \<Rightarrow> bytes \<Rightarrow> CNetMessage \<Rightarrow> int \<times> CNetMessage" where
  "readHeader L MAX_SIZE pch m =
     (let nRemaining = 24 - nHdrPos m;
          nCopy = min nRemaining (length pch);
          m = m\<lparr>hdrbuf := memcpy_at (nHdrPos m) (take nCopy pch) (hdrbuf m), nHdrPos := nHdrPos m + nCopy\<rparr> in
      if nHdrPos m < 24 then (int nCopy, m)
      else
        let m = m\<lparr>hdr := header_of_bytes L (hdrbuf m)\<rparr> in
        if nMessageSize (hdr m) > MAX_SIZE then (-1, m)
        else (int nCopy, m\<lparr>in_data := True\<rparr>))"

definition vec_grow :: "nat \<Rightarrow> bytes \<Rightarrow> bytes" where
  "vec_grow n v = take n v @ replicate (n - length v) 0"

definition readData :: "bytes \<Rightarrow> CNetMessage \<Rightarrow> int \<times> CNetMessage" where
  "readData pch m =
     (let nRemaining = unat (nMessageSize (hdr m)) - nDataPos m;
          nCopy = min nRemaining (length pch);
          m = (if length (vRecv m) < nDataPos m + nCopy
               then m\<lparr>vRecv := vec_grow (min (unat (nMessageSize (hdr m))) ((nDataPos m + nCopy + 256 * 1024) mod 2 ^ 32)) (vRecv m)\<rparr>
               else m)
      in (int nCopy, m\<lparr>vRecv := memcpy_at (nDataPos m) (take nCopy pch) (vRecv m), nDataPos := nDataPos m + nCopy\<rparr>))"

text \<open>One round of the loop of \<open>ReceiveMsgBytes\<close>: what was handled, and the queue.\<close>

definition current_msgs :: "bytes \<Rightarrow> CNetMessage list \<Rightarrow> CNetMessage list" where
  "current_msgs start ms = (if ms = [] \<or> complete (last ms) then ms @ [CNetMessage_Init start] else ms)"

definition absorb :: "stream_lib \<Rightarrow> u32 \<Rightarrow> bytes \<Rightarrow> CNetMessage \<Rightarrow> int \<times> CNetMessage" where
  "absorb L MAX_SIZE pch m = (if \<not> in_data m then readHeader L MAX_SIZE pch m else readData pch m)"

definition stamp :: "int \<Rightarrow> CNetMessage \<Rightarrow> CNetMessage" where
  "stamp now m = (if complete m then m\<lparr>msg_nTime := now\<rparr> else m)"

partial_function (option) ReceiveMsgBytes ::
    "stream_lib \<Rightarrow> u32 \<Rightarrow> bytes \<Rightarrow> int \<Rightarrow> bytes \<Rightarrow> CNetMessage list \<Rightarrow> (bool \<times> CNetMessage list) option" where
  "ReceiveMsgBytes L MAX_SIZE start now pch ms =
     (if pch = [] then Some (True, ms)
      else
        let ms = current_msgs start ms in
        case absorb L MAX_SIZE pch (last ms) of (handled, m) \<Rightarrow>
          if handled < 0 then Some (False, butlast ms @ [m])
          else ReceiveMsgBytes L MAX_SIZE start now (drop (nat handled) pch) (butlast ms @ [stamp now m]))"

section \<open>The stream cut into messages\<close>

function frames :: "stream_lib \<Rightarrow> u32 \<Rightarrow> bytes \<Rightarrow> ((CMessageHeader \<times> bytes) list \<times> bytes) option" where
  "frames L MAX_SIZE s =
     (if length s < 24 then Some ([], s)
      else let h = header_of_bytes L (take 24 s); n = unat (nMessageSize h) in
        if nMessageSize h > MAX_SIZE then None
        else if length s < 24 + n then Some ([], s)
        else map_option (\<lambda>(fs, r). ((h, take n (drop 24 s)) # fs, r)) (frames L MAX_SIZE (drop (24 + n) s)))"
  by pat_completeness auto
termination by (relation "measure (\<lambda>(L, MAX_SIZE, s). length s)") auto

declare frames.simps [simp del]

lemma frames_short [simp]: "length s < 24 \<Longrightarrow> frames L M s = Some ([], s)"
  by (simp add: frames.simps)

text \<open>What a message in the queue has absorbed, and the form it is kept in.\<close>

definition msg_bytes :: "CNetMessage \<Rightarrow> bytes" where
  "msg_bytes m = (if in_data m then hdrbuf m @ take (nDataPos m) (vRecv m) else take (nHdrPos m) (hdrbuf m))"

definition msg_ok :: "stream_lib \<Rightarrow> u32 \<Rightarrow> CNetMessage \<Rightarrow> bool" where
  "msg_ok L M m \<longleftrightarrow> length (hdrbuf m) = 24 \<and>
     (if in_data m
      then hdr m = header_of_bytes L (hdrbuf m) \<and> nMessageSize (hdr m) \<le> M \<and>
        nDataPos m \<le> length (vRecv m) \<and> length (vRecv m) \<le> unat (nMessageSize (hdr m))
      else nHdrPos m < 24 \<and> vRecv m = [] \<and> nDataPos m = 0)"

definition msg_frame :: "CNetMessage \<Rightarrow> CMessageHeader \<times> bytes" where
  "msg_frame m = (hdr m, vRecv m)"

definition queue_ok :: "stream_lib \<Rightarrow> u32 \<Rightarrow> CNetMessage list \<Rightarrow> bool" where
  "queue_ok L M ms \<longleftrightarrow> list_all (msg_ok L M) ms \<and> list_all complete (butlast ms) \<and>
     (ms \<noteq> [] \<longrightarrow> msg_bytes (last ms) \<noteq> [])"

definition queue_bytes :: "CNetMessage list \<Rightarrow> bytes" where
  "queue_bytes ms = concat (List.map msg_bytes ms)"

lemma frames_complete:
  assumes "msg_ok L M m" "complete m"
  shows "frames L M (msg_bytes m @ t) = map_option (\<lambda>(fs, r). (msg_frame m # fs, r)) (frames L M t)"
proof -
  have d: "in_data m" "unat (nMessageSize (hdr m)) = nDataPos m" using assms(2) by (auto simp: complete_def split: if_splits)
  with assms(1) have "length (hdrbuf m) = 24" "hdr m = header_of_bytes L (hdrbuf m)" "\<not> M < nMessageSize (hdr m)"
      "length (vRecv m) = nDataPos m" by (auto simp: msg_ok_def)
  with d show ?thesis by (subst frames.simps) (simp add: msg_bytes_def Let_def msg_frame_def)
qed

lemma frames_incomplete:
  assumes "msg_ok L M m" "\<not> complete m"
  shows "frames L M (msg_bytes m) = Some ([], msg_bytes m)"
proof (cases "in_data m")
  case True
  with assms have "nDataPos m < unat (nMessageSize (hdr m))" by (auto simp: complete_def msg_ok_def)
  with True assms(1) show ?thesis by (subst frames.simps) (auto simp: msg_bytes_def Let_def msg_ok_def)
next
  case False
  with assms(1) show ?thesis by (simp add: msg_bytes_def msg_ok_def)
qed

definition open_bytes :: "CNetMessage list \<Rightarrow> bytes" where
  "open_bytes ms = (if ms = [] \<or> complete (last ms) then [] else msg_bytes (last ms))"

lemma frames_all_complete:
  "list_all (msg_ok L M) ms \<Longrightarrow> list_all complete ms \<Longrightarrow>
   frames L M (queue_bytes ms @ t) = map_option (\<lambda>(fs, r). (List.map msg_frame ms @ fs, r)) (frames L M t)"
proof (induction ms)
  case (Cons m ms)
  then show ?case
    by (cases "frames L M t") (auto simp: queue_bytes_def frames_complete)
qed (cases "frames L M t"; auto simp: queue_bytes_def)

lemma queue_frames:
  assumes "queue_ok L M ms"
  shows "frames L M (queue_bytes ms) = Some (List.map msg_frame (List.filter complete ms), open_bytes ms)"
proof (cases "ms = [] \<or> complete (last ms)")
  case True
  then have c: "list_all complete ms"
    using assms by (cases ms rule: rev_cases) (auto simp: queue_ok_def)
  then have "List.filter complete ms = ms" by (simp add: filter_id_conv list_all_iff)
  with frames_all_complete[of L M ms "[]"] assms c True show ?thesis by (simp add: queue_ok_def open_bytes_def)
next
  case False
  then obtain xs m where ms: "ms = xs @ [m]" by (metis append_butlast_last_id)
  with False assms have m: "\<not> complete m" "msg_ok L M m" and xs: "list_all (msg_ok L M) xs" "list_all complete xs"
    by (auto simp: queue_ok_def)
  from xs(2) have "List.filter complete xs = xs" by (simp add: filter_id_conv list_all_iff)
  with frames_all_complete[OF xs, of "msg_bytes m"] frames_incomplete[OF m(2,1)] m(1) show ?thesis
    by (simp add: ms queue_bytes_def open_bytes_def)
qed

section \<open>One round keeps every byte\<close>

lemma Init_msg: "msg_ok L M (CNetMessage_Init start)" "msg_bytes (CNetMessage_Init start) = []"
  "\<not> complete (CNetMessage_Init start)"
  by (simp_all add: msg_ok_def msg_bytes_def complete_def CNetMessage_Init_def)

lemma current_msgs_ok:
  assumes "queue_ok L M ms"
  shows "\<exists>xs m. current_msgs start ms = xs @ [m] \<and> list_all (msg_ok L M) xs \<and> list_all complete xs \<and>
    msg_ok L M m \<and> \<not> complete m \<and> queue_bytes (xs @ [m]) = queue_bytes ms"
proof (cases "ms = [] \<or> complete (last ms)")
  case True
  then have "list_all complete ms" using assms by (cases ms rule: rev_cases) (auto simp: queue_ok_def)
  with True assms Init_msg show ?thesis
    by (intro exI[of _ ms] exI[of _ "CNetMessage_Init start"]) (auto simp: current_msgs_def queue_ok_def queue_bytes_def)
next
  case False
  then obtain xs m where "ms = xs @ [m]" by (metis append_butlast_last_id)
  with False assms show ?thesis by (auto simp: current_msgs_def queue_ok_def)
qed

lemma take_memcpy_grow:
  "n + length p \<le> length b \<Longrightarrow> take (n + length p) (memcpy_at n p b) = take n b @ p"
  by (rule take_memcpy_at)

lemma readHeader_step:
  assumes "msg_ok L M m" "\<not> in_data m" "pch \<noteq> []" "readHeader L M pch m = (handled, m')"
  shows "handled < 0 \<and> frames L M (msg_bytes m @ pch) = None \<or>
    0 < handled \<and> nat handled \<le> length pch \<and> msg_ok L M m' \<and> msg_bytes m' = msg_bytes m @ take (nat handled) pch"
proof -
  define c where "c = min (24 - nHdrPos m) (length pch)"
  let ?b = "memcpy_at (nHdrPos m) (take c pch) (hdrbuf m)"
  have h: "length (hdrbuf m) = 24" "nHdrPos m < 24" using assms(1,2) by (auto simp: msg_ok_def)
  have c: "0 < c" "c \<le> length pch" "nHdrPos m + c \<le> 24" using h(2) assms(3) by (auto simp: c_def)
  have lb: "length ?b = 24" using h c by simp
  have tb: "take (nHdrPos m + c) ?b = msg_bytes m @ take c pch"
    using take_memcpy_at[of "nHdrPos m" "take c pch" "hdrbuf m"] h c assms(2) by (simp add: msg_bytes_def)
  have r: "(handled, m') = (let m1 = m\<lparr>hdrbuf := ?b, nHdrPos := nHdrPos m + c\<rparr> in
     if nHdrPos m + c < 24 then (int c, m1)
     else if nMessageSize (header_of_bytes L ?b) > M then (-1, m1\<lparr>hdr := header_of_bytes L ?b\<rparr>)
     else (int c, m1\<lparr>hdr := header_of_bytes L ?b, in_data := True\<rparr>))"
    using assms(4)[symmetric] h(2) unfolding readHeader_def Let_def c_def by (auto split: if_splits)
  consider (partial) "nHdrPos m + c < 24" | (large) "nHdrPos m + c = 24" "nMessageSize (header_of_bytes L ?b) > M"
    | (header) "nHdrPos m + c = 24" "\<not> nMessageSize (header_of_bytes L ?b) > M" using c(3) by linarith
  then show ?thesis
  proof cases
    case partial
    then have "handled = int c" "m' = m\<lparr>hdrbuf := ?b, nHdrPos := nHdrPos m + c\<rparr>" using r by (simp_all add: Let_def)
    moreover have "msg_bytes (m\<lparr>hdrbuf := ?b, nHdrPos := nHdrPos m + c\<rparr>) = msg_bytes m @ take c pch"
      using tb assms(2) by (simp add: msg_bytes_def)
    ultimately show ?thesis using c partial lb assms(1,2) by (simp add: msg_ok_def)
  next
    case large
    then have "handled = -1" using r by (simp add: Let_def)
    moreover have "take 24 (msg_bytes m @ pch) = ?b"
    proof -
      have "take 24 (msg_bytes m @ pch) = msg_bytes m @ take c pch"
        using large(1) h assms(2) by (auto simp: msg_bytes_def intro: arg_cong[of _ _ "\<lambda>k. take k pch"])
      with tb large(1) lb show ?thesis by simp
    qed
    moreover have "24 \<le> length (msg_bytes m @ pch)" using large(1) h c(2) assms(2) by (simp add: msg_bytes_def)
    ultimately show ?thesis using large(2) by (subst frames.simps) (simp add: Let_def)
  next
    case header
    then have "handled = int c" "m' = m\<lparr>hdrbuf := ?b, nHdrPos := nHdrPos m + c, hdr := header_of_bytes L ?b, in_data := True\<rparr>"
      using r by (simp_all add: Let_def)
    moreover have "?b = msg_bytes m @ take c pch" using tb header(1) lb by simp
    ultimately show ?thesis using c header(2) lb assms(1,2) by (simp add: msg_ok_def msg_bytes_def)
  qed
qed

lemma readData_step:
  assumes "unat M \<le> 2 ^ 31" "msg_ok L M m" "in_data m" "\<not> complete m" "pch \<noteq> []" "readData pch m = (handled, m')"
  shows "0 < handled \<and> nat handled \<le> length pch \<and> msg_ok L M m' \<and> msg_bytes m' = msg_bytes m @ take (nat handled) pch"
proof -
  define n where "n = unat (nMessageSize (hdr m))"
  define c where "c = min (n - nDataPos m) (length pch)"
  define v where "v = (if length (vRecv m) < nDataPos m + c
    then vec_grow (min n ((nDataPos m + c + 256 * 1024) mod 2 ^ 32)) (vRecv m) else vRecv m)"
  let ?v = "memcpy_at (nDataPos m) (take c pch) v"
  have m: "length (hdrbuf m) = 24" "nDataPos m \<le> length (vRecv m)" "length (vRecv m) \<le> n" "nDataPos m < n" "n \<le> 2 ^ 31"
    using assms(1-4) word_le_nat_alt[of "nMessageSize (hdr m)" M] by (auto simp: msg_ok_def complete_def n_def)
  have c: "0 < c" "c \<le> length pch" "nDataPos m + c \<le> n" using m(4) assms(5) by (auto simp: c_def)
  have v: "nDataPos m + c \<le> length v" "length v \<le> n" "take (nDataPos m) v = take (nDataPos m) (vRecv m)"
    using m c by (auto simp: v_def vec_grow_def)
  have "length ?v = length v" using v(1) c(2) by simp
  moreover have "take (nDataPos m + c) ?v = take (nDataPos m) (vRecv m) @ take c pch"
    using take_memcpy_at[of "nDataPos m" "take c pch" v] v c(2) by simp
  moreover have "(handled, m') = (int c, m\<lparr>vRecv := ?v, nDataPos := nDataPos m + c\<rparr>)"
    using assms(6)[symmetric] unfolding readData_def Let_def v_def c_def n_def by (auto split: if_splits)
  ultimately show ?thesis using m v c assms(2,3) by (auto simp: msg_ok_def msg_bytes_def n_def)
qed

lemma absorb_step:
  assumes "unat M \<le> 2 ^ 31" "msg_ok L M m" "\<not> complete m" "pch \<noteq> []" "absorb L M pch m = (handled, m')"
  shows "handled < 0 \<and> frames L M (msg_bytes m @ pch) = None \<or>
    0 < handled \<and> nat handled \<le> length pch \<and> msg_ok L M m' \<and> msg_bytes m' = msg_bytes m @ take (nat handled) pch"
  using assms readHeader_step readData_step unfolding absorb_def by (metis (full_types))

lemma stamp_ok [simp]: "msg_ok L M (stamp now m) = msg_ok L M m" "msg_bytes (stamp now m) = msg_bytes m"
  by (simp_all add: stamp_def msg_ok_def msg_bytes_def)

lemma ReceiveMsgBytes_spec:
  "unat M \<le> 2 ^ 31 \<Longrightarrow> queue_ok L M ms \<Longrightarrow>
   \<exists>ok ms'. ReceiveMsgBytes L M start now pch ms = Some (ok, ms') \<and>
     (if ok then queue_ok L M ms' \<and> queue_bytes ms' = queue_bytes ms @ pch
      else frames L M (queue_bytes ms @ pch) = None)"
proof (induction "length pch" arbitrary: pch ms rule: less_induct)
  case less
  show ?case
  proof (cases "pch = []")
    case True
    then show ?thesis using less.prems by (subst ReceiveMsgBytes.simps) (simp add: exI[of _ True])
  next
    case False
    obtain xs m where q: "current_msgs start ms = xs @ [m]" "list_all (msg_ok L M) xs" "list_all complete xs"
        "msg_ok L M m" "\<not> complete m" "queue_bytes (xs @ [m]) = queue_bytes ms"
      using current_msgs_ok[OF less.prems(2), of start] by blast
    obtain handled m' where a: "absorb L M pch m = (handled, m')" by fastforce
    have r: "ReceiveMsgBytes L M start now pch ms =
       (if handled < 0 then Some (False, xs @ [m'])
        else ReceiveMsgBytes L M start now (drop (nat handled) pch) (xs @ [stamp now m']))"
      using False by (subst ReceiveMsgBytes.simps) (simp add: q(1) a Let_def)
    from absorb_step[OF less.prems(1) q(4,5) False a] show ?thesis
    proof (elim disjE conjE)
      assume "handled < 0" "frames L M (msg_bytes m @ pch) = None"
      then show ?thesis
        using r frames_all_complete[OF q(2,3), of "msg_bytes m @ pch"]
        by (simp add: q(6)[symmetric] exI[of _ False]) (simp add: queue_bytes_def exI[of _ False])
    next
      assume h: "0 < handled" "nat handled \<le> length pch" and m': "msg_ok L M m'"
        "msg_bytes m' = msg_bytes m @ take (nat handled) pch"
      let ?ms = "xs @ [stamp now m']"
      have "queue_ok L M ?ms" using q(2,3) m' h False by (auto simp: queue_ok_def)
      moreover have "length (drop (nat handled) pch) < length pch" using h by simp
      moreover have "queue_bytes ?ms @ drop (nat handled) pch = queue_bytes (xs @ [m]) @ pch"
        using m'(2) by (simp add: queue_bytes_def)
      ultimately have "queue_bytes ?ms @ drop (nat handled) pch = queue_bytes ms @ pch"
        "queue_ok L M ?ms" "length (drop (nat handled) pch) < length pch" by (simp_all only: q(6))
      with less.hyps[of "drop (nat handled) pch" ?ms] less.prems(1) r h(1) show ?thesis
        by (metis not_less_iff_gr_or_eq)
    qed
  qed
qed

section \<open>Any number of reads\<close>

text \<open>
  \<open>ThreadSocketHandler\<close> hands each piece \<open>recv\<close> returned to \<open>ReceiveMsgBytes\<close> and drops the
  peer at the first one that is refused.
\<close>

fun ReceiveChunks ::
    "stream_lib \<Rightarrow> u32 \<Rightarrow> bytes \<Rightarrow> (int \<times> bytes) list \<Rightarrow> CNetMessage list \<Rightarrow> (bool \<times> CNetMessage list) option" where
  "ReceiveChunks L MAX_SIZE start [] ms = Some (True, ms)"
| "ReceiveChunks L MAX_SIZE start ((now, pch) # cs) ms =
     (case ReceiveMsgBytes L MAX_SIZE start now pch ms of
        None \<Rightarrow> None
      | Some (ok, ms) \<Rightarrow> if \<not> ok then Some (False, ms) else ReceiveChunks L MAX_SIZE start cs ms)"

definition stream_of :: "(int \<times> bytes) list \<Rightarrow> bytes" where
  "stream_of cs = concat (List.map snd cs)"

lemma frames_None_append: "frames L M s = None \<Longrightarrow> frames L M (s @ t) = None"
proof (induction L M s rule: frames.induct)
  case (1 L M s)
  let ?h = "header_of_bytes L (take 24 s)"
  have l: "24 \<le> length s" using 1(2) by (cases "length s < 24") auto
  show ?case
  proof (cases "nMessageSize ?h > M")
    case True
    with l show ?thesis by (subst frames.simps) (simp add: Let_def)
  next
    case False
    with 1(2) l have n: "24 + unat (nMessageSize ?h) \<le> length s" by (auto simp: frames.simps[of L M s] Let_def split: if_splits)
    with 1(2) l False have "frames L M (drop (24 + unat (nMessageSize ?h)) s) = None"
      by (auto simp: frames.simps[of L M s] Let_def split: if_splits)
    with 1(1)[OF _ refl refl] l False n have "frames L M (drop (24 + unat (nMessageSize ?h)) s @ t) = None" by simp
    with l False n show ?thesis by (subst frames.simps) (simp add: Let_def)
  qed
qed

lemma ReceiveChunks_spec:
  assumes "unat M \<le> 2 ^ 31"
  shows "queue_ok L M ms \<Longrightarrow>
   \<exists>ok ms'. ReceiveChunks L M start cs ms = Some (ok, ms') \<and>
     (if ok then queue_ok L M ms' \<and> queue_bytes ms' = queue_bytes ms @ stream_of cs
      else frames L M (queue_bytes ms @ stream_of cs) = None)"
proof (induction cs arbitrary: ms)
  case Nil
  then show ?case by (auto simp: stream_of_def intro: exI[of _ True])
next
  case (Cons c cs)
  obtain now pch where c: "c = (now, pch)" by (cases c)
  obtain ok ms1 where r: "ReceiveMsgBytes L M start now pch ms = Some (ok, ms1)"
     "if ok then queue_ok L M ms1 \<and> queue_bytes ms1 = queue_bytes ms @ pch else frames L M (queue_bytes ms @ pch) = None"
    using ReceiveMsgBytes_spec[OF assms Cons.prems, of start now pch] by blast
  show ?case
  proof (cases ok)
    case True
    with r have q: "queue_ok L M ms1" "queue_bytes ms1 @ stream_of cs = queue_bytes ms @ stream_of (c # cs)"
        "ReceiveChunks L M start (c # cs) ms = ReceiveChunks L M start cs ms1"
      by (simp_all add: c stream_of_def)
    from Cons.IH[OF q(1)] show ?thesis by (simp only: q(2,3))
  next
    case False
    with r(2) frames_None_append[of L M "queue_bytes ms @ pch" "stream_of cs"] r(1) show ?thesis
      by (simp add: c stream_of_def exI[of _ False])
  qed
qed

text \<open>C7. However the bytes of a peer are cut into reads, the receiving loop comes to an end, and what the
  queue holds depends only on their concatenation: the completed messages are the frames of the whole
  stream, in order, the message in progress holds exactly the bytes left over, and the peer is refused
  exactly when a frame of the stream announces more than \<open>MAX_SIZE\<close> bytes.\<close>
theorem ReceiveMsgBytes_frames:
  assumes "unat M \<le> 2 ^ 31"
  shows "\<exists>ok ms. ReceiveChunks L M start cs [] = Some (ok, ms) \<and>
     frames L M (stream_of cs) =
       (if ok then Some (List.map msg_frame (List.filter complete ms), open_bytes ms) else None)"
proof -
  have "queue_ok L M []" "queue_bytes [] @ stream_of cs = stream_of cs" by (simp_all add: queue_ok_def queue_bytes_def)
  from ReceiveChunks_spec[OF assms this(1), of start cs, unfolded this(2)] obtain ok ms where
    r: "ReceiveChunks L M start cs [] = Some (ok, ms)"
       "if ok then queue_ok L M ms \<and> queue_bytes ms = stream_of cs else frames L M (stream_of cs) = None"
    by blast
  then show ?thesis using queue_frames[of L M ms] by (cases ok) auto
qed

section \<open>Well-formed messages\<close>

text \<open>What a sender writes for a message: its header, then its data.\<close>

definition wire :: "stream_lib \<Rightarrow> CMessageHeader \<times> bytes \<Rightarrow> bytes" where
  "wire L f = header_bytes L (fst f) @ snd f"

definition frame_ok :: "u32 \<Rightarrow> CMessageHeader \<times> bytes \<Rightarrow> bool" where
  "frame_ok M f \<longleftrightarrow> header_ok (fst f) \<and> unat (nMessageSize (fst f)) = length (snd f) \<and> nMessageSize (fst f) \<le> M"

lemma frames_wire_Cons:
  assumes "stream_laws L" "frame_ok M f"
  shows "frames L M (wire L f @ t) = map_option (\<lambda>(fs, r). (f # fs, r)) (frames L M t)"
proof -
  have "length (header_bytes L (fst f)) = 24" "header_of_bytes L (header_bytes L (fst f)) = fst f"
    using assms by (simp_all add: length_header_bytes header_of_header_bytes frame_ok_def)
  with assms(2) show ?thesis
    by (subst frames.simps) (simp add: wire_def Let_def frame_ok_def not_less[symmetric])
qed

lemma frames_wire:
  assumes "stream_laws L"
  shows "list_all (frame_ok M) fs \<Longrightarrow> frames L M (concat (List.map (wire L) fs)) = Some (fs, [])"
  by (induction fs) (simp_all add: frames_wire_Cons[OF assms])

text \<open>A stream that breaks off inside a message yields the messages before it.\<close>

lemma frames_wire_short:
  assumes "stream_laws L" "frame_ok M f" "length s < length (wire L f)" "s = take (length s) (wire L f @ t)"
  shows "frames L M s = Some ([], s)"
proof (cases "length s < 24")
  case False
  have h: "length (header_bytes L (fst f)) = 24" "header_of_bytes L (header_bytes L (fst f)) = fst f"
    using assms(1,2) by (simp_all add: length_header_bytes header_of_header_bytes frame_ok_def)
  have "take 24 s = take 24 (take (length s) (wire L f @ t))" using assms(4) by simp
  also have "\<dots> = header_bytes L (fst f)" using False h(1) by (simp add: wire_def min_def)
  finally have "take 24 s = header_bytes L (fst f)" .
  with False h assms(2,3) show ?thesis
    by (subst frames.simps) (simp add: Let_def wire_def frame_ok_def not_less[symmetric])
qed simp

lemma frames_wire_prefix:
  assumes "stream_laws L"
  shows "list_all (frame_ok M) fs \<Longrightarrow> s @ t = concat (List.map (wire L) fs) \<Longrightarrow>
    \<exists>k r. frames L M s = Some (take k fs, r)"
proof (induction fs arbitrary: s)
  case (Cons f fs)
  show ?case
  proof (cases "length s < length (wire L f)")
    case True
    have "s = take (length s) (wire L f @ concat (List.map (wire L) fs))"
      using Cons.prems(2) by (metis append_eq_conv_conj concat.simps(2) list.simps(9))
    with frames_wire_short[OF assms _ True] Cons.prems(1) show ?thesis by (auto intro: exI[of _ 0])
  next
    case False
    let ?s = "drop (length (wire L f)) s"
    from False Cons.prems(2) have s: "s = wire L f @ ?s"
        "?s @ t = concat (List.map (wire L) fs)"
      by (auto simp: append_eq_append_conv_if split: if_splits) (metis append_take_drop_id)+
    with Cons.IH[of ?s] Cons.prems(1) obtain k r where r: "frames L M ?s = Some (take k fs, r)" by auto
    have "frames L M (wire L f @ ?s) = Some (take (Suc k) (f # fs), r)"
      using r Cons.prems(1) by (simp add: frames_wire_Cons[OF assms])
    with s(1) show ?thesis by metis
  qed
qed (auto)

section \<open>The socket of a peer\<close>

text \<open>
  The fields of a \<open>CNode\<close> that \<open>ThreadSocketHandler\<close> works on, with the two global byte counts.
  The operating system is a parameter: \<open>send\<close> is, for the number of the call and the bytes
  offered, what it returns and the error code it leaves; \<open>sk_out\<close> collects what it accepted.
\<close>

record CNodeIo =
  hSocket :: bool
  sk_out :: bytes
  vSendMsg :: "bytes list"
  nSendSize :: u64
  nSendOffset :: nat
  nSendBytes :: u64
  vRecvMsg :: "CNetMessage list"
  nRecvBytes :: u64
  nLastSend :: int
  nLastRecv :: int
  nTimeConnected :: int
  io_nVersion :: int
  nPingNonceSent :: u64
  nPingUsecStart :: int
  nRefCount :: int
  ssSend :: bytes
  fDisconnect :: bool
  nTotalBytesSent :: u64
  nTotalBytesRecv :: u64

text \<open>\<open>hSocket\<close> is whether it differs from \<open>INVALID_SOCKET\<close>; the lock is free.\<close>

definition CloseSocketDisconnect :: "CNodeIo \<Rightarrow> CNodeIo" where
  "CloseSocketDisconnect s = s\<lparr>fDisconnect := True, hSocket := False, vRecvMsg := []\<rparr>"

definition RecordBytesSent :: "u64 \<Rightarrow> CNodeIo \<Rightarrow> CNodeIo" where
  "RecordBytesSent n s = s\<lparr>nTotalBytesSent := nTotalBytesSent s + n\<rparr>"

definition RecordBytesRecv :: "u64 \<Rightarrow> CNodeIo \<Rightarrow> CNodeIo" where
  "RecordBytesRecv n s = s\<lparr>nTotalBytesRecv := nTotalBytesRecv s + n\<rparr>"

datatype sock_error = WSAEWOULDBLOCK | WSAEMSGSIZE | WSAEINTR | WSAEINPROGRESS | OtherError

type_synonym os_send = "nat \<Rightarrow> bytes \<Rightarrow> int \<times> sock_error"

definition note_sent :: "int \<Rightarrow> bytes \<Rightarrow> CNodeIo \<Rightarrow> CNodeIo" where
  "note_sent now b s = RecordBytesSent (of_nat (length b)) (s\<lparr>sk_out := sk_out s @ b, nLastSend := now,
     nSendBytes := nSendBytes s + of_nat (length b), nSendOffset := nSendOffset s + length b\<rparr>)"

definition fatal :: "sock_error \<Rightarrow> bool" where
  "fatal e \<longleftrightarrow> e \<noteq> WSAEWOULDBLOCK \<and> e \<noteq> WSAEMSGSIZE \<and> e \<noteq> WSAEINTR \<and> e \<noteq> WSAEINPROGRESS"

fun send_loop :: "os_send \<Rightarrow> int \<Rightarrow> nat \<Rightarrow> bytes list \<Rightarrow> CNodeIo \<Rightarrow> (bytes list \<times> CNodeIo) result" where
  "send_loop send now i [] s = Inr ([], s)"
| "send_loop send now i (data # it) s =
     (if \<not> nSendOffset s < length data then Inl AssertFailed
      else case send i (drop (nSendOffset s) data) of (nBytes, nErr) \<Rightarrow>
        if nBytes > 0 then
          let s = note_sent now (take (nat nBytes) (drop (nSendOffset s) data)) s in
          if nSendOffset s = length data
          then send_loop send now (Suc i) it
                 (s\<lparr>nSendOffset := 0, nSendSize := nSendSize s - of_nat (length data)\<rparr>)
          else Inr (data # it, s)
        else if nBytes < 0 \<and> fatal nErr then Inr (data # it, CloseSocketDisconnect s)
        else Inr (data # it, s))"

definition SocketSendData :: "os_send \<Rightarrow> int \<Rightarrow> CNodeIo \<Rightarrow> CNodeIo result" where
  "SocketSendData send now s =
     bindR (send_loop send now 0 (vSendMsg s) s) (\<lambda>(it, s).
     bindR (assertR (it = [] \<longrightarrow> nSendOffset s = 0)) (\<lambda>_.
     bindR (assertR (it = [] \<longrightarrow> nSendSize s = 0)) (\<lambda>_.
     Inr (s\<lparr>vSendMsg := it\<rparr>))))"

definition os_send_laws :: "os_send \<Rightarrow> bool" where
  "os_send_laws send \<longleftrightarrow> (\<forall>i d. fst (send i d) \<le> int (length d))"

text \<open>The queue: no empty message, the offset inside the first, and the size the sum of the sizes.\<close>

definition send_queue_ok :: "bytes list \<Rightarrow> CNodeIo \<Rightarrow> bool" where
  "send_queue_ok q s \<longleftrightarrow> [] \<notin> set q \<and> nSendSize s = of_nat (length (concat q)) \<and>
     (if q = [] then nSendOffset s = 0 else nSendOffset s < length (hd q))"

definition pending :: "bytes list \<Rightarrow> CNodeIo \<Rightarrow> bytes" where
  "pending q s = drop (nSendOffset s) (concat q)"

lemma send_loop_spec:
  assumes "os_send_laws send"
  shows "send_queue_ok q s \<Longrightarrow> \<exists>q' s'. send_loop send now i q s = Inr (q', s') \<and> send_queue_ok q' s' \<and>
    sk_out s' @ pending q' s' = sk_out s @ pending q s"
proof (induction q arbitrary: i s)
  case Nil
  then show ?case by simp
next
  case (Cons data it)
  let ?rest = "drop (nSendOffset s) data"
  obtain nBytes nErr where e: "send i ?rest = (nBytes, nErr)" by fastforce
  with assms have le: "nBytes \<le> int (length ?rest)" unfolding os_send_laws_def by (metis fst_conv)
  have q: "data \<noteq> []" "[] \<notin> set it" "nSendSize s = of_nat (length data) + of_nat (length (concat it))"
      "nSendOffset s < length data"
    using Cons.prems by (auto simp: send_queue_ok_def)
  show ?case
  proof (cases "nBytes > 0")
    case True
    let ?s = "note_sent now (take (nat nBytes) ?rest) s"
    have o: "nSendOffset ?s = nSendOffset s + nat nBytes" "sk_out ?s = sk_out s @ take (nat nBytes) ?rest"
        "nSendSize ?s = nSendSize s"
      using True le q(4) by (simp_all add: note_sent_def RecordBytesSent_def)
    have le': "nSendOffset s + nat nBytes \<le> length data" using True le q(4) by (simp add: nat_le_iff)
    show ?thesis
    proof (cases "nSendOffset ?s = length data")
      case full: True
      let ?s1 = "?s\<lparr>nSendOffset := 0, nSendSize := nSendSize ?s - of_nat (length data)\<rparr>"
      have "send_queue_ok it ?s1" using q(2,3) o(3) by (cases it) (auto simp: send_queue_ok_def)
      from Cons.IH[OF this, of "Suc i"] obtain q' s' where
        r: "send_loop send now (Suc i) it ?s1 = Inr (q', s')" "send_queue_ok q' s'"
           "sk_out s' @ pending q' s' = sk_out ?s1 @ pending it ?s1" by blast
      have "nat nBytes = length ?rest" using full o(1) q(4) by simp
      then have "sk_out ?s1 @ pending it ?s1 = sk_out s @ pending (data # it) s"
        using o(2) q(4) by (simp add: pending_def)
      with r q(4) e True full show ?thesis by (simp add: Let_def)
    next
      case part: False
      have "send_queue_ok (data # it) ?s" using q o le' part by (auto simp: send_queue_ok_def)
      moreover have "sk_out ?s @ pending (data # it) ?s = sk_out s @ pending (data # it) s"
        using o(1,2) le' q(4) by (simp add: pending_def drop_drop[symmetric] add.commute del: drop_drop)
      ultimately show ?thesis using part q(4) e True by (simp add: Let_def)
    qed
  next
    case False
    have "send_queue_ok (data # it) (CloseSocketDisconnect s) = send_queue_ok (data # it) s"
      "pending (data # it) (CloseSocketDisconnect s) = pending (data # it) s"
      "sk_out (CloseSocketDisconnect s) = sk_out s"
      by (simp_all add: send_queue_ok_def pending_def CloseSocketDisconnect_def)
    with False q(4) e Cons.prems show ?thesis by simp
  qed
qed

definition send_inv :: "CNodeIo \<Rightarrow> bool" where
  "send_inv s = send_queue_ok (vSendMsg s) s"

definition unsent :: "CNodeIo \<Rightarrow> bytes" where
  "unsent s = pending (vSendMsg s) s"

lemma SocketSendData_step:
  assumes "os_send_laws send" "send_inv s"
  shows "\<exists>s'. SocketSendData send now s = Inr s' \<and> send_inv s' \<and> sk_out s' @ unsent s' = sk_out s @ unsent s"
proof -
  from send_loop_spec[OF assms(1), of "vSendMsg s" s now 0] assms(2) obtain q' s' where
    r: "send_loop send now 0 (vSendMsg s) s = Inr (q', s')" "send_queue_ok q' s'"
       "sk_out s' @ pending q' s' = sk_out s @ unsent s"
    by (auto simp: send_inv_def unsent_def)
  have "send_queue_ok q' (s'\<lparr>vSendMsg := q'\<rparr>) = send_queue_ok q' s'" "pending q' (s'\<lparr>vSendMsg := q'\<rparr>) = pending q' s'"
    by (simp_all add: send_queue_ok_def pending_def)
  moreover have "q' = [] \<Longrightarrow> nSendOffset s' = 0 \<and> nSendSize s' = 0" using r(2) by (simp add: send_queue_ok_def)
  ultimately show ?thesis
    using r by (simp add: SocketSendData_def send_inv_def unsent_def)
qed

section \<open>Servicing a socket\<close>

text \<open>
  One peer in a round of \<open>ThreadSocketHandler\<close>: the receive part, the send part and the inactivity
  check, given what \<open>select\<close> flagged, what \<open>recv\<close> returned and the clock. The locks are free.
\<close>

definition TIMEOUT_INTERVAL :: int where "TIMEOUT_INTERVAL = 20 * 60"
definition BIP0031_VERSION :: int where "BIP0031_VERSION = 20000"

record os_round =
  os_send_f :: os_send
  os_recv :: "int \<times> bytes \<times> sock_error"
  os_can_recv :: bool
  os_can_send :: bool
  os_error :: bool
  os_time :: int
  os_micros :: int

definition service_recv :: "stream_lib \<Rightarrow> u32 \<Rightarrow> bytes \<Rightarrow> os_round \<Rightarrow> CNodeIo \<Rightarrow> CNodeIo option" where
  "service_recv L MAX_SIZE start os s =
     (case os_recv os of (nBytes, pchBuf, nErr) \<Rightarrow>
        if nBytes > 0 then
          (case ReceiveMsgBytes L MAX_SIZE start (os_micros os) (take (nat nBytes) pchBuf) (vRecvMsg s) of
             None \<Rightarrow> None
           | Some (ok, ms) \<Rightarrow>
               let s = s\<lparr>vRecvMsg := ms\<rparr>;
                   s = (if \<not> ok then CloseSocketDisconnect s else s);
                   s = s\<lparr>nLastRecv := os_time os, nRecvBytes := nRecvBytes s + of_int nBytes\<rparr>
               in Some (RecordBytesRecv (of_int nBytes) s))
        else if nBytes = 0 then Some (CloseSocketDisconnect s)
        else if fatal nErr then Some (CloseSocketDisconnect s)
        else Some s)"

definition check_inactivity :: "os_round \<Rightarrow> CNodeIo \<Rightarrow> CNodeIo" where
  "check_inactivity os s =
     (let nTime = os_time os in
      if nTime - nTimeConnected s > 60 then
        if nLastRecv s = 0 \<or> nLastSend s = 0 then s\<lparr>fDisconnect := True\<rparr>
        else if nTime - nLastSend s > TIMEOUT_INTERVAL then s\<lparr>fDisconnect := True\<rparr>
        else if nTime - nLastRecv s > (if io_nVersion s > BIP0031_VERSION then TIMEOUT_INTERVAL else 90 * 60)
          then s\<lparr>fDisconnect := True\<rparr>
        else if nPingNonceSent s \<noteq> 0 \<and> nPingUsecStart s + TIMEOUT_INTERVAL * 1000000 < os_micros os
          then s\<lparr>fDisconnect := True\<rparr>
        else s
      else s)"

definition service_send :: "os_round \<Rightarrow> CNodeIo \<Rightarrow> CNodeIo result" where
  "service_send os s = (if os_can_send os then SocketSendData (os_send_f os) (os_time os) s else Inr s)"

definition service_node :: "stream_lib \<Rightarrow> u32 \<Rightarrow> bytes \<Rightarrow> os_round \<Rightarrow> CNodeIo \<Rightarrow> CNodeIo result option" where
  "service_node L MAX_SIZE start os s =
     (if \<not> hSocket s then Some (Inr s)
      else case (if os_can_recv os \<or> os_error os then service_recv L MAX_SIZE start os s else Some s) of
        None \<Rightarrow> None
      | Some s \<Rightarrow>
          if \<not> hSocket s then Some (Inr s)
          else Some (bindR (service_send os s) (\<lambda>s. Inr (check_inactivity os s))))"

text \<open>What \<open>select\<close> is asked for, and which peers are dropped at the start of a round.\<close>

definition GetTotalRecvSize :: "CNodeIo \<Rightarrow> u32" where
  "GetTotalRecvSize s = fold (\<lambda>m total. total + (of_nat (length (vRecv m)) + 24)) (vRecvMsg s) 0"

definition select_send :: "CNodeIo \<Rightarrow> bool" where
  "select_send s \<longleftrightarrow> hSocket s \<and> vSendMsg s \<noteq> []"

definition select_recv :: "u32 \<Rightarrow> CNodeIo \<Rightarrow> bool" where
  "select_recv flood s \<longleftrightarrow> hSocket s \<and> \<not> select_send s \<and>
     (vRecvMsg s = [] \<or> \<not> complete (hd (vRecvMsg s)) \<or> GetTotalRecvSize s \<le> flood)"

definition node_unused :: "CNodeIo \<Rightarrow> bool" where
  "node_unused s \<longleftrightarrow> fDisconnect s \<or> (nRefCount s \<le> 0 \<and> vRecvMsg s = [] \<and> nSendSize s = 0 \<and> ssSend s = [])"

definition io_inv :: "stream_lib \<Rightarrow> u32 \<Rightarrow> CNodeIo \<Rightarrow> bool" where
  "io_inv L M s \<longleftrightarrow> send_inv s \<and> queue_ok L M (vRecvMsg s) \<and> (\<not> hSocket s \<longrightarrow> fDisconnect s)"

lemma send_inv_cong:
  "vSendMsg s = vSendMsg t \<Longrightarrow> nSendSize s = nSendSize t \<Longrightarrow> nSendOffset s = nSendOffset t \<Longrightarrow> send_inv s = send_inv t"
  by (simp add: send_inv_def send_queue_ok_def)

lemma CloseSocketDisconnect_inv: "send_inv s \<Longrightarrow> io_inv L M (CloseSocketDisconnect s)"
  by (simp add: io_inv_def CloseSocketDisconnect_def queue_ok_def send_inv_def send_queue_ok_def)

lemma service_recv_inv:
  assumes "unat M \<le> 2 ^ 31" "io_inv L M s"
  shows "\<exists>s'. service_recv L M start os s = Some s' \<and> io_inv L M s' \<and> vSendMsg s' = vSendMsg s \<and>
     sk_out s' = sk_out s \<and> unsent s' = unsent s"
proof -
  obtain n buf e where o: "os_recv os = (n, buf, e)" by (cases "os_recv os")
  have i: "send_inv s" "queue_ok L M (vRecvMsg s)" "hSocket s \<or> fDisconnect s" using assms(2) by (auto simp: io_inv_def)
  have c: "io_inv L M (CloseSocketDisconnect s)" "unsent (CloseSocketDisconnect s) = unsent s"
      "vSendMsg (CloseSocketDisconnect s) = vSendMsg s" "sk_out (CloseSocketDisconnect s) = sk_out s"
    using CloseSocketDisconnect_inv[OF i(1)] by (simp_all add: unsent_def pending_def CloseSocketDisconnect_def)
  show ?thesis
  proof (cases "n > 0")
    case True
    obtain ok ms where r: "ReceiveMsgBytes L M start (os_micros os) (take (nat n) buf) (vRecvMsg s) = Some (ok, ms)"
        "ok \<Longrightarrow> queue_ok L M ms"
      using ReceiveMsgBytes_spec[OF assms(1) i(2)] by metis
    have "io_inv L M (RecordBytesRecv (of_int n) ((if \<not> ok then CloseSocketDisconnect (s\<lparr>vRecvMsg := ms\<rparr>) else s\<lparr>vRecvMsg := ms\<rparr>)
        \<lparr>nLastRecv := os_time os, nRecvBytes := nRecvBytes s + of_int n\<rparr>))"
      using r(2) i by (cases ok) (auto simp: io_inv_def RecordBytesRecv_def CloseSocketDisconnect_def send_inv_def send_queue_ok_def queue_ok_def)
    with True show ?thesis
      by (auto simp: service_recv_def o r(1) Let_def RecordBytesRecv_def CloseSocketDisconnect_def unsent_def pending_def)
  next
    case False
    with c assms(2) show ?thesis by (auto simp: service_recv_def o)
  qed
qed

lemma check_inactivity_fields:
  "check_inactivity os s = s \<or> check_inactivity os s = s\<lparr>fDisconnect := True\<rparr>"
  by (simp add: check_inactivity_def Let_def)

lemma check_inactivity_inv:
  "io_inv L M s \<Longrightarrow> io_inv L M (check_inactivity os s)"
  "sk_out (check_inactivity os s) = sk_out s" "unsent (check_inactivity os s) = unsent s"
  using check_inactivity_fields[of os s]
  by (auto simp: io_inv_def send_inv_def send_queue_ok_def unsent_def pending_def)

lemma send_loop_recv:
  "send_loop send now i q s = Inr (q', s') \<Longrightarrow>
   vRecvMsg s' = vRecvMsg s \<and> hSocket s' = hSocket s \<and> fDisconnect s' = fDisconnect s \<or> vRecvMsg s' = [] \<and> fDisconnect s'"
  by (induction send now i q s rule: send_loop.induct)
     (auto simp: Let_def note_sent_def RecordBytesSent_def CloseSocketDisconnect_def split: if_splits prod.splits)

lemma SocketSendData_recv:
  assumes "SocketSendData send now s = Inr s'"
  shows "vRecvMsg s' = vRecvMsg s \<and> hSocket s' = hSocket s \<and> fDisconnect s' = fDisconnect s \<or> vRecvMsg s' = [] \<and> fDisconnect s'"
proof -
  from assms obtain q t where "send_loop send now 0 (vSendMsg s) s = Inr (q, t)" "s' = t\<lparr>vSendMsg := q\<rparr>"
    by (auto simp: SocketSendData_def bindR_Inr_iff)
  with send_loop_recv[of send now 0 "vSendMsg s" s q t] show ?thesis by auto
qed

lemma service_send_inv:
  assumes "os_send_laws (os_send_f os)" "io_inv L M s"
  shows "\<exists>s'. service_send os s = Inr s' \<and> io_inv L M s' \<and> sk_out s' @ unsent s' = sk_out s @ unsent s"
proof (cases "os_can_send os")
  case True
  from SocketSendData_step[OF assms(1), of s "os_time os"] assms(2) obtain s' where
    r: "SocketSendData (os_send_f os) (os_time os) s = Inr s'" "send_inv s'" "sk_out s' @ unsent s' = sk_out s @ unsent s"
    by (auto simp: io_inv_def)
  have "queue_ok L M []" by (simp add: queue_ok_def)
  with r(2) SocketSendData_recv[OF r(1)] assms(2) have "io_inv L M s'" by (auto simp: io_inv_def)
  with r True show ?thesis by (simp add: service_send_def)
qed (simp add: service_send_def assms(2))

lemma service_node_step:
  assumes "unat M \<le> 2 ^ 31" "os_send_laws (os_send_f os)" "io_inv L M s"
  shows "\<exists>s'. service_node L M start os s = Some (Inr s') \<and> io_inv L M s' \<and> sk_out s' @ unsent s' = sk_out s @ unsent s"
proof (cases "hSocket s")
  case True
  obtain s1 where s1: "(if os_can_recv os \<or> os_error os then service_recv L M start os s else Some s) = Some s1"
      "io_inv L M s1" "sk_out s1 @ unsent s1 = sk_out s @ unsent s"
    using service_recv_inv[OF assms(1,3), of start os] assms(3) by (cases "os_can_recv os \<or> os_error os") auto
  from service_send_inv[OF assms(2) s1(2)] obtain s2 where
    s2: "service_send os s1 = Inr s2" "io_inv L M s2" "sk_out s2 @ unsent s2 = sk_out s @ unsent s"
    using s1(3) by auto
  show ?thesis
    using True s1 s2 check_inactivity_inv(1)[OF s2(2)]
    by (cases "hSocket s1") (auto simp: service_node_def check_inactivity_inv(2,3))
qed (use assms(3) in \<open>simp add: service_node_def\<close>)

text \<open>A round of the socket thread on a peer comes to an end and trips none of the assertions of the
  send queue, whatever the operating system answers: the queues stay well formed, a peer without a
  socket is marked for disconnection, and the bytes accepted by the socket followed by those still
  queued are the same stream before and after.\<close>
theorem service_node_inv:
  assumes "unat M \<le> 2 ^ 31" "os_send_laws (os_send_f os)" "io_inv L M s"
  shows "\<exists>s'. service_node L M start os s = Some (Inr s') \<and> io_inv L M s' \<and> sk_out s' @ unsent s' = sk_out s @ unsent s"
  by (rule service_node_step[OF assms])

section \<open>From the send queue of one node to the receive queue of another\<close>

fun service_rounds :: "stream_lib \<Rightarrow> u32 \<Rightarrow> bytes \<Rightarrow> os_round list \<Rightarrow> CNodeIo \<Rightarrow> CNodeIo result option" where
  "service_rounds L MAX_SIZE start [] s = Some (Inr s)"
| "service_rounds L MAX_SIZE start (os # oss) s =
     (case service_node L MAX_SIZE start os s of
        None \<Rightarrow> None
      | Some (Inl e) \<Rightarrow> Some (Inl e)
      | Some (Inr s) \<Rightarrow> service_rounds L MAX_SIZE start oss s)"

lemma service_rounds_step:
  assumes "unat M \<le> 2 ^ 31"
  shows "list_all (\<lambda>os. os_send_laws (os_send_f os)) oss \<Longrightarrow> io_inv L M s \<Longrightarrow>
    \<exists>s'. service_rounds L M start oss s = Some (Inr s') \<and> io_inv L M s' \<and> sk_out s' @ unsent s' = sk_out s @ unsent s"
proof (induction oss arbitrary: s)
  case (Cons os oss)
  from service_node_step[OF assms _ Cons.prems(2), of os start] Cons.prems(1) obtain s1 where
    s1: "service_node L M start os s = Some (Inr s1)" "io_inv L M s1" "sk_out s1 @ unsent s1 = sk_out s @ unsent s"
    by auto
  from Cons.IH[OF _ s1(2)] Cons.prems(1) s1 show ?case by simp
qed simp

definition queued :: "stream_lib \<Rightarrow> (CMessageHeader \<times> bytes) list \<Rightarrow> CNodeIo \<Rightarrow> bool" where
  "queued L fs s \<longleftrightarrow> vSendMsg s = List.map (wire L) fs \<and> nSendOffset s = 0 \<and> sk_out s = [] \<and>
     nSendSize s = of_nat (length (concat (List.map (wire L) fs)))"

lemma queued_unsent: "queued L fs s \<Longrightarrow> sk_out s @ unsent s = concat (List.map (wire L) fs)"
  by (simp add: queued_def unsent_def pending_def)

lemma delivered:
  assumes "stream_laws L" "unat M \<le> 2 ^ 31" "list_all (frame_ok M) fs"
    "stream_of cs @ t = concat (List.map (wire L) fs)"
  shows "\<exists>ms k. ReceiveChunks L M start cs [] = Some (True, ms) \<and>
    List.map msg_frame (List.filter complete ms) = take k fs \<and> (t = [] \<longrightarrow> k = length fs)"
proof -
  have q: "queue_ok L M []" "queue_bytes [] @ stream_of cs = stream_of cs" by (simp_all add: queue_ok_def queue_bytes_def)
  obtain k r where f: "frames L M (stream_of cs) = Some (take k fs, r)"
    using frames_wire_prefix[OF assms(1,3,4)] by blast
  with ReceiveChunks_spec[OF assms(2) q(1), of start cs, unfolded q(2)] obtain ms where
    r: "ReceiveChunks L M start cs [] = Some (True, ms)" "queue_ok L M ms" "queue_bytes ms = stream_of cs"
    by (metis option.distinct(1))
  from queue_frames[OF r(2)] r(3) f have m: "List.map msg_frame (List.filter complete ms) = take k fs" by simp
  show ?thesis
  proof (cases "t = []")
    case True
    with assms(4) frames_wire[OF assms(1,3)] f have "take k fs = take (length fs) fs" by simp
    with r(1) m show ?thesis by metis
  next
    case False
    with r(1) m show ?thesis by blast
  qed
qed

text \<open>C8. Messages queued for a peer reach it whole and in order: after any rounds of the sender's socket
  thread, with any answers of its operating system, and any cut into reads at the receiver, the receiver
  has completed exactly a prefix of the queued messages, headers and data, and all of them once the
  send queue is empty.\<close>
theorem queued_messages_arrive:
  assumes "stream_laws L" "unat M \<le> 2 ^ 31" "list_all (\<lambda>os. os_send_laws (os_send_f os)) oss"
    "io_inv L M s" "list_all (frame_ok M) fs" "queued L fs s"
  shows "\<exists>s'. service_rounds L M start oss s = Some (Inr s') \<and>
    (\<forall>cs. stream_of cs = sk_out s' \<longrightarrow>
      (\<exists>ms k. ReceiveChunks L M start' cs [] = Some (True, ms) \<and>
        List.map msg_frame (List.filter complete ms) = take k fs \<and> (vSendMsg s' = [] \<longrightarrow> k = length fs)))"
proof -
  from service_rounds_step[OF assms(2-4), of start] obtain s' where
    s': "service_rounds L M start oss s = Some (Inr s')" "io_inv L M s'" "sk_out s' @ unsent s' = concat (List.map (wire L) fs)"
    using queued_unsent[OF assms(6)] by auto
  have u: "vSendMsg s' = [] \<Longrightarrow> unsent s' = []" by (simp add: unsent_def pending_def)
  have "\<exists>ms k. ReceiveChunks L M start' cs [] = Some (True, ms) \<and>
        List.map msg_frame (List.filter complete ms) = take k fs \<and> (vSendMsg s' = [] \<longrightarrow> k = length fs)"
    if "stream_of cs = sk_out s'" for cs
    using delivered[OF assms(1,2,5), of cs "unsent s'" start'] that s'(3) u by metis
  with s'(1) show ?thesis by blast
qed

section \<open>Concrete values\<close>

definition demo_lib :: stream_lib where
  "demo_lib = \<lparr>put_u32 = (\<lambda>x. [ucast x, ucast (drop_bit 8 x), ucast (drop_bit 16 x), ucast (drop_bit 24 x)]),
     get_u32 = (\<lambda>b. ucast (b ! 0) OR push_bit 8 (ucast (b ! 1)) OR push_bit 16 (ucast (b ! 2)) OR
        push_bit 24 (ucast (b ! 3)))\<rparr>"

lemma demo_lib_laws: "stream_laws demo_lib"
proof -
  have "ucast (ucast x :: byte) OR push_bit 8 (ucast (ucast (drop_bit 8 x) :: byte)) OR
     push_bit 16 (ucast (ucast (drop_bit 16 x) :: byte)) OR push_bit 24 (ucast (ucast (drop_bit 24 x) :: byte)) = x"
    for x :: u32
  proof (rule bit_word_eqI)
    fix n
    assume "n < LENGTH(32)"
    then show "bit (ucast (ucast x :: byte) OR push_bit 8 (ucast (ucast (drop_bit 8 x) :: byte)) OR
       push_bit 16 (ucast (ucast (drop_bit 16 x) :: byte)) OR push_bit 24 (ucast (ucast (drop_bit 24 x) :: byte)) :: u32) n = bit x n"
      by (cases "24 \<le> n"; cases "16 \<le> n") (auto simp: bit_simps)
  qed
  then show ?thesis by (simp add: stream_laws_def demo_lib_def)
qed

definition demo_frame :: "CMessageHeader \<times> bytes" where
  "demo_frame = (mk_header [1, 2, 3, 4] [0x70, 0x6f, 0x6e, 0x67] 2, [7, 8])"

lemma demo_frame_ok: "frame_ok 0x02000000 demo_frame"
  by (simp add: frame_ok_def demo_frame_def header_ok_def mk_header_def strncpy_def COMMAND_SIZE_def)

lemma demo_wire: "wire demo_lib demo_frame =
    [1, 2, 3, 4, 0x70, 0x6f, 0x6e, 0x67, 0, 0, 0, 0, 0, 0, 0, 0, 2, 0, 0, 0, 0, 0, 0, 0, 7, 8]"
  by code_simp

definition demo_node :: CNodeIo where
  "demo_node = \<lparr>hSocket = True, sk_out = [], vSendMsg = [wire demo_lib demo_frame],
     nSendSize = 26, nSendOffset = 0, nSendBytes = 0, vRecvMsg = [], nRecvBytes = 0, nLastSend = 0, nLastRecv = 0,
     nTimeConnected = 0, io_nVersion = 70002, nPingNonceSent = 0, nPingUsecStart = 0, nRefCount = 1, ssSend = [],
     fDisconnect = False, nTotalBytesSent = 0, nTotalBytesRecv = 0\<rparr>"

text \<open>An operating system that takes at most ten bytes a call.\<close>

definition demo_os :: os_round where
  "demo_os = \<lparr>os_send_f = (\<lambda>i d. (int (min 10 (length d)), WSAEWOULDBLOCK)), os_recv = (-1, [], WSAEWOULDBLOCK),
     os_can_recv = True, os_can_send = True, os_error = False, os_time = 5, os_micros = 5000000\<rparr>"

lemma demo_os_ok: "os_send_laws (os_send_f demo_os)"
  by (simp add: os_send_laws_def demo_os_def)

lemma demo_node_inv: "io_inv demo_lib 0x02000000 demo_node"
  by (simp add: io_inv_def send_inv_def send_queue_ok_def demo_node_def demo_wire queue_ok_def)

theorem ReceiveMsgBytes_frames_witness:
  "\<exists>ok ms. ReceiveChunks demo_lib 0x02000000 [1, 2, 3, 4] [(1, [1, 2, 3]), (2, [4, 5])] [] = Some (ok, ms) \<and>
     frames demo_lib 0x02000000 (stream_of [(1, [1, 2, 3]), (2, [4, 5])]) =
       (if ok then Some (List.map msg_frame (List.filter complete ms), open_bytes ms) else None)"
  by (rule ReceiveMsgBytes_frames) simp

theorem service_node_inv_witness:
  "\<exists>s'. service_node demo_lib 0x02000000 [1, 2, 3, 4] demo_os demo_node = Some (Inr s') \<and>
     io_inv demo_lib 0x02000000 s' \<and> sk_out s' @ unsent s' = sk_out demo_node @ unsent demo_node"
  by (rule service_node_inv[OF _ demo_os_ok demo_node_inv]) simp

theorem queued_messages_arrive_witness:
  "\<exists>s'. service_rounds demo_lib 0x02000000 [1, 2, 3, 4] [demo_os, demo_os, demo_os] demo_node = Some (Inr s') \<and>
    (\<forall>cs. stream_of cs = sk_out s' \<longrightarrow>
      (\<exists>ms k. ReceiveChunks demo_lib 0x02000000 [1, 2, 3, 4] cs [] = Some (True, ms) \<and>
        List.map msg_frame (List.filter complete ms) = take k [demo_frame] \<and>
        (vSendMsg s' = [] \<longrightarrow> k = length [demo_frame])))"
  by (rule queued_messages_arrive[OF demo_lib_laws])
     (simp_all add: demo_os_ok demo_node_inv demo_frame_ok queued_def demo_wire, simp_all add: demo_node_def demo_wire)

end
