(* ===== verification/StdMap.thy ===== *)
theory StdMap
  imports Prelude
begin

text \<open>
  \<open>std::map\<close> as the list of its entries in the order of the keys, which is the order in
  which the C++ code iterates: lookup is \<open>map_of\<close>, assignment through \<open>operator[]\<close> is
  \<open>smap_put\<close>, \<open>erase\<close> is \<open>smap_del\<close>. The locale \<open>key_store\<close> is what the clients rely
  on; it is interpreted on these three operations.
\<close>

section \<open>The operations\<close>

type_synonym ('k, 'v) smap = "('k \<times> 'v) list"

definition smap_ok :: "('k::linorder, 'v) smap \<Rightarrow> bool" where
  "smap_ok m = sorted_wrt (<) (List.map fst m)"

fun smap_put :: "'k::linorder \<Rightarrow> 'v \<Rightarrow> ('k, 'v) smap \<Rightarrow> ('k, 'v) smap" where
  "smap_put k v [] = [(k, v)]"
| "smap_put k v ((a, b) # m) =
     (if k < a then (k, v) # (a, b) # m
      else if k = a then (k, v) # m
      else (a, b) # smap_put k v m)"

definition smap_del :: "'k::linorder \<Rightarrow> ('k, 'v) smap \<Rightarrow> ('k, 'v) smap" where
  "smap_del k m = List.filter (\<lambda>e. fst e \<noteq> k) m"

lemma smap_ok_Nil [simp]: "smap_ok []"
  by (simp add: smap_ok_def)

lemma smap_ok_Cons: "smap_ok ((a, b) # m) \<longleftrightarrow> (\<forall>x \<in> fst ` set m. a < x) \<and> smap_ok m"
  by (simp add: smap_ok_def)

lemma smap_ok_distinct: "smap_ok m \<Longrightarrow> distinct (List.map fst m)"
  by (simp add: smap_ok_def strict_sorted_iff)

lemma keys_smap_put [simp]: "fst ` set (smap_put k v m) = insert k (fst ` set m)"
  by (induction k v m rule: smap_put.induct) auto

lemma smap_ok_put: "smap_ok m \<Longrightarrow> smap_ok (smap_put k v m)"
  by (induction k v m rule: smap_put.induct) (auto simp: smap_ok_Cons)

lemma map_of_smap_put: "smap_ok m \<Longrightarrow> map_of (smap_put k v m) = (map_of m)(k \<mapsto> v)"
proof (induction k v m rule: smap_put.induct)
  case (2 k v a b m)
  have "k < a \<Longrightarrow> map_of m k = None" if "\<forall>x \<in> fst ` set m. a < x"
    using that by (metis map_of_eq_None_iff order_less_imp_not_less)
  then show ?case
    using 2 by (auto simp: smap_ok_Cons fun_upd_twist)
qed simp

lemma smap_put_not_Nil [simp]: "smap_put k v m \<noteq> []"
  by (cases m) (auto split: if_splits)

lemma smap_ok_del: "smap_ok m \<Longrightarrow> smap_ok (smap_del k m)"
  by (induction m) (auto simp: smap_del_def smap_ok_Cons)

lemma map_of_smap_del: "map_of (smap_del k m) = (map_of m)(k := None)"
  by (induction m) (auto simp: smap_del_def)

section \<open>The interface\<close>

locale key_store =
  fixes ok :: "'m \<Rightarrow> bool"
    and lookup :: "'m \<Rightarrow> 'k \<Rightarrow> 'v option"
    and put :: "'k \<Rightarrow> 'v \<Rightarrow> 'm \<Rightarrow> 'm"
    and del :: "'k \<Rightarrow> 'm \<Rightarrow> 'm"
  assumes ok_put: "ok m \<Longrightarrow> ok (put k v m)"
    and lookup_put: "ok m \<Longrightarrow> lookup (put k v m) = (lookup m)(k \<mapsto> v)"
    and ok_del: "ok m \<Longrightarrow> ok (del k m)"
    and lookup_del: "ok m \<Longrightarrow> lookup (del k m) = (lookup m)(k := None)"
begin

lemma ok_fold: "ok m \<Longrightarrow> ok (fold (\<lambda>x. put (f x) (g x)) xs m)"
  by (induction xs arbitrary: m) (auto intro: ok_put)

text \<open>Entries stored one after the other under distinct keys are all found.\<close>

lemma lookup_fold:
  assumes "ok m" "distinct (List.map f xs)"
  shows "lookup (fold (\<lambda>x. put (f x) (g x)) xs m) = lookup m ++ map_of (List.map (\<lambda>x. (f x, g x)) xs)"
  using assms
proof (induction xs arbitrary: m)
  case (Cons x xs)
  have "map_of (List.map (\<lambda>x. (f x, g x)) xs) (f x) = None"
    using Cons.prems by (auto simp: map_of_eq_None_iff)
  with Cons show ?case
    by (auto simp: ok_put lookup_put fun_eq_iff map_add_def split: option.splits)
qed simp

lemma lookup_del_put: "ok m \<Longrightarrow> lookup m k = None \<Longrightarrow> lookup (del k (put k v m)) = lookup m"
  by (auto simp: ok_put lookup_del lookup_put)

lemma lookup_put_idem: "ok m \<Longrightarrow> lookup m k = Some v \<Longrightarrow> lookup (put k v m) = lookup m"
  by (auto simp: lookup_put)

end

interpretation smap: key_store smap_ok map_of smap_put smap_del
  by unfold_locales (simp_all add: smap_ok_put map_of_smap_put smap_ok_del map_of_smap_del)

lemmas smap_simps = smap.ok_put smap.lookup_put smap.ok_del smap.lookup_del

end
