(* ===== verification/NetPeer.thy ===== *)
theory NetPeer
  imports NetAddr Containers NetMsg StdMap
begin

text \<open>
  What the node keeps about itself and its peers in net.cpp and net.h: its own addresses and their
  scores, the reachable and limited networks, bans, the requests scheduled by \<open>AskFor\<close>, the
  transactions kept for relaying, inventory and addresses queued for a peer, and \<open>RecvLine\<close>. The
  clock, the listening port, random numbers and Bloom filters are parameters; locks are free.
\<close>

section \<open>The order of reachability\<close>

fun reach_code :: "Reachability \<Rightarrow> nat" where
  "reach_code REACH_UNREACHABLE = 0"
| "reach_code REACH_DEFAULT = 1"
| "reach_code REACH_TEREDO = 2"
| "reach_code REACH_IPV6_WEAK = 3"
| "reach_code REACH_IPV4 = 4"
| "reach_code REACH_IPV6_STRONG = 5"
| "reach_code REACH_PRIVATE = 6"

lemma reach_code_inject: "reach_code a = reach_code b \<longleftrightarrow> a = b"
  by (cases a; cases b) simp_all

instantiation Reachability :: linorder
begin

definition less_Reachability :: "Reachability \<Rightarrow> Reachability \<Rightarrow> bool" where
  "less_Reachability a b \<longleftrightarrow> reach_code a < reach_code b"

definition less_eq_Reachability :: "Reachability \<Rightarrow> Reachability \<Rightarrow> bool" where
  "less_eq_Reachability a b \<longleftrightarrow> reach_code a \<le> reach_code b"

instance
  by intro_classes (auto simp: less_Reachability_def less_eq_Reachability_def reach_code_inject)

end

section \<open>Local addresses\<close>

record LocalServiceInfo =
  nScore :: int
  nPort :: u16

record net_local =
  fDiscover :: bool
  fListen :: bool
  mapLocalHost :: "(bytes, LocalServiceInfo) smap"
  vfReachable :: "bool list"
  vfLimited :: "bool list"

definition net_local_Init :: net_local where
  "net_local_Init = \<lparr>fDiscover = True, fListen = True, mapLocalHost = [], vfReachable = replicate NET_MAX False,
     vfLimited = replicate NET_MAX False\<rparr>"

definition LOCAL_MANUAL :: int where "LOCAL_MANUAL = 4"

text \<open>One entry in the loop of \<open>GetLocal\<close>: the best so far is the reachability (as a number, -1 at first), the score and the address.\<close>

definition better_local :: "CNetAddr option \<Rightarrow> bytes \<times> LocalServiceInfo \<Rightarrow> int \<times> int \<times> CService option \<Rightarrow> int \<times> int \<times> CService option" where
  "better_local paddrPeer it best =
     (case best of (nBestReachability, nBestScore, addr) \<Rightarrow>
        let nReachability = int (reach_code (GetReachabilityFrom \<lparr>ip = fst it\<rparr> paddrPeer)) in
        if nReachability > nBestReachability \<or> (nReachability = nBestReachability \<and> nScore (snd it) > nBestScore)
        then (nReachability, nScore (snd it), Some (mk_service \<lparr>ip = fst it\<rparr> (nPort (snd it))))
        else best)"

definition GetLocal :: "CNetAddr option \<Rightarrow> net_local \<Rightarrow> bool \<times> CService option" where
  "GetLocal paddrPeer s =
     (if \<not> fListen s then (False, None)
      else case fold (better_local paddrPeer) (mapLocalHost s) (-1, -1, None) of
        (nBestReachability, nBestScore, addr) \<Rightarrow> (nBestScore \<ge> 0, addr))"

definition GetnScore :: "'a CNetAddr_scheme \<Rightarrow> net_local \<Rightarrow> int" where
  "GetnScore addr s = (case map_of (mapLocalHost s) (ip addr) of None \<Rightarrow> 0 | Some info \<Rightarrow> nScore info)"

definition SetReachable :: "Network \<Rightarrow> bool \<Rightarrow> net_local \<Rightarrow> net_local" where
  "SetReachable net fFlag s =
     (let s = s\<lparr>vfReachable := (vfReachable s)[net_code net := fFlag]\<rparr> in
      if net = NET_IPV6 \<and> fFlag then s\<lparr>vfReachable := (vfReachable s)[net_code NET_IPV4 := True]\<rparr> else s)"

definition SetLimited :: "Network \<Rightarrow> bool \<Rightarrow> net_local \<Rightarrow> net_local" where
  "SetLimited net fLimited s =
     (if net = NET_UNROUTABLE then s else s\<lparr>vfLimited := (vfLimited s)[net_code net := fLimited]\<rparr>)"

definition IsLimited :: "Network \<Rightarrow> net_local \<Rightarrow> bool" where
  "IsLimited net s = vfLimited s ! net_code net"

definition IsReachable :: "Network \<Rightarrow> net_local \<Rightarrow> bool" where
  "IsReachable net s \<longleftrightarrow> vfReachable s ! net_code net \<and> \<not> vfLimited s ! net_code net"

definition AddLocal :: "CService \<Rightarrow> int \<Rightarrow> net_local \<Rightarrow> bool \<times> net_local" where
  "AddLocal addr score s =
     (if \<not> IsRoutable addr then (False, s)
      else if \<not> fDiscover s \<and> score < LOCAL_MANUAL then (False, s)
      else if IsLimited (GetNetwork addr) s then (False, s)
      else
        let already = map_of (mapLocalHost s) (ip addr);
            info = (case already of None \<Rightarrow> \<lparr>nScore = 0, nPort = 0\<rparr> | Some i \<Rightarrow> i);
            info = (if already = None \<or> score \<ge> nScore info
                    then \<lparr>nScore = score + (if already \<noteq> None then 1 else 0), nPort = port addr\<rparr> else info);
            s = s\<lparr>mapLocalHost := smap_put (ip addr) info (mapLocalHost s)\<rparr>
        in (True, SetReachable (GetNetwork addr) True s))"

definition SeenLocal :: "CService \<Rightarrow> net_local \<Rightarrow> bool \<times> net_local" where
  "SeenLocal addr s =
     (case map_of (mapLocalHost s) (ip addr) of
        None \<Rightarrow> (False, s)
      | Some info \<Rightarrow> (True, s\<lparr>mapLocalHost := smap_put (ip addr) (info\<lparr>nScore := nScore info + 1\<rparr>) (mapLocalHost s)\<rparr>))"

definition net_IsLocal :: "CService \<Rightarrow> net_local \<Rightarrow> bool" where
  "net_IsLocal addr s \<longleftrightarrow> map_of (mapLocalHost s) (ip addr) \<noteq> None"

text \<open>The address given to a peer: \<open>own\<close> stands for 0.0.0.0 with the listening port.\<close>

definition GetLocalAddress :: "CService \<Rightarrow> u64 \<Rightarrow> u32 \<Rightarrow> CNetAddr option \<Rightarrow> net_local \<Rightarrow> CAddress" where
  "GetLocalAddress own nLocalServices now paddrPeer s =
     (let ret = (case GetLocal paddrPeer s of
           (True, Some addr) \<Rightarrow> mk_address addr NODE_NETWORK
         | _ \<Rightarrow> mk_address own 0)
      in ret\<lparr>nServices := nLocalServices, nTime := now\<rparr>)"

definition IsPeerAddrLocalGood :: "CAddress \<Rightarrow> CService \<Rightarrow> net_local \<Rightarrow> bool" where
  "IsPeerAddrLocalGood addr addrLocal s \<longleftrightarrow>
     fDiscover s \<and> IsRoutable addr \<and> IsRoutable addrLocal \<and> \<not> IsLimited (GetNetwork addrLocal) s"

section \<open>Bans\<close>

definition IsBanned :: "int \<Rightarrow> 'a CNetAddr_scheme \<Rightarrow> (bytes, int) smap \<Rightarrow> bool" where
  "IsBanned now a setBanned = (case map_of setBanned (ip a) of None \<Rightarrow> False | Some t \<Rightarrow> now < t)"

definition Ban :: "int \<Rightarrow> int \<Rightarrow> 'a CNetAddr_scheme \<Rightarrow> (bytes, int) smap \<Rightarrow> bool \<times> (bytes, int) smap" where
  "Ban now bantime a setBanned =
     (let banTime = now + bantime;
          old = (case map_of setBanned (ip a) of None \<Rightarrow> 0 | Some t \<Rightarrow> t)
      in (True, smap_put (ip a) (if old < banTime then banTime else old) setBanned))"

section \<open>Scheduled requests\<close>

definition MAX_INV_SZ :: nat where "MAX_INV_SZ = 50000"
definition MAPASKFOR_MAX_SZ :: nat where "MAPASKFOR_MAX_SZ = MAX_INV_SZ"

record asking =
  mapAskFor :: "(int \<times> CInv) list"
  mapAlreadyAskedFor :: "(CInv, int) limitedmap"
  ask_nLastTime :: int

text \<open>A \<open>multimap\<close> keeps its entries in the order of the keys, equal keys in the order of insertion (\<open>rmap_insert\<close>).\<close>

definition remember :: "CInv \<Rightarrow> int \<Rightarrow> (CInv, int) limitedmap \<Rightarrow> (CInv, int) limitedmap result" where
  "remember i nRequestTime asked =
     (if Mapping.lookup (lm_map asked) i \<noteq> None then lm_update i nRequestTime asked else lm_insert (i, nRequestTime) asked)"

definition AskFor :: "int \<Rightarrow> CInv \<Rightarrow> asking \<Rightarrow> asking result" where
  "AskFor micros i s =
     (if length (mapAskFor s) > MAPASKFOR_MAX_SZ then Inr s
      else
        let it = Mapping.lookup (lm_map (mapAlreadyAskedFor s)) i;
            nRequestTime = (case it of Some t \<Rightarrow> t | None \<Rightarrow> 0);
            nNow = max (micros - 1000000) (ask_nLastTime s + 1);
            s = s\<lparr>ask_nLastTime := nNow\<rparr>;
            nRequestTime = max (nRequestTime + 2 * 60 * 1000000) nNow
        in bindR (remember i nRequestTime (mapAlreadyAskedFor s)) (\<lambda>asked.
           Inr (s\<lparr>mapAlreadyAskedFor := asked, mapAskFor := rmap_insert nRequestTime i (mapAskFor s)\<rparr>)))"

section \<open>Queues for a peer\<close>

definition MAX_ADDR_TO_SEND :: nat where "MAX_ADDR_TO_SEND = 1000"

record 'f peer_queues =
  vAddrToSend :: "CAddress list"
  setAddrKnown :: "CAddress mruset"
  setInventoryKnown :: "CInv mruset"
  vInventoryToSend :: "CInv list"
  fRelayTxes :: bool
  pfilter :: "'f option"

definition AddAddressKnown :: "CAddress \<Rightarrow> 'f peer_queues \<Rightarrow> 'f peer_queues" where
  "AddAddressKnown addr p = p\<lparr>setAddrKnown := snd (mru_insert addr (setAddrKnown p))\<rparr>"

definition PushAddress :: "nat \<Rightarrow> CAddress \<Rightarrow> 'f peer_queues \<Rightarrow> 'f peer_queues" where
  "PushAddress rnd addr p =
     (if IsValid addr \<and> mru_count addr (setAddrKnown p) = 0 then
        if length (vAddrToSend p) \<ge> MAX_ADDR_TO_SEND
        then p\<lparr>vAddrToSend := (vAddrToSend p)[rnd mod length (vAddrToSend p) := addr]\<rparr>
        else p\<lparr>vAddrToSend := vAddrToSend p @ [addr]\<rparr>
      else p)"

definition AddInventoryKnown :: "CInv \<Rightarrow> 'f peer_queues \<Rightarrow> 'f peer_queues" where
  "AddInventoryKnown i p = p\<lparr>setInventoryKnown := snd (mru_insert i (setInventoryKnown p))\<rparr>"

definition PushInventory :: "CInv \<Rightarrow> 'f peer_queues \<Rightarrow> 'f peer_queues" where
  "PushInventory i p =
     (if mru_count i (setInventoryKnown p) = 0 then p\<lparr>vInventoryToSend := vInventoryToSend p @ [i]\<rparr> else p)"

section \<open>Relayed transactions\<close>

record relay_state =
  mapRelay :: "CInv \<Rightarrow> bytes option"
  vRelayExpiration :: "(int \<times> CInv) list"

fun expire_relay :: "int \<Rightarrow> (int \<times> CInv) list \<Rightarrow> (CInv \<Rightarrow> bytes option) \<Rightarrow> (CInv \<Rightarrow> bytes option) \<times> (int \<times> CInv) list" where
  "expire_relay now [] m = (m, [])"
| "expire_relay now ((t, i) # q) m = (if t < now then expire_relay now q (m(i := None)) else (m, (t, i) # q))"

definition keep_relay :: "int \<Rightarrow> CInv \<Rightarrow> bytes \<Rightarrow> relay_state \<Rightarrow> relay_state" where
  "keep_relay now i ss s =
     (case expire_relay now (vRelayExpiration s) (mapRelay s) of (m, q) \<Rightarrow>
        \<lparr>mapRelay = (if m i = None then m(i := Some ss) else m), vRelayExpiration = q @ [(now + 15 * 60, i)]\<rparr>)"

definition relay_to_peer :: "('tx \<Rightarrow> 'f \<Rightarrow> bool \<times> 'f) \<Rightarrow> 'tx \<Rightarrow> CInv \<Rightarrow> 'f peer_queues \<Rightarrow> 'f peer_queues" where
  "relay_to_peer IsRelevantAndUpdate tx i p =
     (if \<not> fRelayTxes p then p
      else case pfilter p of
        Some f \<Rightarrow>
          (case IsRelevantAndUpdate tx f of (relevant, f) \<Rightarrow>
             let p = p\<lparr>pfilter := Some f\<rparr> in if relevant then PushInventory i p else p)
      | None \<Rightarrow> PushInventory i p)"

definition RelayTransaction ::
    "('tx \<Rightarrow> nat) \<Rightarrow> ('tx \<Rightarrow> bytes) \<Rightarrow> ('tx \<Rightarrow> 'f \<Rightarrow> bool \<times> 'f) \<Rightarrow> int \<Rightarrow> 'tx \<Rightarrow>
     relay_state \<times> 'f peer_queues list \<Rightarrow> relay_state \<times> 'f peer_queues list" where
  "RelayTransaction GetHash serialize IsRelevantAndUpdate now tx s =
     (let i = \<lparr>inv_type = 1, inv_hash = GetHash tx\<rparr> in
      (keep_relay now i (serialize tx) (fst s), List.map (relay_to_peer IsRelevantAndUpdate tx i) (snd s)))"

section \<open>A line from a socket\<close>

text \<open>What the one-byte \<open>recv\<close> yields; the list is what happens on the socket, None when it ends before the loop does.\<close>

datatype recv_event = RecvByte byte | RecvClosed | RecvError sock_error

fun recv_line :: "recv_event list \<Rightarrow> bytes \<Rightarrow> (bool \<times> bytes \<times> recv_event list) option" where
  "recv_line [] strLine = None"
| "recv_line (RecvByte c # es) strLine =
     (if c = 0x0A then recv_line es strLine
      else if c = 0x0D then Some (True, strLine, es)
      else if length (strLine @ [c]) \<ge> 9000 then Some (True, strLine @ [c], es)
      else recv_line es (strLine @ [c]))"
| "recv_line (RecvClosed # es) strLine =
     (if strLine \<noteq> [] then Some (True, strLine, es) else Some (False, strLine, es))"
| "recv_line (RecvError e # es) strLine =
     (if e = WSAEMSGSIZE then recv_line es strLine
      else if e = WSAEWOULDBLOCK \<or> e = WSAEINTR \<or> e = WSAEINPROGRESS then recv_line es strLine
      else if strLine \<noteq> [] then Some (True, strLine, es)
      else Some (False, strLine, es))"

definition RecvLine :: "recv_event list \<Rightarrow> (bool \<times> bytes \<times> recv_event list) option" where
  "RecvLine es = recv_line es []"

section \<open>The best local address\<close>

definition local_reach :: "CNetAddr option \<Rightarrow> bytes \<times> LocalServiceInfo \<Rightarrow> Reachability" where
  "local_reach p e = GetReachabilityFrom \<lparr>ip = fst e\<rparr> p"

definition at_least :: "CNetAddr option \<Rightarrow> bytes \<times> LocalServiceInfo \<Rightarrow> bytes \<times> LocalServiceInfo \<Rightarrow> bool" where
  "at_least p e e' \<longleftrightarrow> local_reach p e' < local_reach p e \<or>
     (local_reach p e' = local_reach p e \<and> nScore (snd e') \<le> nScore (snd e))"

definition as_best :: "CNetAddr option \<Rightarrow> bytes \<times> LocalServiceInfo \<Rightarrow> int \<times> int \<times> CService option" where
  "as_best p e = (int (reach_code (local_reach p e)), nScore (snd e), Some (mk_service \<lparr>ip = fst e\<rparr> (nPort (snd e))))"

lemma at_least_trans: "at_least p a b \<Longrightarrow> at_least p b c \<Longrightarrow> at_least p a c"
  by (auto simp: at_least_def)

lemma better_local_as_best:
  "better_local p e (as_best p e0) = as_best p (if at_least p e0 e then e0 else e)"
  by (auto simp: better_local_def as_best_def at_least_def local_reach_def Let_def less_Reachability_def
      reach_code_inject not_less)

lemma fold_better_local:
  "\<exists>e. fold (better_local p) es (as_best p e0) = as_best p e \<and> e \<in> insert e0 (set es) \<and>
     (\<forall>e' \<in> insert e0 (set es). at_least p e e')"
proof (induction es arbitrary: e0)
  case Nil
  then show ?case by (intro exI[of _ e0]) (simp add: at_least_def)
next
  case (Cons x es)
  let ?e1 = "if at_least p e0 x then e0 else x"
  have f: "fold (better_local p) (x # es) (as_best p e0) = fold (better_local p) es (as_best p ?e1)"
    by (simp add: better_local_as_best)
  from Cons.IH[of ?e1] obtain e where e: "fold (better_local p) es (as_best p ?e1) = as_best p e"
    "e \<in> insert ?e1 (set es)" "\<forall>e' \<in> insert ?e1 (set es). at_least p e e'" by blast
  have "at_least p ?e1 e0 \<and> at_least p ?e1 x" by (auto simp: at_least_def)
  with e(3) at_least_trans have "\<forall>e' \<in> insert e0 (set (x # es)). at_least p e e'" by (metis insert_iff list.simps(15))
  moreover have "e \<in> insert e0 (set (x # es))" using e(2) by (auto split: if_splits)
  ultimately show ?case using f e(1) by metis
qed

text \<open>A node that listens and knows an address of its own always has one to give to a peer, and gives one
  that is reachable from there as well as any, with the highest score among those.\<close>
theorem GetLocal_best:
  assumes "\<forall>e \<in> set (mapLocalHost s). 0 \<le> nScore (snd e)" "fListen s" "mapLocalHost s \<noteq> []"
  shows "\<exists>e \<in> set (mapLocalHost s). GetLocal p s = (True, Some (mk_service \<lparr>ip = fst e\<rparr> (nPort (snd e)))) \<and>
    (\<forall>e' \<in> set (mapLocalHost s). GetReachabilityFrom \<lparr>ip = fst e'\<rparr> p \<le> GetReachabilityFrom \<lparr>ip = fst e\<rparr> p \<and>
       (GetReachabilityFrom \<lparr>ip = fst e'\<rparr> p = GetReachabilityFrom \<lparr>ip = fst e\<rparr> p \<longrightarrow> nScore (snd e') \<le> nScore (snd e)))"
proof -
  obtain x es where m: "mapLocalHost s = x # es" using assms(3) by (cases "mapLocalHost s") auto
  have "better_local p x (-1, -1, None) = as_best p x"
    by (simp add: better_local_def as_best_def local_reach_def Let_def)
  with fold_better_local[of p es x] obtain e where e: "fold (better_local p) (mapLocalHost s) (-1, -1, None) = as_best p e"
    "e \<in> set (mapLocalHost s)" "\<forall>e' \<in> set (mapLocalHost s). at_least p e e'" unfolding m by auto
  then show ?thesis using assms(1,2)
    by (intro bexI[of _ e]) (auto simp: GetLocal_def as_best_def at_least_def local_reach_def)
qed

section \<open>Scores, reachable and limited networks\<close>

definition net_ok :: "net_local \<Rightarrow> bool" where
  "net_ok s \<longleftrightarrow> smap_ok (mapLocalHost s) \<and> length (vfReachable s) = NET_MAX \<and> length (vfLimited s) = NET_MAX \<and>
     (\<forall>e \<in> set (mapLocalHost s). 0 \<le> nScore (snd e))"

inductive local_step :: "net_local \<Rightarrow> net_local \<Rightarrow> bool" where
  step_add: "0 \<le> score \<Longrightarrow> local_step s (snd (AddLocal addr score s))"
| step_seen: "local_step s (snd (SeenLocal addr s))"
| step_limited: "local_step s (SetLimited net f s)"
| step_reachable: "local_step s (SetReachable net f s)"

definition scores_le :: "net_local \<Rightarrow> net_local \<Rightarrow> bool" where
  "scores_le s s' \<longleftrightarrow> (\<forall>a info. map_of (mapLocalHost s) a = Some info \<longrightarrow>
     (\<exists>info'. map_of (mapLocalHost s') a = Some info' \<and> nScore info \<le> nScore info'))"

lemma scores_le_refl [simp]: "scores_le s s"
  by (simp add: scores_le_def)

lemma scores_le_trans: "scores_le a b \<Longrightarrow> scores_le b c \<Longrightarrow> scores_le a c"
  unfolding scores_le_def by (meson order_trans)

lemma SetReachable_fields [simp]:
  "mapLocalHost (SetReachable net f s) = mapLocalHost s" "vfLimited (SetReachable net f s) = vfLimited s"
  "length (vfReachable (SetReachable net f s)) = length (vfReachable s)"
  by (simp_all add: SetReachable_def Let_def)

lemma SetReachable_ok: "net_ok s \<Longrightarrow> net_ok (SetReachable net f s) \<and> scores_le s (SetReachable net f s)"
  by (simp add: net_ok_def scores_le_def)

lemma put_local_ok:
  assumes "net_ok s" "0 \<le> nScore info" "\<And>i. map_of (mapLocalHost s) a = Some i \<Longrightarrow> nScore i \<le> nScore info"
  shows "net_ok (s\<lparr>mapLocalHost := smap_put a info (mapLocalHost s)\<rparr>) \<and>
    scores_le s (s\<lparr>mapLocalHost := smap_put a info (mapLocalHost s)\<rparr>)"
proof -
  have "set (smap_put a info m) \<subseteq> insert (a, info) (set m)" for m
    by (induction a info m rule: smap_put.induct) auto
  with assms show ?thesis by (fastforce simp: net_ok_def scores_le_def smap_simps)
qed

lemma local_step_ok: "local_step s s' \<Longrightarrow> net_ok s \<Longrightarrow> net_ok s' \<and> scores_le s s'"
proof (induction rule: local_step.induct)
  case (step_add score s addr)
  let ?old = "map_of (mapLocalHost s) (ip addr)"
  let ?i0 = "case ?old of None \<Rightarrow> \<lparr>nScore = 0, nPort = 0\<rparr> | Some i \<Rightarrow> i"
  let ?i = "if ?old = None \<or> score \<ge> nScore ?i0 then \<lparr>nScore = score + (if ?old \<noteq> None then 1 else 0), nPort = port addr\<rparr> else ?i0"
  let ?s = "s\<lparr>mapLocalHost := smap_put (ip addr) ?i (mapLocalHost s)\<rparr>"
  have "0 \<le> nScore ?i \<and> (\<forall>i. ?old = Some i \<longrightarrow> nScore i \<le> nScore ?i)"
  proof (cases ?old)
    case (Some i)
    from map_of_SomeD[OF Some] step_add.prems have "0 \<le> nScore i" by (fastforce simp: net_ok_def)
    with Some show ?thesis by simp
  qed (simp add: step_add)
  then have "net_ok ?s \<and> scores_le s ?s" by (intro put_local_ok[OF step_add.prems]) auto
  with SetReachable_ok[of ?s "GetNetwork addr" True]
  have "net_ok (SetReachable (GetNetwork addr) True ?s) \<and> scores_le s (SetReachable (GetNetwork addr) True ?s)"
    by (blast intro: scores_le_trans)
  moreover have "snd (AddLocal addr score s) = s \<or> snd (AddLocal addr score s) = SetReachable (GetNetwork addr) True ?s"
    by (simp add: AddLocal_def Let_def)
  ultimately show ?case using step_add.prems by (elim disjE) simp_all
next
  case (step_seen s addr)
  then show ?case
  proof (cases "map_of (mapLocalHost s) (ip addr)")
    case (Some info)
    from map_of_SomeD[OF Some] step_seen have "0 \<le> nScore info" by (fastforce simp: net_ok_def)
    with put_local_ok[OF step_seen, of "info\<lparr>nScore := nScore info + 1\<rparr>" "ip addr"] Some show ?thesis
      by (simp add: SeenLocal_def)
  qed (simp add: SeenLocal_def)
next
  case (step_limited s net f)
  then show ?case by (simp add: SetLimited_def net_ok_def scores_le_def)
next
  case (step_reachable s net f)
  then show ?case by (rule SetReachable_ok)
qed

text \<open>However local addresses are added, voted for, and networks limited or declared reachable, the score
  of a local address never goes down and no local address is forgotten.\<close>
theorem local_scores_grow:
  assumes "local_step\<^sup>*\<^sup>* s s'" "net_ok s" "map_of (mapLocalHost s) a = Some info"
  shows "\<exists>info'. map_of (mapLocalHost s') a = Some info' \<and> nScore info \<le> nScore info'"
proof -
  have "net_ok s' \<and> scores_le s s'"
    using assms(1,2) by (induction rule: rtranclp_induct) (auto dest: local_step_ok scores_le_trans)
  with assms(3) show ?thesis by (simp add: scores_le_def)
qed

text \<open>An address that \<open>AddLocal\<close> takes is one of the node's from then on, and its network is one the node
  can connect to.\<close>
theorem AddLocal_reachable:
  assumes "net_ok s" "fst (AddLocal addr score s)"
  shows "net_IsLocal addr (snd (AddLocal addr score s)) \<and> IsReachable (GetNetwork addr) (snd (AddLocal addr score s))"
proof -
  have n: "net_code (GetNetwork addr) < length (vfReachable s)" using assms(1)
    by (cases "GetNetwork addr") (simp_all add: net_ok_def NET_MAX_def)
  have c: "net_code NET_IPV4 < length (vfReachable s)" using assms(1) by (simp add: net_ok_def NET_MAX_def)
  have l: "\<not> IsLimited (GetNetwork addr) s" using assms(2) by (auto simp: AddLocal_def split: if_splits)
  have ok: "smap_ok (mapLocalHost s)" using assms(1) by (simp add: net_ok_def)
  from assms(2) obtain m where m: "snd (AddLocal addr score s) = SetReachable (GetNetwork addr) True (s\<lparr>mapLocalHost := m\<rparr>)"
      "map_of m (ip addr) \<noteq> None"
    by (auto simp: AddLocal_def Let_def smap_simps[OF ok] split: if_splits)
  have "vfReachable (SetReachable (GetNetwork addr) True (s\<lparr>mapLocalHost := m\<rparr>)) ! net_code (GetNetwork addr)"
    using n c by (auto simp: SetReachable_def Let_def nth_list_update)
  with m l show ?thesis by (auto simp: net_IsLocal_def IsReachable_def IsLimited_def)
qed

section \<open>Bans add up\<close>

definition ban_all :: "(int \<times> int \<times> bytes) list \<Rightarrow> (bytes, int) smap \<Rightarrow> (bytes, int) smap" where
  "ban_all bans m = fold (\<lambda>(now, bantime, a). \<lambda>m. snd (Ban now bantime \<lparr>ip = a\<rparr> m)) bans m"

lemma Ban_one:
  assumes "smap_ok m" "0 \<le> now'"
  shows "smap_ok (snd (Ban now bt \<lparr>ip = b\<rparr> m)) \<and>
    (IsBanned now' \<lparr>ip = a\<rparr> (snd (Ban now bt \<lparr>ip = b\<rparr> m)) \<longleftrightarrow> IsBanned now' \<lparr>ip = a\<rparr> m \<or> (a = b \<and> now' < now + bt))"
  using assms by (auto simp: Ban_def Let_def IsBanned_def smap_simps split: option.splits)

text \<open>After any bans, in any order, an address is banned at a time exactly when one of the bans of that
  address ends later: a ban is never shortened by another one.\<close>
theorem bans_add_up:
  assumes "0 \<le> now'"
  shows "IsBanned now' \<lparr>ip = a\<rparr> (ban_all bans []) \<longleftrightarrow> (\<exists>(now, bantime, b) \<in> set bans. b = a \<and> now' < now + bantime)"
proof -
  have "smap_ok m \<Longrightarrow> IsBanned now' \<lparr>ip = a\<rparr> (ban_all bans m) \<longleftrightarrow>
      IsBanned now' \<lparr>ip = a\<rparr> m \<or> (\<exists>(now, bantime, b) \<in> set bans. b = a \<and> now' < now + bantime)" for m
  proof (induction bans arbitrary: m)
    case (Cons x bans)
    obtain now bt b where x: "x = (now, bt, b)" by (cases x)
    from Ban_one[OF Cons.prems assms, of now bt b a] Cons.IH[of "snd (Ban now bt \<lparr>ip = b\<rparr> m)"] show ?case
      by (auto simp: ban_all_def x)
  qed (simp add: ban_all_def)
  from this[of "[]"] show ?thesis by (simp add: IsBanned_def)
qed

section \<open>Requests are spaced\<close>

definition asking_ok :: "asking \<Rightarrow> bool" where
  "asking_ok s \<longleftrightarrow> lm_bounded (mapAlreadyAskedFor s) \<and> sorted (map fst (mapAskFor s)) \<and>
     length (mapAskFor s) \<le> MAPASKFOR_MAX_SZ + 1"

lemma lm_update_ok:
  assumes "lm_bounded s" "Mapping.lookup (lm_map s) k = Some w"
  shows "\<exists>s'. lm_update k v s = Inr s' \<and> lm_bounded s' \<and> lm_map s' = Mapping.update k v (lm_map s)"
proof -
  have inv: "lm_inv s" using assms(1) by (simp add: lm_bounded_def)
  note rm = lm_inv_remove[OF inv assms(2)]
  let ?t = "s\<lparr>lm_map := Mapping.delete k (lm_map s), lm_rmap := remove1 (w, k) (lm_rmap s)\<rparr>"
  have "Mapping.update k v (Mapping.delete k (lm_map s)) = Mapping.update k v (lm_map s)"
    by (intro mapping_eqI) (simp add: Mapping.lookup_update' lookup_delete_if)
  with lm_inv_add[OF rm(2), of k v] have
    "lm_inv (s\<lparr>lm_map := Mapping.update k v (lm_map s), lm_rmap := rmap_insert v k (remove1 (w, k) (lm_rmap s))\<rparr>)"
    by (simp add: lookup_delete_if)
  moreover have "(w, k) \<in> set (lm_rmap s)" using inv assms(2) by (simp add: lm_inv_def)
  then have "length (remove1 (w, k) (lm_rmap s)) + 1 = length (lm_rmap s)"
    using length_pos_if_in_set[of "(w, k)" "lm_rmap s"] by (simp add: length_remove1)
  ultimately show ?thesis using assms(1) rm(1) assms(2) by (auto simp: lm_update_def lm_bounded_def)
qed

lemma lm_insert_lookup:
  assumes "lm_bounded s" "Mapping.lookup (lm_map s) k = None"
  shows "\<exists>s'. lm_insert (k, v) s = Inr s' \<and> lm_bounded s' \<and> Mapping.lookup (lm_map s') k = Some v"
proof -
  have inv: "lm_inv s" using assms(1) by (simp add: lm_bounded_def)
  obtain s' where s': "lm_insert (k, v) s = Inr s'" "lm_bounded s'" "k \<in> lm_keys s'"
    using lm_bounded_insert[OF assms(1), of "(k, v)"] by auto
  then have "Mapping.lookup (lm_map s') k \<noteq> None" by (simp add: lm_keys_def keys_dom_lookup dom_def)
  with s'(1) have "Mapping.lookup (lm_map s') k = Some v"
    unfolding lm_insert_new[OF inv assms(2)]
    by (auto simp: Mapping.lookup_update' lookup_delete_if split: if_splits list.splits)
  with s' show ?thesis by blast
qed

text \<open>C36. A request for an object is scheduled, at least two minutes after the time the object was last
  scheduled for (while that is remembered), no earlier than a second before now, and later than the
  clock of every request made before; requests stay ordered by their time and their number bounded.\<close>
theorem AskFor_spaced:
  assumes "asking_ok s" "length (mapAskFor s) \<le> MAPASKFOR_MAX_SZ"
  shows "\<exists>s' t. AskFor micros i s = Inr s' \<and> asking_ok s' \<and> set (mapAskFor s') = insert (t, i) (set (mapAskFor s)) \<and>
    Mapping.lookup (lm_map (mapAlreadyAskedFor s')) i = Some t \<and> micros - 1000000 \<le> t \<and> ask_nLastTime s < ask_nLastTime s' \<and>
    ask_nLastTime s' \<le> t \<and>
    (\<forall>p. Mapping.lookup (lm_map (mapAlreadyAskedFor s)) i = Some p \<longrightarrow> p + 2 * 60 * 1000000 \<le> t)"
proof -
  let ?it = "Mapping.lookup (lm_map (mapAlreadyAskedFor s)) i"
  let ?now = "max (micros - 1000000) (ask_nLastTime s + 1)"
  let ?t = "max ((case ?it of Some t \<Rightarrow> t | None \<Rightarrow> 0) + 2 * 60 * 1000000) ?now"
  have b: "lm_bounded (mapAlreadyAskedFor s)" using assms(1) by (simp add: asking_ok_def)
  obtain asked where a: "remember i ?t (mapAlreadyAskedFor s) = Inr asked"
      "lm_bounded asked" "Mapping.lookup (lm_map asked) i = Some ?t"
  proof (cases ?it)
    case None
    with lm_insert_lookup[OF b None, of ?t] show thesis by (auto intro: that simp: remember_def)
  next
    case (Some p)
    with lm_update_ok[OF b Some, of ?t] show thesis by (auto intro: that simp: remember_def)
  qed
  let ?s = "s\<lparr>ask_nLastTime := ?now, mapAlreadyAskedFor := asked, mapAskFor := rmap_insert ?t i (mapAskFor s)\<rparr>"
  have "AskFor micros i s = Inr ?s" using assms(2) a(1) by (simp add: AskFor_def Let_def)
  moreover have "asking_ok ?s" using assms a(2) by (simp add: asking_ok_def rmap_insert_sorted)
  ultimately show ?thesis using a(3) by (intro exI[of _ ?s] exI[of _ ?t]) auto
qed

section \<open>Relayed transactions expire\<close>

definition relay_ok :: "int \<Rightarrow> relay_state \<Rightarrow> bool" where
  "relay_ok now s \<longleftrightarrow> sorted (map fst (vRelayExpiration s)) \<and> (\<forall>e \<in> set (vRelayExpiration s). fst e \<le> now + 15 * 60) \<and>
     (\<forall>i. mapRelay s i \<noteq> None \<longrightarrow> i \<in> snd ` set (vRelayExpiration s))"

lemma expire_relay_spec:
  "sorted (map fst q) \<Longrightarrow> \<forall>i. m i \<noteq> None \<longrightarrow> i \<in> snd ` set q \<Longrightarrow> expire_relay now q m = (m', q') \<Longrightarrow>
   sorted (map fst q') \<and> set q' = {e \<in> set q. now \<le> fst e} \<and> (\<forall>i. m' i \<noteq> None \<longrightarrow> i \<in> snd ` set q')"
proof (induction now q m rule: expire_relay.induct)
  case (2 now t i q m)
  show ?case
  proof (cases "t < now")
    case True
    have k: "\<forall>j. (m(i := None)) j \<noteq> None \<longrightarrow> j \<in> snd ` set q" using 2(3) by auto
    have "sorted (map fst q)" "expire_relay now q (m(i := None)) = (m', q')" using 2(2,4) True by simp_all
    from 2(1)[OF True this(1) k this(2)] True show ?thesis by auto
  next
    case False
    have "\<forall>e \<in> set ((t, i) # q). now \<le> fst e" using 2(2) False by auto
    moreover have "m' = m" "q' = (t, i) # q" using 2(4) False by simp_all
    ultimately show ?thesis using 2(2,3) by auto
  qed
qed simp

fun keep_all :: "(int \<times> CInv \<times> bytes) list \<Rightarrow> relay_state \<Rightarrow> relay_state" where
  "keep_all [] s = s"
| "keep_all ((now, i, ss) # xs) s = keep_all xs (keep_relay now i ss s)"

lemma keep_relay_ok:
  assumes "relay_ok t s" "t \<le> now"
  shows "relay_ok now (keep_relay now i ss s) \<and> mapRelay (keep_relay now i ss s) i \<noteq> None \<and>
    (\<forall>e \<in> set (vRelayExpiration (keep_relay now i ss s)). now \<le> fst e)"
proof -
  obtain m q where e: "expire_relay now (vRelayExpiration s) (mapRelay s) = (m, q)" by fastforce
  have r: "sorted (map fst (vRelayExpiration s))" "\<forall>i. mapRelay s i \<noteq> None \<longrightarrow> i \<in> snd ` set (vRelayExpiration s)"
      "\<forall>e \<in> set (vRelayExpiration s). fst e \<le> t + 15 * 60"
    using assms(1) by (simp_all add: relay_ok_def)
  from expire_relay_spec[OF r(1,2) e] have q: "sorted (map fst q)" "set q = {e \<in> set (vRelayExpiration s). now \<le> fst e}"
      "\<forall>i. m i \<noteq> None \<longrightarrow> i \<in> snd ` set q" by blast+
  have k: "keep_relay now i ss s = \<lparr>mapRelay = (if m i = None then m(i := Some ss) else m),
      vRelayExpiration = q @ [(now + 15 * 60, i)]\<rparr>" by (simp add: keep_relay_def e)
  have le: "\<forall>e \<in> set q. fst e \<le> now + 15 * 60" using q(2) r(3) assms(2) by fastforce
  have "relay_ok now (keep_relay now i ss s)"
    using q(1,3) le by (auto simp: relay_ok_def k sorted_append split: if_splits)
  moreover have "mapRelay (keep_relay now i ss s) i \<noteq> None" by (simp add: k)
  ultimately show ?thesis using q(2) by (simp add: k)
qed

text \<open>After any relays at times that do not go back, the last transaction is held for the peers that ask for
  it, and everything held has an expiration still ahead, at most fifteen minutes: nothing is kept
  for good.\<close>
theorem relays_expire:
  assumes "sorted (map fst (xs @ [(now, i, ss)]))"
  shows "let s = keep_all (xs @ [(now, i, ss)]) \<lparr>mapRelay = (\<lambda>i. None), vRelayExpiration = []\<rparr> in
    mapRelay s i \<noteq> None \<and>
    (\<forall>j. mapRelay s j \<noteq> None \<longrightarrow> (\<exists>t. (t, j) \<in> set (vRelayExpiration s) \<and> now \<le> t \<and> t \<le> now + 15 * 60))"
proof -
  have app: "keep_all (xs @ [(now, i, ss)]) s = keep_relay now i ss (keep_all xs s)" for s
    by (induction xs s rule: keep_all.induct) simp_all
  have run: "relay_ok t s \<Longrightarrow> \<forall>x \<in> set xs. t \<le> fst x \<Longrightarrow> sorted (map fst xs) \<Longrightarrow> \<forall>x \<in> set xs. fst x \<le> now \<Longrightarrow> t \<le> now \<Longrightarrow>
      relay_ok now (keep_all xs s)" for t s
  proof (induction xs s arbitrary: t rule: keep_all.induct)
    case (1 s)
    then show ?case by (auto simp: relay_ok_def)
  next
    case (2 u j b xs s)
    then have "relay_ok u (keep_relay u j b s)" using keep_relay_ok[of t s u] by simp
    with 2 show ?case by simp
  qed
  let ?t = "fst (hd (xs @ [(now, i, ss)]))"
  have "relay_ok ?t \<lparr>mapRelay = (\<lambda>i. None), vRelayExpiration = []\<rparr>" by (simp add: relay_ok_def)
  moreover have "\<forall>x \<in> set xs. ?t \<le> fst x" "sorted (map fst xs)" "\<forall>x \<in> set xs. fst x \<le> now" "?t \<le> now"
    using assms by (cases xs; auto simp: sorted_append)+
  ultimately have "relay_ok now (keep_all xs \<lparr>mapRelay = (\<lambda>i. None), vRelayExpiration = []\<rparr>)" by (rule run)
  from keep_relay_ok[OF this order_refl, of i ss] show ?thesis
    by (fastforce simp: app Let_def relay_ok_def)
qed

section \<open>Lines\<close>

lemma recv_line_clean:
  "recv_line es line0 = Some (ok, line, rest) \<Longrightarrow> length line0 < 9000 \<Longrightarrow> 0x0A \<notin> set line0 \<Longrightarrow> 0x0D \<notin> set line0 \<Longrightarrow>
   length line \<le> 9000 \<and> 0x0A \<notin> set line \<and> 0x0D \<notin> set line"
  by (induction es line0 rule: recv_line.induct) (auto split: if_splits)

text \<open>A line of fewer than 9000 characters, ended by a carriage return, is read as it was sent, line feeds left out.\<close>

lemma recv_line_reads:
  "0x0D \<notin> set cs \<Longrightarrow> length line0 + length (List.filter (\<lambda>c. c \<noteq> 0x0A) cs) < 9000 \<Longrightarrow>
   recv_line (List.map RecvByte cs @ RecvByte 0x0D # rest) line0 = Some (True, line0 @ List.filter (\<lambda>c. c \<noteq> 0x0A) cs, rest)"
  by (induction cs arbitrary: line0) (auto split: if_splits)

section \<open>Concrete peers\<close>

definition demo_local :: net_local where
  "demo_local = net_local_Init\<lparr>mapLocalHost := [([8, 8], \<lparr>nScore = 1, nPort = 55707\<rparr>), ([9, 9], \<lparr>nScore = 4, nPort = 55707\<rparr>)]\<rparr>"

lemma demo_local_ok: "net_ok demo_local"
  by (simp add: net_ok_def demo_local_def net_local_Init_def smap_ok_def)

theorem GetLocal_best_witness:
  "\<exists>e \<in> set (mapLocalHost demo_local). GetLocal None demo_local = (True, Some (mk_service \<lparr>ip = fst e\<rparr> (nPort (snd e)))) \<and>
    (\<forall>e' \<in> set (mapLocalHost demo_local). GetReachabilityFrom \<lparr>ip = fst e'\<rparr> (None :: CNetAddr option) \<le> GetReachabilityFrom \<lparr>ip = fst e\<rparr> (None :: CNetAddr option) \<and>
       (GetReachabilityFrom \<lparr>ip = fst e'\<rparr> (None :: CNetAddr option) = GetReachabilityFrom \<lparr>ip = fst e\<rparr> (None :: CNetAddr option) \<longrightarrow> nScore (snd e') \<le> nScore (snd e)))"
  by (rule GetLocal_best) (simp_all add: demo_local_def net_local_Init_def)

definition demo_service :: CService where
  "demo_service = \<lparr>ip = [0, 0, 0, 0, 0, 0, 0, 0, 0, 0, 0xff, 0xff, 8, 8, 8, 8], port = 55707\<rparr>"

theorem local_scores_grow_witness:
  "\<exists>info'. map_of (mapLocalHost (snd (SeenLocal demo_service demo_local))) [9, 9] = Some info' \<and> 4 \<le> nScore info'"
proof -
  have "local_step\<^sup>*\<^sup>* demo_local (snd (SeenLocal demo_service demo_local))" by (rule r_into_rtranclp) (rule step_seen)
  from local_scores_grow[OF this demo_local_ok, of "[9, 9]" "\<lparr>nScore = 4, nPort = 55707\<rparr>"] show ?thesis
    by (simp add: demo_local_def)
qed

lemma demo_service_routable: "IsRoutable demo_service"
  by code_simp

theorem AddLocal_reachable_witness:
  "net_IsLocal demo_service (snd (AddLocal demo_service 4 demo_local)) \<and>
   IsReachable (GetNetwork demo_service) (snd (AddLocal demo_service 4 demo_local))"
proof (rule AddLocal_reachable[OF demo_local_ok])
  have "net_code (GetNetwork demo_service) < 4" by (cases "GetNetwork demo_service") simp_all
  then have "\<not> IsLimited (GetNetwork demo_service) demo_local"
    by (simp add: IsLimited_def demo_local_def net_local_Init_def NET_MAX_def del: replicate.simps)
  then show "fst (AddLocal demo_service 4 demo_local)"
    by (simp add: AddLocal_def demo_service_routable LOCAL_MANUAL_def Let_def)
qed

theorem bans_add_up_witness:
  "IsBanned 150 \<lparr>ip = [1]\<rparr> (ban_all [(0, 200, [1]), (10, 20, [1])] []) \<longleftrightarrow>
    (\<exists>(now, bantime, b) \<in> set [(0, 200, [1]), (10, 20, [1 :: byte])]. b = [1] \<and> (150 :: int) < now + bantime)"
  by (rule bans_add_up) simp

definition demo_asking :: asking where
  "demo_asking = \<lparr>mapAskFor = [], mapAlreadyAskedFor = lm_init MAX_INV_SZ, ask_nLastTime = 0\<rparr>"

lemma demo_asking_ok: "asking_ok demo_asking"
  by (simp add: asking_ok_def demo_asking_def lm_init_bounded MAX_INV_SZ_def)

theorem AskFor_spaced_witness:
  "\<exists>s' t. AskFor 7000000 \<lparr>inv_type = 1, inv_hash = 9\<rparr> demo_asking = Inr s' \<and> asking_ok s' \<and>
    set (mapAskFor s') = insert (t, \<lparr>inv_type = 1, inv_hash = 9\<rparr>) (set (mapAskFor demo_asking)) \<and>
    Mapping.lookup (lm_map (mapAlreadyAskedFor s')) \<lparr>inv_type = 1, inv_hash = 9\<rparr> = Some t \<and> 7000000 - 1000000 \<le> t \<and>
    ask_nLastTime demo_asking < ask_nLastTime s' \<and> ask_nLastTime s' \<le> t \<and>
    (\<forall>p. Mapping.lookup (lm_map (mapAlreadyAskedFor demo_asking)) \<lparr>inv_type = 1, inv_hash = 9\<rparr> = Some p \<longrightarrow>
       p + 2 * 60 * 1000000 \<le> t)"
  by (rule AskFor_spaced[OF demo_asking_ok]) (simp add: demo_asking_def)

theorem relays_expire_witness:
  "let s = keep_all ([(5, \<lparr>inv_type = 1, inv_hash = 3\<rparr>, [1])] @ [(2000, \<lparr>inv_type = 1, inv_hash = 9\<rparr>, [2])])
         \<lparr>mapRelay = (\<lambda>i. None), vRelayExpiration = []\<rparr> in
    mapRelay s \<lparr>inv_type = 1, inv_hash = 9\<rparr> \<noteq> None \<and>
    (\<forall>j. mapRelay s j \<noteq> None \<longrightarrow> (\<exists>t. (t, j) \<in> set (vRelayExpiration s) \<and> 2000 \<le> t \<and> t \<le> 2000 + 15 * 60))"
  by (rule relays_expire) simp

end
