(* ===== verification/Alert.thy ===== *)
theory Alert
  imports StdMap
begin

text \<open>
  Network alerts (alert.cpp): signed messages that apply to ranges of versions, cancel one another
  and expire. \<open>mapAlerts\<close> is a \<open>std::map\<close> keyed by the hash of the signed message. The hash, the
  signature check with the alert key, the deserialization, the user agent and \<open>SanitizeString\<close>
  (none of them in the repository) are parameters; \<open>GetAdjustedTime\<close> is the argument \<open>now\<close>, the
  same during one call. alert.h is not in the repository either: the fields are those that
  \<open>SetNull\<close> resets.
\<close>

section \<open>Alerts\<close>

record CUnsignedAlert =
  al_nVersion :: int
  nRelayUntil :: int
  nExpiration :: int
  nID :: int
  nCancel :: int
  setCancel :: "int set"
  nMinVer :: int
  nMaxVer :: int
  setSubVer :: "string set"
  nPriority :: int
  strComment :: string
  strStatusBar :: string
  strReserved :: string

record CAlert = CUnsignedAlert +
  vchMsg :: bytes
  al_vchSig :: bytes

definition CUnsignedAlert_Null :: CUnsignedAlert where
  "CUnsignedAlert_Null = \<lparr>al_nVersion = 1, nRelayUntil = 0, nExpiration = 0, nID = 0, nCancel = 0, setCancel = {},
     nMinVer = 0, nMaxVer = 0, setSubVer = {}, nPriority = 0, strComment = '''', strStatusBar = '''',
     strReserved = ''''\<rparr>"

definition with_unsigned :: "CUnsignedAlert \<Rightarrow> CAlert \<Rightarrow> CAlert" where
  "with_unsigned u a = CUnsignedAlert.extend u (CAlert.fields (vchMsg a) (al_vchSig a))"

definition CAlert_Null :: CAlert where
  "CAlert_Null = CUnsignedAlert.extend CUnsignedAlert_Null (CAlert.fields [] [])"

definition alert_IsNull :: "CAlert \<Rightarrow> bool" where
  "alert_IsNull a \<longleftrightarrow> nExpiration a = 0"

record alert_env =
  ae_Hash :: "bytes \<Rightarrow> nat"
  ae_Verify :: "nat \<Rightarrow> bytes \<Rightarrow> bool"
  ae_unserialize :: "bytes \<Rightarrow> CUnsignedAlert result"
  ae_subver :: string
  ae_alertnotify :: string
  ae_Sanitize :: "string \<Rightarrow> string"

definition alert_GetHash :: "alert_env \<Rightarrow> CAlert \<Rightarrow> nat" where
  "alert_GetHash E a = ae_Hash E (vchMsg a)"

definition IsInEffect :: "int \<Rightarrow> CAlert \<Rightarrow> bool" where
  "IsInEffect now a \<longleftrightarrow> now < nExpiration a"

definition Cancels :: "int \<Rightarrow> CAlert \<Rightarrow> CAlert \<Rightarrow> bool" where
  "Cancels now self alert =
     (if \<not> IsInEffect now self then False
      else nID alert \<le> nCancel self \<or> nID alert \<in> setCancel self)"

definition AppliesTo :: "int \<Rightarrow> int \<Rightarrow> string \<Rightarrow> CAlert \<Rightarrow> bool" where
  "AppliesTo now nVersion strSubVerIn a \<longleftrightarrow>
     IsInEffect now a \<and> nMinVer a \<le> nVersion \<and> nVersion \<le> nMaxVer a \<and>
     (setSubVer a = {} \<or> strSubVerIn \<in> setSubVer a)"

definition PROTOCOL_VERSION :: int where "PROTOCOL_VERSION = 20000"

definition AppliesToMe :: "alert_env \<Rightarrow> int \<Rightarrow> CAlert \<Rightarrow> bool" where
  "AppliesToMe E now a = AppliesTo now PROTOCOL_VERSION (ae_subver E) a"

text \<open>A peer: what it announced, the alerts it is known to have, and the alerts pushed to it.\<close>

record alert_peer =
  peer_nVersion :: int
  peer_strSubVer :: string
  setKnown :: "nat set"
  peer_pushed :: "CAlert list"

definition RelayTo :: "alert_env \<Rightarrow> int \<Rightarrow> CAlert \<Rightarrow> alert_peer \<Rightarrow> bool \<times> alert_peer" where
  "RelayTo E now a pnode =
     (if \<not> IsInEffect now a then (False, pnode)
      else if peer_nVersion pnode = 0 then (False, pnode)
      else if alert_GetHash E a \<notin> setKnown pnode then
        let pnode = pnode\<lparr>setKnown := insert (alert_GetHash E a) (setKnown pnode)\<rparr> in
        if AppliesTo now (peer_nVersion pnode) (peer_strSubVer pnode) a \<or> AppliesToMe E now a \<or> now < nRelayUntil a
        then (True, pnode\<lparr>peer_pushed := peer_pushed pnode @ [a]\<rparr>)
        else (False, pnode)
      else (False, pnode))"

definition alert_CheckSignature :: "alert_env \<Rightarrow> CAlert \<Rightarrow> (bool \<times> CAlert) result" where
  "alert_CheckSignature E a =
     (if \<not> ae_Verify E (ae_Hash E (vchMsg a)) (al_vchSig a) then Inr (False, a)
      else bindR (ae_unserialize E (vchMsg a)) (\<lambda>u. Inr (True, with_unsigned u a)))"

section \<open>The map of alerts\<close>

datatype alert_event = AlertDeleted nat | AlertNew nat | RunCommand string

record alert_state =
  mapAlerts :: "(nat, CAlert) smap"
  al_events :: "alert_event list"

definition getAlertByHash :: "nat \<Rightarrow> alert_state \<Rightarrow> CAlert" where
  "getAlertByHash h s = (case map_of (mapAlerts s) h of Some a \<Rightarrow> a | None \<Rightarrow> CAlert_Null)"

text \<open>\<open>boost::replace_all\<close> with \<open>%s\<close>, and the command of \<open>-alertnotify\<close>.\<close>

fun replace_s :: "string \<Rightarrow> string \<Rightarrow> string" where
  "replace_s by (c # d # cs) = (if c = CHR ''%'' \<and> d = CHR ''s'' then by @ replace_s by cs else c # replace_s by (d # cs))"
| "replace_s by cs = cs"

definition Notify :: "alert_env \<Rightarrow> string \<Rightarrow> alert_state \<Rightarrow> alert_state" where
  "Notify E strMessage s =
     (let strCmd = ae_alertnotify E in
      if strCmd = [] then s
      else
        let singleQuote = [CHR 0x27];
            safeStatus = ae_Sanitize E strMessage;
            safeStatus = singleQuote @ safeStatus @ singleQuote
        in s\<lparr>al_events := al_events s @ [RunCommand (replace_s safeStatus strCmd)]\<rparr>)"

definition maxInt :: int where "maxInt = 2147483647"

definition reserved_ok :: "CAlert \<Rightarrow> bool" where
  "reserved_ok a \<longleftrightarrow> nExpiration a = maxInt \<and> nCancel a = maxInt - 1 \<and> nMinVer a = 0 \<and> nMaxVer a = maxInt \<and>
     setSubVer a = {} \<and> nPriority a = maxInt \<and>
     strStatusBar a = ''URGENT: Alert key compromised, upgrade required''"

definition erase_alert :: "nat \<Rightarrow> alert_state \<Rightarrow> alert_state" where
  "erase_alert k s = s\<lparr>al_events := al_events s @ [AlertDeleted k], mapAlerts := smap_del k (mapAlerts s)\<rparr>"

fun cancel_loop :: "int \<Rightarrow> CAlert \<Rightarrow> (nat, CAlert) smap \<Rightarrow> alert_state \<Rightarrow> alert_state" where
  "cancel_loop now self [] s = s"
| "cancel_loop now self ((k, alert) # it) s =
     (if Cancels now self alert then cancel_loop now self it (erase_alert k s)
      else if \<not> IsInEffect now alert then cancel_loop now self it (erase_alert k s)
      else cancel_loop now self it s)"

text \<open>\<open>map::insert\<close> keeps an entry that is there already.\<close>

definition smap_insert :: "nat \<Rightarrow> 'v \<Rightarrow> (nat, 'v) smap \<Rightarrow> (nat, 'v) smap" where
  "smap_insert k v m = (if map_of m k = None then smap_put k v m else m)"

definition accept_alert :: "alert_env \<Rightarrow> int \<Rightarrow> CAlert \<Rightarrow> alert_state \<Rightarrow> alert_state" where
  "accept_alert E now self s =
     (let s = s\<lparr>mapAlerts := smap_insert (alert_GetHash E self) self (mapAlerts s)\<rparr> in
      if AppliesToMe E now self
      then Notify E (strStatusBar self) (s\<lparr>al_events := al_events s @ [AlertNew (alert_GetHash E self)]\<rparr>)
      else s)"

definition ProcessAlert :: "alert_env \<Rightarrow> int \<Rightarrow> CAlert \<Rightarrow> alert_state \<Rightarrow> (bool \<times> alert_state) result" where
  "ProcessAlert E now self s =
     bindR (alert_CheckSignature E self) (\<lambda>(ok, self).
       if \<not> ok then Inr (False, s)
       else if \<not> IsInEffect now self then Inr (False, s)
       else if nID self = maxInt \<and> \<not> reserved_ok self then Inr (False, s)
       else
         let s = cancel_loop now self (mapAlerts s) s in
         if list_ex (\<lambda>item. Cancels now (snd item) self) (mapAlerts s) then Inr (False, s)
         else Inr (True, accept_alert E now self s))"

section \<open>What is kept\<close>

definition survives :: "int \<Rightarrow> CAlert \<Rightarrow> CAlert \<Rightarrow> bool" where
  "survives now self alert \<longleftrightarrow> \<not> Cancels now self alert \<and> IsInEffect now alert"

lemma cancel_loop_map:
  "mapAlerts (cancel_loop now self it s) =
   List.filter (\<lambda>e. \<forall>(k, a) \<in> set it. k = fst e \<longrightarrow> survives now self a) (mapAlerts s)"
proof (induction now self it s rule: cancel_loop.induct)
  case (2 now self k alert it s)
  have "List.filter p (smap_del k m) = List.filter (\<lambda>e. k \<noteq> fst e \<and> p e) m" for p and m :: "(nat, CAlert) smap"
    by (simp add: smap_del_def) (metis (mono_tags, lifting))
  with 2 show ?case by (auto simp: survives_def erase_alert_def intro!: filter_cong)
qed simp

lemma cancel_loop_self:
  assumes "smap_ok (mapAlerts s)"
  shows "mapAlerts (cancel_loop now self (mapAlerts s) s) = List.filter (\<lambda>e. survives now self (snd e)) (mapAlerts s)"
proof -
  have "(\<forall>(k, a) \<in> set (mapAlerts s). k = fst e \<longrightarrow> survives now self a) = survives now self (snd e)"
    if "e \<in> set (mapAlerts s)" for e
    using smap_ok_distinct[OF assms] that
    by (cases e) (auto dest: eq_key_imp_eq_value)
  then show ?thesis by (simp add: cancel_loop_map cong: filter_cong)
qed

lemma smap_ok_filter: "smap_ok m \<Longrightarrow> smap_ok (List.filter P m)"
  by (induction m) (auto simp: smap_ok_Cons)

lemma set_smap_put_new: "map_of m k = None \<Longrightarrow> set (smap_put k v m) = insert (k, v) (set m)"
  by (induction k v m rule: smap_put.induct) (auto split: if_splits)

lemma set_smap_insert_mono: "set m \<subseteq> set (smap_insert k v m)"
  by (simp add: smap_insert_def set_smap_put_new subset_insertI)

lemma accept_alert_map: "mapAlerts (accept_alert E now self s) = smap_insert (alert_GetHash E self) self (mapAlerts s)"
  by (simp add: accept_alert_def Notify_def Let_def)

definition alert_signed :: "alert_env \<Rightarrow> CAlert \<Rightarrow> bool" where
  "alert_signed E a \<longleftrightarrow> ae_Verify E (ae_Hash E (vchMsg a)) (al_vchSig a) \<and>
     ae_unserialize E (vchMsg a) = Inr (CUnsignedAlert.truncate a)"

definition alerts_ok :: "alert_env \<Rightarrow> int \<Rightarrow> (nat, CAlert) smap \<Rightarrow> bool" where
  "alerts_ok E now m \<longleftrightarrow> smap_ok m \<and>
     (\<forall>e \<in> set m. fst e = alert_GetHash E (snd e) \<and> alert_signed E (snd e)) \<and>
     (\<forall>e \<in> set m. \<forall>e' \<in> set m. fst e \<noteq> fst e' \<longrightarrow> \<not> Cancels now (snd e) (snd e'))"

lemma Cancels_later: "now \<le> now' \<Longrightarrow> Cancels now' a b \<Longrightarrow> Cancels now a b"
  by (auto simp: Cancels_def IsInEffect_def split: if_splits)

lemma alerts_ok_later: "alerts_ok E now m \<Longrightarrow> now \<le> now' \<Longrightarrow> alerts_ok E now' m"
  unfolding alerts_ok_def using Cancels_later by fast

lemma alerts_ok_subset:
  "alerts_ok E now m \<Longrightarrow> alerts_ok E now (List.filter P m)"
  by (auto simp: alerts_ok_def smap_ok_filter)

lemma alerts_ok_insert:
  assumes "alerts_ok E now m" "alert_signed E x"
    and "\<And>e. e \<in> set m \<Longrightarrow> \<not> Cancels now (snd e) x \<and> \<not> Cancels now x (snd e)"
  shows "alerts_ok E now (smap_insert (alert_GetHash E x) x m)"
proof (cases "map_of m (alert_GetHash E x) = None")
  case True
  have "set (smap_put (alert_GetHash E x) x m) = insert (alert_GetHash E x, x) (set m)"
    by (rule set_smap_put_new[OF True])
  with True assms show ?thesis by (simp add: smap_insert_def alerts_ok_def smap_ok_put)
qed (use assms(1) in \<open>auto simp: smap_insert_def\<close>)

lemma with_unsigned_fields [simp]:
  "vchMsg (with_unsigned u a) = vchMsg a" "al_vchSig (with_unsigned u a) = al_vchSig a"
  "CUnsignedAlert.truncate (with_unsigned u a) = u"
  by (simp_all add: with_unsigned_def CUnsignedAlert.defs CAlert.defs)

lemma ProcessAlert_cases:
  assumes "ProcessAlert E now x s = Inr (r, s')" "smap_ok (mapAlerts s)"
  shows "(r = False \<and> s' = s) \<or>
    (\<exists>u self m. self = with_unsigned u x \<and> m = List.filter (\<lambda>e. survives now self (snd e)) (mapAlerts s) \<and>
       alert_signed E self \<and> IsInEffect now self \<and> (nID self = maxInt \<longrightarrow> reserved_ok self) \<and>
       r = (\<not> list_ex (\<lambda>item. Cancels now (snd item) self) m) \<and>
       mapAlerts s' = (if r then smap_insert (alert_GetHash E self) self m else m))"
proof (cases "alert_CheckSignature E x")
  case (Inr p)
  obtain ok self where p: "p = (ok, self)" by (cases p)
  show ?thesis
  proof (cases "ok \<and> IsInEffect now self \<and> (nID self = maxInt \<longrightarrow> reserved_ok self)")
    case True
    with Inr p obtain u where u: "ae_unserialize E (vchMsg x) = Inr u" "self = with_unsigned u x"
        "ae_Verify E (ae_Hash E (vchMsg x)) (al_vchSig x)"
      by (auto simp: alert_CheckSignature_def bindR_Inr_iff split: if_splits)
    with True assms Inr p show ?thesis
      by (intro disjI2 exI[of _ u] exI conjI[OF u(2)] conjI[OF refl])
         (auto simp: ProcessAlert_def Let_def alert_signed_def cancel_loop_self accept_alert_map split: if_splits)
  next
    case False
    with assms Inr p show ?thesis by (auto simp: ProcessAlert_def split: if_splits)
  qed
qed (use assms(1) in \<open>simp add: ProcessAlert_def\<close>)

text \<open>C11. Whatever alert arrives, the map holds only alerts signed with the alert key, each under its own
  hash, and no alert of the map cancels another one of it: alerts that a newcomer cancels are gone
  before it is stored, and a newcomer that a stored alert cancels is refused.\<close>
theorem ProcessAlert_keeps_uncancelled:
  assumes "alerts_ok E t (mapAlerts s)" "t \<le> now" "ProcessAlert E now x s = Inr (r, s')"
  shows "alerts_ok E now (mapAlerts s')"
proof -
  have m: "alerts_ok E now (mapAlerts s)" by (rule alerts_ok_later[OF assms(1,2)])
  then have ok: "smap_ok (mapAlerts s)" by (simp add: alerts_ok_def)
  from ProcessAlert_cases[OF assms(3) ok] show ?thesis
  proof (elim disjE exE)
    assume "r = False \<and> s' = s"
    with m show ?thesis by simp
  next
    fix u self m
    assume a: "self = with_unsigned u x \<and> m = List.filter (\<lambda>e. survives now self (snd e)) (mapAlerts s) \<and>
         alert_signed E self \<and> IsInEffect now self \<and> (nID self = maxInt \<longrightarrow> reserved_ok self) \<and>
         r = (\<not> list_ex (\<lambda>item. Cancels now (snd item) self) m) \<and>
         mapAlerts s' = (if r then smap_insert (alert_GetHash E self) self m else m)"
    have f: "alerts_ok E now m" using a alerts_ok_subset[OF m] by simp
    show ?thesis
    proof (cases r)
      case True
      have "alerts_ok E now (smap_insert (alert_GetHash E self) self m)"
      proof (rule alerts_ok_insert[OF f])
        show "alert_signed E self" using a by blast
        fix e
        assume "e \<in> set m"
        with a True show "\<not> Cancels now (snd e) self \<and> \<not> Cancels now self (snd e)"
          by (cases e) (auto simp: Let_def list_ex_iff survives_def)
      qed
      with a True show ?thesis by (simp add: Let_def)
    next
      case False
      with a f show ?thesis by (simp add: Let_def)
    qed
  qed
qed

section \<open>The alert for a compromised key\<close>

text \<open>The alert reserved for a compromised key (\<open>nID\<close> the largest int) stays in the map, and every alert
  but another of its kind is refused while it is there, as long as no alert arrives that has the
  largest int in \<open>setCancel\<close> or as \<open>nCancel\<close>.\<close>
theorem final_alert_stays:
  assumes "smap_ok (mapAlerts s)" "(k, f) \<in> set (mapAlerts s)" "nID f = maxInt" "reserved_ok f" "now < maxInt"
    "ae_unserialize E (vchMsg x) = Inr u" "nCancel u < maxInt" "maxInt \<notin> setCancel u" "nID u \<le> maxInt"
    "ProcessAlert E now x s = Inr (r, s')"
  shows "(k, f) \<in> set (mapAlerts s') \<and> (r \<longrightarrow> nID u = maxInt)"
  using ProcessAlert_cases[OF assms(10,1)]
proof (elim disjE exE)
  assume "r = False \<and> s' = s"
  with assms(2) show ?thesis by simp
next
  fix v self m
  assume a: "self = with_unsigned v x \<and> m = List.filter (\<lambda>e. survives now self (snd e)) (mapAlerts s) \<and>
       alert_signed E self \<and> IsInEffect now self \<and> (nID self = maxInt \<longrightarrow> reserved_ok self) \<and>
       r = (\<not> list_ex (\<lambda>item. Cancels now (snd item) self) m) \<and>
       mapAlerts s' = (if r then smap_insert (alert_GetHash E self) self m else m)"
  have "v = u" using a assms(6) by (auto simp: alert_signed_def)
  moreover have n: "nID (with_unsigned u x) = nID u" "nCancel (with_unsigned u x) = nCancel u"
      "setCancel (with_unsigned u x) = setCancel u"
    by (simp_all add: with_unsigned_def CUnsignedAlert.defs)
  moreover have "m = List.filter (\<lambda>e. survives now (with_unsigned v x) (snd e)) (mapAlerts s)" using a by auto
  ultimately have f: "(k, f) \<in> set m"
    using assms(2-8) by (simp add: survives_def Cancels_def IsInEffect_def reserved_ok_def)
  with a f have in_s': "(k, f) \<in> set (mapAlerts s')" using set_smap_insert_mono[of m "alert_GetHash E self" self] by (cases r) (auto simp: Let_def)
  have "nID u = maxInt" if r
  proof -
    have "\<not> Cancels now f (with_unsigned u x)" using a that f \<open>v = u\<close> by (auto simp: Let_def list_ex_iff)
    then show ?thesis using assms(3-5,9) by (simp add: Cancels_def IsInEffect_def reserved_ok_def n split: if_splits)
  qed
  with in_s' show ?thesis by blast
qed

section \<open>Relaying\<close>

fun relay_all :: "alert_env \<Rightarrow> (int \<times> CAlert) list \<Rightarrow> alert_peer \<Rightarrow> alert_peer" where
  "relay_all E [] p = p"
| "relay_all E ((now, a) # xs) p = relay_all E xs (snd (RelayTo E now a p))"

definition peer_ok :: "alert_env \<Rightarrow> alert_peer \<Rightarrow> bool" where
  "peer_ok E p \<longleftrightarrow> distinct (List.map (alert_GetHash E) (peer_pushed p)) \<and>
     alert_GetHash E ` set (peer_pushed p) \<subseteq> setKnown p \<and> (peer_nVersion p = 0 \<longrightarrow> peer_pushed p = [])"

lemma RelayTo_ok: "peer_ok E p \<Longrightarrow> peer_ok E (snd (RelayTo E now a p))"
  by (auto simp: RelayTo_def peer_ok_def Let_def)

text \<open>However often alerts are relayed to a peer, each one is pushed to it at most once, none that it is
  known to have, and none at all before its version message.\<close>
theorem relayed_once:
  assumes "peer_pushed p = []"
  shows "let q = relay_all E xs p in
    distinct (List.map (alert_GetHash E) (peer_pushed q)) \<and> (peer_nVersion p = 0 \<longrightarrow> peer_pushed q = [])"
proof -
  have "peer_ok E q \<Longrightarrow> peer_ok E (relay_all E xs q) \<and> peer_nVersion (relay_all E xs q) = peer_nVersion q" for q
  proof (induction xs arbitrary: q)
    case (Cons c xs)
    obtain now a where c: "c = (now, a)" by (cases c)
    have "peer_nVersion (snd (RelayTo E now a q)) = peer_nVersion q" by (simp add: RelayTo_def Let_def)
    with Cons.IH[OF RelayTo_ok[OF Cons.prems]] show ?case by (simp add: c)
  qed simp
  from this[of p] assms show ?thesis by (auto simp: peer_ok_def Let_def)
qed

section \<open>Concrete alerts\<close>

text \<open>The reserved alert as message \<open>[1]\<close>, and as \<open>[2]\<close> one that lists the reserved id among those it cancels.\<close>

definition demo_final :: CUnsignedAlert where
  "demo_final = CUnsignedAlert_Null\<lparr>nExpiration := maxInt, nID := maxInt, nCancel := maxInt - 1, nMaxVer := maxInt,
     nPriority := maxInt, strStatusBar := ''URGENT: Alert key compromised, upgrade required''\<rparr>"

definition demo_all_fine :: CUnsignedAlert where
  "demo_all_fine = CUnsignedAlert_Null\<lparr>nExpiration := 1000, nID := 5, setCancel := {maxInt}, nMaxVer := 99999,
     strStatusBar := ''all fine''\<rparr>"

definition demo_alert_env :: alert_env where
  "demo_alert_env = \<lparr>ae_Hash = (\<lambda>m. unat (hd m)), ae_Verify = (\<lambda>h sig. sig = [7]),
     ae_unserialize = (\<lambda>m. if m = [1] then Inr demo_final else if m = [2] then Inr demo_all_fine
        else if m = [3] then Inr (demo_all_fine\<lparr>setCancel := {}\<rparr>) else Inl (Thrown [])),
     ae_subver = ''/Dystater/'', ae_alertnotify = [], ae_Sanitize = (\<lambda>s. s)\<rparr>"

definition demo_message :: "bytes \<Rightarrow> CAlert" where
  "demo_message m = CUnsignedAlert.extend CUnsignedAlert_Null (CAlert.fields m [7])"

definition demo_final_state :: alert_state where
  "demo_final_state = \<lparr>mapAlerts = [(1, with_unsigned demo_final (demo_message [1]))], al_events = [AlertNew 1]\<rparr>"

lemmas demo_alert_defs = demo_alert_env_def demo_message_def demo_final_def demo_all_fine_def CUnsignedAlert_Null_def
  with_unsigned_def CUnsignedAlert.defs CAlert.defs maxInt_def

lemma demo_final_accepted:
  "ProcessAlert demo_alert_env 10 (demo_message [1]) \<lparr>mapAlerts = [], al_events = []\<rparr> = Inr (True, demo_final_state)"
  by (simp add: ProcessAlert_def alert_CheckSignature_def demo_alert_defs IsInEffect_def reserved_ok_def Let_def
      accept_alert_def smap_insert_def alert_GetHash_def AppliesToMe_def AppliesTo_def PROTOCOL_VERSION_def
      Notify_def demo_final_state_def)

text \<open>The reserved alert does not survive a signed alert that lists the largest int.\<close>

lemma final_alert_overridden:
  "ProcessAlert demo_alert_env 20 (demo_message [2]) demo_final_state =
     Inr (True, \<lparr>mapAlerts = [(2, with_unsigned demo_all_fine (demo_message [2]))],
       al_events = [AlertNew 1, AlertDeleted 1, AlertNew 2]\<rparr>)"
  by (simp add: ProcessAlert_def alert_CheckSignature_def demo_alert_defs IsInEffect_def reserved_ok_def Let_def
      accept_alert_def smap_insert_def alert_GetHash_def AppliesToMe_def AppliesTo_def PROTOCOL_VERSION_def
      Notify_def demo_final_state_def Cancels_def erase_alert_def smap_del_def)

lemma demo_refused:
  "ProcessAlert demo_alert_env 20 (demo_message [3]) demo_final_state = Inr (False, demo_final_state)"
  by (simp add: ProcessAlert_def alert_CheckSignature_def demo_alert_defs IsInEffect_def reserved_ok_def Let_def
      demo_final_state_def Cancels_def)

theorem ProcessAlert_keeps_uncancelled_witness: "alerts_ok demo_alert_env 10 (mapAlerts demo_final_state)"
  by (rule ProcessAlert_keeps_uncancelled[OF _ _ demo_final_accepted, of 5]) (simp_all add: alerts_ok_def)

theorem final_alert_stays_witness:
  "(1, with_unsigned demo_final (demo_message [1])) \<in> set (mapAlerts demo_final_state)"
  by (rule final_alert_stays[OF _ _ _ _ _ _ _ _ _ demo_refused, THEN conjunct1])
     (simp_all add: demo_final_state_def demo_alert_defs reserved_ok_def smap_ok_def, simp_all)

theorem relayed_once_witness:
  "let p = \<lparr>peer_nVersion = 0, peer_strSubVer = [], setKnown = {}, peer_pushed = []\<rparr>;
       q = relay_all demo_alert_env [(1, with_unsigned demo_final (demo_message [1]))] p in
    distinct (List.map (alert_GetHash demo_alert_env) (peer_pushed q)) \<and> (peer_nVersion p = 0 \<longrightarrow> peer_pushed q = [])"
  using relayed_once[of "\<lparr>peer_nVersion = 0, peer_strSubVer = [], setKnown = {}, peer_pushed = []\<rparr>" demo_alert_env
    "[(1, with_unsigned demo_final (demo_message [1]))]"] by (simp add: Let_def)

end
