(* ===== verification/NetBase.thy ===== *)
theory NetBase
  imports NetAddr
begin

text \<open>
  Host names, name lookup, proxies and the SOCKS5 handshake of \<open>netbase.cpp\<close>.  The resolver
  (\<open>getaddrinfo\<close>), \<open>getnameinfo\<close>, \<open>ParseInt32\<close> and the base-32 codec are not in the tree and
  are arguments of the definitions.  A socket is the sequence of what \<open>recv\<close> and \<open>send\<close> will
  return, so every run of the handshake is one value.
\<close>

section \<open>Names of networks, host and port\<close>

definition to_lower :: "string \<Rightarrow> string" where
  "to_lower = map (\<lambda>c. if 65 \<le> (of_char c :: nat) \<and> (of_char c :: nat) \<le> 90 then char_of ((of_char c :: nat) + 32) else c)"

definition ParseNetwork :: "string \<Rightarrow> Network" where
  "ParseNetwork n = (let net = to_lower n in
     if net = ''ipv4'' then NET_IPV4
     else if net = ''ipv6'' then NET_IPV6
     else if net = ''tor'' \<or> net = ''onion'' then NET_TOR
     else NET_UNROUTABLE)"

definition GetNetworkName :: "Network \<Rightarrow> string" where
  "GetNetworkName net = (case net of
     NET_IPV4 \<Rightarrow> ''ipv4'' | NET_IPV6 \<Rightarrow> ''ipv6'' | NET_TOR \<Rightarrow> ''onion'' | _ \<Rightarrow> '''')"

definition SplitHostPort :: "(string \<Rightarrow> int option) \<Rightarrow> string \<Rightarrow> int \<Rightarrow> int \<times> string" where
  "SplitHostPort ParseInt32 s portOut =
    (let (s', portOut') = (case find_last_of CHR '':'' s of
        None \<Rightarrow> (s, portOut)
      | Some colon \<Rightarrow>
          let fBracketed = (s ! 0 = CHR ''['' \<and> s ! (colon - 1) = CHR '']'');
              fMultiColon = (find_last_of CHR '':'' (if colon = 0 then s else take colon s) \<noteq> None)
          in if colon = 0 \<or> fBracketed \<or> \<not> fMultiColon then
               (case ParseInt32 (drop (colon + 1) s) of
                  Some n \<Rightarrow> if n > 0 \<and> n < 0x10000 then (take colon s, n) else (s, portOut)
                | None \<Rightarrow> (s, portOut))
             else (s, portOut))
     in (portOut', if s' \<noteq> [] \<and> s' ! 0 = CHR ''['' \<and> s' ! (length s' - 1) = CHR '']''
                   then take (length s' - 2) (drop 1 s') else s'))"

section \<open>Printing of addresses\<close>

definition word2 :: "byte \<Rightarrow> byte \<Rightarrow> nat" where
  "word2 hi lo = unat hi * 256 + unat lo"

definition ToStringIP :: "(bytes \<Rightarrow> string) \<Rightarrow> (CService \<Rightarrow> string option) \<Rightarrow> 'a CNetAddr_scheme \<Rightarrow> string" where
  "ToStringIP EncodeBase32 getnameinfo a =
    (if IsTor a then EncodeBase32 (subbytes 6 10 (ip a)) @ ''.onion''
     else case getnameinfo (mk_service (netaddr a) 0) of
       Some name \<Rightarrow> name
     | None \<Rightarrow>
       if IsIPv4 a then
         show_base 10 (unat (GetByte a 3)) @ ''.'' @ show_base 10 (unat (GetByte a 2)) @ ''.''
         @ show_base 10 (unat (GetByte a 1)) @ ''.'' @ show_base 10 (unat (GetByte a 0))
       else
         show_base 16 (word2 (GetByte a 15) (GetByte a 14)) @ '':'' @ show_base 16 (word2 (GetByte a 13) (GetByte a 12)) @ '':''
         @ show_base 16 (word2 (GetByte a 11) (GetByte a 10)) @ '':'' @ show_base 16 (word2 (GetByte a 9) (GetByte a 8)) @ '':''
         @ show_base 16 (word2 (GetByte a 7) (GetByte a 6)) @ '':'' @ show_base 16 (word2 (GetByte a 5) (GetByte a 4)) @ '':''
         @ show_base 16 (word2 (GetByte a 3) (GetByte a 2)) @ '':'' @ show_base 16 (word2 (GetByte a 1) (GetByte a 0)))"

definition ToStringPort :: "'a CService_scheme \<Rightarrow> string" where
  "ToStringPort a = show_base 10 (unat (port a))"

definition ToStringIPPort :: "(bytes \<Rightarrow> string) \<Rightarrow> (CService \<Rightarrow> string option) \<Rightarrow> 'a CService_scheme \<Rightarrow> string" where
  "ToStringIPPort EncodeBase32 getnameinfo a =
    (if IsIPv4 a \<or> IsTor a then ToStringIP EncodeBase32 getnameinfo a @ '':'' @ ToStringPort a
     else ''['' @ ToStringIP EncodeBase32 getnameinfo a @ '']:'' @ ToStringPort a)"

section \<open>Lookup\<close>

definition SetSpecial :: "(string \<Rightarrow> bytes) \<Rightarrow> string \<Rightarrow> CNetAddr option" where
  "SetSpecial DecodeBase32 strName =
    (if length strName > 6 \<and> drop (length strName - 6) strName = ''.onion'' then
       (let vchAddr = DecodeBase32 (c_str (take (length strName - 6) strName)) in
        if length vchAddr \<noteq> 16 - length pchOnionCat then None
        else Some \<lparr>ip = pchOnionCat @ vchAddr\<rparr>)
     else None)"

datatype addrinfo = AF_INET nat bytes | AF_INET6 nat bytes | AF_OTHER

text \<open>The loop over the resolver's answer: \<open>ai_addrlen\<close> is asserted, at most \<open>nMaxSolutions\<close> are kept.\<close>

fun trav_loop :: "nat \<Rightarrow> addrinfo list \<Rightarrow> CNetAddr list \<Rightarrow> CNetAddr list result" where
  "trav_loop nMax [] vIP = Inr vIP"
| "trav_loop nMax (ai # aiRes) vIP =
    (if nMax = 0 \<or> length vIP < nMax then
       (case ai of
          AF_INET addrlen a \<Rightarrow>
            if addrlen \<ge> 16 then trav_loop nMax aiRes (vIP @ [\<lparr>ip = pchIPv4 @ a\<rparr>]) else Inl AssertFailed
        | AF_INET6 addrlen a \<Rightarrow>
            if addrlen \<ge> 28 then trav_loop nMax aiRes (vIP @ [\<lparr>ip = a\<rparr>]) else Inl AssertFailed
        | AF_OTHER \<Rightarrow> trav_loop nMax aiRes vIP)
     else Inr vIP)"

text \<open>The name services of the environment.\<close>

record resolver =
  decode32 :: "string \<Rightarrow> bytes"
  getaddrinfo :: "string \<Rightarrow> bool \<Rightarrow> addrinfo list option"
  parseint32 :: "string \<Rightarrow> int option"

text \<open>\<open>None\<close> is \<open>return false\<close>.\<close>

definition LookupIntern :: "resolver \<Rightarrow> string \<Rightarrow> nat \<Rightarrow> bool \<Rightarrow> CNetAddr list option result" where
  "LookupIntern R pszName nMaxSolutions fAllowLookup =
    (case SetSpecial (decode32 R) pszName of
       Some addr \<Rightarrow> Inr (Some [addr])
     | None \<Rightarrow>
       (case getaddrinfo R pszName fAllowLookup of
          None \<Rightarrow> Inr None
        | Some aiRes \<Rightarrow>
            bindR (trav_loop nMaxSolutions aiRes []) (\<lambda>vIP.
              Inr (if length vIP > 0 then Some vIP else None))))"

definition LookupHost :: "resolver \<Rightarrow> string \<Rightarrow> nat \<Rightarrow> bool \<Rightarrow> CNetAddr list option result" where
  "LookupHost R pszName nMaxSolutions fAllowLookup =
    (let strHost = pszName in
     if strHost = [] then Inr None
     else
       let strHost = (if strHost ! 0 = CHR ''['' \<and> strHost ! (length strHost - 1) = CHR '']''
                      then take (length strHost - 2) (drop 1 strHost) else strHost)
       in LookupIntern R (c_str strHost) nMaxSolutions fAllowLookup)"

definition Lookup :: "resolver \<Rightarrow> string \<Rightarrow> int \<Rightarrow> bool \<Rightarrow> nat \<Rightarrow> CService list option result" where
  "Lookup R pszName portDefault fAllowLookup nMaxSolutions =
    (if pszName = [] then Inr None
     else
       let (port, hostname) = SplitHostPort (parseint32 R) pszName portDefault in
       bindR (LookupIntern R (c_str hostname) nMaxSolutions fAllowLookup) (\<lambda>r.
         Inr (map_option (map (\<lambda>ip. mk_service ip (of_int port))) r)))"

definition Lookup1 :: "resolver \<Rightarrow> string \<Rightarrow> int \<Rightarrow> bool \<Rightarrow> CService option result" where
  "Lookup1 R pszName portDefault fAllowLookup =
    bindR (Lookup R pszName portDefault fAllowLookup 1) (\<lambda>r.
      case r of
        None \<Rightarrow> Inr None
      | Some vService \<Rightarrow> if vService = [] then Inl OutOfRange else Inr (Some (vService ! 0)))"

definition LookupNumeric :: "resolver \<Rightarrow> string \<Rightarrow> int \<Rightarrow> CService option result" where
  "LookupNumeric R pszName portDefault = Lookup1 R pszName portDefault False"

definition CNetAddr_of_string :: "resolver \<Rightarrow> string \<Rightarrow> bool \<Rightarrow> CNetAddr result" where
  "CNetAddr_of_string R strIp fAllowLookup =
    bindR (LookupHost R (c_str strIp) 1 fAllowLookup) (\<lambda>r.
      case r of
        None \<Rightarrow> Inr CNetAddr_Init
      | Some vIP \<Rightarrow> if vIP = [] then Inl OutOfRange else Inr (vIP ! 0))"

definition CService_of_string :: "resolver \<Rightarrow> string \<Rightarrow> int \<Rightarrow> bool \<Rightarrow> CService result" where
  "CService_of_string R strIpPort portDefault fAllowLookup =
    bindR (Lookup1 R (c_str strIpPort) portDefault fAllowLookup) (\<lambda>r.
      case r of None \<Rightarrow> Inr CService_Init | Some a \<Rightarrow> Inr a)"

section \<open>Proxy settings\<close>

record proxies =
  proxyInfo :: "CService list"
  nameProxy :: CService

definition proxies_init :: proxies where
  "proxies_init = \<lparr>proxyInfo = replicate NET_MAX CService_Init, nameProxy = CService_Init\<rparr>"

definition SetProxy :: "nat \<Rightarrow> CService \<Rightarrow> proxies \<Rightarrow> (bool \<times> proxies) result" where
  "SetProxy net addrProxy P =
    (if \<not> net < NET_MAX then Inl AssertFailed
     else if \<not> IsValid addrProxy then Inr (False, P)
     else Inr (True, P\<lparr>proxyInfo := (proxyInfo P)[net := addrProxy]\<rparr>))"

definition GetProxy :: "nat \<Rightarrow> proxies \<Rightarrow> CService option result" where
  "GetProxy net P =
    (if \<not> net < NET_MAX then Inl AssertFailed
     else if \<not> IsValid (proxyInfo P ! net) then Inr None
     else Inr (Some (proxyInfo P ! net)))"

definition SetNameProxy :: "CService \<Rightarrow> proxies \<Rightarrow> bool \<times> proxies" where
  "SetNameProxy addrProxy P =
    (if \<not> IsValid addrProxy then (False, P) else (True, P\<lparr>nameProxy := addrProxy\<rparr>))"

definition GetNameProxy :: "proxies \<Rightarrow> CService option" where
  "GetNameProxy P = (if \<not> IsValid (nameProxy P) then None else Some (nameProxy P))"

definition HaveNameProxy :: "proxies \<Rightarrow> bool" where
  "HaveNameProxy P = IsValid (nameProxy P)"

definition IsProxy :: "'a CNetAddr_scheme \<Rightarrow> proxies \<Rightarrow> bool" where
  "IsProxy addr P = (\<exists>i \<in> set [0..<NET_MAX]. netaddr_eq addr (proxyInfo P ! i))"

section \<open>Sockets\<close>

text \<open>
  What the environment answers: each \<open>recv\<close> either delivers bytes (none of them is the orderly
  shutdown), would block (\<open>select\<close> then waits) or fails, and the milliseconds each answer takes.
  When nothing more arrives the deadline passes.  \<open>sends\<close> holds the return values of \<open>send\<close>.
\<close>

datatype answer = Data bytes | WouldBlock | SelectError | RecvError

record sock =
  rx :: "(answer \<times> int) list"
  now :: int
  sends :: "int list"
  tx :: bytes
  closed :: bool

definition rx_size :: "(answer \<times> int) list \<Rightarrow> nat" where
  "rx_size q = sum_list (map (\<lambda>(a, _). case a of Data d \<Rightarrow> length d + 1 | _ \<Rightarrow> 1) q)"

text \<open>
  \<open>InterruptibleRecv(data, len, timeout)\<close> into a buffer with room for \<open>cap\<close> bytes; a write past
  it is \<open>OutOfRange\<close>.  Returns the success flag and the bytes written.
\<close>

function recv_loop :: "nat \<Rightarrow> nat \<Rightarrow> int \<Rightarrow> bytes \<Rightarrow> sock \<Rightarrow> (bool \<times> bytes \<times> sock) result" where
  "recv_loop len cap endTime got s =
    (if len > 0 \<and> now s < endTime then
       (case rx s of
          [] \<Rightarrow> Inr (False, got, s\<lparr>now := endTime\<rparr>)
        | (a, dt) # q \<Rightarrow>
          (case a of
             Data d \<Rightarrow>
               if d = [] then Inr (False, got, s\<lparr>rx := q\<rparr>)
               else
                 let ret = min len (length d) in
                 if ret > cap then Inl OutOfRange
                 else recv_loop (len - ret) (cap - ret) endTime (got @ take ret d)
                        (s\<lparr>rx := (if ret < length d then (Data (drop ret d), 0) # q else q), now := now s + dt\<rparr>)
           | WouldBlock \<Rightarrow> recv_loop len cap endTime got (s\<lparr>rx := q, now := now s + dt\<rparr>)
           | SelectError \<Rightarrow> Inr (False, got, s\<lparr>rx := q\<rparr>)
           | RecvError \<Rightarrow> Inr (False, got, s\<lparr>rx := q\<rparr>)))
     else Inr (len = 0, got, s))"
  by pat_completeness auto
termination
  by (relation "measure (\<lambda>(len, cap, endTime, got, s). rx_size (rx s))") (auto simp: rx_size_def)

declare recv_loop.simps [simp del]

definition SOCKS5_RECV_TIMEOUT :: int where "SOCKS5_RECV_TIMEOUT = 20 * 1000"

definition InterruptibleRecv :: "nat \<Rightarrow> nat \<Rightarrow> int \<Rightarrow> sock \<Rightarrow> (bool \<times> bytes \<times> sock) result" where
  "InterruptibleRecv len cap timeout s = recv_loop len cap (now s + timeout) [] s"

definition CloseSocket :: "sock \<Rightarrow> sock" where
  "CloseSocket s = s\<lparr>closed := True\<rparr>"

text \<open>\<open>send\<close>: the environment's return value, and the bytes that went out.\<close>

definition send :: "bytes \<Rightarrow> sock \<Rightarrow> int \<times> sock" where
  "send d s = (case sends s of
     [] \<Rightarrow> (- 1, s)
   | n # ns \<Rightarrow> (n, s\<lparr>sends := ns, tx := tx s @ take (nat n) d\<rparr>))"


section \<open>The SOCKS5 handshake\<close>

datatype socks_result = SocksOk | SocksError string

definition socks_fail :: "string \<Rightarrow> sock \<Rightarrow> (socks_result \<times> sock) result" where
  "socks_fail msg s = Inr (SocksError msg, CloseSocket s)"

text \<open>\<open>int nRecv = pchRet3[0]\<close> (a signed \<open>char\<close>) converted to the \<open>size_t\<close> length of a read.\<close>

definition char_size :: "byte \<Rightarrow> nat" where
  "char_size b = unat (word_of_int (sint b) :: u64)"

definition socks_port :: "sock \<Rightarrow> (socks_result \<times> sock) result" where
  "socks_port s =
    bindR (InterruptibleRecv 2 256 SOCKS5_RECV_TIMEOUT s) (\<lambda>(ok, _, s).
      if \<not> ok then socks_fail ''Error reading from proxy'' s else Inr (SocksOk, s))"

definition socks_addr :: "byte \<Rightarrow> sock \<Rightarrow> (socks_result \<times> sock) result" where
  "socks_addr atyp s =
    (let after = (\<lambda>(ok, _, s). if \<not> ok then socks_fail ''Error reading from proxy'' s else socks_port s) in
     if atyp = 0x01 then bindR (InterruptibleRecv 4 256 SOCKS5_RECV_TIMEOUT s) after
     else if atyp = 0x04 then bindR (InterruptibleRecv 16 256 SOCKS5_RECV_TIMEOUT s) after
     else if atyp = 0x03 then
       bindR (InterruptibleRecv 1 256 SOCKS5_RECV_TIMEOUT s) (\<lambda>(ok, pchRet3, s).
         if \<not> ok then socks_fail ''Error reading from proxy'' s
         else bindR (InterruptibleRecv (char_size (pchRet3 ! 0)) 256 SOCKS5_RECV_TIMEOUT s) after)
     else socks_fail ''Error: malformed proxy response'' s)"

definition socks_reply_error :: "byte \<Rightarrow> string" where
  "socks_reply_error b =
    (if b = 0x01 then ''Proxy error: general failure''
     else if b = 0x02 then ''Proxy error: connection not allowed''
     else if b = 0x03 then ''Proxy error: network unreachable''
     else if b = 0x04 then ''Proxy error: host unreachable''
     else if b = 0x05 then ''Proxy error: connection refused''
     else if b = 0x06 then ''Proxy error: TTL expired''
     else if b = 0x07 then ''Proxy error: protocol error''
     else if b = 0x08 then ''Proxy error: address type not supported''
     else ''Proxy error: unknown'')"

definition socks_reply :: "sock \<Rightarrow> (socks_result \<times> sock) result" where
  "socks_reply s =
    bindR (InterruptibleRecv 4 4 SOCKS5_RECV_TIMEOUT s) (\<lambda>(ok, pchRet2, s).
      if \<not> ok then socks_fail ''Error reading proxy response'' s
      else if pchRet2 ! 0 \<noteq> 0x05 then socks_fail ''Proxy failed to accept request'' s
      else if pchRet2 ! 1 \<noteq> 0x00 then socks_fail (socks_reply_error (pchRet2 ! 1)) s
      else if pchRet2 ! 2 \<noteq> 0x00 then socks_fail ''Error: malformed proxy response'' s
      else socks_addr (pchRet2 ! 3) s)"

definition socks_request_bytes :: "string \<Rightarrow> int \<Rightarrow> bytes" where
  "socks_request_bytes strDest nPort =
     [0x05, 0x01, 0x00, 0x03, of_nat (min (length strDest) 255)] @ map of_char strDest
     @ [of_int (nPort div 256 mod 256), of_int (nPort mod 256)]"

definition socks_request :: "string \<Rightarrow> int \<Rightarrow> sock \<Rightarrow> (socks_result \<times> sock) result" where
  "socks_request strDest nPort s =
    (let strSocks5 = socks_request_bytes strDest nPort;
         (ret, s) = send strSocks5 s
     in if ret \<noteq> int (length strSocks5) then socks_fail ''Error sending to proxy'' s
        else socks_reply s)"

definition Socks5 :: "string \<Rightarrow> int \<Rightarrow> sock \<Rightarrow> (socks_result \<times> sock) result" where
  "Socks5 strDest nPort s =
    (if length strDest > 255 then socks_fail ''Hostname too long'' s
     else
       let pszSocks5Init = [0x05, 0x01, 0x00];
           (ret, s) = send pszSocks5Init s
       in if ret \<noteq> int (length pszSocks5Init) then socks_fail ''Error sending to proxy'' s
          else
            bindR (InterruptibleRecv 2 2 SOCKS5_RECV_TIMEOUT s) (\<lambda>(ok, pchRet1, s).
              if \<not> ok then socks_fail ''Error reading proxy response'' s
              else if pchRet1 ! 0 \<noteq> 0x05 \<or> pchRet1 ! 1 \<noteq> 0x00 then socks_fail ''Proxy failed to initialize'' s
              else socks_request strDest nPort s))"

section \<open>Connections\<close>

text \<open>
  \<open>ConnectSocketDirectly\<close> is an operating-system call: the argument \<open>direct\<close> gives the socket it
  opens, if any.  The connections attempted are recorded in order.
\<close>

record connection =
  conn_sock :: "sock option"
  attempts :: "CService list"
  outProxyConnectionFailed :: bool

definition ConnectSocket ::
  "(bytes \<Rightarrow> string) \<Rightarrow> (CService \<Rightarrow> string option) \<Rightarrow> (CService \<Rightarrow> sock option) \<Rightarrow> proxies \<Rightarrow> CService \<Rightarrow>
   connection result" where
  "ConnectSocket EncodeBase32 getnameinfo direct P addrDest =
    bindR (GetProxy (net_code (GetNetwork addrDest)) P) (\<lambda>r.
      case r of
        None \<Rightarrow> Inr \<lparr>conn_sock = direct addrDest, attempts = [addrDest], outProxyConnectionFailed = False\<rparr>
      | Some proxy \<Rightarrow>
        (case direct proxy of
           None \<Rightarrow> Inr \<lparr>conn_sock = None, attempts = [proxy], outProxyConnectionFailed = True\<rparr>
         | Some hSocket \<Rightarrow>
             bindR (Socks5 (ToStringIP EncodeBase32 getnameinfo addrDest) (uint (port addrDest)) hSocket) (\<lambda>(ret, hSocket).
               Inr \<lparr>conn_sock = (if ret = SocksOk then Some hSocket else None), attempts = [proxy],
                    outProxyConnectionFailed = False\<rparr>)))"

definition ConnectSocketByName ::
  "(bytes \<Rightarrow> string) \<Rightarrow> (CService \<Rightarrow> string option) \<Rightarrow> (CService \<Rightarrow> sock option) \<Rightarrow> resolver \<Rightarrow> bool \<Rightarrow> proxies \<Rightarrow>
   string \<Rightarrow> int \<Rightarrow> (CService \<times> connection) result" where
  "ConnectSocketByName EncodeBase32 getnameinfo direct R fNameLookup P pszDest portDefault =
    (let (port, strDest) = SplitHostPort (parseint32 R) pszDest portDefault in
     bindR (CNetAddr_of_string R strDest (fNameLookup \<and> \<not> HaveNameProxy P)) (\<lambda>a.
       let addrResolved = mk_service a (of_int port) in
       if IsValid addrResolved then
         bindR (ConnectSocket EncodeBase32 getnameinfo direct P addrResolved) (\<lambda>c.
           Inr (addrResolved, c\<lparr>outProxyConnectionFailed := False\<rparr>))
       else
         bindR (CService_of_string R ''0.0.0.0:0'' 0 False) (\<lambda>addr.
           if \<not> HaveNameProxy P then
             Inr (addr, \<lparr>conn_sock = None, attempts = [], outProxyConnectionFailed = False\<rparr>)
           else
             (case direct (nameProxy P) of
                None \<Rightarrow> Inr (addr, \<lparr>conn_sock = None, attempts = [nameProxy P], outProxyConnectionFailed = True\<rparr>)
              | Some hSocket \<Rightarrow>
                  bindR (Socks5 strDest (uint (of_int port :: u16)) hSocket) (\<lambda>(ret, hSocket).
                    Inr (addr, \<lparr>conn_sock = (if ret = SocksOk then Some hSocket else None),
                                attempts = [nameProxy P], outProxyConnectionFailed = False\<rparr>))))))"

section \<open>Host and port\<close>

lemma SplitHostPort_plain:
  assumes "CHR '':'' \<notin> set host" "CHR '':'' \<notin> set digits" "ParseInt32 digits = Some n" "0 < n" "n < 0x10000"
    and "host = [] \<or> hd host \<noteq> CHR ''[''"
  shows "SplitHostPort ParseInt32 (host @ CHR '':'' # digits) d = (n, host)"
proof -
  have f: "find_last_of CHR '':'' (host @ CHR '':'' # digits) = Some (length host)"
    using assms(2) by (rule find_last_of_snoc)
  have g: "find_last_of CHR '':'' host = None" using assms(1) by (simp add: find_last_of_None)
  have "host = [] \<or> host ! 0 \<noteq> CHR ''[''" using assms(6) by (auto simp: hd_conv_nth)
  then show ?thesis
    using assms(3-5) unfolding SplitHostPort_def f option.case Let_def
    by (cases "host = []") (simp_all add: g nth_append)
qed

lemma SplitHostPort_bracketed:
  assumes "CHR '':'' \<notin> set digits" "ParseInt32 digits = Some n" "0 < n" "n < 0x10000"
  shows "SplitHostPort ParseInt32 (CHR ''['' # host @ '']:'' @ digits) d = (n, host)"
proof -
  have f: "find_last_of CHR '':'' (CHR ''['' # host @ '']:'' @ digits) = Some (length host + 2)"
    using find_last_of_snoc [OF assms(1), of "CHR ''['' # host @ '']''"] by simp
  show ?thesis
    using assms(2-) unfolding SplitHostPort_def f option.case Let_def by (simp add: nth_append nth_Cons')
qed

lemma SplitHostPort_ipv6:
  assumes "CHR '':'' \<in> set h" "CHR '':'' \<notin> set t" "hd (h @ CHR '':'' # t) \<noteq> CHR ''[''"
  shows "SplitHostPort ParseInt32 (h @ CHR '':'' # t) d = (d, h @ CHR '':'' # t)"
proof -
  have f: "find_last_of CHR '':'' (h @ CHR '':'' # t) = Some (length h)"
    using assms(2) by (rule find_last_of_snoc)
  have "h \<noteq> []" using assms(1) by auto
  then have n: "(h @ CHR '':'' # t) ! 0 \<noteq> CHR ''[''" using assms(3) by (simp add: hd_conv_nth)
  have g: "find_last_of CHR '':'' h \<noteq> None" using assms(1) by (simp add: find_last_of_None)
  show ?thesis
    using \<open>h \<noteq> []\<close> n g by (simp add: SplitHostPort_def f)
qed

section \<open>Lookup\<close>

lemma trav_loop_length:
  "trav_loop n ais v = Inr r \<Longrightarrow> length v \<le> length r \<and> (0 < n \<longrightarrow> length v \<le> n \<longrightarrow> length r \<le> n)"
  by (induction n ais v rule: trav_loop.induct) (fastforce split: if_splits addrinfo.splits)+

lemma LookupIntern_Some:
  assumes "LookupIntern R nm n f = Inr (Some vIP)"
  shows "vIP \<noteq> []" and "0 < n \<Longrightarrow> length vIP \<le> n"
  using assms by (auto simp: LookupIntern_def bindR_Inr_iff split: option.splits if_splits dest!: trav_loop_length)

section \<open>Sockets\<close>

definition rx_stream :: "(answer \<times> int) list \<Rightarrow> bytes" where
  "rx_stream q = concat (map (\<lambda>(a, _). case a of Data d \<Rightarrow> d | _ \<Rightarrow> []) q)"

lemma rx_stream_simps [simp]:
  "rx_stream [] = []" "rx_stream ((Data d, t) # q) = d @ rx_stream q"
  "rx_stream ((WouldBlock, t) # q) = rx_stream q"
  by (simp_all add: rx_stream_def)

lemma recv_loop_room: "len \<le> cap \<Longrightarrow> \<exists>r. recv_loop len cap e got s = Inr r"
proof (induction len cap e got s rule: recv_loop.induct)
  case (1 len cap e got s)
  show ?case
    apply (subst recv_loop.simps)
    using 1 by (auto simp: Let_def split: list.splits answer.splits)
qed

lemma recv_loop_frame:
  "recv_loop len cap e got s = Inr (ok, d, s') \<Longrightarrow>
   sends s' = sends s \<and> tx s' = tx s \<and> closed s' = closed s"
proof (induction len cap e got s rule: recv_loop.induct)
  case (1 len cap e got s)
  from 1(3) show ?case
    apply (subst (asm) recv_loop.simps)
    using 1(1,2) by (auto simp: Let_def split: list.splits answer.splits if_splits)
qed

lemma recv_loop_ok:
  "recv_loop len cap e got s = Inr (True, d, s') \<Longrightarrow>
   \<exists>x. length x = len \<and> d = got @ x \<and> rx_stream (rx s) = x @ rx_stream (rx s')"
proof (induction len cap e got s rule: recv_loop.induct)
  case (1 len cap e got s)
  show ?case
  proof (cases "0 < len \<and> now s < e")
    case False
    then show ?thesis using "1.prems" by (subst (asm) recv_loop.simps) auto
  next
    case True
    then obtain a dt q where rx: "rx s = (a, dt) # q"
      using "1.prems" by (subst (asm) recv_loop.simps) (auto split: list.splits)
    show ?thesis
    proof (cases a)
      case (Data y)
      define ret where "ret = min len (length y)"
      define q' where "q' = (if ret < length y then (Data (drop ret y), 0) # q else q)"
      have y: "y \<noteq> []" "\<not> cap < ret"
        and rec: "recv_loop (len - ret) (cap - ret) e (got @ take ret y) (s\<lparr>rx := q', now := now s + dt\<rparr>) = Inr (True, d, s')"
        using "1.prems" True rx Data
        by (subst (asm) (1) recv_loop.simps, simp add: Let_def ret_def q'_def split: if_splits)+
      obtain x where x: "length x = len - ret" "d = (got @ take ret y) @ x" "rx_stream q' = x @ rx_stream (rx s')"
        using 1(1) [OF True rx refl Data y(1) ret_def] y(2) rec unfolding q'_def by auto
      have "y @ rx_stream q = take ret y @ rx_stream q'" by (simp add: q'_def)
      then show ?thesis using x rx Data
        by (intro exI [of _ "take ret y @ x"]) (auto simp: ret_def)
    next
      case WouldBlock
      then show ?thesis using "1.prems" True 1(2) [OF True rx refl]  rx
        by (subst (asm) (1) recv_loop.simps) auto
    qed (use True rx "1.prems" in \<open>subst (asm) recv_loop.simps, simp\<close>)+
  qed
qed


lemma recv_room: "len \<le> cap \<Longrightarrow> InterruptibleRecv len cap t s \<noteq> Inl e"
  using recv_loop_room [of len cap "now s + t" "[]" s] by (auto simp: InterruptibleRecv_def)

lemma recv_ok:
  "InterruptibleRecv len cap t s = Inr (True, d, s') \<Longrightarrow>
   length d = len \<and> rx_stream (rx s) = d @ rx_stream (rx s')"
  unfolding InterruptibleRecv_def by (drule recv_loop_ok) auto

lemma recv_frame:
  "InterruptibleRecv len cap t s = Inr (ok, d, s') \<Longrightarrow>
   sends s' = sends s \<and> tx s' = tx s \<and> closed s' = closed s"
  unfolding InterruptibleRecv_def by (rule recv_loop_frame)

lemma send_all: "send d s = (int (length d), s') \<Longrightarrow> tx s' = tx s @ d \<and> closed s' = closed s \<and> rx s' = rx s"
  by (auto simp: send_def split: list.splits)

lemma send_frame: "send d s = (r, s') \<Longrightarrow> closed s' = closed s \<and> rx s' = rx s"
  by (auto simp: send_def split: list.splits)

lemma bindR_recvE:
  assumes "bindR (InterruptibleRecv len cap t s) (\<lambda>(ok, d, s'). F ok d s') = r"
  obtains e where "InterruptibleRecv len cap t s = Inl e" "r = Inl e"
  | ok d s' where "InterruptibleRecv len cap t s = Inr (ok, d, s')" "r = F ok d s'"
  using assms by (cases "InterruptibleRecv len cap t s") auto

text \<open>An outcome of a phase that started on socket \<open>s\<close> with the bytes \<open>out\<close> still to be sent.\<close>

definition phase_ok :: "sock \<Rightarrow> bytes \<Rightarrow> (socks_result \<times> sock) result \<Rightarrow> bool" where
  "phase_ok s out r = (case r of
     Inl e \<Rightarrow> True
   | Inr (SocksOk, s') \<Rightarrow> tx s' = tx s @ out \<and> closed s' = closed s
   | Inr (SocksError _, s') \<Rightarrow> closed s')"

lemma phase_ok_simps [simp]:
  "phase_ok s out (Inl e)" "phase_ok s out (socks_fail m s')"
  "phase_ok s out (Inr (SocksOk, s')) \<longleftrightarrow> tx s' = tx s @ out \<and> closed s' = closed s"
  by (simp_all add: phase_ok_def socks_fail_def CloseSocket_def)

lemma phase_ok_recv:
  assumes "\<And>ok d s'. tx s' = tx s \<Longrightarrow> closed s' = closed s \<Longrightarrow> phase_ok s out (F ok d s')"
  shows "phase_ok s out (bindR (InterruptibleRecv len cap t s) (\<lambda>(ok, d, s'). F ok d s'))"
  using assms recv_frame [of len cap t s] by (cases "InterruptibleRecv len cap t s") auto

lemma phase_ok_cong: "phase_ok s out r \<Longrightarrow> tx s' = tx s \<Longrightarrow> closed s' = closed s \<Longrightarrow> phase_ok s' out r"
  by (auto simp: phase_ok_def split: sum.splits socks_result.splits prod.splits)

lemma socks_port_phase: "phase_ok s [] (socks_port s)"
  unfolding socks_port_def by (rule phase_ok_recv) simp

lemma socks_addr_phase: "phase_ok s [] (socks_addr atyp s)"
proof -
  have after: "phase_ok s [] (if \<not> ok then socks_fail ''Error reading from proxy'' s' else socks_port s')"
    if "tx s' = tx s" "closed s' = closed s" for ok s'
    using phase_ok_cong [OF socks_port_phase, of s s'] that by simp
  have "phase_ok s [] (bindR (InterruptibleRecv (char_size b) 256 SOCKS5_RECV_TIMEOUT s')
     (\<lambda>(ok, _, s). if \<not> ok then socks_fail ''Error reading from proxy'' s else socks_port s))"
    if s': "tx s' = tx s" "closed s' = closed s" for b s'
    by (rule phase_ok_cong [of s'], rule phase_ok_recv, rule phase_ok_cong [of s]) (use after s' in simp_all)
  then show ?thesis
    unfolding socks_addr_def Let_def
    by (auto intro!: phase_ok_recv after)
qed

lemma socks_reply_phase: "phase_ok s [] (socks_reply s)"
  unfolding socks_reply_def
  by (rule phase_ok_recv) (auto intro: phase_ok_cong [OF socks_addr_phase])

lemma socks_request_phase: "phase_ok s (socks_request_bytes h n) (socks_request h n s)"
proof -
  obtain r s' where s': "send (socks_request_bytes h n) s = (r, s')" by fastforce
  show ?thesis
  proof (cases "r = int (length (socks_request_bytes h n))")
    case True
    with s' have "tx s' = tx s @ socks_request_bytes h n" "closed s' = closed s" using send_all by auto
    moreover have "phase_ok s' [] (socks_reply s')" by (rule socks_reply_phase)
    ultimately show ?thesis using s' True
      by (auto simp: socks_request_def phase_ok_def split: sum.splits socks_result.splits prod.splits)
  next
    case False
    then show ?thesis using s' by (simp add: socks_request_def)
  qed
qed

lemma Socks5_phase: "phase_ok s ([5, 1, 0] @ socks_request_bytes h n) (Socks5 h n s)"
proof (cases "length h > 255")
  case False
  obtain r s' where s': "send [5, 1, 0] s = (r, s')" by fastforce
  show ?thesis
  proof (cases "r = 3")
    case True
    with s' have t: "tx s' = tx s @ [5, 1, 0]" "closed s' = closed s" using send_all [of "[5,1,0]" s s'] by auto
    have "phase_ok s' (socks_request_bytes h n) (bindR (InterruptibleRecv 2 2 SOCKS5_RECV_TIMEOUT s') (\<lambda>(ok, pchRet1, s).
              if \<not> ok then socks_fail ''Error reading proxy response'' s
              else if pchRet1 ! 0 \<noteq> 0x05 \<or> pchRet1 ! 1 \<noteq> 0x00 then socks_fail ''Proxy failed to initialize'' s
              else socks_request h n s))"
      by (rule phase_ok_recv) (auto intro: phase_ok_cong [OF socks_request_phase])
    then show ?thesis using s' True False t
      by (auto simp: Socks5_def phase_ok_def split: sum.splits socks_result.splits prod.splits)
  next
    case c: False
    then show ?thesis using s' False by (simp add: Socks5_def)
  qed
qed (simp add: Socks5_def)


lemma sint_byte: "sint b = (uint b + 128) mod 256 - 128" for b :: byte
  by (simp add: sint_uint signed_take_bit_eq_take_bit_shift take_bit_eq_mod)

lemma uint_byte: "uint b = int (unat b)" "unat b < 256" for b :: byte
  using byte_less [of b] by simp_all

lemma char_wrap:
  fixes k :: int
  assumes "0 \<le> k" "k < 256"
  shows "(k + 128) mod 256 - 128 = (if k < 128 then k else k - 256)"
proof (cases "k < 128")
  case True
  then have "(k + 128) mod 256 = k + 128" using assms by (intro mod_pos_pos_trivial) simp_all
  then show ?thesis using True by simp
next
  case False
  have "k + 128 = k - 128 + 256" by simp
  then have "(k + 128) mod 256 = (k - 128 + 256) mod 256" by (rule arg_cong)
  also have "\<dots> = (k - 128) mod 256" by (rule mod_add_self2)
  also have "\<dots> = k - 128" using assms False by (intro mod_pos_pos_trivial) simp_all
  finally show ?thesis using False by simp
qed

lemma size_wrap:
  fixes k :: int
  assumes "0 \<le> k" "k < 256"
  shows "(if k < 128 then k else k - 256) mod 2 ^ 64 = (if k < 128 then k else k - 256 + 2 ^ 64)"
proof -
  have "k mod 2 ^ 64 = k" using assms by (intro mod_pos_pos_trivial) simp_all
  moreover have "(k - 256) mod 2 ^ 64 = (k - 256 + 2 ^ 64) mod 2 ^ 64" by (rule mod_add_self2 [symmetric])
  moreover have "(k - 256 + 2 ^ 64) mod 2 ^ 64 = k - 256 + 2 ^ 64" using assms by (intro mod_pos_pos_trivial) simp_all
  ultimately show ?thesis by (simp only: if_distrib split: if_split) blast
qed

lemma char_size_eq: "char_size b = (if unat b < 128 then unat b else 2 ^ 64 - 256 + unat b)"
proof -
  define k where "k = int (unat b)"
  have k: "0 \<le> k" "k < 256" using byte_less [of b] unfolding k_def by linarith+
  have c: "char_size b = nat (sint b mod 2 ^ 64)"
    unfolding char_size_def unat_eq_nat_uint uint_word_of_int by simp
  have "sint b mod 2 ^ 64 = (if k < 128 then k else k - 256 + 2 ^ 64)"
    unfolding sint_byte uint_byte(1) k_def [symmetric] char_wrap [OF k] by (rule size_wrap [OF k])
  then have "char_size b = nat (if k < 128 then k else k - 256 + 2 ^ 64)" using c by simp
  also have "\<dots> = (if unat b < 128 then unat b else 2 ^ 64 - 256 + unat b)" unfolding k_def by (auto simp del: of_nat_unat)
  finally show ?thesis .
qed

lemma char_size_small: "b < 128 \<Longrightarrow> char_size b = unat b"
  by (simp add: char_size_eq word_less_nat_alt)

lemma recv_bind_Inl:
  assumes "bindR (InterruptibleRecv len cap t s) F = Inl e" "len \<le> cap"
  obtains ok d s' where "InterruptibleRecv len cap t s = Inr (ok, d, s')" "F (ok, d, s') = Inl e"
  using assms recv_room [OF assms(2), of t s] by (cases "InterruptibleRecv len cap t s") auto

lemma length_2: "length d = 2 \<Longrightarrow> d = [d ! 0, d ! 1]" and length_1: "length d = Suc 0 \<Longrightarrow> d = [d ! 0]"
  and length_4: "length d = 4 \<Longrightarrow> d = [d ! 0, d ! 1, d ! 2, d ! 3]"
  by (auto simp: numeral_eq_Suc length_Suc_conv)

lemma socks_port_Inl: "socks_port s \<noteq> Inl e"
  unfolding socks_port_def by (auto simp: socks_fail_def elim!: recv_bind_Inl split: if_splits)

lemma socks_tail_Inl:
  assumes "bindR (InterruptibleRecv n 256 t s)
     (\<lambda>(ok, _, s). if \<not> ok then socks_fail m s else socks_port s) = Inl e"
  shows "256 < n"
proof (rule ccontr)
  assume "\<not> 256 < n"
  then have "n \<le> 256" by simp
  from assms this show False
    by (rule recv_bind_Inl) (auto simp: socks_fail_def socks_port_Inl split: if_splits)
qed

lemma socks_addr_overflow:
  assumes "socks_addr atyp s = Inl e"
  shows "\<exists>b t. atyp = 3 \<and> rx_stream (rx s) = b # t \<and> 128 \<le> b"
proof -
  have a3: "atyp = 3" and
    r: "bindR (InterruptibleRecv 1 256 SOCKS5_RECV_TIMEOUT s) (\<lambda>(ok, pchRet3, s).
         if \<not> ok then socks_fail ''Error reading from proxy'' s
         else bindR (InterruptibleRecv (char_size (pchRet3 ! 0)) 256 SOCKS5_RECV_TIMEOUT s)
           (\<lambda>(ok, _, s). if \<not> ok then socks_fail ''Error reading from proxy'' s else socks_port s)) = Inl e"
    using assms socks_tail_Inl [of 4 SOCKS5_RECV_TIMEOUT s "''Error reading from proxy''" e]
      socks_tail_Inl [of 16 SOCKS5_RECV_TIMEOUT s "''Error reading from proxy''" e]
    by (simp_all add: socks_addr_def Let_def socks_fail_def split: if_splits)
  obtain d s' where d: "InterruptibleRecv 1 256 SOCKS5_RECV_TIMEOUT s = Inr (True, d, s')"
    and f: "bindR (InterruptibleRecv (char_size (d ! 0)) 256 SOCKS5_RECV_TIMEOUT s')
           (\<lambda>(ok, _, s). if \<not> ok then socks_fail ''Error reading from proxy'' s else socks_port s) = Inl e"
    by (rule recv_bind_Inl [OF r]) (auto simp: socks_fail_def split: if_splits)
  have "256 < char_size (d ! 0)" using socks_tail_Inl [OF f] .
  then have "\<not> d ! 0 < 128" using byte_less [of "d ! 0"] by (auto simp: char_size_small)
  moreover from recv_ok [OF d] have "rx_stream (rx s) = d ! 0 # rx_stream (rx s')"
    by (metis One_nat_def append_Cons append_Nil length_1)
  ultimately show ?thesis using a3 by auto
qed

lemma socks_reply_overflow:
  assumes "socks_reply s = Inl e"
  shows "\<exists>b t. rx_stream (rx s) = [5, 0, 0, 3] @ b # t \<and> 128 \<le> b"
proof -
  obtain f s' where f: "InterruptibleRecv 4 4 SOCKS5_RECV_TIMEOUT s = Inr (True, f, s')" "f ! 0 = 5" "f ! 1 = 0" "f ! 2 = 0"
    and a: "socks_addr (f ! 3) s' = Inl e"
    by (rule recv_bind_Inl [OF assms [unfolded socks_reply_def]]) (auto simp: socks_fail_def split: if_splits)
  obtain b t where b: "f ! 3 = 3" "rx_stream (rx s') = b # t" "128 \<le> b"
    using socks_addr_overflow [OF a] by auto
  have "f = [5, 0, 0, 3]" using recv_ok [OF f(1)] f(2-4) b(1) length_4 [of f] by simp
  then show ?thesis using recv_ok [OF f(1)] b by auto
qed

lemma Socks5_overflow_only:
  assumes "Socks5 h n s = Inl e"
  shows "\<exists>b t. rx_stream (rx s) = [5, 0] @ [5, 0, 0, 3] @ b # t \<and> 128 \<le> b"
proof -
  obtain x s1 where x: "send [5, 1, 0] s = (x, s1)" by fastforce
  then have s1: "rx s1 = rx s" using send_frame by blast
  have r: "bindR (InterruptibleRecv 2 2 SOCKS5_RECV_TIMEOUT s1) (\<lambda>(ok, pchRet1, s).
              if \<not> ok then socks_fail ''Error reading proxy response'' s
              else if pchRet1 ! 0 \<noteq> 0x05 \<or> pchRet1 ! 1 \<noteq> 0x00 then socks_fail ''Proxy failed to initialize'' s
              else socks_request h n s) = Inl e"
    using assms x by (simp add: Socks5_def socks_fail_def split: if_splits)
  obtain d s2 where d: "InterruptibleRecv 2 2 SOCKS5_RECV_TIMEOUT s1 = Inr (True, d, s2)" "d ! 0 = 5" "d ! 1 = 0"
    and q: "socks_request h n s2 = Inl e"
    by (rule recv_bind_Inl [OF r]) (auto simp: socks_fail_def split: if_splits)
  obtain y s3 where y: "send (socks_request_bytes h n) s2 = (y, s3)" by fastforce
  then have s3: "rx s3 = rx s2" using send_frame by blast
  have p: "socks_reply s3 = Inl e"
    using q y by (simp add: socks_request_def socks_fail_def split: if_splits)
  have "d = [5, 0]" using recv_ok [OF d(1)] d(2,3) length_2 [of d] by simp
  then show ?thesis using recv_ok [OF d(1)] socks_reply_overflow [OF p] s1 s3 by auto
qed

section \<open>Properties\<close>

text \<open>C18. The SOCKS5 handshake, for every behaviour of the proxy: on success the client has sent
  exactly the greeting and the connect request for the destination and the socket is open; on every
  reported error the socket has been closed; and no buffer is overrun unless the proxy's reply is
  \<open>05 00 05 00 00 03\<close> followed by a length byte of 128 or more.\<close>

theorem Socks5_correct:
  "case Socks5 strDest n s of
     Inr (SocksOk, s') \<Rightarrow> tx s' = tx s @ [5, 1, 0] @ socks_request_bytes strDest n \<and> closed s' = closed s
   | Inr (SocksError m, s') \<Rightarrow> closed s'
   | Inl e \<Rightarrow> (\<exists>b t. rx_stream (rx s) = [5, 0] @ [5, 0, 0, 3] @ b # t \<and> 128 \<le> b)"
  using Socks5_phase [of s strDest n] Socks5_overflow_only [of strDest n s]
  by (auto simp: phase_ok_def split: sum.splits socks_result.splits prod.splits)

text \<open>A proxy can overrun the client's 256-byte buffer: the length byte of a domain reply is read as a
  signed \<open>char\<close>, so a length byte of 128 or more becomes a huge \<open>size_t\<close> and any 257 bytes that follow
  are written past the end of \<open>pchRet3\<close>.\<close>

theorem Socks5_overrun:
  assumes "length strDest \<le> 255" "128 \<le> b" "256 < length d" "length d < 2 ^ 63"
    and "rx s = [(Data [5, 0], 0), (Data [5, 0, 0, 3], 0), (Data [b], 0), (Data d, 0)]"
    and "sends s = [3, int (length strDest) + 7]"
  shows "Socks5 strDest n s = Inl OutOfRange"
proof -
  have big: "length d < char_size b" "d \<noteq> []" using assms(2-4) by (auto simp: char_size_eq word_le_nat_alt)
  show ?thesis
    using assms(1,3,5,6) big
    by (simp add: Socks5_def send_def socks_request_def socks_request_bytes_def InterruptibleRecv_def recv_loop.simps
      SOCKS5_RECV_TIMEOUT_def socks_reply_def socks_addr_def Let_def)
qed


theorem Socks5_overrun_witness:
  "Socks5 ''a'' 80 \<lparr>rx = [(Data [5, 0], 0), (Data [5, 0, 0, 3], 0), (Data [200], 0), (Data (replicate 300 65), 0)],
     now = 0, sends = [3, 8], tx = [], closed = False\<rparr> = Inl OutOfRange"
  by (rule Socks5_overrun [where b = 200 and d = "replicate 300 65"]) simp_all

text \<open>Printing and splitting agree: \<open>SplitHostPort\<close> reads back the port and the host of what
  \<open>ToStringIPPort\<close> prints, whatever the default port, for every service with a non-zero port.\<close>

theorem SplitHostPort_ToStringIPPort:
  assumes "\<And>b. CHR '':'' \<notin> set (EncodeBase32 b) \<and> CHR ''['' \<notin> set (EncodeBase32 b)"
    and "\<And>s n. getnameinfo s = Some n \<Longrightarrow> IsIPv4 s \<Longrightarrow> CHR '':'' \<notin> set n \<and> CHR ''['' \<notin> set n"
    and "ParseInt32 (show_base 10 (unat (port a))) = Some (uint (port a))"
    and "port a \<noteq> 0"
  shows "SplitHostPort ParseInt32 (ToStringIPPort EncodeBase32 getnameinfo a) d
    = (uint (port a), ToStringIP EncodeBase32 getnameinfo a)"
proof -
  let ?nm = "ToStringIP EncodeBase32 getnameinfo a"
  have d: "CHR '':'' \<notin> set (show_base 10 n)" "CHR ''['' \<notin> set (show_base 10 n)" for n
    by (rule show_base_no_char; simp)+
  have p: "0 < uint (port a)" "uint (port a) < 0x10000"
    using assms(4) unsigned_less [of "port a", where 'a = int] by (simp_all add: word_neq_0_conv word_less_def)
  show ?thesis
  proof (cases "IsIPv4 a \<or> IsTor a")
    case True
    have "CHR '':'' \<notin> set ?nm \<and> CHR ''['' \<notin> set ?nm"
    proof (cases "IsTor a")
      case True then show ?thesis using assms(1) by (simp add: ToStringIP_def)
    next
      case False
      then have "IsIPv4 (mk_service (netaddr a) 0)" using \<open>IsIPv4 a \<or> IsTor a\<close>
        by (simp add: IsIPv4_def mk_service_def netaddr_def)
      then show ?thesis using False assms(2) [of "mk_service (netaddr a) 0"] \<open>IsIPv4 a \<or> IsTor a\<close> d
        by (simp add: ToStringIP_def split: option.splits)
    qed
    then have "CHR '':'' \<notin> set ?nm" "?nm = [] \<or> hd ?nm \<noteq> CHR ''[''" by (auto dest: hd_in_set)
    then show ?thesis using True SplitHostPort_plain [of ?nm "show_base 10 (unat (port a))" ParseInt32 "uint (port a)" d, OF _ d(1) assms(3) p]
      by (simp add: ToStringIPPort_def ToStringPort_def)
  next
    case False
    then show ?thesis using SplitHostPort_bracketed [of "show_base 10 (unat (port a))" ParseInt32 "uint (port a)" ?nm d, OF d(1) assms(3) p]
      by (simp add: ToStringIPPort_def ToStringPort_def)
  qed
qed

definition parse_80 :: "string \<Rightarrow> int option" where
  "parse_80 s = (if s = ''80'' then Some 80 else None)"

lemma parse_80_show: "parse_80 (show_base 10 80) = Some 80" by code_simp

theorem SplitHostPort_ToStringIPPort_witness:
  "SplitHostPort parse_80 (ToStringIPPort (\<lambda>_. ''abcd'') (\<lambda>_. None) \<lparr>ip = pchIPv4 @ [8, 8, 4, 4], port = 80\<rparr>) 0
    = (80, ToStringIP (\<lambda>_. ''abcd'') (\<lambda>_. None) \<lparr>ip = pchIPv4 @ [8, 8, 4, 4], port = 80\<rparr>)"
  using SplitHostPort_ToStringIPPort [of "\<lambda>_. ''abcd''" "\<lambda>_. None" parse_80 "\<lparr>ip = pchIPv4 @ [8, 8, 4, 4], port = 80\<rparr>" 0]
  by (simp add: parse_80_show)

text \<open>Proxies are respected: with a proxy set for the network of the destination the only connection
  attempted is to that proxy; and when a name proxy is set, connecting by name never asks the resolver
  for anything but a numeric address, so the result is the same for all resolvers that agree on those.\<close>

theorem proxy_respected:
  assumes "HaveNameProxy P" and "\<And>n. getaddrinfo R n False = getaddrinfo R' n False"
    and "decode32 R = decode32 R'" "parseint32 R = parseint32 R'"
  shows "(ConnectSocket E g direct P addrDest = Inr c \<and> IsValid (proxyInfo P ! net_code (GetNetwork addrDest)) \<longrightarrow>
      attempts c = [proxyInfo P ! net_code (GetNetwork addrDest)]) \<and>
    ConnectSocketByName E g direct R fNameLookup P pszDest portDefault =
      ConnectSocketByName E g direct R' fNameLookup P pszDest portDefault"
proof
  show "ConnectSocket E g direct P addrDest = Inr c \<and> IsValid (proxyInfo P ! net_code (GetNetwork addrDest)) \<longrightarrow>
      attempts c = [proxyInfo P ! net_code (GetNetwork addrDest)]"
    by (auto simp: ConnectSocket_def GetProxy_def bindR_Inr_iff split: if_splits option.splits)
  have l: "LookupIntern R nm k False = LookupIntern R' nm k False" for nm k
    using assms(2-4) by (simp add: LookupIntern_def split: option.split)
  have "Lookup1 R nm d False = Lookup1 R' nm d False" for nm d
    using assms(4) by (simp only: Lookup1_def Lookup_def l)
  then have c1: "CService_of_string R nm d False = CService_of_string R' nm d False" for nm d
    by (simp only: CService_of_string_def)
  have c2: "CNetAddr_of_string R nm False = CNetAddr_of_string R' nm False" for nm
    by (simp only: CNetAddr_of_string_def LookupHost_def l)
  show "ConnectSocketByName E g direct R fNameLookup P pszDest portDefault
      = ConnectSocketByName E g direct R' fNameLookup P pszDest portDefault"
    by (simp only: ConnectSocketByName_def assms(1,4) c1 c2 simp_thms)
qed

definition proxy9050 :: proxies where
  "proxy9050 = \<lparr>proxyInfo = replicate 4 \<lparr>ip = pchIPv4 @ [127, 0, 0, 1], port = 9050\<rparr>,
     nameProxy = \<lparr>ip = pchIPv4 @ [127, 0, 0, 1], port = 9050\<rparr>\<rparr>"

lemma HaveNameProxy_9050: "HaveNameProxy proxy9050" by code_simp

theorem proxy_respected_witness:
  "ConnectSocketByName (\<lambda>_. []) (\<lambda>_. None) (\<lambda>_. None) \<lparr>decode32 = (\<lambda>_. []), getaddrinfo = (\<lambda>_ _. None), parseint32 = (\<lambda>_. None)\<rparr>
     True proxy9050 ''host'' 8333
   = ConnectSocketByName (\<lambda>_. []) (\<lambda>_. None) (\<lambda>_. None)
      \<lparr>decode32 = (\<lambda>_. []), getaddrinfo = (\<lambda>_ lookup. if lookup then Some [AF_OTHER] else None), parseint32 = (\<lambda>_. None)\<rparr>
     True proxy9050 ''host'' 8333"
proof -
  let ?R = "\<lparr>decode32 = (\<lambda>_. []), getaddrinfo = (\<lambda>_ _. None), parseint32 = (\<lambda>_. None)\<rparr>"
  let ?R' = "\<lparr>decode32 = (\<lambda>_. []), getaddrinfo = (\<lambda>_ lookup. if lookup then Some [AF_OTHER] else None), parseint32 = (\<lambda>_. None)\<rparr>"
  show ?thesis by (rule conjunct2 [OF proxy_respected [of proxy9050 ?R ?R']]) (simp_all add: HaveNameProxy_9050)
qed

end
