(* ===== verification/Addrman.thy ===== *)
theory Addrman
  imports NetAddr "HOL-Library.Mapping" "HOL-Library.AList_Mapping"
begin

text \<open>
  The stochastic address manager (\<open>addrman.h\<close>, \<open>addrman.cpp\<close>): its entries, its indexes (the map
  of entries, the map by address, the randomly ordered vector, the tried and the new buckets) and
  every operation on them, with the code's assertions as failures.

  Parameters: \<open>Hash(..).GetLow64()\<close> and the stream serialisation (not in the tree), the clock
  \<open>GetAdjustedTime()\<close>, and \<open>GetRandInt\<close>: \<open>rnd i n\<close> is what the \<open>i\<close>-th call in an operation returns
  for the bound \<open>n\<close>.
\<close>

section \<open>Entries\<close>

record CAddrInfo = CAddress +
  ai_source :: CNetAddr
  nLastSuccess :: int
  nAttempts :: int
  nRefCount :: int
  fInTried :: bool
  nRandomPos :: int

definition mk_info :: "'a CAddress_scheme \<Rightarrow> CNetAddr \<Rightarrow> CAddrInfo" where
  "mk_info addrIn addrSource =
     \<lparr>ip = ip addrIn, port = port addrIn, nServices = nServices addrIn, nTime = nTime addrIn, nLastTry = 0,
      ai_source = addrSource, nLastSuccess = 0, nAttempts = 0, nRefCount = 0, fInTried = False, nRandomPos = -1\<rparr>"

definition CAddrInfo_Init :: CAddrInfo where
  "CAddrInfo_Init = mk_info (mk_address CService_Init NODE_NETWORK) CNetAddr_Init"

record hasher =
  ser_vec :: "bytes \<Rightarrow> bytes"
  ser_u64 :: "u64 \<Rightarrow> bytes"
  Hash64 :: "bytes \<Rightarrow> u64"

definition GetTriedBucket :: "hasher \<Rightarrow> bytes \<Rightarrow> 'a CService_scheme \<Rightarrow> nat" where
  "GetTriedBucket H nKey this =
    (let hash1 = Hash64 H (ser_vec H nKey @ ser_vec H (GetKey this));
         hash2 = Hash64 H (ser_vec H nKey @ ser_vec H (GetGroup this) @ ser_u64 H (hash1 mod 4))
     in unat (hash2 mod 64))"

definition GetNewBucket :: "hasher \<Rightarrow> bytes \<Rightarrow> 'a CService_scheme \<Rightarrow> CNetAddr \<Rightarrow> nat" where
  "GetNewBucket H nKey this src =
    (let vchSourceGroupKey = GetGroup src;
         hash1 = Hash64 H (ser_vec H nKey @ ser_vec H (GetGroup this) @ ser_vec H vchSourceGroupKey);
         hash2 = Hash64 H (ser_vec H nKey @ ser_vec H vchSourceGroupKey @ ser_u64 H (hash1 mod 32))
     in unat (hash2 mod 256))"

definition IsTerrible :: "CAddrInfo \<Rightarrow> int \<Rightarrow> bool" where
  "IsTerrible this nNow =
    (if nLastTry this \<noteq> 0 \<and> nLastTry this \<ge> nNow - 60 then False
     else if uint (nTime this) > nNow + 10 * 60 then True
     else if nTime this = 0 \<or> nNow - uint (nTime this) > 30 * 24 * 60 * 60 then True
     else if nLastSuccess this = 0 \<and> nAttempts this \<ge> 3 then True
     else if nNow - nLastSuccess this > 7 * 24 * 60 * 60 \<and> nAttempts this \<ge> 10 then True
     else False)"

section \<open>The manager\<close>

record CAddrMan =
  nKey :: bytes
  nIdCount :: int
  mapInfo :: "(int, CAddrInfo) mapping"
  mapAddr :: "(CNetAddr, int) mapping"
  vRandom :: "int list"
  nTried :: int
  vvTried :: "int list list"
  nNew :: int
  vvNew :: "int set list"

definition addrman_init :: "bytes \<Rightarrow> CAddrMan" where
  "addrman_init key = \<lparr>nKey = key, nIdCount = 0, mapInfo = Mapping.empty, mapAddr = Mapping.empty,
     vRandom = [], nTried = 0, vvTried = replicate 64 [], nNew = 0, vvNew = replicate 256 {}\<rparr>"

definition addrman_size :: "CAddrMan \<Rightarrow> nat" where
  "addrman_size s = length (vRandom s)"

text \<open>Conversion of an \<open>int\<close> (or of \<open>size() - 1\<close>) to \<open>unsigned int\<close>.\<close>

definition uns :: "int \<Rightarrow> nat" where
  "uns i = nat (i mod 2 ^ 32)"

definition Find :: "CAddrMan \<Rightarrow> 'a CNetAddr_scheme \<Rightarrow> int option" where
  "Find s addr = (case Mapping.lookup (mapAddr s) (netaddr addr) of
     None \<Rightarrow> None
   | Some nId \<Rightarrow> (case Mapping.lookup (mapInfo s) nId of Some _ \<Rightarrow> Some nId | None \<Rightarrow> None))"

definition Create :: "'a CAddress_scheme \<Rightarrow> CNetAddr \<Rightarrow> CAddrMan \<Rightarrow> int \<times> CAddrMan" where
  "Create addr addrSource s =
    (let nId = nIdCount s in
     (nId, s\<lparr>nIdCount := nId + 1,
             mapInfo := Mapping.update nId ((mk_info addr addrSource)\<lparr>nRandomPos := int (length (vRandom s))\<rparr>) (mapInfo s),
             mapAddr := Mapping.update (netaddr addr) nId (mapAddr s),
             vRandom := vRandom s @ [nId]\<rparr>))"

text \<open>Writing through the pointer to an entry.\<close>

definition upd :: "int \<Rightarrow> (CAddrInfo \<Rightarrow> CAddrInfo) \<Rightarrow> CAddrMan \<Rightarrow> CAddrMan" where
  "upd nId f s = s\<lparr>mapInfo := Mapping.map_entry nId f (mapInfo s)\<rparr>"

definition has :: "CAddrMan \<Rightarrow> int \<Rightarrow> bool" where
  "has s nId = (Mapping.lookup (mapInfo s) nId \<noteq> None)"

text \<open>\<open>mapInfo[nId]\<close>: a missing key is default-constructed (the insertion is \<open>touch\<close>).\<close>

definition info :: "CAddrMan \<Rightarrow> int \<Rightarrow> CAddrInfo" where
  "info s nId = (case Mapping.lookup (mapInfo s) nId of Some x \<Rightarrow> x | None \<Rightarrow> CAddrInfo_Init)"

definition touch :: "int \<Rightarrow> CAddrMan \<Rightarrow> CAddrMan" where
  "touch nId s = (if has s nId then s else s\<lparr>mapInfo := Mapping.update nId CAddrInfo_Init (mapInfo s)\<rparr>)"

definition SwapRandom :: "nat \<Rightarrow> nat \<Rightarrow> CAddrMan \<Rightarrow> CAddrMan result" where
  "SwapRandom nRndPos1 nRndPos2 s =
    (if nRndPos1 = nRndPos2 then Inr s
     else if \<not> (nRndPos1 < length (vRandom s) \<and> nRndPos2 < length (vRandom s)) then Inl AssertFailed
     else
       let nId1 = vRandom s ! nRndPos1; nId2 = vRandom s ! nRndPos2 in
       if \<not> has s nId1 then Inl AssertFailed
       else if \<not> has s nId2 then Inl AssertFailed
       else
         let s = upd nId1 (\<lambda>i. i\<lparr>nRandomPos := int nRndPos2\<rparr>) s;
             s = upd nId2 (\<lambda>i. i\<lparr>nRandomPos := int nRndPos1\<rparr>) s
         in Inr (s\<lparr>vRandom := (vRandom s)[nRndPos1 := nId2, nRndPos2 := nId1]\<rparr>))"

text \<open>
  The loop of \<open>SelectTried\<close>: swap a random element to position \<open>i\<close> and keep the id with the
  smallest \<open>nLastSuccess\<close> together with \<open>nPos\<close>, the position it was taken from.
\<close>

fun select_tried_loop :: "(nat \<Rightarrow> int \<Rightarrow> int) \<Rightarrow> nat \<Rightarrow> nat list \<Rightarrow> int \<Rightarrow> int \<Rightarrow> CAddrMan \<Rightarrow> (int \<times> CAddrMan) result" where
  "select_tried_loop rnd b [] nOldest nOldestPos s = Inr (nOldestPos, s)"
| "select_tried_loop rnd b (i # is) nOldest nOldestPos s =
    (let vTried = vvTried s ! b;
         nPos = nat (rnd (i + 1) (int (length vTried) - int i)) + i;
         nTemp = vTried ! nPos;
         vTried = vTried[nPos := vTried ! i];
         vTried = vTried[i := nTemp];
         s = s\<lparr>vvTried := (vvTried s)[b := vTried]\<rparr>
     in if \<not> (nOldest = -1 \<or> has s nTemp) then Inl AssertFailed
        else if nOldest = -1 \<or> nLastSuccess (info s nTemp) < nLastSuccess (info s nOldest) then
          select_tried_loop rnd b is nTemp (int nPos) (if nOldest = -1 then s else touch nOldest s)
        else select_tried_loop rnd b is nOldest nOldestPos (touch nOldest s))"

definition SelectTried :: "(nat \<Rightarrow> int \<Rightarrow> int) \<Rightarrow> nat \<Rightarrow> CAddrMan \<Rightarrow> (int \<times> CAddrMan) result" where
  "SelectTried rnd nKBucket s =
    select_tried_loop rnd nKBucket [0..<min 4 (length (vvTried s ! nKBucket))] (-1) (-1) s"

text \<open>Giving up one reference to an entry of a new bucket; the last one deletes the entry.\<close>

definition drop_ref :: "int \<Rightarrow> CAddrMan \<Rightarrow> CAddrMan result" where
  "drop_ref nId s =
    (let s = upd nId (\<lambda>i. i\<lparr>nRefCount := nRefCount i - 1\<rparr>) s in
     if nRefCount (info s nId) = 0 then
       bindR (SwapRandom (uns (nRandomPos (info s nId))) (uns (int (length (vRandom s)) - 1)) s) (\<lambda>s.
         Inr (s\<lparr>vRandom := butlast (vRandom s),
                mapAddr := Mapping.delete (netaddr (info s nId)) (mapAddr s),
                mapInfo := Mapping.delete nId (mapInfo s),
                nNew := nNew s - 1\<rparr>))
     else Inr s)"

fun find_terrible :: "int \<Rightarrow> CAddrMan \<Rightarrow> int list \<Rightarrow> int option result" where
  "find_terrible nNow s [] = Inr None"
| "find_terrible nNow s (it # its) =
    (if \<not> has s it then Inl AssertFailed
     else if IsTerrible (info s it) nNow then Inr (Some it)
     else find_terrible nNow s its)"

text \<open>The oldest of the elements at the four drawn positions.\<close>

fun shrink_oldest :: "int set \<Rightarrow> int \<Rightarrow> CAddrMan \<Rightarrow> int \<Rightarrow> int list \<Rightarrow> int result" where
  "shrink_oldest ns nI s nOldest [] = Inr nOldest"
| "shrink_oldest ns nI s nOldest (it # its) =
    (if nI \<in> ns then
       (if \<not> (nOldest = -1 \<or> has s it) then Inl AssertFailed
        else if nOldest = -1 \<or> nTime (info s it) < nTime (info s nOldest) then
          shrink_oldest ns (nI + 1) s it its
        else shrink_oldest ns (nI + 1) s nOldest its)
     else shrink_oldest ns (nI + 1) s nOldest its)"

definition erase_new :: "nat \<Rightarrow> int \<Rightarrow> CAddrMan \<Rightarrow> CAddrMan" where
  "erase_new b nId s = s\<lparr>vvNew := (vvNew s)[b := vvNew s ! b - {nId}]\<rparr>"

definition insert_new :: "nat \<Rightarrow> int \<Rightarrow> CAddrMan \<Rightarrow> CAddrMan" where
  "insert_new b nId s = s\<lparr>vvNew := (vvNew s)[b := insert nId (vvNew s ! b)]\<rparr>"

definition ShrinkNew :: "(nat \<Rightarrow> int \<Rightarrow> int) \<Rightarrow> int \<Rightarrow> nat \<Rightarrow> CAddrMan \<Rightarrow> (int \<times> CAddrMan) result" where
  "ShrinkNew rnd nNow nUBucket s =
    (if \<not> nUBucket < length (vvNew s) then Inl AssertFailed
     else
       let vNew = sorted_list_of_set (vvNew s ! nUBucket) in
       bindR (find_terrible nNow s vNew) (\<lambda>t.
         case t of
           Some it \<Rightarrow> bindR (drop_ref it s) (\<lambda>s. Inr (0, erase_new nUBucket it s))
         | None \<Rightarrow>
             let sz = int (length vNew); n = {rnd 1 sz, rnd 2 sz, rnd 3 sz, rnd 4 sz} in
             bindR (shrink_oldest n 0 s (-1) vNew) (\<lambda>nOldest.
               if \<not> has s nOldest then Inl AssertFailed
               else bindR (drop_ref nOldest s) (\<lambda>s. Inr (1, erase_new nUBucket nOldest s)))))"

definition MakeTried :: "hasher \<Rightarrow> (nat \<Rightarrow> int \<Rightarrow> int) \<Rightarrow> int \<Rightarrow> nat \<Rightarrow> CAddrMan \<Rightarrow> CAddrMan result" where
  "MakeTried H rnd nId nOrigin s =
    (if \<not> nId \<in> vvNew s ! nOrigin then Inl AssertFailed
     else
       let n = length (filter (\<lambda>b. nId \<in> b) (vvNew s));
           s = s\<lparr>vvNew := map (\<lambda>b. b - {nId}) (vvNew s)\<rparr>;
           s = upd nId (\<lambda>i. i\<lparr>nRefCount := nRefCount i - int n\<rparr>) s;
           s = s\<lparr>nNew := nNew s - 1\<rparr>
       in if \<not> nRefCount (info s nId) = 0 then Inl AssertFailed
          else
            let nKBucket = GetTriedBucket H (nKey s) (info s nId);
                vTried = vvTried s ! nKBucket
            in if length vTried < 64 then
                 Inr (upd nId (\<lambda>i. i\<lparr>fInTried := True\<rparr>)
                       (s\<lparr>vvTried := (vvTried s)[nKBucket := vTried @ [nId]], nTried := nTried s + 1\<rparr>))
               else
                 bindR (SelectTried rnd nKBucket s) (\<lambda>(nPos, s).
                   let vTried = vvTried s ! nKBucket; old = vTried ! nat nPos in
                   if \<not> has s old then Inl AssertFailed
                   else
                     let nUBucket = GetNewBucket H (nKey s) (info s old) (ai_source (info s old));
                         s = upd old (\<lambda>i. i\<lparr>fInTried := False, nRefCount := 1\<rparr>) s;
                         s = (if card (vvNew s ! nUBucket) < 64 then insert_new nUBucket old s
                              else insert_new nOrigin old s);
                         s = s\<lparr>nNew := nNew s + 1, vvTried := (vvTried s)[nKBucket := vTried[nat nPos := nId]]\<rparr>
                     in Inr (upd nId (\<lambda>i. i\<lparr>fInTried := True\<rparr>) s)))"

definition AM_Good :: "hasher \<Rightarrow> (nat \<Rightarrow> int \<Rightarrow> int) \<Rightarrow> 'a CService_scheme \<Rightarrow> int \<Rightarrow> CAddrMan \<Rightarrow> CAddrMan result" where
  "AM_Good H rnd addr time s =
    (case Find s addr of
       None \<Rightarrow> Inr s
     | Some nId \<Rightarrow>
         if \<not> service_eq (info s nId) addr then Inr s
         else
           let s = upd nId (\<lambda>i. i\<lparr>nLastSuccess := time, nLastTry := time, nTime := of_int time, nAttempts := 0\<rparr>) s in
           if fInTried (info s nId) then Inr s
           else
             let sz = length (vvNew s); nRnd = nat (rnd 0 (int sz)) in
             (case find (\<lambda>nB. nId \<in> vvNew s ! nB) (map (\<lambda>n. (n + nRnd) mod sz) [0..<sz]) of
                None \<Rightarrow> Inr s
              | Some nUBucket \<Rightarrow> MakeTried H rnd nId nUBucket s))"

text \<open>The update of a known entry in \<open>Add_\<close>: the new entry and whether the code goes on.\<close>

definition add_refresh :: "(nat \<Rightarrow> int \<Rightarrow> int) \<Rightarrow> int \<Rightarrow> 'a CAddress_scheme \<Rightarrow> int \<Rightarrow> CAddrInfo \<Rightarrow> bool \<times> CAddrInfo" where
  "add_refresh rnd nNow addr nTimePenalty pinfo =
    (let t = uint (nTime addr);
         fCurrentlyOnline = (nNow - t < 24 * 60 * 60);
         nUpdateInterval = (if fCurrentlyOnline then 60 * 60 else 24 * 60 * 60);
         pinfo = (if nTime addr \<noteq> 0 \<and> (nTime pinfo = 0 \<or> uint (nTime pinfo) < t - nUpdateInterval - nTimePenalty)
                  then pinfo\<lparr>nTime := of_int (max 0 (t - nTimePenalty))\<rparr> else pinfo);
         pinfo = pinfo\<lparr>nServices := nServices pinfo OR nServices addr\<rparr>
     in if nTime addr = 0 \<or> (nTime pinfo \<noteq> 0 \<and> nTime addr \<le> nTime pinfo) then (False, pinfo)
        else if fInTried pinfo then (False, pinfo)
        else if nRefCount pinfo = 4 then (False, pinfo)
        else
          let nFactor = 2 ^ nat (nRefCount pinfo) in
          if nFactor > 1 \<and> rnd 0 nFactor \<noteq> 0 then (False, pinfo) else (True, pinfo))"

definition add_bucket :: "hasher \<Rightarrow> (nat \<Rightarrow> int \<Rightarrow> int) \<Rightarrow> int \<Rightarrow> CNetAddr \<Rightarrow> int \<Rightarrow> CAddrMan \<Rightarrow> CAddrMan result" where
  "add_bucket H rnd nNow source nId s =
    (let nUBucket = GetNewBucket H (nKey s) (info s nId) source in
     if nId \<in> vvNew s ! nUBucket then Inr s
     else
       let s = upd nId (\<lambda>i. i\<lparr>nRefCount := nRefCount i + 1\<rparr>) s in
       bindR (if card (vvNew s ! nUBucket) = 64 then bindR (ShrinkNew rnd nNow nUBucket s) (\<lambda>(_, s). Inr s) else Inr s) (\<lambda>s.
         Inr (insert_new nUBucket nId s)))"

definition AM_Add :: "hasher \<Rightarrow> (nat \<Rightarrow> int \<Rightarrow> int) \<Rightarrow> int \<Rightarrow> 'a CAddress_scheme \<Rightarrow> CNetAddr \<Rightarrow> int \<Rightarrow> CAddrMan \<Rightarrow>
    (bool \<times> CAddrMan) result" where
  "AM_Add H rnd nNow addr source nTimePenalty s =
    (if \<not> IsRoutable addr then Inr (False, s)
     else
       case Find s addr of
         Some nId \<Rightarrow>
           let (go, pinfo) = add_refresh rnd nNow addr nTimePenalty (info s nId);
               s = upd nId (\<lambda>_. pinfo) s
           in if \<not> go then Inr (False, s)
              else bindR (add_bucket H rnd nNow source nId s) (\<lambda>s. Inr (False, s))
       | None \<Rightarrow>
           let (nId, s) = Create addr source s;
               s = upd nId (\<lambda>i. i\<lparr>nTime := of_int (max 0 (uint (nTime i) - nTimePenalty))\<rparr>) s;
               s = s\<lparr>nNew := nNew s + 1\<rparr>
           in bindR (add_bucket H rnd nNow source nId s) (\<lambda>s. Inr (True, s)))"

text \<open>\<open>Add\<close> of a vector: the draws of each call are its own.\<close>

fun Add_all :: "hasher \<Rightarrow> (nat \<Rightarrow> nat \<Rightarrow> int \<Rightarrow> int) \<Rightarrow> int \<Rightarrow> CAddress list \<Rightarrow> CNetAddr \<Rightarrow> int \<Rightarrow> int \<Rightarrow> CAddrMan \<Rightarrow>
    (int \<times> CAddrMan) result" where
  "Add_all H rnds nNow [] source nTimePenalty nAdd s = Inr (nAdd, s)"
| "Add_all H rnds nNow (addr # vAddr) source nTimePenalty nAdd s =
    bindR (AM_Add H (rnds (length vAddr)) nNow addr source nTimePenalty s) (\<lambda>(fRet, s).
      Add_all H rnds nNow vAddr source nTimePenalty (nAdd + (if fRet then 1 else 0)) s)"

definition AM_Attempt :: "'a CService_scheme \<Rightarrow> int \<Rightarrow> CAddrMan \<Rightarrow> CAddrMan" where
  "AM_Attempt addr time s =
    (case Find s addr of
       None \<Rightarrow> s
     | Some nId \<Rightarrow>
         if \<not> service_eq (info s nId) addr then s
         else upd nId (\<lambda>i. i\<lparr>nLastTry := time, nAttempts := nAttempts i + 1\<rparr>) s)"

definition AM_Connected :: "'a CService_scheme \<Rightarrow> int \<Rightarrow> CAddrMan \<Rightarrow> CAddrMan" where
  "AM_Connected addr time s =
    (case Find s addr of
       None \<Rightarrow> s
     | Some nId \<Rightarrow>
         if \<not> service_eq (info s nId) addr then s
         else if time - uint (nTime (info s nId)) > 20 * 60 then upd nId (\<lambda>i. i\<lparr>nTime := of_int time\<rparr>) s
         else s)"

fun getaddr_loop :: "(nat \<Rightarrow> int \<Rightarrow> int) \<Rightarrow> nat list \<Rightarrow> CAddrInfo list \<Rightarrow> CAddrMan \<Rightarrow> (CAddrInfo list \<times> CAddrMan) result" where
  "getaddr_loop rnd [] vAddr s = Inr (vAddr, s)"
| "getaddr_loop rnd (n # ns) vAddr s =
    (let nRndPos = nat (rnd n (int (length (vRandom s)) - int n)) + n in
     bindR (SwapRandom n nRndPos s) (\<lambda>s.
       if \<not> has s (vRandom s ! n) then Inl AssertFailed
       else getaddr_loop rnd ns (vAddr @ [info s (vRandom s ! n)]) s))"

definition AM_GetAddr :: "(nat \<Rightarrow> int \<Rightarrow> int) \<Rightarrow> CAddrMan \<Rightarrow> (CAddrInfo list \<times> CAddrMan) result" where
  "AM_GetAddr rnd s =
    (let nNodes = 23 * length (vRandom s) div 100;
         nNodes = (if nNodes > 2500 then 2500 else nNodes)
     in getaddr_loop rnd [0..<nNodes] [] s)"

section \<open>The consistency check\<close>

text \<open>
  \<open>Check_\<close>: an error code (\<open>Inl\<close>) or the accumulated address map (\<open>mapAddr[info]\<close> inserts 0 for a
  missing address), tried ids and reference counts of the new entries.
\<close>

fun check_infos :: "CAddrMan \<Rightarrow> int list \<Rightarrow> (CNetAddr, int) mapping \<Rightarrow> int set \<Rightarrow> (int, int) mapping \<Rightarrow>
    int + int set \<times> (int, int) mapping" where
  "check_infos s [] mA setTried mapNew = Inr (setTried, mapNew)"
| "check_infos s (n # ns) mA setTried mapNew =
    (let i = info s n;
         v = (case Mapping.lookup mA (netaddr i) of Some v \<Rightarrow> v | None \<Rightarrow> 0);
         mA = Mapping.update (netaddr i) v mA
     in if fInTried i \<and> nLastSuccess i = 0 then Inl (- 1)
        else if fInTried i \<and> nRefCount i \<noteq> 0 then Inl (- 2)
        else if \<not> fInTried i \<and> (nRefCount i < 0 \<or> nRefCount i > 4) then Inl (- 3)
        else if \<not> fInTried i \<and> nRefCount i = 0 then Inl (- 4)
        else if v \<noteq> n then Inl (- 5)
        else if nRandomPos i < 0 \<or> nRandomPos i \<ge> int (length (vRandom s)) \<or> vRandom s ! nat (nRandomPos i) \<noteq> n then Inl (- 14)
        else if nLastTry i < 0 then Inl (- 6)
        else if nLastSuccess i < 0 then Inl (- 8)
        else check_infos s ns mA (if fInTried i then insert n setTried else setTried)
               (if fInTried i then mapNew else Mapping.update n (nRefCount i) mapNew))"

fun check_tried :: "int list \<Rightarrow> int set \<Rightarrow> int + int set" where
  "check_tried [] setTried = Inr setTried"
| "check_tried (it # its) setTried =
    (if it \<notin> setTried then Inl (- 11) else check_tried its (setTried - {it}))"

fun check_new :: "int list \<Rightarrow> (int, int) mapping \<Rightarrow> int + (int, int) mapping" where
  "check_new [] mapNew = Inr mapNew"
| "check_new (it # its) mapNew =
    (case Mapping.lookup mapNew it of
       None \<Rightarrow> Inl (- 12)
     | Some c \<Rightarrow> check_new its (if c - 1 = 0 then Mapping.delete it mapNew else Mapping.update it (c - 1) mapNew))"

definition AM_Check :: "CAddrMan \<Rightarrow> int" where
  "AM_Check s =
    (if int (length (vRandom s)) \<noteq> nTried s + nNew s then - 7
     else case check_infos s (Mapping.ordered_keys (mapInfo s)) (mapAddr s) {} Mapping.empty of
       Inl err \<Rightarrow> err
     | Inr (setTried, mapNew) \<Rightarrow>
         if int (card setTried) \<noteq> nTried s then - 9
         else if int (Mapping.size mapNew) \<noteq> nNew s then - 10
         else case check_tried (concat (vvTried s)) setTried of
           Inl err \<Rightarrow> err
         | Inr setTried \<Rightarrow>
             (case check_new (concat (map sorted_list_of_set (vvNew s))) mapNew of
                Inl err \<Rightarrow> err
              | Inr mapNew \<Rightarrow>
                  if card setTried \<noteq> 0 then - 13
                  else if Mapping.size mapNew \<noteq> 0 then - 15
                  else 0))"

end
