(* ===== verification/AddrmanInv.thy ===== *)
theory AddrmanInv
  imports Addrman "HOL-Library.Multiset"
begin

text \<open>
  The invariant of the address manager, stated on views of the entries (position, address, table,
  reference count, tried bucket), and its preservation by every operation.
\<close>

section \<open>Views\<close>

definition look :: "CAddrMan \<Rightarrow> int \<Rightarrow> CAddrInfo option" where
  "look s i = Mapping.lookup (mapInfo s) i"

lemma look_upd: "look (upd n f s) = (look s)(n := map_option f (look s n))"
  by (rule ext) (simp add: look_def upd_def Mapping.lookup_map_entry')

lemma look_simps [simp]:
  "look (s\<lparr>vRandom := a\<rparr>) = look s" "look (s\<lparr>nTried := b\<rparr>) = look s" "look (s\<lparr>nNew := b\<rparr>) = look s"
  "look (s\<lparr>vvTried := c\<rparr>) = look s" "look (s\<lparr>vvNew := d\<rparr>) = look s" "look (s\<lparr>mapAddr := e\<rparr>) = look s"
  "look (s\<lparr>nIdCount := b\<rparr>) = look s"
  by (simp_all add: fun_eq_iff look_def)

lemma upd_frame [simp]:
  "nKey (upd n f s) = nKey s" "nIdCount (upd n f s) = nIdCount s" "mapAddr (upd n f s) = mapAddr s"
  "vRandom (upd n f s) = vRandom s" "nTried (upd n f s) = nTried s" "vvTried (upd n f s) = vvTried s"
  "nNew (upd n f s) = nNew s" "vvNew (upd n f s) = vvNew s"
  by (simp_all add: upd_def)

lemma has_look: "has s n \<longleftrightarrow> look s n \<noteq> None" by (simp add: has_def look_def)

lemma info_look: "look s n = Some x \<Longrightarrow> info s n = x" by (simp add: info_def look_def)

definition pos_inv :: "(int \<Rightarrow> CAddrInfo option) \<Rightarrow> int list \<Rightarrow> bool" where
  "pos_inv m vr \<longleftrightarrow> (\<forall>p < length vr. map_option nRandomPos (m (vr ! p)) = Some (int p)) \<and>
     (\<forall>i. m i \<noteq> None \<longrightarrow> i \<in> set vr)"

definition addr_inv :: "(int \<Rightarrow> CAddrInfo option) \<Rightarrow> (CNetAddr, int) mapping \<Rightarrow> bool" where
  "addr_inv m mA \<longleftrightarrow> (\<forall>a i. Mapping.lookup mA a = Some i \<longleftrightarrow> map_option netaddr (m i) = Some a)"

definition ids_inv :: "(int \<Rightarrow> CAddrInfo option) \<Rightarrow> int \<Rightarrow> bool" where
  "ids_inv m idc \<longleftrightarrow> 0 \<le> idc \<and> (\<forall>i. m i \<noteq> None \<longrightarrow> 0 \<le> i \<and> i < idc)"

definition is_tried :: "(int \<Rightarrow> CAddrInfo option) \<Rightarrow> int \<Rightarrow> bool" where
  "is_tried m i \<longleftrightarrow> map_option fInTried (m i) = Some True"

definition is_new :: "(int \<Rightarrow> CAddrInfo option) \<Rightarrow> int \<Rightarrow> bool" where
  "is_new m i \<longleftrightarrow> map_option fInTried (m i) = Some False"

definition tried_inv :: "hasher \<Rightarrow> bytes \<Rightarrow> (int \<Rightarrow> CAddrInfo option) \<Rightarrow> int list list \<Rightarrow> bool" where
  "tried_inv H key m vt \<longleftrightarrow> length vt = 64 \<and>
    (\<forall>b < 64. length (vt ! b) \<le> 64 \<and> distinct (vt ! b) \<and>
       (\<forall>i. i \<in> set (vt ! b) \<longleftrightarrow> is_tried m i \<and> map_option (GetTriedBucket H key) (m i) = Some b))"

definition bcount :: "int set list \<Rightarrow> int \<Rightarrow> int" where
  "bcount vn i = int (length (filter (\<lambda>b. i \<in> b) vn))"

definition new_inv :: "(int \<Rightarrow> int) \<Rightarrow> (int \<Rightarrow> CAddrInfo option) \<Rightarrow> int set list \<Rightarrow> bool" where
  "new_inv d m vn \<longleftrightarrow> length vn = 256 \<and>
    (\<forall>b \<in> set vn. finite b \<and> card b \<le> 64 \<and> (\<forall>i \<in> b. is_new m i)) \<and>
    (\<forall>i. m i \<noteq> None \<longrightarrow> map_option nRefCount (m i) = Some (bcount vn i + d i)) \<and>
    (\<forall>i. is_new m i \<longrightarrow> 1 \<le> bcount vn i + d i \<and> bcount vn i + d i \<le> 4)"

definition count_inv :: "(int \<Rightarrow> CAddrInfo option) \<Rightarrow> int \<Rightarrow> int \<Rightarrow> bool" where
  "count_inv m nT nN \<longleftrightarrow> nT = int (card {i. is_tried m i}) \<and> nN = int (card {i. is_new m i})"

definition sane_entry :: "CAddrInfo \<Rightarrow> bool" where
  "sane_entry x \<longleftrightarrow> 0 \<le> nLastTry x \<and> 0 \<le> nLastSuccess x \<and> (fInTried x \<longrightarrow> nLastSuccess x \<noteq> 0)"

definition sane_inv :: "(int \<Rightarrow> CAddrInfo option) \<Rightarrow> bool" where
  "sane_inv m \<longleftrightarrow> (\<forall>i. m i \<noteq> None \<longrightarrow> map_option sane_entry (m i) = Some True)"

definition am_inv :: "hasher \<Rightarrow> (int \<Rightarrow> int) \<Rightarrow> CAddrMan \<Rightarrow> bool" where
  "am_inv H d s \<longleftrightarrow> pos_inv (look s) (vRandom s) \<and> addr_inv (look s) (mapAddr s) \<and> ids_inv (look s) (nIdCount s) \<and>
     tried_inv H (nKey s) (look s) (vvTried s) \<and> new_inv d (look s) (vvNew s) \<and>
     count_inv (look s) (nTried s) (nNew s) \<and> sane_inv (look s)"

definition addrman_ok :: "hasher \<Rightarrow> CAddrMan \<Rightarrow> bool" where
  "addrman_ok H s \<longleftrightarrow> am_inv H (\<lambda>_. 0) s"

definition rand_ok :: "(nat \<Rightarrow> int \<Rightarrow> int) \<Rightarrow> bool" where
  "rand_ok rnd \<longleftrightarrow> (\<forall>i n. 0 < n \<longrightarrow> 0 \<le> rnd i n \<and> rnd i n < n)"

section \<open>Bucket counts\<close>

lemma bcount_set:
  assumes "b < length vn"
  shows "bcount (vn[b := B]) i = bcount vn i - (if i \<in> vn ! b then 1 else 0) + (if i \<in> B then 1 else 0)"
proof -
  have v: "vn = take b vn @ vn ! b # drop (Suc b) vn" using assms by (rule id_take_nth_drop)
  have "bcount (vn[b := B]) i = bcount (take b vn @ B # drop (Suc b) vn) i"
    using assms by (simp add: upd_conv_take_nth_drop)
  moreover have "bcount vn i = bcount (take b vn @ vn ! b # drop (Suc b) vn) i" using v by simp
  ultimately show ?thesis by (simp add: bcount_def)
qed

lemma bcount_nonneg: "0 \<le> bcount vn i" by (simp add: bcount_def)

lemma bcount_0: "bcount vn i = 0 \<longleftrightarrow> (\<forall>b \<in> set vn. i \<notin> b)"
  by (simp add: bcount_def filter_empty_conv)

lemma bcount_pos: "b \<in> set vn \<Longrightarrow> i \<in> b \<Longrightarrow> 1 \<le> bcount vn i"
  using bcount_0 [of vn i] bcount_nonneg [of vn i] by fastforce

lemma bcount_clear: "bcount (map (\<lambda>b. b - {n}) vn) i = (if i = n then 0 else bcount vn i)"
  by (induction vn) (auto simp: bcount_def)

section \<open>Dependence of the invariants on the views\<close>

definition strip :: "(int \<Rightarrow> CAddrInfo option) \<Rightarrow> int \<Rightarrow> CAddrInfo option" where
  "strip m i = map_option (\<lambda>x. x\<lparr>nRandomPos := 0\<rparr>) (m i)"

lemma strip_Some: "m i = Some x \<Longrightarrow> strip m i = Some (x\<lparr>nRandomPos := 0\<rparr>)" by (simp add: strip_def)

lemma strip_None: "strip m i = None \<longleftrightarrow> m i = None" by (simp add: strip_def)

lemma map_option_strip:
  assumes "\<And>x. f (x\<lparr>nRandomPos := 0\<rparr>) = f x"
  shows "map_option f (strip m i) = map_option f (m i)"
  using assms by (cases "m i") (simp_all add: strip_def)

lemma GetTriedBucket_cong:
  "ip x = ip y \<Longrightarrow> port x = port y \<Longrightarrow> GetTriedBucket H key x = GetTriedBucket H key y"
  for x y :: CAddrInfo
  by (simp add: GetTriedBucket_def GetKey_def GetGroup_cases IsRoutable_def IsValid_def IsIPv4_def IsRFC6145_def
    IsRFC6052_def IsRFC3964_def IsRFC4380_def IsTor_def IsRFC1918_def IsRFC3927_def IsRFC4862_def IsRFC4193_def
    IsRFC4843_def IsLocal_def IsRFC3849_def GetByte_def)

lemma is_tried_strip [simp]: "is_tried (strip m) = is_tried m"
  unfolding is_tried_def fun_eq_iff by (subst map_option_strip) simp_all

lemma is_new_strip [simp]: "is_new (strip m) = is_new m"
  unfolding is_new_def fun_eq_iff by (subst map_option_strip) simp_all

lemma addr_inv_strip: "addr_inv (strip m) mA = addr_inv m mA"
  unfolding addr_inv_def by (subst map_option_strip) (simp_all add: netaddr_def)

lemma ids_inv_strip: "ids_inv (strip m) n = ids_inv m n"
  unfolding ids_inv_def by (simp only: strip_None)

lemma tried_inv_strip: "tried_inv H key (strip m) vt = tried_inv H key m vt"
  unfolding tried_inv_def is_tried_strip
  by (subst map_option_strip) (auto intro: GetTriedBucket_cong)

lemma new_inv_strip: "new_inv d (strip m) vn = new_inv d m vn"
  unfolding new_inv_def is_new_strip strip_None by (subst map_option_strip) simp_all

lemma count_inv_strip: "count_inv (strip m) a b = count_inv m a b"
  unfolding count_inv_def is_new_strip is_tried_strip ..

lemma sane_inv_strip: "sane_inv (strip m) = sane_inv m"
  unfolding sane_inv_def strip_None by (subst map_option_strip) (simp_all add: sane_entry_def)

definition rest_inv :: "hasher \<Rightarrow> (int \<Rightarrow> int) \<Rightarrow> (int \<Rightarrow> CAddrInfo option) \<Rightarrow> CAddrMan \<Rightarrow> bool" where
  "rest_inv H d m s \<longleftrightarrow> addr_inv m (mapAddr s) \<and> ids_inv m (nIdCount s) \<and>
     tried_inv H (nKey s) m (vvTried s) \<and> new_inv d m (vvNew s) \<and>
     count_inv m (nTried s) (nNew s) \<and> sane_inv m"

lemma am_inv_split: "am_inv H d s \<longleftrightarrow> pos_inv (look s) (vRandom s) \<and> rest_inv H d (look s) s"
  by (auto simp: am_inv_def rest_inv_def)

lemma rest_inv_strip: "strip m' = strip m \<Longrightarrow> rest_inv H d m' s = rest_inv H d m s"
  unfolding rest_inv_def
  by (metis addr_inv_strip ids_inv_strip tried_inv_strip new_inv_strip count_inv_strip sane_inv_strip)

text \<open>Entries that agree on everything an index refers to, and on all but the reference count.\<close>

definition same_key :: "CAddrInfo \<Rightarrow> CAddrInfo \<Rightarrow> bool" where
  "same_key x y \<longleftrightarrow> ip y = ip x \<and> port y = port x \<and> nRandomPos y = nRandomPos x \<and> fInTried y = fInTried x"

definition same_core :: "CAddrInfo \<Rightarrow> CAddrInfo \<Rightarrow> bool" where
  "same_core x y \<longleftrightarrow> same_key x y \<and> nRefCount y = nRefCount x"

lemma upd_view: "m n = Some x \<Longrightarrow> g y = g x \<Longrightarrow> map_option g ((m(n := Some y)) i) = map_option g (m i)"
  by simp

lemma same_key_view:
  assumes "m n = Some x" "same_key x y"
  shows "is_tried (m(n := Some y)) = is_tried m" "is_new (m(n := Some y)) = is_new m"
    "map_option (GetTriedBucket H k) ((m(n := Some y)) i) = map_option (GetTriedBucket H k) (m i)"
    "map_option netaddr ((m(n := Some y)) i) = map_option netaddr (m i)"
    "map_option nRandomPos ((m(n := Some y)) i) = map_option nRandomPos (m i)"
    "((m(n := Some y)) i = None) = (m i = None)"
proof -
  note v = upd_view [where m = m and n = n and x = x and y = y, OF assms(1)]
  show "is_tried (m(n := Some y)) = is_tried m" "is_new (m(n := Some y)) = is_new m"
    unfolding is_tried_def is_new_def fun_eq_iff using assms(2) by (subst v; simp add: same_key_def)+
  show "map_option (GetTriedBucket H k) ((m(n := Some y)) i) = map_option (GetTriedBucket H k) (m i)"
    using assms(2) by (intro v GetTriedBucket_cong) (simp_all add: same_key_def)
  show "map_option netaddr ((m(n := Some y)) i) = map_option netaddr (m i)"
    using assms(2) by (intro v) (simp add: same_key_def netaddr_def)
  show "map_option nRandomPos ((m(n := Some y)) i) = map_option nRandomPos (m i)"
    using assms(2) by (intro v; simp add: same_key_def)
  show "((m(n := Some y)) i = None) = (m i = None)" using assms(1) by simp
qed

lemma same_key_invs:
  assumes "m n = Some x" "same_key x y"
  shows "pos_inv (m(n := Some y)) = pos_inv m"
    "addr_inv (m(n := Some y)) = addr_inv m" "ids_inv (m(n := Some y)) = ids_inv m"
    "tried_inv H k (m(n := Some y)) = tried_inv H k m"
    "count_inv (m(n := Some y)) = count_inv m"
  unfolding fun_eq_iff pos_inv_def addr_inv_def ids_inv_def tried_inv_def count_inv_def
    same_key_view [of m n x y, OF assms] by simp_all

lemma am_inv_soft:
  assumes inv: "am_inv H d s" and x: "look s n = Some x" and c: "same_core x (f x)" and sane: "sane_entry (f x)"
  shows "am_inv H d (upd n f s)"
proof -
  have l: "look (upd n f s) = (look s)(n := Some (f x))" by (simp add: look_upd x)
  have k: "same_key x (f x)" and r: "nRefCount (f x) = nRefCount x" using c by (auto simp: same_core_def)
  have "sane_inv ((look s)(n := Some (f x)))" using inv sane by (simp add: am_inv_def sane_inv_def)
  moreover have "new_inv d ((look s)(n := Some (f x))) = new_inv d (look s)"
    unfolding fun_eq_iff new_inv_def same_key_view [of "look s" n x "f x", OF x k] upd_view [where m = "look s" and n = n and x = x and y = "f x", OF x r]
    by simp
  ultimately show ?thesis
    using inv unfolding am_inv_def l upd_frame same_key_invs [of "look s" n x "f x", OF x k] by simp
qed

text \<open>A change of one bucket and of the reference count of one entry.\<close>

lemma new_inv_change:
  assumes inv: "new_inv d m vn" and i: "m i = Some x" "is_new m i" "same_key x y"
    and b: "b < length vn" "vn ! b - {i} \<subseteq> B" "B \<subseteq> insert i (vn ! b)" "card B \<le> 64"
    and r: "nRefCount y = bcount (vn[b := B]) i + d' i" "1 \<le> nRefCount y" "nRefCount y \<le> 4" and d: "\<And>j. j \<noteq> i \<Longrightarrow> d' j = d j"
  shows "new_inv d' (m(i := Some y)) (vn[b := B])"
proof -
  have v: "is_new (m(i := Some y)) = is_new m" by (rule same_key_view(2) [of m i x y, OF i(1,3)])
  have vb: "finite (vn ! b)" "\<And>j. j \<in> vn ! b \<Longrightarrow> is_new m j" using inv b(1) by (auto simp: new_inv_def)
  have "finite B \<and> card B \<le> 64 \<and> (\<forall>j \<in> B. is_new m j)"
    using vb b i(2) by (auto intro: finite_subset)
  then have bk: "finite c \<and> card c \<le> 64 \<and> (\<forall>j \<in> c. is_new m j)" if "c \<in> set (vn[b := B])" for c
    using that inv set_update_subset_insert [of vn b B] by (auto simp: new_inv_def)
  have cnt: "bcount (vn[b := B]) j = bcount vn j" if "j \<noteq> i" for j
    using b that by (auto simp: bcount_set)
  have "map_option nRefCount ((m(i := Some y)) j) = Some (bcount (vn[b := B]) j + d' j)" if "(m(i := Some y)) j \<noteq> None" for j
    using inv that r cnt d by (cases "j = i") (auto simp: new_inv_def)
  moreover have "1 \<le> bcount (vn[b := B]) j + d' j \<and> bcount (vn[b := B]) j + d' j \<le> 4" if "is_new m j" for j
    using inv that r cnt d by (cases "j = i") (auto simp: new_inv_def)
  ultimately show ?thesis using bk inv unfolding new_inv_def v by simp
qed

lemma am_inv_change:
  assumes inv: "am_inv H d s" and x: "look s n = Some x" and k: "same_key x (f x)" and sane: "sane_entry (f x)"
    and n: "new_inv d' ((look s)(n := Some (f x))) vn"
  shows "am_inv H d' ((upd n f s)\<lparr>vvNew := vn\<rparr>)"
proof -
  have l: "look (upd n f s) = (look s)(n := Some (f x))" by (simp add: look_upd x)
  have "sane_inv ((look s)(n := Some (f x)))" using inv sane by (simp add: am_inv_def sane_inv_def)
  then show ?thesis
    using inv n unfolding am_inv_def by (simp add: l same_key_invs [of "look s" n x "f x", OF x k])
qed

section \<open>The random vector\<close>

lemma pos_inv_mem: "pos_inv m vr \<Longrightarrow> i \<in> set vr \<longleftrightarrow> m i \<noteq> None"
  by (fastforce simp: pos_inv_def in_set_conv_nth)

lemma pos_inv_at: "pos_inv m vr \<Longrightarrow> m i = Some x \<Longrightarrow>
    0 \<le> nRandomPos x \<and> nRandomPos x < int (length vr) \<and> vr ! nat (nRandomPos x) = i"
  by (fastforce simp: pos_inv_def in_set_conv_nth)

lemma pos_inv_distinct: "pos_inv m vr \<Longrightarrow> distinct vr"
  unfolding pos_inv_def distinct_conv_nth by (metis of_nat_eq_iff option.inject)

lemma pos_inv_append:
  assumes "pos_inv m vr" "m n = None" "nRandomPos x = int (length vr)"
  shows "pos_inv (m(n := Some x)) (vr @ [n])"
proof -
  have "n \<notin> set vr" using assms pos_inv_mem by metis
  then have "vr ! p \<noteq> n" if "p < length vr" for p using that by (metis nth_mem)
  then show ?thesis using assms
    by (auto simp: pos_inv_def nth_append less_Suc_eq)
qed

lemma pos_inv_butlast:
  assumes "pos_inv m vr" "vr \<noteq> []"
  shows "pos_inv (m(last vr := None)) (butlast vr)"
proof -
  obtain ys y where vr: "vr = ys @ [y]" using assms(2) by (metis rev_exhaust)
  have "y \<notin> set ys" using pos_inv_distinct [OF assms(1)] vr by simp
  then have "ys ! p \<noteq> y" if "p < length ys" for p using that by (metis nth_mem)
  moreover have "map_option nRandomPos (m (ys ! p)) = Some (int p)" if "p < length ys" for p
    using assms(1) that unfolding pos_inv_def vr by (metis length_append_singleton less_SucI nth_append)
  ultimately show ?thesis
    using assms(1) unfolding pos_inv_def vr by auto
qed

lemma pos_inv_swap:
  assumes inv: "pos_inv m vr" and pq: "p < length vr" "q < length vr" "p \<noteq> q"
    and xy: "m (vr ! p) = Some x" "m (vr ! q) = Some y"
  shows "pos_inv (m(vr ! p := Some (x\<lparr>nRandomPos := int q\<rparr>), vr ! q := Some (y\<lparr>nRandomPos := int p\<rparr>)))
           (vr[p := vr ! q, q := vr ! p])"
proof -
  have d: "distinct vr" using pos_inv_distinct [OF inv] .
  have ne: "vr ! i \<noteq> vr ! j" if "i < length vr" "j < length vr" "i \<noteq> j" for i j
    using d that by (simp add: nth_eq_iff_index_eq)
  have "map_option nRandomPos (m (vr ! i)) = Some (int i)" if "i < length vr" for i
    using inv that by (simp add: pos_inv_def)
  moreover have "set (vr[p := vr ! q, q := vr ! p]) = set vr" using pq by (intro set_swap) simp_all
  ultimately show ?thesis
    using pq inv ne [OF pq] xy unfolding pos_inv_def
    by (auto simp: nth_list_update ne)
qed

lemma finite_ids: "pos_inv m vr \<Longrightarrow> finite {i. is_tried m i}" "pos_inv m vr \<Longrightarrow> finite {i. is_new m i}"
proof -
  assume p: "pos_inv m vr"
  have "{i. is_tried m i} \<subseteq> set vr" "{i. is_new m i} \<subseteq> set vr"
    using pos_inv_mem [OF p] by (auto simp: is_tried_def is_new_def)
  then show "finite {i. is_tried m i}" "finite {i. is_new m i}" by (auto intro: finite_subset)
qed

lemma SwapRandom_ok:
  assumes inv: "pos_inv (look s) (vRandom s)" and pq: "p < length (vRandom s)" "q < length (vRandom s)"
  shows "\<exists>s'. SwapRandom p q s = Inr s' \<and> pos_inv (look s') (vRandom s') \<and> strip (look s') = strip (look s)
    \<and> vRandom s' = (vRandom s)[p := vRandom s ! q, q := vRandom s ! p]
    \<and> s' = s\<lparr>mapInfo := mapInfo s', vRandom := vRandom s'\<rparr>"
proof (cases "p = q")
  case True
  then show ?thesis using inv by (simp add: SwapRandom_def)
next
  case False
  let ?v = "vRandom s"
  obtain x y where xy: "look s (?v ! p) = Some x" "look s (?v ! q) = Some y"
    using pos_inv_mem [OF inv] pq by (metis not_None_eq nth_mem)
  have ne: "?v ! p \<noteq> ?v ! q" using pos_inv_distinct [OF inv] pq False by (simp add: nth_eq_iff_index_eq)
  let ?s = "upd (?v ! q) (\<lambda>i. i\<lparr>nRandomPos := int p\<rparr>) (upd (?v ! p) (\<lambda>i. i\<lparr>nRandomPos := int q\<rparr>) s)"
  let ?s' = "?s\<lparr>vRandom := ?v[p := ?v ! q, q := ?v ! p]\<rparr>"
  have l: "look ?s' = (look s)(?v ! p := Some (x\<lparr>nRandomPos := int q\<rparr>), ?v ! q := Some (y\<lparr>nRandomPos := int p\<rparr>))"
    using xy ne by (simp add: look_upd fun_upd_twist)
  have "SwapRandom p q s = Inr ?s'"
    using False pq xy by (simp add: SwapRandom_def has_look Let_def look_upd)
  moreover have "pos_inv (look ?s') (vRandom ?s')"
    unfolding l using pos_inv_swap [OF inv pq False xy] by simp
  moreover have "strip (look ?s') = strip (look s)"
    unfolding l using xy by (auto simp: strip_def fun_eq_iff)
  moreover have "?s' = s\<lparr>mapInfo := mapInfo ?s', vRandom := vRandom ?s'\<rparr>" by (simp add: upd_def)
  ultimately show ?thesis by (intro exI [of _ ?s']) simp
qed

text \<open>Sizes: what the capacities of the buckets allow.\<close>

lemma card_concat_le:
  assumes "\<forall>b \<in> set bs. card b \<le> k" shows "card (\<Union> (set bs)) \<le> k * length bs"
  using assms
proof (induction bs)
  case (Cons b bs)
  have "card (b \<union> \<Union> (set bs)) \<le> card b + card (\<Union> (set bs))" by (rule card_Un_le)
  with Cons show ?case by (simp add: algebra_simps)
qed simp

lemma am_inv_sizes:
  assumes "am_inv H d s" and d: "\<And>i. i \<noteq> x \<Longrightarrow> d i = 0"
  shows "card {i. is_tried (look s) i} \<le> 4096" "card {i. is_new (look s) i} \<le> 16385"
    "length (vRandom s) \<le> 20481" and "(\<And>i. d i = 0) \<Longrightarrow> card {i. is_new (look s) i} \<le> 16384"
proof -
  have pos: "pos_inv (look s) (vRandom s)" and tr: "tried_inv H (nKey s) (look s) (vvTried s)"
    and nw: "new_inv d (look s) (vvNew s)" using assms(1) by (auto simp: am_inv_def)
  have "{i. is_tried (look s) i} \<subseteq> \<Union> (set (map set (vvTried s)))"
  proof
    fix i assume "i \<in> {i. is_tried (look s) i}"
    then obtain y where y: "is_tried (look s) i" "look s i = Some y" by (auto simp: is_tried_def)
    have "GetTriedBucket H (nKey s) y < 64"
      using unat_mono [of "Hash64 H z mod 64" 64 for z] by (simp add: GetTriedBucket_def Let_def word_mod_less_divisor unat_mono)
    then show "i \<in> \<Union> (set (map set (vvTried s)))" using tr y
      by (auto simp: tried_inv_def intro!: bexI [of _ "vvTried s ! GetTriedBucket H (nKey s) y"])
  qed
  moreover have "card (set t) \<le> 64" if "t \<in> set (vvTried s)" for t
  proof -
    have "length t \<le> 64" using tr that by (metis in_set_conv_nth tried_inv_def)
    then show ?thesis using card_length [of t] by simp
  qed
  then have "card (\<Union> (set (map set (vvTried s)))) \<le> 64 * length (map set (vvTried s))"
    by (intro card_concat_le) auto
  ultimately show t: "card {i. is_tried (look s) i} \<le> 4096"
    using tr card_mono [of "\<Union> (set (map set (vvTried s)))" "{i. is_tried (look s) i}"] by (simp add: tried_inv_def)
  have fin: "finite (\<Union> (set (vvNew s)))" using nw by (auto simp: new_inv_def)
  have c: "card (\<Union> (set (vvNew s))) \<le> 64 * length (vvNew s)"
    using nw by (intro card_concat_le) (auto simp: new_inv_def)
  have mem: "i \<in> \<Union> (set (vvNew s))" if "is_new (look s) i" "d i = 0" for i
  proof -
    have "1 \<le> bcount (vvNew s) i" using nw that by (auto simp: new_inv_def)
    then show ?thesis using bcount_0 [of "vvNew s" i] by fastforce
  qed
  then have "{i. is_new (look s) i} \<subseteq> insert x (\<Union> (set (vvNew s)))" using d by auto
  then have "card {i. is_new (look s) i} \<le> card (insert x (\<Union> (set (vvNew s))))" using fin by (intro card_mono) auto
  also have "\<dots> \<le> Suc (card (\<Union> (set (vvNew s))))" by (rule card_insert_le_m1) simp_all
  finally show n: "card {i. is_new (look s) i} \<le> 16385" using c nw by (simp add: new_inv_def)
  show "card {i. is_new (look s) i} \<le> 16384" if "\<And>i. d i = 0"
  proof -
    have "{i. is_new (look s) i} \<subseteq> \<Union> (set (vvNew s))" using mem that by blast
    then have "card {i. is_new (look s) i} \<le> card (\<Union> (set (vvNew s)))" using fin by (intro card_mono) auto
    then show ?thesis using c nw by (simp add: new_inv_def)
  qed
  have "set (vRandom s) = {i. is_tried (look s) i} \<union> {i. is_new (look s) i}"
    using pos_inv_mem [OF pos] by (auto simp: is_tried_def is_new_def)
  then have "card (set (vRandom s)) \<le> 20481" using t n card_Un_le [of "{i. is_tried (look s) i}" "{i. is_new (look s) i}"] by simp
  then show "length (vRandom s) \<le> 20481" using distinct_card [OF pos_inv_distinct [OF pos]] by simp
qed


section \<open>Dropping a reference\<close>

lemma is_new_del: "is_new (m(i := None)) = (\<lambda>j. j \<noteq> i \<and> is_new m j)"
  by (auto simp: is_new_def fun_eq_iff)

lemma is_tried_del: "is_tried (m(i := None)) = (\<lambda>j. j \<noteq> i \<and> is_tried m j)"
  by (auto simp: is_tried_def fun_eq_iff)

lemma is_new_not_tried: "is_new m i \<Longrightarrow> \<not> is_tried m i"
  by (auto simp: is_new_def is_tried_def)

lemma rest_inv_delete:
  assumes inv: "rest_inv H d m s" and fin: "finite {j. is_new m j}"
    and b: "b < length (vvNew s)" "i \<in> vvNew s ! b" and i: "m i = Some x" "nRefCount x = 1" "d i = 0"
    and s': "vvNew s' = (vvNew s)[b := vvNew s ! b - {i}]" "mapAddr s' = Mapping.delete (netaddr x) (mapAddr s)"
      "nNew s' = nNew s - 1" "nKey s' = nKey s" "nTried s' = nTried s" "vvTried s' = vvTried s" "nIdCount s' = nIdCount s"
  shows "rest_inv H d (m(i := None)) s'"
proof -
  have new: "is_new m i" and c1: "bcount (vvNew s) i = 1"
    using inv b i by (auto simp: rest_inv_def new_inv_def)
  have cnt: "bcount (vvNew s') j = bcount (vvNew s) j - (if j = i then 1 else 0)" for j
    using b by (simp add: s' bcount_set)
  have gone: "\<forall>c \<in> set (vvNew s'). i \<notin> c" using cnt [of i] c1 bcount_0 [of "vvNew s'" i] by simp
  have sub: "c \<in> set (vvNew s') \<Longrightarrow> \<exists>c' \<in> set (vvNew s). c \<subseteq> c'" for c
    using b by (auto simp: s' dest!: subsetD [OF set_update_subset_insert])
  have a: "addr_inv (m(i := None)) (mapAddr s')"
    unfolding addr_inv_def
  proof (intro allI)
    fix a j
    have e: "Mapping.lookup (mapAddr s) a = Some j \<longleftrightarrow> map_option netaddr (m j) = Some a" for a j
      using inv by (simp add: rest_inv_def addr_inv_def)
    have "Mapping.lookup (mapAddr s) (netaddr x) = Some i" using e i by simp
    then have "map_option netaddr (m j) = Some (netaddr x) \<Longrightarrow> j = i" for j
      using e [of "netaddr x" j] by simp
    then show "Mapping.lookup (mapAddr s') a = Some j \<longleftrightarrow> map_option netaddr ((m(i := None)) j) = Some a"
      using i e [of a j] by (cases "a = netaddr x") (auto simp: s' lookup_delete_neq simp del: map_option_eq_Some)
  qed
  have n: "new_inv d (m(i := None)) (vvNew s')"
  proof -
    have "length (vvNew s') = 256" using inv by (simp add: s' rest_inv_def new_inv_def)
    moreover have "finite c \<and> card c \<le> 64 \<and> (\<forall>j \<in> c. is_new (m(i := None)) j)" if c: "c \<in> set (vvNew s')" for c
    proof -
      obtain c' where "c' \<in> set (vvNew s)" "c \<subseteq> c'" using sub [OF c] by blast
      then show ?thesis using inv gone c
        by (auto simp: rest_inv_def new_inv_def is_new_del dest: finite_subset intro: order.trans [OF card_mono])
    qed
    ultimately show ?thesis using inv by (auto simp: rest_inv_def new_inv_def cnt is_new_del)
  qed
  have "card {j. j \<noteq> i \<and> is_new m j} = card {j. is_new m j} - 1"
    using fin new by (subst card_Diff_singleton [symmetric]) (auto intro: arg_cong [of _ _ card])
  moreover have "card {j. is_new m j} > 0" using fin new by (auto simp: card_gt_0_iff)
  moreover have "{j. j \<noteq> i \<and> is_tried m j} = {j. is_tried m j}" using is_new_not_tried [OF new] by auto
  ultimately have cc: "count_inv (m(i := None)) (nTried s') (nNew s')"
    using inv by (simp add: rest_inv_def count_inv_def is_new_del is_tried_del s')
  have t: "tried_inv H (nKey s') (m(i := None)) (vvTried s')"
    using inv is_new_not_tried [OF new] by (auto simp: rest_inv_def tried_inv_def is_tried_del s')
  show ?thesis using a n cc t inv by (auto simp: rest_inv_def ids_inv_def sane_inv_def s')
qed

lemma am_entry:
  assumes "am_inv H d s" "look s i = Some x"
  shows "nRefCount x = bcount (vvNew s) i + d i" "sane_entry x" "is_new (look s) i \<Longrightarrow> 1 \<le> nRefCount x \<and> nRefCount x \<le> 4"
    "0 \<le> i" "i < nIdCount s"
proof -
  have n: "new_inv d (look s) (vvNew s)" and "sane_inv (look s)" and "ids_inv (look s) (nIdCount s)"
    using assms(1) by (simp_all add: am_inv_def)
  then show "sane_entry x" "0 \<le> i" "i < nIdCount s" using assms(2) by (auto simp: sane_inv_def ids_inv_def)
  have "map_option nRefCount (look s i) = Some (bcount (vvNew s) i + d i)"
    using n assms(2) unfolding new_inv_def by (metis option.discI)
  then show r: "nRefCount x = bcount (vvNew s) i + d i" using assms(2) by simp
  show "is_new (look s) i \<Longrightarrow> 1 \<le> nRefCount x \<and> nRefCount x \<le> 4"
    using n unfolding new_inv_def r by blast
qed

lemma drop_ref_ok:
  assumes inv: "am_inv H d s" and b: "b < length (vvNew s)" "i \<in> vvNew s ! b" and d: "d i = 0" "\<And>j. j \<noteq> z \<Longrightarrow> d j = 0"
  shows "\<exists>s1. drop_ref i s = Inr s1 \<and> am_inv H d (erase_new b i s1) \<and> vvNew s1 = vvNew s \<and> nKey s1 = nKey s \<and>
    vvTried s1 = vvTried s \<and> (\<forall>j. j \<noteq> i \<longrightarrow> strip (look s1) j = strip (look s) j)"
proof -
  have new: "is_new (look s) i" using inv b by (auto simp: am_inv_def new_inv_def)
  then obtain x where x: "look s i = Some x" by (auto simp: is_new_def)
  have c1: "bcount (vvNew s) i = nRefCount x" and c2: "1 \<le> nRefCount x" "nRefCount x \<le> 4" "sane_entry x"
    using am_entry [OF inv x] new d by simp_all
  let ?f = "\<lambda>i. i\<lparr>nRefCount := nRefCount i - 1\<rparr>"
  let ?s = "upd i ?f s"
  have l: "look ?s = (look s)(i := Some (?f x))" by (simp add: look_upd x)
  have inf: "info ?s i = ?f x" using l by (simp add: info_look)
  have k: "same_key x (?f x)" by (simp add: same_key_def)
  have "nRefCount x - 1 = bcount ((vvNew s)[b := vvNew s ! b - {i}]) i"
    using b c1 by (simp add: bcount_set)
  show ?thesis
  proof (cases "nRefCount x = 1")
    case False
    have "card (vvNew s ! b - {i}) \<le> 64"
      using inv b(1) by (auto simp: am_inv_def new_inv_def intro: order.trans [OF card_Diff1_le])
    then have n: "new_inv d ((look s)(i := Some (?f x))) ((vvNew s)[b := vvNew s ! b - {i}])"
      using inv x new k b c1 c2 d False
      by (intro new_inv_change [where d = d]) (auto simp: am_inv_def bcount_set)
    have "am_inv H d (erase_new b i ?s)"
      using am_inv_change [of H d s i x ?f d, OF inv x k _ n] c2 by (simp add: erase_new_def sane_entry_def)
    then show ?thesis using False inf l
      by (intro exI [of _ ?s]) (simp add: drop_ref_def Let_def strip_def)
  next
    case True
    have pos: "pos_inv (look ?s) (vRandom ?s)" and rest: "rest_inv H d (look s) s" and pos0: "pos_inv (look s) (vRandom s)"
      using inv same_key_invs(1) [of "look s" i x "?f x", OF x k] by (simp_all add: am_inv_split l)
    let ?vr = "vRandom s" let ?p = "nat (nRandomPos x)" let ?q = "length ?vr - 1"
    have p: "?p < length ?vr" "?vr ! ?p = i" "0 \<le> nRandomPos x" using pos_inv_at [OF pos0 x] by auto
    have sz: "length ?vr \<le> 20481" by (rule am_inv_sizes(3) [OF inv d(2)])
    have u: "uns (nRandomPos x) = ?p" "uns (int (length ?vr) - 1) = ?q"
    proof -
      have "(int (length ?vr) - 1) mod 2 ^ 32 = int (length ?vr) - 1"
        by (rule mod_pos_pos_trivial) (use p sz in auto)
      moreover have "nRandomPos x mod 2 ^ 32 = nRandomPos x"
        by (rule mod_pos_pos_trivial) (use p sz in auto)
      ultimately show "uns (nRandomPos x) = ?p" "uns (int (length ?vr) - 1) = ?q"
        unfolding uns_def by simp_all
    qed
    have pq: "?p < length (vRandom ?s)" "?q < length (vRandom ?s)" using p(1) unfolding upd_frame by linarith+
    obtain s2 where s2: "SwapRandom ?p ?q ?s = Inr s2" "pos_inv (look s2) (vRandom s2)" "strip (look s2) = strip (look ?s)"
      "vRandom s2 = ?vr[?p := ?vr ! ?q, ?q := i]" "s2 = ?s\<lparr>mapInfo := mapInfo s2, vRandom := vRandom s2\<rparr>"
      using SwapRandom_ok [OF pos pq] unfolding upd_frame p(2) by blast
    have fr: "nKey s2 = nKey s" "nIdCount s2 = nIdCount s" "mapAddr s2 = mapAddr s" "nTried s2 = nTried s"
      "vvTried s2 = vvTried s" "nNew s2 = nNew s" "vvNew s2 = vvNew s"
      by (subst s2(5), simp)+
    have ln: "length (vRandom s2) = length ?vr" by (simp add: s2(4))
    then have lst: "vRandom s2 \<noteq> []" using p(1) by auto
    have lst1: "last (vRandom s2) = i"
      using pq(2) by (simp add: last_conv_nth [OF lst] ln) (simp add: s2(4))
    have i2: "strip (look s2) i = Some ((?f x)\<lparr>nRandomPos := 0\<rparr>)" using s2(3) by (simp add: strip_def l)
    then obtain x2 where x2: "look s2 i = Some x2" "x2\<lparr>nRandomPos := 0\<rparr> = (?f x)\<lparr>nRandomPos := 0\<rparr>"
      by (auto simp: strip_def)
    have a2: "netaddr (info s2 i) = netaddr x"
    proof -
      have "ip x2 = ip x" using arg_cong [where f = ip, OF x2(2)] by simp
      then show ?thesis using x2(1) by (simp add: info_look netaddr_def)
    qed
    have r2: "nRefCount (info ?s i) = 0" using inf True by simp
    define s3 where "s3 = s2\<lparr>vRandom := butlast (vRandom s2), mapAddr := Mapping.delete (netaddr (info s2 i)) (mapAddr s2),
                mapInfo := Mapping.delete i (mapInfo s2), nNew := nNew s2 - 1\<rparr>"
    have d3: "drop_ref i s = Inr s3"
      using u s2(1) r2 inf by (simp add: drop_ref_def Let_def s3_def)
    have l3: "look s3 = (look s2)(i := None)"
      by (auto simp: s3_def look_def fun_eq_iff lookup_delete lookup_delete_neq)
    have st: "strip ((look s2)(i := None)) = strip ((look s)(i := None))"
      using s2(3) by (auto simp: strip_def l fun_eq_iff split: if_splits)
    have "pos_inv (look s3) (vRandom s3)"
      using pos_inv_butlast [OF s2(2) lst] by (simp add: l3 lst1) (simp add: s3_def)
    moreover have "rest_inv H d ((look s)(i := None)) (erase_new b i s3)"
      using rest finite_ids(2) [OF pos0] b x True d(1)
      by (rule rest_inv_delete) (simp_all add: erase_new_def s3_def fr a2)
    then have "rest_inv H d (look s3) (erase_new b i s3)"
      unfolding l3 by (subst rest_inv_strip [OF st])
    ultimately have "am_inv H d (erase_new b i s3)"
      by (simp add: am_inv_split erase_new_def)
    moreover have "\<forall>j. j \<noteq> i \<longrightarrow> strip (look s3) j = strip (look s) j"
      using st by (auto simp: l3 fun_eq_iff strip_def split: if_splits)
    moreover have "vvNew s3 = vvNew s" "nKey s3 = nKey s" "vvTried s3 = vvTried s" by (simp_all add: s3_def fr)
    ultimately show ?thesis using d3 by blast
  qed
qed


section \<open>Shrinking a bucket\<close>

lemma find_terrible_ok:
  assumes "\<forall>i \<in> set its. has s i"
  shows "\<exists>t. find_terrible nNow s its = Inr t \<and> (\<forall>i. t = Some i \<longrightarrow> i \<in> set its)"
  using assms by (induction its) auto

lemma shrink_oldest_in:
  assumes "\<forall>i \<in> set its. has s i"
  shows "\<exists>o'. shrink_oldest ns k s old its = Inr o' \<and> (o' \<in> set its \<or> o' = old)"
  using assms by (induction its arbitrary: k old) fastforce+

lemma shrink_oldest_drawn:
  assumes "\<forall>i \<in> set its. has s i \<and> i \<noteq> -1" "j \<in> ns" "k \<le> j" "j < k + int (length its)"
    and "shrink_oldest ns k s (-1) its = Inr o'"
  shows "o' \<in> set its"
  using assms
proof (induction its arbitrary: k)
  case (Cons i its)
  show ?case
  proof (cases "k \<in> ns")
    case True
    then have "shrink_oldest ns (k + 1) s i its = Inr o'" using Cons.prems by simp
    then show ?thesis using shrink_oldest_in [of its s ns "k + 1" i] Cons.prems(1) by auto
  next
    case False
    then have "k \<noteq> j" using Cons.prems(2) by blast
    then show ?thesis using False Cons.IH [of "k + 1"] Cons.prems by simp
  qed
qed simp

lemma ShrinkNew_ok:
  assumes inv: "am_inv H d s" and b: "b < length (vvNew s)" "vvNew s ! b \<noteq> {}"
    and d: "\<And>j. j \<noteq> z \<Longrightarrow> d j = 0" "z \<notin> vvNew s ! b" and r: "rand_ok rnd"
  shows "\<exists>ret i s'. ShrinkNew rnd nNow b s = Inr (ret, s') \<and> am_inv H d s' \<and> i \<in> vvNew s ! b \<and>
    vvNew s' = (vvNew s)[b := vvNew s ! b - {i}] \<and> nKey s' = nKey s \<and> (\<forall>j. j \<noteq> i \<longrightarrow> strip (look s') j = strip (look s) j)"
proof -
  let ?l = "sorted_list_of_set (vvNew s ! b)"
  have fin: "finite (vvNew s ! b)" and nw: "\<forall>i \<in> vvNew s ! b. is_new (look s) i"
    using inv b by (auto simp: am_inv_def new_inv_def)
  have l: "set ?l = vvNew s ! b" using fin by simp
  have has: "\<forall>i \<in> set ?l. has s i \<and> i \<noteq> -1"
  proof
    fix i assume "i \<in> set ?l"
    then obtain x where "look s i = Some x" using nw l by (auto simp: is_new_def)
    then show "has s i \<and> i \<noteq> -1" using am_entry(4) [OF inv] by (force simp: has_look)
  qed
  have drop: "\<exists>s1. drop_ref i s = Inr s1 \<and> am_inv H d (erase_new b i s1) \<and> vvNew s1 = vvNew s \<and> nKey s1 = nKey s \<and>
     (\<forall>j. j \<noteq> i \<longrightarrow> strip (look s1) j = strip (look s) j)" if "i \<in> vvNew s ! b" for i
    using drop_ref_ok [OF inv b(1) that _ d(1)] d(2) that d(1) [of i] by fastforce
  have e: "vvNew (erase_new b i s1) = (vvNew s1)[b := vvNew s1 ! b - {i}]" "nKey (erase_new b i s1) = nKey s1"
    "look (erase_new b i s1) = look s1" for i s1
    by (simp_all add: erase_new_def)
  from has have has': "\<forall>i \<in> set ?l. has s i" by blast
  then obtain t where t: "find_terrible nNow s ?l = Inr t" "\<forall>i. t = Some i \<longrightarrow> i \<in> set ?l"
    using find_terrible_ok by blast
  show ?thesis
  proof (cases t)
    case (Some i)
    then obtain s1 where "drop_ref i s = Inr s1" "am_inv H d (erase_new b i s1)" "vvNew s1 = vvNew s" "nKey s1 = nKey s"
      "\<forall>j. j \<noteq> i \<longrightarrow> strip (look s1) j = strip (look s) j" using drop l t by blast
    then show ?thesis using Some t b l
      by (intro exI [of _ 0] exI [of _ i] exI [of _ "erase_new b i s1"]) (simp add: ShrinkNew_def Let_def e)
  next
    case None
    let ?n = "int (length ?l)" let ?ns = "{rnd 1 ?n, rnd 2 ?n, rnd 3 ?n, rnd 4 ?n}"
    have "?l \<noteq> []" using b(2) l by (metis list.set(1))
    then have "0 < length ?l" by (rule length_greater_0_conv [THEN iffD2])
    then have "0 < ?n" by (rule of_nat_0_less_iff [THEN iffD2])
    then have "0 \<le> rnd 1 ?n \<and> rnd 1 ?n < ?n" using r unfolding rand_ok_def by blast
    moreover obtain o' where o': "shrink_oldest ?ns 0 s (-1) ?l = Inr o'" using shrink_oldest_in [OF has'] by blast
    ultimately have o2: "o' \<in> set ?l" using shrink_oldest_drawn [OF has, of "rnd 1 ?n" ?ns 0 o'] by simp
    then obtain s1 where "drop_ref o' s = Inr s1" "am_inv H d (erase_new b o' s1)" "vvNew s1 = vvNew s" "nKey s1 = nKey s"
      "\<forall>j. j \<noteq> o' \<longrightarrow> strip (look s1) j = strip (look s) j" using drop l by blast
    then show ?thesis using None t b l o' o2 has'
      by (intro exI [of _ 1] exI [of _ o'] exI [of _ "erase_new b o' s1"]) (simp add: ShrinkNew_def Let_def e)
  qed
qed

section \<open>Adding\<close>

definition pending :: "int \<Rightarrow> int \<Rightarrow> int" where
  "pending z = (\<lambda>j. if j = z then 1 else 0)"

lemma am_inv_vvNew: "am_inv H d s \<Longrightarrow> new_inv d' (look s) vn \<Longrightarrow> am_inv H d' (s\<lparr>vvNew := vn\<rparr>)"
  by (simp add: am_inv_def)

lemma GetNewBucket_less: "GetNewBucket H key x src < 256"
proof -
  have "w mod 256 < (256 :: u64)" for w by (rule word_mod_less_divisor) simp
  then show ?thesis by (simp add: GetNewBucket_def Let_def word_less_nat_alt)
qed

lemma GetTriedBucket_less: "GetTriedBucket H key x < 64"
proof -
  have "w mod 64 < (64 :: u64)" for w by (rule word_mod_less_divisor) simp
  then show ?thesis by (simp add: GetTriedBucket_def Let_def word_less_nat_alt)
qed

lemma strip_SomeD: "strip m i = Some y \<Longrightarrow> \<exists>x. m i = Some x \<and> y = x\<lparr>nRandomPos := 0\<rparr>"
  by (auto simp: strip_def)

lemma insert_pending:
  assumes inv: "am_inv H (pending z) s" and x: "look s z = Some x" "is_new (look s) z"
    and b: "b < length (vvNew s)" "z \<notin> vvNew s ! b" "card (vvNew s ! b) < 64"
  shows "am_inv H (\<lambda>_. 0) (insert_new b z s)"
proof -
  have e: "nRefCount x = bcount (vvNew s) z + 1" "1 \<le> nRefCount x" "nRefCount x \<le> 4"
    using am_entry [OF inv x(1)] x(2) by (simp_all add: pending_def)
  have f: "finite (vvNew s ! b)" using inv b by (auto simp: am_inv_def new_inv_def)
  have "new_inv (\<lambda>_. 0) ((look s)(z := Some x)) ((vvNew s)[b := insert z (vvNew s ! b)])"
    by (rule new_inv_change [where d = "pending z"])
      (use inv x b e f in \<open>auto simp: am_inv_def bcount_set pending_def same_key_def\<close>)
  then show ?thesis unfolding insert_new_def using x(1) by (intro am_inv_vvNew [OF inv]) (simp add: fun_upd_idem)
qed

lemma add_bucket_pending:
  fixes s :: CAddrMan and z :: int
  defines "s1 \<equiv> upd z (\<lambda>i. i\<lparr>nRefCount := nRefCount i + 1\<rparr>) s"
  assumes inv: "am_inv H (pending z) s1" and x: "look s1 z = Some x" "is_new (look s1) z"
    and out: "z \<notin> vvNew s ! GetNewBucket H (nKey s) (info s z) source" and r: "rand_ok rnd"
  shows "\<exists>s' x'. add_bucket H rnd nNow source z s = Inr s' \<and> am_inv H (\<lambda>_. 0) s' \<and> look s' z = Some x' \<and>
    x'\<lparr>nRandomPos := 0\<rparr> = x\<lparr>nRandomPos := 0\<rparr> \<and> nKey s' = nKey s"
proof -
  let ?b = "GetNewBucket H (nKey s) (info s z) source"
  have vn: "vvNew s1 = vvNew s" "nKey s1 = nKey s" by (simp_all add: s1_def)
  have b: "?b < length (vvNew s1)" using inv GetNewBucket_less [of H] by (simp add: am_inv_def new_inv_def)
  have cap: "card (vvNew s1 ! ?b) \<le> 64" using inv b by (auto simp: am_inv_def new_inv_def)
  show ?thesis
  proof (cases "card (vvNew s ! ?b) = 64")
    case False
    then have "am_inv H (\<lambda>_. 0) (insert_new ?b z s1)"
      using insert_pending [OF inv x b] out cap vn by simp
    then show ?thesis using False out x vn
      by (intro exI [of _ "insert_new ?b z s1"] exI [of _ x])
        (simp add: add_bucket_def Let_def s1_def insert_new_def)
  next
    case True
    then have ne: "vvNew s1 ! ?b \<noteq> {}" using vn by auto
    have "z \<notin> vvNew s1 ! ?b" using out vn by simp
    from ShrinkNew_ok [OF inv b ne _ this r, of nNow] obtain ret i s2 where
      s2: "ShrinkNew rnd nNow ?b s1 = Inr (ret, s2)" "am_inv H (pending z) s2" "i \<in> vvNew s1 ! ?b"
        "vvNew s2 = (vvNew s1)[?b := vvNew s1 ! ?b - {i}]" "nKey s2 = nKey s1" "\<forall>j. j \<noteq> i \<longrightarrow> strip (look s2) j = strip (look s1) j"
      by (auto simp: pending_def)
    have "i \<noteq> z" using s2(3) out vn by auto
    then have st: "strip (look s2) z = Some (x\<lparr>nRandomPos := 0\<rparr>)" using s2(6) x(1) by (simp add: strip_def)
    then obtain x' where x': "look s2 z = Some x'" "x'\<lparr>nRandomPos := 0\<rparr> = x\<lparr>nRandomPos := 0\<rparr>"
      using strip_SomeD by fastforce
    have "fInTried x' = fInTried x" using arg_cong [where f = fInTried, OF x'(2)] by simp
    then have new: "is_new (look s2) z" using x x' by (simp add: is_new_def)
    have "card (vvNew s1 ! ?b - {i}) < 64" using s2(3) True vn ne
      by (simp add: card_Diff_singleton)
    then have "am_inv H (\<lambda>_. 0) (insert_new ?b z s2)"
      using insert_pending [OF s2(2) x'(1) new, of ?b] b out vn by (simp add: s2(4))
    then show ?thesis using True out s2 x' vn b
      by (intro exI [of _ "insert_new ?b z s2"] exI [of _ x'])
        (simp add: add_bucket_def Let_def s1_def insert_new_def)
  qed
qed

lemma add_bucket_old:
  assumes inv: "am_inv H (\<lambda>_. 0) s" and x: "look s z = Some x" "is_new (look s) z" "nRefCount x \<noteq> 4" and r: "rand_ok rnd"
  shows "\<exists>s' x'. add_bucket H rnd nNow source z s = Inr s' \<and> am_inv H (\<lambda>_. 0) s' \<and> look s' z = Some x' \<and> ip x' = ip x
    \<and> nKey s' = nKey s"
proof (cases "z \<in> vvNew s ! GetNewBucket H (nKey s) (info s z) source")
  case True
  then show ?thesis using inv x by (simp add: add_bucket_def Let_def)
next
  case False
  let ?f = "\<lambda>i. i\<lparr>nRefCount := nRefCount i + 1\<rparr>"
  have e: "nRefCount x = bcount (vvNew s) z" "1 \<le> nRefCount x" "nRefCount x \<le> 4" "sane_entry x"
    using am_entry [OF inv x(1)] x(2) by simp_all
  have len: "length (vvNew s) = 256" and n0: "new_inv (\<lambda>_. 0) (look s) (vvNew s)" using inv by (auto simp: am_inv_def new_inv_def)
  have card0: "card (vvNew s ! 0) \<le> 64" using n0 len by (auto simp: new_inv_def)
  have "new_inv (pending z) ((look s)(z := Some (?f x))) ((vvNew s)[0 := vvNew s ! 0])"
    by (rule new_inv_change [where d = "\<lambda>_. 0"])
      (use n0 x e len card0 in \<open>auto simp: pending_def same_key_def\<close>)
  then have "new_inv (pending z) ((look s)(z := Some (?f x))) (vvNew s)" by simp
  from am_inv_change [of H _ s z x ?f, OF inv x(1) _ _ this]
  have "am_inv H (pending z) (upd z ?f s)" using e by (simp add: same_key_def sane_entry_def upd_def)
  moreover have "look (upd z ?f s) z = Some (?f x)" "is_new (look (upd z ?f s)) z"
    using x by (simp_all add: look_upd is_new_def)
  ultimately obtain s' x' where "add_bucket H rnd nNow source z s = Inr s'" "am_inv H (\<lambda>_. 0) s'" "look s' z = Some x'"
    and eq: "x'\<lparr>nRandomPos := 0\<rparr> = (?f x)\<lparr>nRandomPos := 0\<rparr>" and k: "nKey s' = nKey s"
    using add_bucket_pending [OF _ _ _ False r, of "?f x" nNow] by blast
  moreover have "ip x' = ip x" using arg_cong [where f = ip, OF eq] by simp
  ultimately show ?thesis by blast
qed

lemma Find_iff:
  assumes "am_inv H d s"
  shows "Find s a = Some i \<longleftrightarrow> map_option netaddr (look s i) = Some (netaddr a)"
    and "Find s a = None \<longleftrightarrow> Mapping.lookup (mapAddr s) (netaddr a) = None"
proof -
  have "Mapping.lookup (mapAddr s) (netaddr a) = Some i \<longleftrightarrow> map_option netaddr (look s i) = Some (netaddr a)" for i
    using assms by (simp add: am_inv_def addr_inv_def)
  note e = this
  show "Find s a = None \<longleftrightarrow> Mapping.lookup (mapAddr s) (netaddr a) = None"
    using e by (auto simp: Find_def look_def split: option.splits)
  show "Find s a = Some i \<longleftrightarrow> map_option netaddr (look s i) = Some (netaddr a)"
  proof (cases "Mapping.lookup (mapAddr s) (netaddr a)")
    case None
    then show ?thesis using e [of i] by (simp add: Find_def)
  next
    case (Some j)
    then have "look s j \<noteq> None" using e [of j] by auto
    then have "Find s a = Some j" using Some by (auto simp: Find_def look_def split: option.splits)
    then show ?thesis using e [of i] Some by simp
  qed
qed

lemma create_ok:
  fixes f :: "u32 \<Rightarrow> u32" and s1 :: CAddrMan and nId :: int
  assumes inv: "am_inv H (\<lambda>_. 0) s" and none: "Find s addr = None" and r: "rand_ok rnd"
    and c: "Create addr source s = (nId, s1)"
  defines "s2 \<equiv> (upd nId (\<lambda>i. i\<lparr>nTime := f (nTime i)\<rparr>) s1)\<lparr>nNew := nNew s + 1\<rparr>"
  shows "\<exists>s' x'. add_bucket H rnd nNow source nId s2 = Inr s' \<and> am_inv H (\<lambda>_. 0) s' \<and> look s' nId = Some x' \<and> ip x' = ip addr
     \<and> nKey s' = nKey s"
proof -
  let ?y = "(mk_info addr source)\<lparr>nRandomPos := int (length (vRandom s)), nTime := f (nTime addr), nRefCount := 1\<rparr>"
  let ?m = "look s" let ?s3 = "upd nId (\<lambda>i. i\<lparr>nRefCount := nRefCount i + 1\<rparr>) s2"
  have nId: "nId = nIdCount s" using c by (simp add: Create_def Let_def)
  have m0: "?m nId = None" using inv by (auto simp: am_inv_def ids_inv_def nId)
  have l3: "look ?s3 = ?m(nId := Some ?y)" and l2: "look s2 nId = Some (?y\<lparr>nRefCount := 0\<rparr>)"
    using c by (auto simp: s2_def look_upd Create_def Let_def mk_info_def look_def fun_eq_iff Mapping.lookup_update')
  have fr: "nKey ?s3 = nKey s" "nIdCount ?s3 = nIdCount s + 1" "mapAddr ?s3 = Mapping.update (netaddr addr) nId (mapAddr s)"
    "vRandom ?s3 = vRandom s @ [nId]" "nTried ?s3 = nTried s" "vvTried ?s3 = vvTried s" "nNew ?s3 = nNew s + 1" "vvNew ?s3 = vvNew s"
    "nKey s2 = nKey s" "vvNew s2 = vvNew s"
    using c by (auto simp: s2_def Create_def Let_def)
  have out: "nId \<notin> B" if "B \<in> set (vvNew s)" for B
  proof
    assume "nId \<in> B"
    then have "is_new ?m nId" using inv that by (auto simp: am_inv_def new_inv_def)
    then show False using m0 by (simp add: is_new_def)
  qed
  then have b0: "bcount (vvNew s) nId = 0" by (simp add: bcount_0)
  have tr: "is_tried (?m(nId := Some ?y)) = is_tried ?m"
    using m0 by (auto simp: is_tried_def fun_eq_iff mk_info_def)
  have nw: "is_new (?m(nId := Some ?y)) = (\<lambda>j. j = nId \<or> is_new ?m j)"
    using m0 by (auto simp: is_new_def fun_eq_iff mk_info_def)
  have pos: "pos_inv ?m (vRandom s)" using inv by (simp add: am_inv_def)
  have "pos_inv (?m(nId := Some ?y)) (vRandom s @ [nId])"
    by (rule pos_inv_append [OF pos m0]) simp
  moreover have "addr_inv (?m(nId := Some ?y)) (Mapping.update (netaddr addr) nId (mapAddr s))"
    unfolding addr_inv_def
  proof (intro allI)
    fix a j
    have e: "Mapping.lookup (mapAddr s) a = Some j \<longleftrightarrow> map_option netaddr (?m j) = Some a" for a j
      using inv by (simp add: am_inv_def addr_inv_def)
    have y: "netaddr ?y = netaddr addr" by (simp add: netaddr_def mk_info_def)
    have "map_option netaddr (?m j) \<noteq> Some (netaddr addr)" for j
      using none e [of "netaddr addr" j] Find_iff(2) [OF inv, of addr] by simp
    then show "Mapping.lookup (Mapping.update (netaddr addr) nId (mapAddr s)) a = Some j \<longleftrightarrow>
       map_option netaddr ((?m(nId := Some ?y)) j) = Some a"
      using e [of a j] y m0 by (auto simp: Mapping.lookup_update')
  qed
  moreover have "ids_inv (?m(nId := Some ?y)) (nIdCount s + 1)"
    using inv by (auto simp: am_inv_def ids_inv_def nId intro: order.strict_trans)
  moreover have "tried_inv H (nKey s) (?m(nId := Some ?y)) (vvTried s)"
    using inv m0 unfolding am_inv_def tried_inv_def tr
    by (metis (no_types, lifting) fun_upd_other is_tried_def option.distinct(1) option.simps(8))
  moreover have "new_inv (pending nId) (?m(nId := Some ?y)) (vvNew s)"
    using inv b0 unfolding am_inv_def new_inv_def nw by (auto simp: pending_def)
  moreover have "count_inv (?m(nId := Some ?y)) (nTried s) (nNew s + 1)"
  proof -
    have "{j. j = nId \<or> is_new ?m j} = insert nId {j. is_new ?m j}" by auto
    moreover have "\<not> is_new ?m nId" using m0 by (simp add: is_new_def)
    ultimately show ?thesis using inv finite_ids(2) [OF pos] by (simp add: am_inv_def count_inv_def tr nw)
  qed
  moreover have "sane_inv (?m(nId := Some ?y))"
    using inv by (simp add: am_inv_def sane_inv_def sane_entry_def mk_info_def)
  ultimately have inv3: "am_inv H (pending nId) ?s3" unfolding am_inv_def l3 fr by blast
  have "nId \<notin> vvNew s2 ! GetNewBucket H (nKey s2) (info s2 nId) source"
    unfolding fr(10) by (rule out, rule nth_mem) (use inv GetNewBucket_less [of H] in \<open>simp add: am_inv_def new_inv_def\<close>)
  from add_bucket_pending [OF inv3 _ _ this r, of ?y nNow] obtain s' x' where
    "add_bucket H rnd nNow source nId s2 = Inr s'" "am_inv H (\<lambda>_. 0) s'" "look s' nId = Some x'"
    and eq: "x'\<lparr>nRandomPos := 0\<rparr> = ?y\<lparr>nRandomPos := 0\<rparr>" and "nKey s' = nKey s2"
    by (auto simp: l3 nw)
  moreover have "ip x' = ip addr" using arg_cong [where f = ip, OF eq] by (simp add: mk_info_def)
  ultimately show ?thesis using fr by auto
qed


lemma add_refresh_ok:
  assumes g: "add_refresh rnd nNow addr pen x = (go, y)"
  shows "same_core x y" "sane_entry y = sane_entry x" "go \<Longrightarrow> \<not> fInTried y \<and> nRefCount y \<noteq> 4"
proof -
  let ?t = "uint (nTime addr)"
  define c where "c \<longleftrightarrow> nTime addr \<noteq> 0 \<and> (nTime x = 0 \<or> uint (nTime x) < ?t - (if nNow - ?t < 24 * 60 * 60 then 60 * 60 else 24 * 60 * 60) - pen)"
  define p where "p = (if c then x\<lparr>nTime := of_int (max 0 (?t - pen))\<rparr> else x)"
  define q where "q = p\<lparr>nServices := nServices p OR nServices addr\<rparr>"
  define e where "e \<longleftrightarrow> nTime addr = 0 \<or> (nTime q \<noteq> 0 \<and> nTime addr \<le> nTime q)"
  have form: "add_refresh rnd nNow addr pen x = (if e then (False, q) else if fInTried q then (False, q)
     else if nRefCount q = 4 then (False, q)
     else if 2 ^ nat (nRefCount q) > (1 :: int) \<and> rnd 0 (2 ^ nat (nRefCount q)) \<noteq> 0 then (False, q) else (True, q))"
    unfolding add_refresh_def Let_def e_def q_def p_def c_def ..
  then have y: "y = q" "go \<Longrightarrow> \<not> fInTried q \<and> nRefCount q \<noteq> 4" using g by (simp_all split: if_splits)
  then show "go \<Longrightarrow> \<not> fInTried y \<and> nRefCount y \<noteq> 4" by simp
  show "same_core x y" "sane_entry y = sane_entry x"
    unfolding y(1) q_def p_def by (simp_all add: same_core_def same_key_def sane_entry_def)
qed

lemma AM_Add_ok:
  assumes inv: "addrman_ok H s" and r: "rand_ok rnd"
  shows "\<exists>s'. AM_Add H rnd nNow addr source pen s = Inr (IsRoutable addr \<and> Find s addr = None, s') \<and> addrman_ok H s' \<and>
    nKey s' = nKey s \<and> (IsRoutable addr \<longrightarrow> Find s' addr \<noteq> None)"
proof (cases "IsRoutable addr")
  case False
  then show ?thesis using inv by (simp add: AM_Add_def)
next
  case True
  note inv' = inv [unfolded addrman_ok_def]
  show ?thesis
  proof (cases "Find s addr")
    case None
    obtain nId s1 where c: "Create addr source s = (nId, s1)" by fastforce
    have n: "nNew s1 = nNew s" using c by (auto simp: Create_def Let_def)
    from create_ok [OF inv' None r c, where f = "\<lambda>t. of_int (max 0 (uint t - pen))" and nNow = nNow] obtain s' x' where
      s': "add_bucket H rnd nNow source nId ((upd nId (\<lambda>i. i\<lparr>nTime := of_int (max 0 (uint (nTime i) - pen))\<rparr>) s1)\<lparr>nNew := nNew s + 1\<rparr>) = Inr s'"
        "am_inv H (\<lambda>_. 0) s'" "look s' nId = Some x'" "ip x' = ip addr" "nKey s' = nKey s" by blast
    from s'(3,4) have "Find s' addr = Some nId" by (simp add: Find_iff(1) [OF s'(2)] netaddr_def)
    then show ?thesis using True None c n s' by (simp add: AM_Add_def addrman_ok_def)
  next
    case (Some nId)
    then obtain x where x: "look s nId = Some x" "netaddr x = netaddr addr" using Find_iff(1) [OF inv'] by auto
    obtain go y where g: "add_refresh rnd nNow addr pen (info s nId) = (go, y)" by fastforce
    have y: "same_core x y" "sane_entry y" "go \<Longrightarrow> \<not> fInTried y \<and> nRefCount y \<noteq> 4"
      using add_refresh_ok [OF g] am_entry(2) [OF inv' x(1)] info_look [OF x(1)] by auto
    let ?s = "upd nId (\<lambda>_. y) s"
    have i1: "am_inv H (\<lambda>_. 0) ?s" by (rule am_inv_soft [OF inv' x(1) y(1,2)])
    have l1: "look ?s nId = Some y" by (simp add: look_upd x(1))
    have ipy: "ip y = ip addr" using x(2) y(1) by (simp add: same_core_def same_key_def netaddr_def)
    show ?thesis
    proof (cases go)
      case False
      have "Find ?s addr = Some nId" using l1 ipy by (simp add: Find_iff(1) [OF i1] netaddr_def)
      then show ?thesis using True Some g False i1 by (simp add: AM_Add_def addrman_ok_def)
    next
      case go: True
      then have "is_new (look ?s) nId" using y(3) l1 by (simp add: is_new_def)
      from add_bucket_old [OF i1 l1 this _ r, of nNow source] go y(3) obtain s' x' where
        s': "add_bucket H rnd nNow source nId ?s = Inr s'" "am_inv H (\<lambda>_. 0) s'" "look s' nId = Some x'" "ip x' = ip y" "nKey s' = nKey ?s"
        by blast
      from s'(3,4) ipy have "Find s' addr = Some nId" by (simp add: Find_iff(1) [OF s'(2)] netaddr_def)
      then show ?thesis using True Some g go s' by (simp add: AM_Add_def addrman_ok_def)
    qed
  qed
qed

section \<open>Attempts and connections\<close>

lemma Find_look: "am_inv H d s \<Longrightarrow> Find s a = Some i \<Longrightarrow> \<exists>x. look s i = Some x"
  by (auto simp: Find_iff)

lemma AM_Attempt_ok:
  assumes inv: "addrman_ok H s" and t: "0 \<le> time" shows "addrman_ok H (AM_Attempt addr time s)"
proof (cases "Find s addr")
  case (Some i)
  then obtain x where x: "look s i = Some x" using inv Find_look unfolding addrman_ok_def by blast
  have "am_inv H (\<lambda>_. 0) (upd i (\<lambda>i. i\<lparr>nLastTry := time, nAttempts := nAttempts i + 1\<rparr>) s)"
    by (rule am_inv_soft [OF inv [unfolded addrman_ok_def] x])
      (use am_entry(2) [OF inv [unfolded addrman_ok_def] x] t in \<open>simp_all add: same_core_def same_key_def sane_entry_def\<close>)
  then show ?thesis using inv Some by (simp add: AM_Attempt_def addrman_ok_def)
qed (use inv in \<open>simp add: AM_Attempt_def\<close>)

lemma AM_Connected_ok:
  assumes inv: "addrman_ok H s" shows "addrman_ok H (AM_Connected addr time s)"
proof (cases "Find s addr")
  case (Some i)
  then obtain x where x: "look s i = Some x" using inv Find_look unfolding addrman_ok_def by blast
  have "am_inv H (\<lambda>_. 0) (upd i (\<lambda>i. i\<lparr>nTime := of_int time\<rparr>) s)"
    by (rule am_inv_soft [OF inv [unfolded addrman_ok_def] x])
      (use am_entry(2) [OF inv [unfolded addrman_ok_def] x] in \<open>simp_all add: same_core_def same_key_def sane_entry_def\<close>)
  then show ?thesis using inv Some by (simp add: AM_Connected_def addrman_ok_def)
qed (use inv in \<open>simp add: AM_Connected_def\<close>)

lemma AM_frame [simp]:
  "nKey (AM_Attempt addr time s) = nKey s" "nKey (AM_Connected addr time s) = nKey s"
  by (simp_all add: AM_Attempt_def AM_Connected_def split: option.split)

section \<open>Moving to the tried table\<close>

lemma touch_has [simp]: "has s i \<Longrightarrow> touch i s = s" by (simp add: touch_def)

lemma has_vvTried [simp]: "has (s\<lparr>vvTried := v\<rparr>) i = has s i" by (simp add: has_def)

lemma select_tried_loop_ok:
  assumes "b < length (vvTried s)" "\<forall>i \<in> set (vvTried s ! b). has s i \<and> i \<noteq> -1"
    and "\<forall>k \<in> set is. k < length (vvTried s ! b)" "old = -1 \<or> has s old" and r: "rand_ok rnd"
  shows "\<exists>p v. select_tried_loop rnd b is old q s = Inr (p, s\<lparr>vvTried := (vvTried s)[b := v]\<rparr>) \<and>
    mset v = mset (vvTried s ! b) \<and> (p = q \<or> 0 \<le> p \<and> p < int (length v)) \<and>
    (old = -1 \<longrightarrow> is \<noteq> [] \<longrightarrow> 0 \<le> p \<and> p < int (length v))"
  using assms(1-4)
proof (induction "is" arbitrary: old q s)
  case Nil
  then show ?case by (intro exI [of _ q] exI [of _ "vvTried s ! b"]) simp
next
  case (Cons i "is")
  let ?v = "vvTried s ! b" let ?n = "length ?v"
  define pos where "pos = nat (rnd (i + 1) (int ?n - int i)) + i"
  have "0 < int ?n - int i" using Cons.prems(3) by simp
  then have "0 \<le> rnd (i + 1) (int ?n - int i) \<and> rnd (i + 1) (int ?n - int i) < int ?n - int i"
    using r unfolding rand_ok_def by blast
  then have pos: "pos < ?n" unfolding pos_def by linarith
  define t where "t = ?v ! pos"
  define v1 where "v1 = ?v[pos := ?v ! i, i := t]"
  have m1: "mset v1 = mset ?v" unfolding v1_def t_def
    using pos Cons.prems(3) by (intro mset_swap) simp_all
  let ?s = "s\<lparr>vvTried := (vvTried s)[b := v1]\<rparr>"
  have b: "vvTried ?s ! b = v1" "b < length (vvTried ?s)" using Cons.prems(1) by simp_all
  have set1: "set v1 = set ?v" and len1: "length v1 = ?n" using m1 by (metis set_mset_mset, metis size_mset)
  have t: "has s t" "t \<noteq> -1" using Cons.prems(2) pos by (auto simp: t_def)
  have IH: "\<exists>p v. select_tried_loop rnd b is o' q' ?s = Inr (p, s\<lparr>vvTried := (vvTried s)[b := v]\<rparr>) \<and>
    mset v = mset ?v \<and> (p = q' \<or> 0 \<le> p \<and> p < int (length v))" if "o' = -1 \<or> has s o'" for o' q'
    using Cons.IH [of ?s o' q'] Cons.prems set1 len1 that by (auto simp: b m1)
  have step: "select_tried_loop rnd b (i # is) old q s =
     (if \<not> (old = -1 \<or> has ?s t) then Inl AssertFailed
        else if old = -1 \<or> nLastSuccess (info ?s t) < nLastSuccess (info ?s old) then
          select_tried_loop rnd b is t (int pos) (if old = -1 then ?s else touch old ?s)
        else select_tried_loop rnd b is old q (touch old ?s))"
    by (simp only: select_tried_loop.simps Let_def pos_def t_def v1_def)
  show ?case
  proof (cases "old = -1 \<or> nLastSuccess (info ?s t) < nLastSuccess (info ?s old)")
    case True
    obtain p v where pv: "select_tried_loop rnd b is t (int pos) ?s = Inr (p, s\<lparr>vvTried := (vvTried s)[b := v]\<rparr>)"
      "mset v = mset ?v" "p = int pos \<or> 0 \<le> p \<and> p < int (length v)" using IH [of t "int pos"] t(1) by auto
    have "length v = ?n" using pv(2) by (metis size_mset)
    then have "0 \<le> p \<and> p < int (length v)" using pv(3) pos by auto
    moreover have "select_tried_loop rnd b (i # is) old q s = select_tried_loop rnd b is t (int pos) ?s"
      unfolding step using True Cons.prems(4) t(1) by auto
    ultimately show ?thesis using pv(1,2) by (intro exI [of _ p] exI [of _ v]) simp
  next
    case False
    then have "has s old" using Cons.prems(4) by auto
    then have "select_tried_loop rnd b (i # is) old q s = select_tried_loop rnd b is old q ?s"
      unfolding step using False t(1) by simp
    then show ?thesis using IH [of old q] \<open>has s old\<close> False by auto
  qed
qed

lemma SelectTried_ok:
  assumes "b < length (vvTried s)" "\<forall>i \<in> set (vvTried s ! b). has s i \<and> i \<noteq> -1" "vvTried s ! b \<noteq> []" "rand_ok rnd"
  shows "\<exists>p v. SelectTried rnd b s = Inr (int p, s\<lparr>vvTried := (vvTried s)[b := v]\<rparr>) \<and> mset v = mset (vvTried s ! b) \<and> p < length v"
proof -
  have "[0..<min 4 (length (vvTried s ! b))] \<noteq> []" using assms(3) by simp
  then obtain p v where "select_tried_loop rnd b [0..<min 4 (length (vvTried s ! b))] (-1) (-1) s
      = Inr (p, s\<lparr>vvTried := (vvTried s)[b := v]\<rparr>)" "mset v = mset (vvTried s ! b)" "0 \<le> p \<and> p < int (length v)"
    using select_tried_loop_ok [OF assms(1,2) _ _ assms(4), of "[0..<min 4 (length (vvTried s ! b))]" "-1" "-1"] by fastforce
  moreover from this(3) have "nat p < length v" by linarith
  ultimately show ?thesis unfolding SelectTried_def by (intro exI [of _ "nat p"] exI [of _ v]) simp
qed


lemma flip_views:
  fixes m :: "int \<Rightarrow> CAddrInfo option"
  assumes "m z = Some x" "ip y = ip x" "port y = port x" "nRandomPos y = nRandomPos x"
  shows "pos_inv (m(z := Some y)) = pos_inv m" "addr_inv (m(z := Some y)) = addr_inv m" "ids_inv (m(z := Some y)) = ids_inv m"
    "map_option (GetTriedBucket H k) ((m(z := Some y)) i) = map_option (GetTriedBucket H k) (m i)"
proof -
  have v: "map_option g ((m(z := Some y)) i) = map_option g (m i)" if "g y = g x" for g :: "CAddrInfo \<Rightarrow> 'b" and i
    using that assms(1) by simp
  have nn: "((m(z := Some y)) i = None) = (m i = None)" for i using assms(1) by simp
  have "map_option nRandomPos ((m(z := Some y)) i) = map_option nRandomPos (m i)" for i by (rule v) (simp add: assms)
  then show "pos_inv (m(z := Some y)) = pos_inv m" unfolding fun_eq_iff pos_inv_def nn by simp
  have "map_option netaddr ((m(z := Some y)) i) = map_option netaddr (m i)" for i by (rule v) (simp add: assms netaddr_def)
  then show "addr_inv (m(z := Some y)) = addr_inv m" unfolding fun_eq_iff addr_inv_def by simp
  show "ids_inv (m(z := Some y)) = ids_inv m" unfolding fun_eq_iff ids_inv_def nn by simp
  show "map_option (GetTriedBucket H k) ((m(z := Some y)) i) = map_option (GetTriedBucket H k) (m i)"
    by (intro v GetTriedBucket_cong) (simp_all add: assms)
qed

lemma tables_of_move:
  fixes m :: "int \<Rightarrow> CAddrInfo option"
  shows "is_tried (m(z := Some y)) = (\<lambda>j. if j = z then fInTried y else is_tried m j)"
    "is_new (m(z := Some y)) = (\<lambda>j. if j = z then \<not> fInTried y else is_new m j)"
  by (auto simp: fun_eq_iff is_tried_def is_new_def)

lemma bcount_insert:
  "b < length vn \<Longrightarrow> i \<notin> vn ! b \<Longrightarrow> bcount (vn[b := insert i (vn ! b)]) j = bcount vn j + (if j = i then 1 else 0)"
  by (auto simp: bcount_set)

text \<open>The state after the entry \<open>z\<close> has left the new buckets, and what \<open>MakeTried\<close> computes from it.\<close>

lemma cleared_new:
  assumes "new_inv (\<lambda>_. 0) m vn"
  shows "\<forall>b \<in> set (map (\<lambda>b. b - {z}) vn). finite b \<and> card b \<le> 64 \<and> (\<forall>i \<in> b. is_new m i \<and> i \<noteq> z)"
  using assms by (auto simp: new_inv_def intro: order.trans [OF card_Diff1_le])

lemma new_inv_moved:
  assumes inv: "new_inv (\<lambda>_. 0) m vn" and z: "m z = Some x" "is_new m z" and y: "nRefCount y = 0" "fInTried y"
  shows "new_inv (\<lambda>_. 0) (m(z := Some y)) (map (\<lambda>b. b - {z}) vn)"
  using inv cleared_new [OF inv, of z] unfolding new_inv_def tables_of_move bcount_clear using y by auto

lemma new_inv_evicted:
  assumes inv: "new_inv (\<lambda>_. 0) m vn" and z: "m z = Some x" "is_tried m z" and y: "nRefCount y = 1" "\<not> fInTried y"
    and b: "b < length vn" "card (vn ! b) < 64"
  shows "new_inv (\<lambda>_. 0) (m(z := Some y)) (vn[b := insert z (vn ! b)])"
proof -
  have nz: "\<not> is_new m z" using z(2) by (auto simp: is_tried_def is_new_def)
  then have out: "\<forall>c \<in> set vn. z \<notin> c" using inv by (auto simp: new_inv_def)
  then have "z \<notin> vn ! b" "bcount vn z = 0" using b by (simp_all add: bcount_0)
  moreover have "finite c \<and> card c \<le> 64 \<and> (\<forall>j \<in> c. j = z \<or> is_new m j)" if "c \<in> set (vn[b := insert z (vn ! b)])" for c
  proof -
    have "c = insert z (vn ! b) \<or> c \<in> set vn" using that set_update_subset_insert [of vn b] by blast
    then show ?thesis using inv b by (auto simp: new_inv_def card_insert_if)
  qed
  ultimately show ?thesis
    using inv nz y b(1) unfolding new_inv_def tables_of_move by (auto simp: bcount_insert)
qed


lemma tried_inv_append:
  assumes inv: "tried_inv H key m vt" and z: "m z = Some x" "\<not> is_tried m z"
    and y: "ip y = ip x" "port y = port x" "nRandomPos y = nRandomPos x" "fInTried y"
    and b: "b = GetTriedBucket H key x" "length (vt ! b) < 64"
  shows "tried_inv H key (m(z := Some y)) (vt[b := vt ! b @ [z]])"
proof -
  have bl: "b < 64" unfolding b(1) by (rule GetTriedBucket_less)
  have "z \<notin> set (vt ! b)" using inv z(2) bl unfolding tried_inv_def by blast
  moreover have bz: "map_option (GetTriedBucket H key) (m z) = Some b" using z b by simp
  ultimately show ?thesis
    using inv z bl b(2) y(4) unfolding tried_inv_def tables_of_move flip_views(4) [of m z x y, OF z(1) y(1-3)]
    by (auto simp: nth_list_update)
qed

lemma tried_inv_replace:
  assumes inv: "tried_inv H key m vt" and z: "m z = Some x" "\<not> is_tried m z"
    and y: "ip y = ip x" "port y = port x" "nRandomPos y = nRandomPos x" "fInTried y"
    and o: "m old = Some w" "is_tried m old" "ip u = ip w" "port u = port w" "nRandomPos u = nRandomPos w" "\<not> fInTried u"
    and b: "b = GetTriedBucket H key x" and v: "mset v = mset (vt ! b)" "p < length v" "v ! p = old"
  shows "tried_inv H key (m(z := Some y, old := Some u)) (vt[b := v[p := z]])"
proof -
  have bl: "b < 64" unfolding b(1) by (rule GetTriedBucket_less)
  have ne: "z \<noteq> old" using z(2) o(2) by blast
  have sv: "set v = set (vt ! b)" using v(1) by (metis set_mset_mset)
  have dv: "distinct v" using inv bl v(1) unfolding tried_inv_def by (metis mset_eq_imp_distinct_iff)
  have zout: "z \<notin> set v" using inv z(2) bl sv unfolding tried_inv_def by blast
  have lv: "length v \<le> 64" using inv bl v(1) unfolding tried_inv_def by (metis size_mset)
  have oin: "old \<in> set (vt ! b)" using v(2,3) sv nth_mem by blast
  then have ob: "map_option (GetTriedBucket H key) (m old) = Some b" using inv bl unfolding tried_inv_def by blast
  have zb: "map_option (GetTriedBucket H key) (m z) = Some b" using z b by simp
  have set': "set (v[p := z]) = insert z (set (vt ! b) - {old})"
    using set_update_distinct [OF dv v(2), of z] sv v(3) by simp
  have dist': "distinct (v[p := z])" using dv zout by (simp add: distinct_list_update)
  have o1: "(m(z := Some y)) old = Some w" using ne o(1) by simp
  have views: "map_option (GetTriedBucket H key) ((m(z := Some y, old := Some u)) i) = map_option (GetTriedBucket H key) (m i)" for i
    unfolding flip_views(4) [of "m(z := Some y)" old w u, OF o1 o(3-5)] flip_views(4) [of m z x y, OF z(1) y(1-3)] ..
  show ?thesis
    unfolding tried_inv_def
  proof (intro conjI allI impI)
    show "length (vt[b := v[p := z]]) = 64" using inv by (simp add: tried_inv_def)
    fix c assume c: "c < (64 :: nat)"
    have l: "c < length vt" using inv c by (simp add: tried_inv_def)
    show "length (vt[b := v[p := z]] ! c) \<le> 64" "distinct (vt[b := v[p := z]] ! c)"
      using inv c l lv dist' bl by (auto simp: nth_list_update tried_inv_def)
    fix i
    have "i \<in> set (vt ! c) \<longleftrightarrow> is_tried m i \<and> map_option (GetTriedBucket H key) (m i) = Some c"
      using inv c unfolding tried_inv_def by blast
    then show "i \<in> set (vt[b := v[p := z]] ! c) \<longleftrightarrow> is_tried (m(z := Some y, old := Some u)) i \<and>
      map_option (GetTriedBucket H key) ((m(z := Some y, old := Some u)) i) = Some c"
      unfolding views tables_of_move using set' ne ob zb y(4) o(6) z(2) l bl inv
      by (cases "c = b") (auto simp: nth_list_update tried_inv_def)
  qed
qed

lemma MakeTried_ok:
  assumes inv: "am_inv H (\<lambda>_. 0) s" and x: "look s z = Some x" "\<not> fInTried x" and ls: "nLastSuccess x \<noteq> 0"
    and o: "nOrigin < length (vvNew s)" "z \<in> vvNew s ! nOrigin" and r: "rand_ok rnd"
  shows "\<exists>s' x'. MakeTried H rnd z nOrigin s = Inr s' \<and> am_inv H (\<lambda>_. 0) s' \<and> nKey s' = nKey s \<and>
    look s' z = Some x' \<and> fInTried x' \<and> ip x' = ip x \<and> port x' = port x"
proof -
  let ?m = "look s" let ?vn = "vvNew s"
  have pos: "pos_inv ?m (vRandom s)" and nw: "new_inv (\<lambda>_. 0) ?m ?vn" and tr: "tried_inv H (nKey s) ?m (vvTried s)"
    and cn: "count_inv ?m (nTried s) (nNew s)" and sn: "sane_inv ?m"
    using inv by (simp_all add: am_inv_def)
  have new: "is_new ?m z" and ntr: "\<not> is_tried ?m z" using x by (auto simp: is_new_def is_tried_def)
  have e: "nRefCount x = bcount ?vn z" "sane_entry x" using am_entry [OF inv x(1)] by simp_all
  let ?n = "length (filter (\<lambda>b. z \<in> b) ?vn)"
  have n: "int ?n = nRefCount x" using e by (simp add: bcount_def)
  let ?vn' = "map (\<lambda>b. b - {z}) ?vn"
  define s1 where "s1 = (upd z (\<lambda>i. i\<lparr>nRefCount := nRefCount i - int ?n\<rparr>) (s\<lparr>vvNew := ?vn'\<rparr>))\<lparr>nNew := nNew s - 1\<rparr>"
  let ?x1 = "x\<lparr>nRefCount := 0\<rparr>" let ?y = "x\<lparr>nRefCount := 0, fInTried := True\<rparr>"
  have l1: "look s1 = ?m(z := Some ?x1)" using x(1) n by (simp add: s1_def look_upd)
  have i1: "info s1 z = ?x1" by (rule info_look) (simp add: l1)
  have f1: "nKey s1 = nKey s" "vvTried s1 = vvTried s" "nNew s1 = nNew s - 1" "nTried s1 = nTried s" "vvNew s1 = ?vn'"
    "vRandom s1 = vRandom s" "mapAddr s1 = mapAddr s" "nIdCount s1 = nIdCount s" by (simp_all add: s1_def)
  let ?kb = "GetTriedBucket H (nKey s) x"
  have kb: "GetTriedBucket H (nKey s) ?x1 = ?kb" by (rule GetTriedBucket_cong) simp_all
  have kbl: "?kb < length (vvTried s)" using tr GetTriedBucket_less [of H] by (simp add: tried_inv_def)
  have mk: "MakeTried H rnd z nOrigin s = (if length (vvTried s ! ?kb) < 64 then
                 Inr (upd z (\<lambda>i. i\<lparr>fInTried := True\<rparr>)
                       (s1\<lparr>vvTried := (vvTried s)[?kb := vvTried s ! ?kb @ [z]], nTried := nTried s + 1\<rparr>))
               else
                 bindR (SelectTried rnd ?kb s1) (\<lambda>(nPos, s).
                   let vTried = vvTried s ! ?kb; old = vTried ! nat nPos in
                   if \<not> has s old then Inl AssertFailed
                   else
                     let nUBucket = GetNewBucket H (nKey s) (info s old) (ai_source (info s old));
                         s = upd old (\<lambda>i. i\<lparr>fInTried := False, nRefCount := 1\<rparr>) s;
                         s = (if card (vvNew s ! nUBucket) < 64 then insert_new nUBucket old s
                              else insert_new nOrigin old s);
                         s = s\<lparr>nNew := nNew s + 1, vvTried := (vvTried s)[?kb := vTried[nat nPos := z]]\<rparr>
                     in Inr (upd z (\<lambda>i. i\<lparr>fInTried := True\<rparr>) s)))"
    using o(2) i1 by (simp add: MakeTried_def Let_def s1_def [symmetric] f1 kb)
  have fin: "finite {j. is_new ?m j}" "finite {j. is_tried ?m j}" using finite_ids [OF pos] by simp_all
  have new1: "new_inv (\<lambda>_. 0) (?m(z := Some ?y)) ?vn'" by (rule new_inv_moved [OF nw x(1) new]) simp_all
  have san: "sane_entry ?y" using e(2) ls by (simp add: sane_entry_def)
  note fl = flip_views [of ?m z x ?y, OF x(1)]
  show ?thesis
  proof (cases "length (vvTried s ! ?kb) < 64")
    case True
    let ?s' = "upd z (\<lambda>i. i\<lparr>fInTried := True\<rparr>)
                       (s1\<lparr>vvTried := (vvTried s)[?kb := vvTried s ! ?kb @ [z]], nTried := nTried s + 1\<rparr>)"
    have l: "look ?s' = ?m(z := Some ?y)" by (simp add: look_upd l1)
    have "tried_inv H (nKey s) (?m(z := Some ?y)) ((vvTried s)[?kb := vvTried s ! ?kb @ [z]])"
      by (rule tried_inv_append [OF tr x(1) ntr]) (use True in simp_all)
    moreover have "count_inv (?m(z := Some ?y)) (nTried s + 1) (nNew s - 1)"
    proof -
      have "{j. if j = z then fInTried ?y else is_tried ?m j} = insert z {j. is_tried ?m j}"
        "{j. if j = z then \<not> fInTried ?y else is_new ?m j} = {j. is_new ?m j} - {z}" by auto
      moreover have "0 < card {j. is_new ?m j}" using fin new by (auto simp: card_gt_0_iff)
      ultimately show ?thesis using cn fin new ntr
        by (simp add: count_inv_def tables_of_move card_insert_if card_Diff_singleton of_nat_diff)
    qed
    moreover have "sane_inv (?m(z := Some ?y))" using sn san by (simp add: sane_inv_def)
    ultimately have "am_inv H (\<lambda>_. 0) ?s'"
      using inv new1 fl unfolding am_inv_def l by (simp add: f1)
    then show ?thesis using True mk l by (intro exI [of _ ?s'] exI [of _ ?y]) (simp add: f1)
  next
    case False
    let ?v = "vvTried s ! ?kb"
    have mem: "i \<in> set ?v \<Longrightarrow> is_tried ?m i" for i using tr GetTriedBucket_less [of H] by (auto simp: tried_inv_def)
    have hs: "has s1 i \<and> i \<noteq> -1 \<and> i \<noteq> z" if i: "i \<in> set ?v" for i
    proof -
      obtain xi where xi: "look s i = Some xi" "i \<noteq> z" using mem [OF i] ntr by (auto simp: is_tried_def)
      then show ?thesis using am_entry(4) [OF inv xi(1)] by (auto simp: has_look l1)
    qed
    have ne: "?v \<noteq> []" using False by auto
    obtain p v where sel: "SelectTried rnd ?kb s1 = Inr (int p, s1\<lparr>vvTried := (vvTried s)[?kb := v]\<rparr>)" and v: "mset v = mset ?v" "p < length v"
      using SelectTried_ok [of ?kb s1 rnd] kbl hs ne r by (auto simp: f1)
    define old where "old = v ! p"
    have "old \<in> set ?v" using v unfolding old_def by (metis nth_mem set_mset_mset)
    then have old: "is_tried ?m old" "old \<noteq> z" "has s1 old" using mem hs by blast+
    then obtain w where w: "look s old = Some w" by (auto simp: is_tried_def)
    let ?s2 = "s1\<lparr>vvTried := (vvTried s)[?kb := v]\<rparr>"
    have w2: "info ?s2 old = w" using w old(2) by (intro info_look) (simp add: l1)
    let ?ub = "GetNewBucket H (nKey s) w (ai_source w)"
    let ?tb = "if card (?vn' ! ?ub) < 64 then ?ub else nOrigin"
    have len: "length ?vn = 256" using nw by (simp add: new_inv_def)
    have tb: "?tb < length ?vn'" using o(1) len GetNewBucket_less [of H "nKey s" w "ai_source w"] by simp
    have cap: "card (?vn' ! ?tb) < 64"
    proof -
      have "card (?vn ! nOrigin) \<le> 64" "finite (?vn ! nOrigin)" using nw o(1) by (auto simp: new_inv_def)
      then have "card (?vn ! nOrigin - {z}) < 64" using o(2) by (simp add: card_Diff_singleton)
      then show ?thesis using o(1) by simp
    qed
    let ?u = "w\<lparr>fInTried := False, nRefCount := 1\<rparr>"
    let ?s3 = "upd old (\<lambda>i. i\<lparr>fInTried := False, nRefCount := 1\<rparr>) ?s2"
    let ?s4 = "(insert_new ?tb old ?s3)\<lparr>nNew := nNew s, vvTried := (vvTried s)[?kb := v[p := z]]\<rparr>"
    let ?s' = "upd z (\<lambda>i. i\<lparr>fInTried := True\<rparr>) ?s4"
    have res: "MakeTried H rnd z nOrigin s = Inr ?s'"
      using False old(3) w2 kbl
      by (simp add: mk sel Let_def has_vvTried old_def [symmetric] f1 insert_new_def if_distrib [of "\<lambda>t. insert_new t old s" for s])
    let ?m1 = "?m(z := Some ?y)" let ?m' = "?m1(old := Some ?u)"
    have l: "look ?s' = ?m'" using old(2) w
      by (simp add: look_upd insert_new_def l1 fun_upd_twist)
    have tr1: "is_tried ?m1 old" using old(1) by (simp add: tables_of_move)
    have w1: "?m1 old = Some w" using w old(2) by simp
    have newf: "new_inv (\<lambda>_. 0) ?m' (?vn'[?tb := insert old (?vn' ! ?tb)])"
      by (rule new_inv_evicted [OF new1 w1 tr1 _ _ tb cap]) simp_all
    have trf: "tried_inv H (nKey s) ?m' ((vvTried s)[?kb := v[p := z]])"
      by (rule tried_inv_replace [OF tr x(1) ntr _ _ _ _ w old(1)]) (simp_all add: v old_def)
    have cnf: "count_inv ?m' (nTried s) (nNew s)"
    proof -
      have "{j. is_tried ?m' j} = insert z ({j. is_tried ?m j} - {old})"
        "{j. is_new ?m' j} = insert old ({j. is_new ?m j} - {z})"
        using old(2) by (auto simp: tables_of_move)
      moreover have "0 < card {j. is_new ?m j}" "0 < card {j. is_tried ?m j}" using fin new old(1) by (auto simp: card_gt_0_iff)
      moreover have "\<not> is_new ?m old" using old(1) is_new_not_tried [of ?m old] by blast
      ultimately show ?thesis using cn fin new ntr old
        by (simp add: count_inv_def card_insert_if card_Diff_singleton of_nat_diff)
    qed
    have "sane_entry ?u" using am_entry(2) [OF inv w] by (simp add: sane_entry_def)
    then have snf: "sane_inv ?m'" using sn san by (simp add: sane_inv_def)
    have "pos_inv ?m' = pos_inv ?m" "addr_inv ?m' = addr_inv ?m" "ids_inv ?m' = ids_inv ?m"
      using flip_views [of ?m1 old w ?u, OF w1] fl by simp_all
    then have "am_inv H (\<lambda>_. 0) ?s'"
      using inv newf trf cnf snf unfolding am_inv_def l by (simp add: insert_new_def f1)
    then show ?thesis using res l old(2) by (intro exI [of _ ?s'] exI [of _ ?y]) (simp add: f1 insert_new_def)
  qed
qed


lemma find_bucket:
  assumes "find P (map (\<lambda>n. (n + k) mod sz) [0..<sz]) = Some b"
  shows "b < sz \<and> P b"
  using assms by (auto simp: find_Some_iff)

lemma find_bucket_None:
  assumes "find P (map (\<lambda>n. (n + k) mod sz) [0..<sz]) = None" "b < sz" shows "\<not> P b"
proof -
  let ?n = "(b + (sz - k mod sz)) mod sz"
  have sz: "0 < sz" using assms(2) by simp
  have "?n \<in> {0..<sz}" using sz by simp
  have "k mod sz < sz" using sz by simp
  then have k: "b + (sz - k mod sz) + k mod sz = b + sz" by linarith
  have "(?n + k) mod sz = (b + (sz - k mod sz) + k mod sz) mod sz" by (metis mod_add_eq mod_add_left_eq)
  also have "\<dots> = b" unfolding k using assms(2) by simp
  finally have "b \<in> set (map (\<lambda>n. (n + k) mod sz) [0..<sz])"
    using \<open>?n \<in> {0..<sz}\<close> by (auto simp: image_iff intro!: bexI [of _ ?n])
  then show ?thesis using assms(1) by (auto simp: find_None_iff)
qed

lemma AM_Good_ok:
  assumes inv: "addrman_ok H s" and r: "rand_ok rnd" and t: "0 < time"
  shows "\<exists>s'. AM_Good H rnd addr time s = Inr s' \<and> addrman_ok H s' \<and> nKey s' = nKey s \<and>
    (\<forall>i x. Find s addr = Some i \<longrightarrow> look s i = Some x \<longrightarrow> service_eq x addr \<longrightarrow>
       (\<exists>y. look s' i = Some y \<and> fInTried y \<and> service_eq y addr))"
proof (cases "Find s addr")
  case None
  then show ?thesis using inv by (simp add: AM_Good_def)
next
  case (Some i)
  note inv' = inv [unfolded addrman_ok_def]
  obtain x where x: "look s i = Some x" using inv' Some Find_look by blast
  then have ix: "info s i = x" by (rule info_look)
  show ?thesis
  proof (cases "service_eq x addr")
    case False
    then show ?thesis using inv Some x ix by (auto simp: AM_Good_def)
  next
    case True
    let ?f = "\<lambda>i. i\<lparr>nLastSuccess := time, nLastTry := time, nTime := of_int time, nAttempts := 0\<rparr>"
    let ?s = "upd i ?f s"
    have i1: "am_inv H (\<lambda>_. 0) ?s"
      by (rule am_inv_soft [OF inv' x]) (use t in \<open>simp_all add: same_core_def same_key_def sane_entry_def\<close>)
    have l1: "look ?s i = Some (?f x)" by (simp add: look_upd x)
    then have ii: "info ?s i = ?f x" by (rule info_look)
    have se: "service_eq (?f x) addr" using True by (simp add: service_eq_def netaddr_eq_def)
    show ?thesis
    proof (cases "fInTried x")
      case fin: True
      then show ?thesis using Some True x ix ii l1 i1 se by (auto simp: AM_Good_def addrman_ok_def)
    next
      case fin: False
      let ?sz = "length (vvNew ?s)"
      let ?find = "find (\<lambda>nB. i \<in> vvNew ?s ! nB) (map (\<lambda>n. (n + nat (rnd 0 (int ?sz))) mod ?sz) [0..<?sz])"
      have "is_new (look ?s) i" using l1 fin by (simp add: is_new_def)
      then have "1 \<le> bcount (vvNew ?s) i" using am_entry [OF i1 l1] by simp
      then obtain c where "c \<in> set (vvNew ?s)" "i \<in> c" using bcount_0 [of "vvNew ?s" i] by fastforce
      then obtain k where k: "k < ?sz" "i \<in> vvNew ?s ! k" by (metis in_set_conv_nth)
      have "?find \<noteq> None"
      proof
        assume "?find = None"
        from find_bucket_None [OF this k(1)] k(2) show False by blast
      qed
      then obtain b where b: "?find = Some b" by blast
      have bb: "b < ?sz" "i \<in> vvNew ?s ! b" using find_bucket [OF b] by simp_all
      obtain s' x' where s': "MakeTried H rnd i b ?s = Inr s'" "am_inv H (\<lambda>_. 0) s'" "nKey s' = nKey ?s"
        "look s' i = Some x'" "fInTried x'" "ip x' = ip (?f x)" "port x' = port (?f x)"
        using MakeTried_ok [OF i1 l1 _ _ bb r] fin t by auto
      have "AM_Good H rnd addr time s = Inr s'"
        using Some True fin ix ii b s'(1) by (simp add: AM_Good_def)
      moreover have "service_eq x' addr" using se s'(6,7) by (simp add: service_eq_def netaddr_eq_def)
      ultimately show ?thesis using s' Some by (auto simp: addrman_ok_def)
    qed
  qed
qed

section \<open>Reading addresses\<close>

lemma SwapRandom_set:
  assumes "vRandom s' = (vRandom s)[p := vRandom s ! q, q := vRandom s ! p]" "p < length (vRandom s)" "q < length (vRandom s)"
  shows "mset (vRandom s') = mset (vRandom s)"
  unfolding assms(1) using assms(2,3) by (intro mset_swap)

lemma getaddr_loop_ok:
  assumes "am_inv H d s" "\<forall>n \<in> set ns. n < length (vRandom s)" "sorted_wrt (<) ns" and r: "rand_ok rnd"
  shows "\<exists>vs s'. getaddr_loop rnd ns acc s = Inr (acc @ vs, s') \<and> am_inv H d s' \<and> strip (look s') = strip (look s) \<and>
    nKey s' = nKey s \<and> length (vRandom s') = length (vRandom s) \<and>
    (\<forall>k. (\<forall>n \<in> set ns. k < n) \<longrightarrow> vRandom s' ! k = vRandom s ! k) \<and>
    map (\<lambda>x. x\<lparr>nRandomPos := 0\<rparr>) vs = map (\<lambda>n. the (strip (look s) (vRandom s' ! n))) ns"
  using assms(1-3)
proof (induction ns arbitrary: acc s)
  case (Cons n ns)
  let ?L = "length (vRandom s)"
  define q where "q = nat (rnd n (int ?L - int n)) + n"
  have n: "n < ?L" using Cons.prems(2) by simp
  then have "0 < int ?L - int n" by simp
  then have "0 \<le> rnd n (int ?L - int n) \<and> rnd n (int ?L - int n) < int ?L - int n" using r unfolding rand_ok_def by blast
  then have q: "q < ?L" "n \<le> q" unfolding q_def by linarith+
  have pos: "pos_inv (look s) (vRandom s)" and rest: "rest_inv H d (look s) s" using Cons.prems(1) by (simp_all add: am_inv_split)
  obtain s1 where s1: "SwapRandom n q s = Inr s1" "pos_inv (look s1) (vRandom s1)" "strip (look s1) = strip (look s)"
    "vRandom s1 = (vRandom s)[n := vRandom s ! q, q := vRandom s ! n]" "s1 = s\<lparr>mapInfo := mapInfo s1, vRandom := vRandom s1\<rparr>"
    using SwapRandom_ok [OF pos n q(1)] by blast
  have "rest_inv H d (look s1) s" using rest rest_inv_strip [OF s1(3)] by simp
  then have "rest_inv H d (look s1) s1" by (subst (asm) rest_inv_def, subst s1(5)) (simp add: rest_inv_def)
  then have i1: "am_inv H d s1" using s1(2) by (simp add: am_inv_split)
  have L: "length (vRandom s1) = ?L" and k1: "nKey s1 = nKey s" using s1(4) by simp (subst s1(5), simp)
  have "vRandom s1 ! n \<in> set (vRandom s1)" using n L by simp
  then obtain x where x: "look s1 (vRandom s1 ! n) = Some x" using pos_inv_mem [OF s1(2)] by blast
  obtain vs s' where IH: "getaddr_loop rnd ns (acc @ [x]) s1 = Inr ((acc @ [x]) @ vs, s')" "am_inv H d s'"
    "strip (look s') = strip (look s1)" "nKey s' = nKey s1" "length (vRandom s') = length (vRandom s1)"
    "\<forall>k. (\<forall>n \<in> set ns. k < n) \<longrightarrow> vRandom s' ! k = vRandom s1 ! k"
    "map (\<lambda>x. x\<lparr>nRandomPos := 0\<rparr>) vs = map (\<lambda>n. the (strip (look s1) (vRandom s' ! n))) ns"
    using Cons.IH [OF i1, of "acc @ [x]"] Cons.prems(2,3) L by auto
  have "getaddr_loop rnd (n # ns) acc s = Inr (acc @ x # vs, s')"
    using IH(1) s1(1) x by (simp add: Let_def q_def [symmetric] has_look info_look)
  moreover have "vRandom s' ! n = vRandom s1 ! n" using IH(6) Cons.prems(3) by simp
  then have "the (strip (look s) (vRandom s' ! n)) = x\<lparr>nRandomPos := 0\<rparr>" using x by (simp add: s1(3) [symmetric] strip_def)
  moreover have "vRandom s' ! k = vRandom s ! k" if "\<forall>m \<in> set (n # ns). k < m" for k
    using that IH(6) q by (simp add: s1(4))
  ultimately show ?case using IH s1(3) L k1
    by (intro exI [of _ "x # vs"] exI [of _ s']) simp
qed simp

text \<open>The addresses handed out are known, distinct and at most 23 percent of the table or 2500.\<close>

lemma AM_GetAddr_ok:
  assumes inv: "addrman_ok H s" and r: "rand_ok rnd"
  shows "\<exists>vs s'. AM_GetAddr rnd s = Inr (vs, s') \<and> addrman_ok H s' \<and> nKey s' = nKey s \<and> strip (look s') = strip (look s) \<and>
    length vs = min 2500 (23 * addrman_size s div 100) \<and> distinct (map netaddr vs) \<and> (\<forall>v \<in> set vs. Find s' v \<noteq> None)"
proof -
  note inv' = inv [unfolded addrman_ok_def]
  define k where "k = (if 23 * length (vRandom s) div 100 > 2500 then 2500 else 23 * length (vRandom s) div 100)"
  have k: "k = min 2500 (23 * addrman_size s div 100)" "k \<le> length (vRandom s)" by (auto simp: k_def addrman_size_def)
  have "sorted_wrt (<) [0..<k]" "\<forall>n \<in> set [0..<k]. n < length (vRandom s)" using k(2) by auto
  then obtain vs s' where g: "getaddr_loop rnd [0..<k] [] s = Inr (vs, s')" "am_inv H (\<lambda>_. 0) s'" "strip (look s') = strip (look s)"
    "nKey s' = nKey s" "length (vRandom s') = length (vRandom s)"
    and m: "map (\<lambda>x. x\<lparr>nRandomPos := 0\<rparr>) vs = map (\<lambda>n. the (strip (look s) (vRandom s' ! n))) [0..<k]"
    using getaddr_loop_ok [OF inv', of "[0..<k]" rnd "[]"] r by auto
  have len: "length vs = k" using arg_cong [where f = length, OF m] by simp
  have pos: "pos_inv (look s') (vRandom s')" using g(2) by (simp add: am_inv_def)
  have at: "look s' (vRandom s' ! j) \<noteq> None \<and> map_option netaddr (look s' (vRandom s' ! j)) = Some (netaddr (vs ! j))" if j: "j < k" for j
  proof -
    have "vRandom s' ! j \<in> set (vRandom s')" using j k(2) g(5) by simp
    then obtain x where x: "look s' (vRandom s' ! j) = Some x" using pos_inv_mem [OF pos] by blast
    have "(vs ! j)\<lparr>nRandomPos := 0\<rparr> = the (strip (look s') (vRandom s' ! j))"
      using arg_cong [where f = "\<lambda>l. l ! j", OF m] j len by (simp add: g(3))
    then have e: "(vs ! j)\<lparr>nRandomPos := 0\<rparr> = x\<lparr>nRandomPos := 0\<rparr>" using x by (simp add: strip_def)
    have "ip (vs ! j) = ip x" using arg_cong [where f = ip, OF e] by simp
    then show ?thesis using x by (simp add: netaddr_def)
  qed
  have fnd: "Find s' (vs ! j) = Some (vRandom s' ! j)" if "j < k" for j
    using at [OF that] by (subst Find_iff(1) [OF g(2)]) blast
  have "distinct (map netaddr vs)"
    unfolding distinct_conv_nth
  proof (intro allI impI notI)
    fix i j assume "i < length (map netaddr vs)" "j < length (map netaddr vs)" "i \<noteq> j" "map netaddr vs ! i = map netaddr vs ! j"
    then have ij: "i < k" "j < k" "netaddr (vs ! i) = netaddr (vs ! j)" by (simp_all add: len)
    then have "Find s' (vs ! i) = Find s' (vs ! j)" by (simp add: Find_def)
    then have "vRandom s' ! i = vRandom s' ! j" using fnd ij by simp
    then show False using pos_inv_distinct [OF pos] ij k(2) g(5) \<open>i \<noteq> j\<close> by (simp add: nth_eq_iff_index_eq)
  qed
  moreover have "\<forall>v \<in> set vs. Find s' v \<noteq> None" using fnd len by (auto simp: in_set_conv_nth)
  moreover have "AM_GetAddr rnd s = Inr (vs, s')" using g(1) by (simp add: AM_GetAddr_def k_def [symmetric] Let_def)
  ultimately show ?thesis using g k(1) len by (auto simp: addrman_ok_def)
qed

section \<open>Runs of the manager\<close>

lemma addrman_init_ok: "addrman_ok H (addrman_init key)"
proof -
  have "look (addrman_init key) = (\<lambda>_. None)" by (simp add: fun_eq_iff look_def addrman_init_def)
  then show ?thesis
    by (simp add: addrman_ok_def am_inv_def addrman_init_def pos_inv_def addr_inv_def ids_inv_def tried_inv_def new_inv_def
      count_inv_def sane_inv_def is_tried_def is_new_def)
qed

text \<open>A run: any sequence of calls, each with its own clock, draws and arguments; times are positive.\<close>

inductive am_step :: "hasher \<Rightarrow> CAddrMan \<Rightarrow> CAddrMan result \<Rightarrow> bool" for H where
  add: "rand_ok rnd \<Longrightarrow> am_step H s (bindR (AM_Add H rnd nNow (addr :: CAddress) source pen s) (\<lambda>(_, s'). Inr s'))"
| good: "rand_ok rnd \<Longrightarrow> 0 < time \<Longrightarrow> am_step H s (AM_Good H rnd (svc :: CService) time s)"
| attempt: "0 \<le> time \<Longrightarrow> am_step H s (Inr (AM_Attempt (svc :: CService) time s))"
| connected: "am_step H s (Inr (AM_Connected (svc :: CService) time s))"
| getaddr: "rand_ok rnd \<Longrightarrow> am_step H s (bindR (AM_GetAddr rnd s) (\<lambda>(_, s'). Inr s'))"

inductive am_run :: "hasher \<Rightarrow> CAddrMan result \<Rightarrow> CAddrMan result \<Rightarrow> bool" for H where
  am_start: "am_run H r r"
| am_call: "am_run H r (Inr s) \<Longrightarrow> am_step H s r' \<Longrightarrow> am_run H r r'"

lemma am_step_ok:
  assumes "am_step H s r" "addrman_ok H s"
  shows "\<exists>s'. r = Inr s' \<and> addrman_ok H s' \<and> nKey s' = nKey s"
  using assms
proof cases
  case (add rnd nNow addr source pen)
  then show ?thesis using AM_Add_ok [OF assms(2) add(2), of nNow addr source pen] by auto
next
  case (good rnd time svc)
  then show ?thesis using AM_Good_ok [OF assms(2) good(2,3), of svc] by auto
next
  case (attempt time svc)
  then show ?thesis using AM_Attempt_ok [OF assms(2)] by simp
next
  case (connected svc time)
  then show ?thesis using AM_Connected_ok [OF assms(2)] by simp
next
  case (getaddr rnd)
  then show ?thesis using AM_GetAddr_ok [OF assms(2) getaddr(2)] by auto
qed

lemma am_run_ok:
  assumes "am_run H r r'" "r = Inr s" "addrman_ok H s"
  shows "\<exists>s'. r' = Inr s' \<and> addrman_ok H s'"
  using assms by (induction rule: am_run.induct) (auto dest!: am_step_ok)

lemma addrman_ok_size: "addrman_ok H s \<Longrightarrow> addrman_size s \<le> 4096 + 16384"
proof -
  assume "addrman_ok H s"
  then have inv: "am_inv H (\<lambda>_. 0) s" by (simp add: addrman_ok_def)
  have pos: "pos_inv (look s) (vRandom s)" using inv by (simp add: am_inv_def)
  have "set (vRandom s) = {i. is_tried (look s) i} \<union> {i. is_new (look s) i}"
    using pos_inv_mem [OF pos] by (auto simp: is_tried_def is_new_def)
  then have "card (set (vRandom s)) \<le> card {i. is_tried (look s) i} + card {i. is_new (look s) i}" by (simp add: card_Un_le)
  then show ?thesis using am_inv_sizes(1) [OF inv] am_inv_sizes(4) [OF inv] distinct_card [OF pos_inv_distinct [OF pos]]
    by (simp add: addrman_size_def)
qed

section \<open>The consistency check succeeds\<close>

lemma check_infos_ok:
  assumes inv: "am_inv H (\<lambda>_. 0) s" and ns: "\<forall>n \<in> set ns. look s n \<noteq> None"
    and mA: "\<forall>n \<in> set ns. Mapping.lookup mA (netaddr (info s n)) = Some n"
  shows "\<exists>M'. check_infos s ns mA T M = Inr (T \<union> {j \<in> set ns. fInTried (info s j)}, M') \<and>
    (\<forall>k. Mapping.lookup M' k = (if k \<in> set ns \<and> \<not> fInTried (info s k) then Some (nRefCount (info s k)) else Mapping.lookup M k))"
  using ns mA
proof (induction ns arbitrary: mA T M)
  case (Cons n ns)
  obtain x where x: "look s n = Some x" using Cons.prems(1) by auto
  have ix: "info s n = x" by (rule info_look [OF x])
  have pos: "pos_inv (look s) (vRandom s)" using inv by (simp add: am_inv_def)
  have e: "sane_entry x" "nRefCount x = bcount (vvNew s) n" using am_entry [OF inv x] by simp_all
  have p: "0 \<le> nRandomPos x" "nRandomPos x < int (length (vRandom s))" "vRandom s ! nat (nRandomPos x) = n"
    using pos_inv_at [OF pos x] by simp_all
  have tr: "nRefCount x = 0" if "fInTried x"
  proof -
    have "\<not> is_new (look s) n" using x that by (simp add: is_new_def)
    then have "\<forall>b \<in> set (vvNew s). n \<notin> b" using inv by (auto simp: am_inv_def new_inv_def)
    then show ?thesis using e(2) bcount_0 [of "vvNew s" n] by simp
  qed
  have nw: "1 \<le> nRefCount x \<and> nRefCount x \<le> 4" if "\<not> fInTried x"
    using am_entry(3) [OF inv x] x that by (simp add: is_new_def)
  have v: "Mapping.lookup mA (netaddr x) = Some n" using Cons.prems(2) ix by simp
  let ?mA = "Mapping.update (netaddr x) n mA"
  have "\<forall>n \<in> set ns. Mapping.lookup ?mA (netaddr (info s n)) = Some n"
    using Cons.prems(2) v by (auto simp: Mapping.lookup_update')
  then obtain M' where M': "check_infos s ns ?mA (if fInTried x then insert n T else T)
      (if fInTried x then M else Mapping.update n (nRefCount x) M)
       = Inr ((if fInTried x then insert n T else T) \<union> {j \<in> set ns. fInTried (info s j)}, M')"
    "\<forall>k. Mapping.lookup M' k = (if k \<in> set ns \<and> \<not> fInTried (info s k) then Some (nRefCount (info s k))
       else Mapping.lookup (if fInTried x then M else Mapping.update n (nRefCount x) M) k)"
    using Cons.IH [of ?mA "if fInTried x then insert n T else T" "if fInTried x then M else Mapping.update n (nRefCount x) M"] Cons.prems(1)
    by auto
  have "check_infos s (n # ns) mA T M = check_infos s ns ?mA (if fInTried x then insert n T else T)
      (if fInTried x then M else Mapping.update n (nRefCount x) M)"
    using e(1) p tr nw by (auto simp: ix v Let_def sane_entry_def)
  moreover have "(if fInTried x then insert n T else T) \<union> {j \<in> set ns. fInTried (info s j)} = T \<union> {j \<in> set (n # ns). fInTried (info s j)}"
    by (auto simp: ix)
  ultimately have "check_infos s (n # ns) mA T M = Inr (T \<union> {j \<in> set (n # ns). fInTried (info s j)}, M')"
    using M'(1) by (simp only:)
  moreover have "\<forall>k. Mapping.lookup M' k = (if k \<in> set (n # ns) \<and> \<not> fInTried (info s k) then Some (nRefCount (info s k))
     else Mapping.lookup M k)"
    using M'(2) by (auto simp: ix Mapping.lookup_update')
  ultimately show ?case by blast
qed simp

lemma check_tried_ok: "distinct its \<Longrightarrow> set its \<subseteq> T \<Longrightarrow> check_tried its T = Inr (T - set its)"
proof (induction its arbitrary: T)
  case (Cons i its)
  then have "check_tried its (T - {i}) = Inr (T - {i} - set its)" by (intro Cons.IH) auto
  moreover have "T - {i} - set its = T - set (i # its)" by auto
  ultimately show ?case using Cons.prems by simp
qed simp

lemma check_new_ok:
  assumes "\<forall>i. Mapping.lookup M i = (if count_list its i = 0 then None else Some (int (count_list its i)))"
  shows "\<exists>M'. check_new its M = Inr M' \<and> (\<forall>i. Mapping.lookup M' i = None)"
  using assms
proof (induction its arbitrary: M)
  case (Cons i its)
  have l: "Mapping.lookup M i = Some (int (count_list its i) + 1)" using Cons.prems by simp
  let ?M = "if count_list its i = 0 then Mapping.delete i M else Mapping.update i (int (count_list its i)) M"
  have "\<forall>j. Mapping.lookup ?M j = (if count_list its j = 0 then None else Some (int (count_list its j)))"
  proof
    fix j
    show "Mapping.lookup ?M j = (if count_list its j = 0 then None else Some (int (count_list its j)))"
      using Cons.prems [rule_format, of j]
      by (cases "i = j") (auto simp: Mapping.lookup_update' lookup_delete lookup_delete_neq)
  qed
  from Cons.IH [OF this] show ?case by (cases "count_list its i = 0") (simp_all add: l)
qed simp

lemma distinct_count_list: "distinct xs \<Longrightarrow> count_list xs i = (if i \<in> set xs then 1 else 0)"
  by (induction xs) auto

lemma count_buckets:
  assumes "\<forall>b \<in> set vn. finite b"
  shows "int (count_list (concat (map sorted_list_of_set vn)) i) = bcount vn i"
  using assms
proof (induction vn)
  case (Cons b vn)
  have "count_list (sorted_list_of_set b) i = (if i \<in> b then 1 else 0)"
    using Cons.prems by (simp add: distinct_count_list)
  then show ?case using Cons by (simp add: bcount_def)
qed (simp add: bcount_def)

lemma distinct_concat_buckets:
  assumes "\<forall>xs \<in> set xss. distinct xs" "sorted_wrt (\<lambda>xs ys. set xs \<inter> set ys = {}) xss"
  shows "distinct (concat xss)"
  using assms by (induction xss) auto

lemma AM_Check_ok:
  assumes "addrman_ok H s"
  shows "AM_Check s = 0"
proof -
  have inv: "am_inv H (\<lambda>_. 0) s" using assms by (simp add: addrman_ok_def)
  let ?m = "look s"
  have pos: "pos_inv ?m (vRandom s)" and tr: "tried_inv H (nKey s) ?m (vvTried s)" and nw: "new_inv (\<lambda>_. 0) ?m (vvNew s)"
    and cn: "count_inv ?m (nTried s) (nNew s)" and ad: "addr_inv ?m (mapAddr s)" using inv by (simp_all add: am_inv_def)
  have keys: "Mapping.keys (mapInfo s) = set (vRandom s)"
    using pos_inv_mem [OF pos] by (auto simp: keys_dom_lookup look_def)
  let ?ks = "Mapping.ordered_keys (mapInfo s)"
  have ks: "set ?ks = set (vRandom s)" by (simp add: Mapping.ordered_keys_def keys)
  have all: "\<forall>n \<in> set ?ks. ?m n \<noteq> None" using pos_inv_mem [OF pos] ks by blast
  have ma: "\<forall>n \<in> set ?ks. Mapping.lookup (mapAddr s) (netaddr (info s n)) = Some n"
  proof
    fix n assume "n \<in> set ?ks"
    then obtain x where "?m n = Some x" using all by auto
    then show "Mapping.lookup (mapAddr s) (netaddr (info s n)) = Some n" using ad by (simp add: addr_inv_def info_look)
  qed
  obtain M where M: "check_infos s ?ks (mapAddr s) {} Mapping.empty = Inr ({n \<in> set ?ks. fInTried (info s n)}, M)"
    "\<forall>k. Mapping.lookup M k = (if k \<in> set ?ks \<and> \<not> fInTried (info s k) then Some (nRefCount (info s k)) else None)"
    using check_infos_ok [OF inv all ma, of "{}" Mapping.empty] by (auto simp: Mapping.lookup_empty)
  have view: "k \<in> set ?ks \<and> \<not> fInTried (info s k) \<longleftrightarrow> is_new ?m k" "k \<in> set ?ks \<and> fInTried (info s k) \<longleftrightarrow> is_tried ?m k" for k
    unfolding ks pos_inv_mem [OF pos] is_new_def is_tried_def by (auto simp: info_look)
  have T: "{n \<in> set ?ks. fInTried (info s n)} = {i. is_tried ?m i}" using view(2) by auto
  have kM: "Mapping.keys M = {i. is_new ?m i}" using M(2) view(1) by (auto simp: keys_dom_lookup split: if_splits)
  have sz: "int (Mapping.size M) = nNew s" using cn finite_ids(2) [OF pos] by (simp add: Mapping.size_def kM count_inv_def)
  have len: "int (length (vRandom s)) = nTried s + nNew s"
  proof -
    have "set (vRandom s) = {i. is_tried ?m i} \<union> {i. is_new ?m i}" using pos_inv_mem [OF pos] by (auto simp: is_tried_def is_new_def)
    moreover have "{i. is_tried ?m i} \<inter> {i. is_new ?m i} = {}" using is_new_not_tried by blast
    ultimately have "card (set (vRandom s)) = card {i. is_tried ?m i} + card {i. is_new ?m i}"
      using finite_ids [OF pos] by (simp add: card_Un_disjoint)
    then show ?thesis using cn distinct_card [OF pos_inv_distinct [OF pos]] by (simp add: count_inv_def)
  qed
  have tried_set: "set (concat (vvTried s)) = {i. is_tried ?m i}"
  proof
    show "set (concat (vvTried s)) \<subseteq> {i. is_tried ?m i}" using tr by (fastforce simp: tried_inv_def in_set_conv_nth [of _ "vvTried s"])
    show "{i. is_tried ?m i} \<subseteq> set (concat (vvTried s))"
    proof
      fix i assume "i \<in> {i. is_tried ?m i}"
      then obtain x where x: "is_tried ?m i" "?m i = Some x" by (auto simp: is_tried_def)
      then have "i \<in> set (vvTried s ! GetTriedBucket H (nKey s) x)"
        using tr GetTriedBucket_less [of H "nKey s" x] unfolding tried_inv_def by simp
      moreover have "vvTried s ! GetTriedBucket H (nKey s) x \<in> set (vvTried s)"
        using tr GetTriedBucket_less [of H "nKey s" x] by (intro nth_mem) (simp add: tried_inv_def)
      ultimately show "i \<in> set (concat (vvTried s))" by auto
    qed
  qed
  have disj: "distinct (concat (vvTried s))"
    using tr by (intro distinct_concat_buckets) (auto simp: tried_inv_def sorted_wrt_iff_nth_less in_set_conv_nth [of _ "vvTried s"])
  have t: "check_tried (concat (vvTried s)) {i. is_tried ?m i} = Inr {}"
    using check_tried_ok [OF disj, of "{i. is_tried ?m i}"] tried_set by simp
  have "\<forall>i. Mapping.lookup M i = (if count_list (concat (map sorted_list_of_set (vvNew s))) i = 0 then None
      else Some (int (count_list (concat (map sorted_list_of_set (vvNew s))) i)))"
  proof
    fix i
    have c: "int (count_list (concat (map sorted_list_of_set (vvNew s))) i) = bcount (vvNew s) i"
      using nw by (intro count_buckets) (auto simp: new_inv_def)
    show "Mapping.lookup M i = (if count_list (concat (map sorted_list_of_set (vvNew s))) i = 0 then None
      else Some (int (count_list (concat (map sorted_list_of_set (vvNew s))) i)))"
    proof (cases "is_new ?m i")
      case True
      then obtain x where x: "?m i = Some x" by (auto simp: is_new_def)
      then have "nRefCount x = bcount (vvNew s) i" "1 \<le> bcount (vvNew s) i" using am_entry [OF inv x] True by simp_all
      then show ?thesis using M(2) view(1) [of i] True c info_look [OF x] by (auto simp: simp del: of_nat_0_less_iff)
    next
      case False
      then have "bcount (vvNew s) i = 0" using nw by (auto simp: bcount_0 new_inv_def)
      then show ?thesis using M(2) view(1) [of i] False c by auto
    qed
  qed
  then obtain M' where n: "check_new (concat (map sorted_list_of_set (vvNew s))) M = Inr M'" "\<forall>i. Mapping.lookup M' i = None"
    using check_new_ok by blast
  have "Mapping.keys M' = {}" using n(2) by (auto simp: keys_dom_lookup)
  then have "Mapping.size M' = 0" by (simp add: Mapping.size_def)
  moreover have "int (card {i. is_tried ?m i}) = nTried s" using cn by (simp add: count_inv_def)
  ultimately show ?thesis using len M(1) sz t n(1) by (simp add: AM_Check_def T)
qed

end
