(* ===== verification/AddrmanSpec.thy ===== *)
theory AddrmanSpec
  imports AddrmanInv
begin

text \<open>
  The promises of the address manager (\<open>addrman.cpp\<close>) to its callers: consistency and bounds over all
  runs, what \<open>Add_\<close>, \<open>Good_\<close> and \<open>GetAddr_\<close> achieve, and what \<open>SelectTried\<close> really chooses.
\<close>

section \<open>What the manager promises\<close>

definition witness_hasher :: hasher where
  "witness_hasher = \<lparr>ser_vec = \<lambda>b. b, ser_u64 = \<lambda>_. [], Hash64 = \<lambda>b. of_nat (length b)\<rparr>"

definition witness_draws :: "nat \<Rightarrow> int \<Rightarrow> int" where
  "witness_draws i n = (if int i < n then int i else 0)"

lemma witness_draws_ok: "rand_ok witness_draws"
  by (simp add: rand_ok_def witness_draws_def)

definition witness_addr :: CAddress where
  "witness_addr = \<lparr>ip = pchIPv4 @ [8, 8, 8, 8], port = 8333, nServices = 1, nTime = 100, nLastTry = 0\<rparr>"

lemma witness_run:
  "\<exists>s. am_run witness_hasher (Inr (addrman_init [])) (Inr s) \<and> Find s witness_addr \<noteq> None"
proof -
  obtain s where s: "AM_Add witness_hasher witness_draws 0 witness_addr CNetAddr_Init 0 (addrman_init [])
      = Inr (IsRoutable witness_addr \<and> Find (addrman_init []) witness_addr = None, s)"
    "IsRoutable witness_addr \<longrightarrow> Find s witness_addr \<noteq> None"
    using AM_Add_ok [OF addrman_init_ok witness_draws_ok] by blast
  have "IsRoutable witness_addr" by code_simp
  moreover have "am_step witness_hasher (addrman_init []) (Inr s)"
    using am_step.add [OF witness_draws_ok, of witness_hasher "addrman_init []" 0 witness_addr CNetAddr_Init 0] s(1) by simp
  then have "am_run witness_hasher (Inr (addrman_init [])) (Inr s)"
    using am_run.am_call am_run.am_start by blast
  ultimately show ?thesis using s(2) by blast
qed

text \<open>C1. Whatever sequence of \<open>Add\<close>, \<open>Good\<close>, \<open>Attempt\<close>, \<open>Connected\<close> and \<open>GetAddr\<close> calls is made on a new
  manager, with whatever draws, clock and addresses, no assertion of the code fails and the
  consistency check \<open>Check_\<close> returns 0 after every call.\<close>
theorem addrman_run_consistent:
  assumes "am_run H (Inr (addrman_init key)) r"
  shows "\<exists>s. r = Inr s \<and> AM_Check s = 0"
  using am_run_ok [OF assms refl addrman_init_ok] AM_Check_ok by blast

theorem addrman_run_consistent_witness:
  "\<exists>s. am_run witness_hasher (Inr (addrman_init [])) (Inr s) \<and> Find s witness_addr \<noteq> None \<and> AM_Check s = 0"
  using witness_run addrman_run_consistent by fastforce

text \<open>The manager's tables never outgrow their bounds: at every moment of a run there are at most 4096
  tried and 16384 new entries (so at most 20480 in all), every tried or new bucket holds at most 64
  ids, and an entry that is not tried is referenced by one to four new buckets.\<close>
theorem addrman_run_bounds:
  assumes "am_run H (Inr (addrman_init key)) (Inr s)"
  shows "nTried s \<le> 4096 \<and> nNew s \<le> 16384 \<and> addrman_size s \<le> 20480 \<and>
    (\<forall>b < 64. length (vvTried s ! b) \<le> 64) \<and> (\<forall>b < 256. card (vvNew s ! b) \<le> 64) \<and>
    (\<forall>i x. Mapping.lookup (mapInfo s) i = Some x \<and> \<not> fInTried x \<longrightarrow> 1 \<le> nRefCount x \<and> nRefCount x \<le> 4)"
proof -
  have ok: "addrman_ok H s" using am_run_ok [OF assms refl addrman_init_ok] by simp
  then have inv: "am_inv H (\<lambda>_. 0) s" by (simp add: addrman_ok_def)
  have "nTried s \<le> 4096" "nNew s \<le> 16384"
    using am_inv_sizes(1) [OF inv] am_inv_sizes(4) [OF inv] inv by (simp_all add: am_inv_def count_inv_def)
  moreover have "\<forall>b < 64. length (vvTried s ! b) \<le> 64" using inv by (simp add: am_inv_def tried_inv_def)
  moreover have "\<forall>b < 256. card (vvNew s ! b) \<le> 64" using inv by (simp add: am_inv_def new_inv_def)
  moreover have "1 \<le> nRefCount x \<and> nRefCount x \<le> 4" if "Mapping.lookup (mapInfo s) i = Some x" "\<not> fInTried x" for i x
    using am_entry [OF inv, of i x] that by (simp add: look_def is_new_def)
  ultimately show ?thesis using addrman_ok_size [OF ok] by auto
qed

theorem addrman_run_bounds_witness:
  "\<exists>s. am_run witness_hasher (Inr (addrman_init [])) (Inr s) \<and> Find s witness_addr \<noteq> None \<and>
    nTried s \<le> 4096 \<and> nNew s \<le> 16384 \<and> addrman_size s \<le> 20480"
  using witness_run addrman_run_bounds by blast

text \<open>\<open>Add_\<close> never fails in a consistent manager; it reports a new address exactly when the address is
  routable and was unknown, and afterwards every routable address given to it is known.\<close>
theorem Add_new:
  assumes "addrman_ok H s" "rand_ok rnd"
  shows "\<exists>s'. AM_Add H rnd nNow addr source pen s = Inr (IsRoutable addr \<and> Find s addr = None, s') \<and>
    AM_Check s' = 0 \<and> (IsRoutable addr \<longrightarrow> Find s' addr \<noteq> None)"
  using AM_Add_ok [OF assms] AM_Check_ok by blast

theorem Add_new_witness:
  "\<exists>s'. AM_Add witness_hasher witness_draws 0 witness_addr CNetAddr_Init 0 (addrman_init []) = Inr (True, s') \<and>
    AM_Check s' = 0 \<and> Find s' witness_addr \<noteq> None"
proof -
  have "IsRoutable witness_addr" "Find (addrman_init []) witness_addr = None"
    by code_simp (simp add: Find_def addrman_init_def)
  then show ?thesis
    using Add_new [OF addrman_init_ok witness_draws_ok, of witness_hasher 0 witness_addr CNetAddr_Init 0 "[]"] by simp
qed

text \<open>\<open>Good_\<close> on a known service puts its entry in the tried table, from whichever of the 256 new buckets it
  was in and however full the tried bucket is, and leaves a consistent manager.\<close>
theorem Good_tries:
  assumes "addrman_ok H s" "rand_ok rnd" "0 < time" "Find s addr = Some i" "service_eq (info s i) addr"
  shows "\<exists>s'. AM_Good H rnd addr time s = Inr s' \<and> AM_Check s' = 0 \<and> has s' i \<and> fInTried (info s' i) \<and>
    service_eq (info s' i) addr \<and> i \<in> set (vvTried s' ! GetTriedBucket H (nKey s') (info s' i))"
proof -
  obtain x where x: "look s i = Some x" using assms(1,4) Find_look unfolding addrman_ok_def by blast
  obtain s' y where s': "AM_Good H rnd addr time s = Inr s'" "addrman_ok H s'" "look s' i = Some y" "fInTried y" "service_eq y addr"
    using AM_Good_ok [OF assms(1-3), of addr] assms(4,5) x info_look [OF x] by metis
  have "tried_inv H (nKey s') (look s') (vvTried s')" using s'(2) by (simp add: addrman_ok_def am_inv_def)
  then have "i \<in> set (vvTried s' ! GetTriedBucket H (nKey s') y)"
    using s'(3,4) GetTriedBucket_less [of H "nKey s'" y] unfolding tried_inv_def by (simp add: is_tried_def)
  then show ?thesis using s' AM_Check_ok info_look [OF s'(3)] by (auto simp: has_look)
qed

theorem Good_tries_witness:
  "\<exists>s s' i. Find s witness_addr = Some i \<and> AM_Good witness_hasher witness_draws witness_addr 7 s = Inr s' \<and> fInTried (info s' i)"
proof -
  obtain s where s: "AM_Add witness_hasher witness_draws 0 witness_addr CNetAddr_Init 0 (addrman_init []) = Inr (True, s)"
    using Add_new_witness by blast
  have ok: "addrman_ok witness_hasher s"
    using AM_Add_ok [OF addrman_init_ok witness_draws_ok, of witness_hasher 0 witness_addr CNetAddr_Init 0 "[]"] s by auto
  have "snd (projr (AM_Add witness_hasher witness_draws 0 witness_addr CNetAddr_Init 0 (addrman_init []))) = s" by (simp add: s)
  moreover have "Find (snd (projr (AM_Add witness_hasher witness_draws 0 witness_addr CNetAddr_Init 0 (addrman_init [])))) witness_addr = Some 0 \<and>
     service_eq (info (snd (projr (AM_Add witness_hasher witness_draws 0 witness_addr CNetAddr_Init 0 (addrman_init [])))) 0) witness_addr"
    by code_simp
  ultimately have "Find s witness_addr = Some 0" "service_eq (info s 0) witness_addr" by simp_all
  then show ?thesis using Good_tries [OF ok witness_draws_ok, of 7 witness_addr 0] by auto
qed

text \<open>\<open>GetAddr_\<close> hands out 23 percent of the known addresses, at most 2500, all different and all known,
  and the shuffling it does leaves a consistent manager.\<close>
theorem GetAddr_share:
  assumes "addrman_ok H s" "rand_ok rnd"
  shows "\<exists>vs s'. AM_GetAddr rnd s = Inr (vs, s') \<and> AM_Check s' = 0 \<and>
    length vs = min 2500 (23 * addrman_size s div 100) \<and> distinct (map netaddr vs) \<and> (\<forall>v \<in> set vs. Find s' v \<noteq> None)"
  using AM_GetAddr_ok [OF assms] AM_Check_ok by blast

theorem GetAddr_share_witness:
  "\<exists>s'. AM_GetAddr witness_draws (addrman_init []) = Inr ([], s') \<and> AM_Check s' = 0"
  using GetAddr_share [OF addrman_init_ok witness_draws_ok, of "[]"] by (auto simp: addrman_size_def addrman_init_def)

section \<open>The choice of the entry to evict\<close>

lemma touch_known: "has s i \<Longrightarrow> touch i s = s" by (simp add: touch_def)

lemma select_tried_step:
  assumes "b < length (vvTried s)" "vvTried s ! b = v" "i < length v" "p = nat (rnd (i + 1) (int (length v) - int i)) + i"
    "has s (v ! p)" "o' = -1 \<or> has s o'"
  shows "\<exists>s'. s' = s\<lparr>vvTried := (vvTried s)[b := v[p := v ! i, i := v ! p]]\<rparr> \<and>
    (select_tried_loop rnd b (i # is) o' q s = select_tried_loop rnd b is (v ! p) (int p) s' \<or>
     o' \<noteq> -1 \<and> select_tried_loop rnd b (i # is) o' q s = select_tried_loop rnd b is o' q s')"
  using assms by (auto simp: Let_def touch_known has_def touch_def)

text \<open>Draws that leave the first four positions: four different positions behind them.\<close>

definition far_draws :: "(nat \<Rightarrow> int \<Rightarrow> int) \<Rightarrow> nat \<Rightarrow> nat list \<Rightarrow> bool" where
  "far_draws rnd L ps \<longleftrightarrow> length ps = 4 \<and> distinct ps \<and>
     (\<forall>i < 4. ps ! i = nat (rnd (i + 1) (int L - int i)) + i \<and> 4 \<le> ps ! i \<and> ps ! i < L)"

lemma far_draws_at: "far_draws rnd L ps \<Longrightarrow> i < 4 \<Longrightarrow> ps ! i = nat (rnd (i + 1) (int L - int i)) + i \<and> 4 \<le> ps ! i \<and> ps ! i < L"
  unfolding far_draws_def by blast

text \<open>
  The loop over the remaining draws: the bucket always holds the entry of position \<open>j\<close> at the \<open>j\<close>-th
  drawn position, and the position carried along is one of those.
\<close>

definition swapped :: "int list \<Rightarrow> nat list \<Rightarrow> nat \<Rightarrow> int list \<Rightarrow> bool" where
  "swapped v ps k w \<longleftrightarrow> length w = length v \<and> (\<forall>j < k. w ! (ps ! j) = v ! j) \<and>
     (\<forall>p < length v. k \<le> p \<and> p \<notin> set (take k ps) \<longrightarrow> w ! p = v ! p)"

lemma swapped_step:
  assumes f: "far_draws rnd (length v) ps" and k: "k < 4" and w: "swapped v ps k w"
  shows "w ! (ps ! k) = v ! (ps ! k)" "swapped v ps (Suc k) (w[ps ! k := w ! k, k := w ! (ps ! k)])"
proof -
  have ps: "length ps = 4" "distinct ps" using f by (simp_all add: far_draws_def)
  have p: "\<And>i. i < 4 \<Longrightarrow> 4 \<le> ps ! i \<and> ps ! i < length v" using far_draws_at [OF f] by blast
  have n: "ps ! k \<notin> set (take k ps)" using ps k by (auto simp: in_set_conv_nth nth_eq_iff_index_eq)
  have kt: "k \<notin> set (take k ps)"
  proof
    assume "k \<in> set (take k ps)"
    then obtain i where "i < k" "k = ps ! i" using ps by (auto simp: in_set_conv_nth)
    then show False using p [of i] k by simp
  qed
  show a: "w ! (ps ! k) = v ! (ps ! k)" using w n p [OF k] k unfolding swapped_def by auto
  have b: "w ! k = v ! k" using w kt p [OF k] k unfolding swapped_def by auto
  have l: "length w = length v" using w by (simp add: swapped_def)
  let ?w = "w[ps ! k := w ! k, k := w ! (ps ! k)]"
  have "?w ! (ps ! j) = v ! j" if "j < Suc k" for j
  proof (cases "j = k")
    case True
    then show ?thesis using p [OF k] k l b by (simp add: nth_list_update)
  next
    case False
    then have j: "j < k" "j < 4" using that k by simp_all
    then have "ps ! j \<noteq> ps ! k" "ps ! j \<noteq> k" using ps k p [OF j(2)] by (auto simp: nth_eq_iff_index_eq)
    then show ?thesis using w j(1) by (simp add: swapped_def)
  qed
  moreover have "?w ! q = v ! q" if "q < length v" "Suc k \<le> q" "q \<notin> set (take (Suc k) ps)" for q
  proof -
    have "q \<noteq> ps ! k" "q \<notin> set (take k ps)" using that(3) ps k by (simp_all add: take_Suc_conv_app_nth)
    then show ?thesis using w that(1,2) by (simp add: swapped_def)
  qed
  ultimately show "swapped v ps (Suc k) ?w" using l by (simp add: swapped_def)
qed

lemma select_tried_far:
  assumes f: "far_draws rnd (length v) ps" and b: "b < length (vvTried s)" and v: "\<forall>i \<in> set v. has s i"
    and k: "k \<le> 4" and w: "vvTried s ! b = w" "swapped v ps k w" "set w \<subseteq> set v"
    and o': "if k = 0 then o' = -1 else (has s o' \<and> (\<exists>j < k. q = int (ps ! j)))"
  shows "\<exists>j s'. j < 4 \<and> select_tried_loop rnd b [k..<4] o' q s = Inr (int (ps ! j), s') \<and> vvTried s' ! b ! (ps ! j) = v ! j"
  using assms(2-)
proof (induction "4 - k" arbitrary: k w o' q s)
  case 0
  then have "k = 4" by simp
  then show ?case using 0 by (auto simp: swapped_def)
next
  case (Suc m)
  then have k: "k < 4" by simp
  have ps: "\<And>i. i < 4 \<Longrightarrow> ps ! i = nat (rnd (i + 1) (int (length v) - int i)) + i \<and> 4 \<le> ps ! i \<and> ps ! i < length v"
    using far_draws_at [OF f] by blast
  note w = Suc.prems(4,5,6)
  have L: "length w = length v" using w(2) by (simp add: swapped_def)
  let ?p = "ps ! k" and ?w = "w[ps ! k := w ! k, k := w ! (ps ! k)]"
  define s' where "s' = s\<lparr>vvTried := (vvTried s)[b := ?w]\<rparr>"
  have wp: "w ! ?p = v ! ?p" and sw: "swapped v ps (Suc k) ?w" using swapped_step [OF f k w(2)] by simp_all
  have hp: "has s (w ! ?p)" unfolding wp using Suc.prems(2) ps [OF k] by simp
  have st: "select_tried_loop rnd b (k # [Suc k..<4]) o' q s = select_tried_loop rnd b [Suc k..<4] (w ! ?p) (int ?p) s' \<or>
     o' \<noteq> -1 \<and> select_tried_loop rnd b (k # [Suc k..<4]) o' q s = select_tried_loop rnd b [Suc k..<4] o' q s'"
    using select_tried_step [OF Suc.prems(1) w(1), of k ?p rnd o' "[Suc k..<4]" q] ps [OF k] hp Suc.prems(7) L
    by (auto simp: s'_def split: if_splits)
  have e: "[k..<4] = k # [Suc k..<4]" using k by (rule upt_conv_Cons)
  have sub: "set ?w \<subseteq> set v"
    using ps [OF k] k L by (intro set_update_subsetI w(3) subsetD [OF w(3)] nth_mem) simp_all
  have IH: "\<exists>j s''. j < 4 \<and> select_tried_loop rnd b [Suc k..<4] o'' q'' s' = Inr (int (ps ! j), s'') \<and> vvTried s'' ! b ! (ps ! j) = v ! j"
    if "has s o'' \<and> (\<exists>j < Suc k. q'' = int (ps ! j))" for o'' q''
    by (rule Suc.hyps(1) [of "Suc k" s' ?w]) (use Suc.hyps(2) Suc.prems(1,2) k sw sub that in \<open>auto simp: s'_def has_def\<close>)
  show ?case
    using st
  proof
    assume "select_tried_loop rnd b (k # [Suc k..<4]) o' q s = select_tried_loop rnd b [Suc k..<4] (w ! ?p) (int ?p) s'"
    then show ?thesis unfolding e using IH [of "w ! ?p" "int ?p"] hp k by auto
  next
    assume a: "o' \<noteq> -1 \<and> select_tried_loop rnd b (k # [Suc k..<4]) o' q s = select_tried_loop rnd b [Suc k..<4] o' q s'"
    then have "o' \<noteq> -1" by blast
    then have "k \<noteq> 0" using Suc.prems(7) by (cases "k = 0") simp_all
    then have "has s o' \<and> (\<exists>j < Suc k. q = int (ps ! j))" using Suc.prems(7) less_SucI by metis
    then show ?thesis unfolding e using IH [of o' q] a k by auto
  qed
qed

text \<open>\<open>SelectTried\<close> compares four randomly drawn entries, but the position it returns is the one the least
  recently successful of them was taken \<open>from\<close>, where the swap has put another entry: when the four draws
  are different positions behind the first four, the entry at the returned position, the one that
  \<open>MakeTried\<close> evicts, is one of the first four of the bucket and none of the four that were compared.\<close>
theorem SelectTried_evicts_undrawn:
  assumes "far_draws rnd (length (vvTried s ! b)) ps" "b < length (vvTried s)" "distinct (vvTried s ! b)"
    "\<forall>i \<in> set (vvTried s ! b). has s i"
  shows "\<exists>j s'. j < 4 \<and> SelectTried rnd b s = Inr (int (ps ! j), s') \<and>
    vvTried s' ! b ! (ps ! j) = vvTried s ! b ! j \<and>
    vvTried s ! b ! j \<notin> {vvTried s ! b ! (ps ! i) |i. i < 4}"
proof -
  let ?v = "vvTried s ! b"
  have ps: "\<And>i. i < 4 \<Longrightarrow> 4 \<le> ps ! i \<and> ps ! i < length ?v" using far_draws_at [OF assms(1)] by blast
  have L: "min 4 (length ?v) = 4" using ps [of 0] by simp
  have "swapped ?v ps 0 ?v" by (simp add: swapped_def)
  then obtain j s' where j: "j < 4" "select_tried_loop rnd b [0..<4] (-1) (-1) s = Inr (int (ps ! j), s')"
    "vvTried s' ! b ! (ps ! j) = ?v ! j"
    using select_tried_far [OF assms(1,2,4), of 0 ?v "-1" "-1"] by auto
  moreover have "?v ! j \<notin> {?v ! (ps ! i) |i. i < 4}"
  proof
    assume "?v ! j \<in> {?v ! (ps ! i) |i. i < 4}"
    then obtain i where i: "i < 4" "?v ! j = ?v ! (ps ! i)" by auto
    then have "j = ps ! i" using assms(3) ps [OF i(1)] j(1) by (simp add: nth_eq_iff_index_eq)
    then show False using ps [OF i(1)] j(1) by simp
  qed
  ultimately show ?thesis by (auto simp: SelectTried_def L)
qed

definition witness_full :: CAddrMan where
  "witness_full = (addrman_init [])\<lparr>vvTried := [[0, 1, 2, 3, 4, 5, 6, 7]],
     mapInfo := Mapping.of_alist (map (\<lambda>i. (i, CAddrInfo_Init\<lparr>nLastSuccess := 10 - i\<rparr>)) [0, 1, 2, 3, 4, 5, 6, 7])\<rparr>"

theorem SelectTried_evicts_undrawn_witness:
  "\<exists>j s'. j < 4 \<and> SelectTried (\<lambda>_ _. 4) 0 witness_full = Inr (int ([4, 5, 6, 7] ! j), s') \<and>
    vvTried s' ! 0 ! ([4, 5, 6, 7] ! j) = int j"
proof -
  have v: "vvTried witness_full ! 0 = [0, 1, 2, 3, 4, 5, 6, 7]" "0 < length (vvTried witness_full)" by (simp_all add: witness_full_def)
  have "far_draws (\<lambda>_ _. 4) (length [0 :: int, 1, 2, 3, 4, 5, 6, 7]) [4, 5, 6, 7]"
    unfolding far_draws_def by (auto simp: less_Suc_eq numeral_eq_Suc)
  then have f: "far_draws (\<lambda>_ _. 4) (length (vvTried witness_full ! 0)) [4, 5, 6, 7]" by (simp only: v)
  have h: "\<forall>i \<in> set (vvTried witness_full ! 0). has witness_full i" by code_simp
  have d: "distinct (vvTried witness_full ! 0)" by (simp add: v)
  obtain j s' where j: "j < 4" "SelectTried (\<lambda>_ _. 4) 0 witness_full = Inr (int ([4, 5, 6, 7] ! j), s')"
    "vvTried s' ! 0 ! ([4, 5, 6, 7] ! j) = vvTried witness_full ! 0 ! j"
    using SelectTried_evicts_undrawn [OF f v(2) d h] by blast
  have "[0, 1, 2, 3, 4, 5, 6, 7] ! j = int j" if "j < 4" for j :: nat
    using that by (auto simp: less_Suc_eq numeral_eq_Suc)
  then have "vvTried witness_full ! 0 ! j = int j" using j(1) by (simp add: v)
  then show ?thesis using j by metis
qed

end
