(* ===== verification/Uint256.thy ===== *)
theory Uint256
  imports Prelude
begin

text \<open>
  The fixed-width unsigned integers of \<open>src/uint256.h\<close>: the template \<open>base_uint\<close> with its
  array \<open>pn\<close> of 32-bit words, least significant first, here a list of words whose length is
  \<open>WIDTH\<close> (8 for \<open>uint256\<close>, 5 for \<open>uint160\<close>). \<open>uval\<close> is the number an array stands for; the
  lemmas show that the word-by-word operations are arithmetic modulo \<open>2^(32*WIDTH)\<close>, that the
  comparisons are those of the numbers, and that \<open>SetHex\<close> reads back what \<open>GetHex\<close> prints.
  Casts of \<open>pn\<close> to \<open>unsigned char *\<close> are read on a little-endian machine.
\<close>

section \<open>The number of an array\<close>

type_synonym base_uint = "u32 list"

fun uval :: "base_uint \<Rightarrow> nat" where
  "uval [] = 0"
| "uval (x # xs) = unat x + 2 ^ 32 * uval xs"

lemma unat_u32_bound: "unat (x::u32) < 4294967296"
  using unsigned_less [of x, where 'a = nat] by simp

lemma uval_bound: "uval xs < 2 ^ (32 * length xs)"
proof (induction xs)
  case (Cons x xs)
  have "unat x + 2 ^ 32 * uval xs < 2 ^ 32 * (uval xs + 1)"
    using unat_u32_bound [of x] by simp
  also have "\<dots> \<le> 2 ^ 32 * 2 ^ (32 * length xs)"
    using Cons by (intro mult_le_mono2) simp
  finally show ?case by (simp add: power_add)
qed simp

lemma digit_inject:
  assumes "(r::nat) < 4294967296" "s < 4294967296"
  shows "r + 4294967296 * u = s + 4294967296 * v \<longleftrightarrow> r = s \<and> u = v"
proof
  assume e: "r + 4294967296 * u = s + 4294967296 * v"
  have "(r + 4294967296 * u) mod 4294967296 = r" "(s + 4294967296 * v) mod 4294967296 = s"
    using assms by simp_all
  with e show "r = s \<and> u = v" by simp
qed simp

lemma uval_inject: "length xs = length ys \<Longrightarrow> uval xs = uval ys \<longleftrightarrow> xs = ys"
proof (induction xs ys rule: list_induct2)
  case (Cons x xs y ys)
  then show ?case
    using digit_inject [OF unat_u32_bound [of x] unat_u32_bound [of y]] by (simp add: word_unat_eq_iff)
qed simp

lemma unat_ucast_u64: "unat (ucast (x::u32) :: u64) = unat x"
  using unat_u32_bound [of x] by (simp add: unsigned_ucast_eq take_bit_nat_eq_self)

lemma unat_not_u32: "unat (NOT (x::u32)) = 4294967295 - unat x"
proof -
  have "NOT x = - 1 - x" by (simp add: not_eq_complement)
  also have "unat \<dots> = unat (- 1 :: u32) - unat x" by (rule unat_sub) simp
  finally show ?thesis by (simp add: unsigned_minus_1_eq_mask mask_eq_exp_minus_1)
qed

lemma unat_inc_u32: "unat ((x::u32) + 1) = (if x + 1 = 0 then 0 else unat x + 1)"
  "(x::u32) + 1 = 0 \<Longrightarrow> unat x = 4294967295"
proof -
  have m: "unat (x + 1) = (unat x + 1) mod 4294967296" by (simp add: unat_word_ariths)
  show "unat (x + 1) = (if x + 1 = 0 then 0 else unat x + 1)"
  proof (cases "unat x + 1 < 4294967296")
    case True
    with m have "unat (x + 1) = unat x + 1" by simp
    then show ?thesis by (metis Suc_eq_plus1 nat.distinct(1) unat_0)
  next
    case False
    then have "unat x = 4294967295" using unat_u32_bound [of x] by simp
    with m have "unat (x + 1) = 0" by simp
    then have "x + 1 = 0" by (simp only: unat_eq_0)
    then show ?thesis by simp
  qed
  assume "x + 1 = 0"
  then have "unat (x + 1) = 0" by simp
  with m have "4294967296 dvd unat x + 1" by (simp add: dvd_eq_mod_eq_0)
  then show "unat x = 4294967295" using unat_u32_bound [of x] by (auto dest: dvd_imp_le)
qed

lemma uval_replicate_0 [simp]: "uval (replicate n 0) = 0"
  by (induction n) simp_all

section \<open>Construction\<close>

text \<open>\<open>operator=(uint64)\<close> and the constructors from \<open>uint64\<close>, for an array of \<open>W\<close> words.\<close>

definition set64 :: "nat \<Rightarrow> u64 \<Rightarrow> base_uint" where
  "set64 W b = [ucast b, ucast (drop_bit 32 b)] @ replicate (W - 2) 0"

text \<open>The default constructors zero the array.\<close>

definition uzero :: "nat \<Rightarrow> base_uint" where
  "uzero W = replicate W 0"

definition Get64 :: "base_uint \<Rightarrow> nat \<Rightarrow> u64" where
  "Get64 a n = ucast (a!(2*n)) OR push_bit 32 (ucast (a!(2*n+1)))"

section \<open>Bitwise operations\<close>

definition is_zero :: "base_uint \<Rightarrow> bool" where
  "is_zero a \<longleftrightarrow> list_all (\<lambda>x. x = 0) a"

definition ucompl :: "base_uint \<Rightarrow> base_uint" where
  "ucompl a = map (\<lambda>x. NOT x) a"

definition uxor :: "base_uint \<Rightarrow> base_uint \<Rightarrow> base_uint" where
  "uxor a b = map2 (\<lambda>x y. x XOR y) a b"

definition uand :: "base_uint \<Rightarrow> base_uint \<Rightarrow> base_uint" where
  "uand a b = map2 (\<lambda>x y. x AND y) a b"

definition uor :: "base_uint \<Rightarrow> base_uint \<Rightarrow> base_uint" where
  "uor a b = map2 (\<lambda>x y. x OR y) a b"

definition uxor64 :: "base_uint \<Rightarrow> u64 \<Rightarrow> base_uint" where
  "uxor64 a b = (let a1 = a[0 := a!0 XOR ucast b] in a1[1 := a1!1 XOR ucast (drop_bit 32 b)])"

definition uor64 :: "base_uint \<Rightarrow> u64 \<Rightarrow> base_uint" where
  "uor64 a b = (let a1 = a[0 := a!0 OR ucast b] in a1[1 := a1!1 OR ucast (drop_bit 32 b)])"

section \<open>Increment, decrement, addition, subtraction\<close>

text \<open>\<open>while (++pn[i] == 0 && i < WIDTH-1) i++\<close>, from the least significant word.\<close>

fun uinc :: "base_uint \<Rightarrow> base_uint" where
  "uinc [] = []"
| "uinc (x # xs) = (if x + 1 = 0 \<and> xs \<noteq> [] then (x + 1) # uinc xs else (x + 1) # xs)"

text \<open>\<open>while (--pn[i] == -1 && i < WIDTH-1) i++\<close>: the comparison is with \<open>0xffffffff\<close>.\<close>

fun udec :: "base_uint \<Rightarrow> base_uint" where
  "udec [] = []"
| "udec (x # xs) = (if x - 1 = - 1 \<and> xs \<noteq> [] then (x - 1) # udec xs else (x - 1) # xs)"

definition uneg :: "base_uint \<Rightarrow> base_uint" where
  "uneg a = uinc (map (\<lambda>x. NOT x) a)"

text \<open>The carry loop of \<open>operator+=\<close>: 64-bit sums of 32-bit words.\<close>

fun uadd_loop :: "u64 \<Rightarrow> base_uint \<Rightarrow> base_uint \<Rightarrow> base_uint" where
  "uadd_loop carry (x # xs) (y # ys) =
     (let n = carry + ucast x + ucast y
      in ucast (n AND 0xffffffff) # uadd_loop (drop_bit 32 n) xs ys)"
| "uadd_loop carry xs ys = xs"

definition uadd :: "base_uint \<Rightarrow> base_uint \<Rightarrow> base_uint" where
  "uadd a b = uadd_loop 0 a b"

definition usub :: "base_uint \<Rightarrow> base_uint \<Rightarrow> base_uint" where
  "usub a b = uadd a (uneg b)"

definition uadd64 :: "base_uint \<Rightarrow> u64 \<Rightarrow> base_uint" where
  "uadd64 a b = uadd a (set64 (length a) b)"

definition usub64 :: "base_uint \<Rightarrow> u64 \<Rightarrow> base_uint" where
  "usub64 a b = uadd a (uneg (set64 (length a) b))"

section \<open>Shifts\<close>

text \<open>The body of the loop of \<open>operator<<=\<close> for one \<open>i\<close>, on the copy \<open>a\<close> and the result array.\<close>

definition shl_step :: "base_uint \<Rightarrow> nat \<Rightarrow> nat \<Rightarrow> nat \<Rightarrow> base_uint \<Rightarrow> base_uint" where
  "shl_step a k s i pn =
     (let pn1 = (if i + k + 1 < length a \<and> s \<noteq> 0
                 then pn[i + k + 1 := pn!(i + k + 1) OR drop_bit (32 - s) (a!i)] else pn)
      in if i + k < length a then pn1[i + k := pn1!(i + k) OR push_bit s (a!i)] else pn1)"

definition ushl :: "base_uint \<Rightarrow> nat \<Rightarrow> base_uint" where
  "ushl a shift = fold (shl_step a (shift div 32) (shift mod 32)) [0..<length a] (replicate (length a) 0)"

definition shr_step :: "base_uint \<Rightarrow> nat \<Rightarrow> nat \<Rightarrow> nat \<Rightarrow> base_uint \<Rightarrow> base_uint" where
  "shr_step a k s i pn =
     (let pn1 = (if k + 1 \<le> i \<and> s \<noteq> 0
                 then pn[i - k - 1 := pn!(i - k - 1) OR push_bit (32 - s) (a!i)] else pn)
      in if k \<le> i then pn1[i - k := pn1!(i - k) OR drop_bit s (a!i)] else pn1)"

definition ushr :: "base_uint \<Rightarrow> nat \<Rightarrow> base_uint" where
  "ushr a shift = fold (shr_step a (shift div 32) (shift mod 32)) [0..<length a] (replicate (length a) 0)"

section \<open>Comparisons\<close>

text \<open>The loops run from the most significant word down and return at the first difference;
  the arrays are passed reversed.\<close>

fun cmp_loop :: "bool \<Rightarrow> bool \<Rightarrow> bool \<Rightarrow> base_uint \<Rightarrow> base_uint \<Rightarrow> bool" where
  "cmp_loop lt gt eq (x # xs) (y # ys) =
     (if x < y then lt else if x > y then gt else cmp_loop lt gt eq xs ys)"
| "cmp_loop lt gt eq xs ys = eq"

definition ult :: "base_uint \<Rightarrow> base_uint \<Rightarrow> bool" where
  "ult a b = cmp_loop True False False (rev a) (rev b)"

definition ule :: "base_uint \<Rightarrow> base_uint \<Rightarrow> bool" where
  "ule a b = cmp_loop True False True (rev a) (rev b)"

definition ugt :: "base_uint \<Rightarrow> base_uint \<Rightarrow> bool" where
  "ugt a b = cmp_loop False True False (rev a) (rev b)"

definition uge :: "base_uint \<Rightarrow> base_uint \<Rightarrow> bool" where
  "uge a b = cmp_loop False True True (rev a) (rev b)"

definition ueq :: "base_uint \<Rightarrow> base_uint \<Rightarrow> bool" where
  "ueq a b \<longleftrightarrow> list_all2 (\<lambda>x y. x = y) a b"

definition ueq64 :: "base_uint \<Rightarrow> u64 \<Rightarrow> bool" where
  "ueq64 a b \<longleftrightarrow> a!0 = ucast b \<and> a!1 = ucast (drop_bit 32 b) \<and> list_all (\<lambda>x. x = 0) (drop 2 a)"

section \<open>Hexadecimal\<close>

definition byte_of :: "u32 \<Rightarrow> nat \<Rightarrow> byte" where
  "byte_of x j = ucast (drop_bit (8 * j) x)"

text \<open>\<open>(unsigned char * )pn\<close>, on a little-endian machine.\<close>

definition pn_bytes :: "base_uint \<Rightarrow> bytes" where
  "pn_bytes a = concat (map (\<lambda>x. map (byte_of x) [0..<4]) a)"

definition bytes_u32 :: "bytes \<Rightarrow> u32" where
  "bytes_u32 b = ucast (b!0) OR push_bit 8 (ucast (b!1)) OR push_bit 16 (ucast (b!2)) OR push_bit 24 (ucast (b!3))"

definition bytes_pn :: "nat \<Rightarrow> bytes \<Rightarrow> base_uint" where
  "bytes_pn W bs = map (\<lambda>i. bytes_u32 (subbytes (4 * i) 4 bs)) [0..<W]"

text \<open>\<open>sprintf("%02x")\<close> of a byte.\<close>

definition hex_digit :: "nat \<Rightarrow> char" where
  "hex_digit n = ''0123456789abcdef'' ! n"

definition hex2 :: "byte \<Rightarrow> string" where
  "hex2 b = [hex_digit (unat b div 16), hex_digit (unat b mod 16)]"

definition GetHex :: "base_uint \<Rightarrow> string" where
  "GetHex a = concat (map (\<lambda>i. hex2 (pn_bytes a ! (4 * length a - i - 1))) [0..<4 * length a])"

text \<open>The table \<open>phexdigit\<close>: zero except for the digits and the letters \<open>A-F\<close>, \<open>a-f\<close>.\<close>

definition phexdigit :: "char \<Rightarrow> byte" where
  "phexdigit c = (let n = of_char c :: nat in
     if 48 \<le> n \<and> n \<le> 57 then of_nat (n - 48)
     else if 65 \<le> n \<and> n \<le> 70 then of_nat (n - 55)
     else if 97 \<le> n \<and> n \<le> 102 then of_nat (n - 87) else 0)"

text \<open>\<open>isspace\<close> in the C locale: tab, newline, vertical tab, form feed, return, space.\<close>

definition c_isspace :: "char \<Rightarrow> bool" where
  "c_isspace c \<longleftrightarrow> (let n = of_char c :: nat in n = 32 \<or> 9 \<le> n \<and> n \<le> 13)"

text \<open>The filling loop of \<open>SetHex\<close>: the digits from the last to the first, two to a byte, until
  the digits or the bytes run out.\<close>

fun sethex_fill :: "nat \<Rightarrow> string \<Rightarrow> bytes" where
  "sethex_fill 0 ds = []"
| "sethex_fill (Suc n) [] = 0 # sethex_fill n []"
| "sethex_fill (Suc n) [d] = phexdigit d # sethex_fill n []"
| "sethex_fill (Suc n) (d # e # ds) = (phexdigit d OR push_bit 4 (phexdigit e)) # sethex_fill n ds"

definition sethex_digits :: "string \<Rightarrow> string" where
  "sethex_digits psz =
     (let psz1 = dropWhile c_isspace psz;
          psz2 = (case psz1 of c0 # c1 # rest \<Rightarrow>
                    if c0 = CHR ''0'' \<and> (c1 = CHR ''x'' \<or> c1 = CHR ''X'') then rest else psz1
                  | _ \<Rightarrow> psz1)
      in takeWhile (\<lambda>c. phexdigit c \<noteq> 0 \<or> c = CHR ''0'') psz2)"

definition SetHex :: "nat \<Rightarrow> string \<Rightarrow> base_uint" where
  "SetHex W psz = bytes_pn W (sethex_fill (4 * W) (rev (sethex_digits psz)))"

text \<open>The constructors from a byte vector: a vector of the wrong size gives zero.\<close>

definition of_vch :: "nat \<Rightarrow> bytes \<Rightarrow> base_uint" where
  "of_vch W vch = (if length vch = 4 * W then bytes_pn W vch else set64 W 0)"

section \<open>Arithmetic is modulo \<open>2^(32*WIDTH)\<close>\<close>

lemma length_ops [simp]:
  "length (uinc a) = length a" "length (udec a) = length a" "length (uneg a) = length a"
  "length (ucompl a) = length a" "2 \<le> W \<Longrightarrow> length (set64 W b) = W"
  by (induction a) (simp_all add: uneg_def ucompl_def set64_def)

lemma mod_digit:
  assumes "(r::nat) < 2 ^ 32"
  shows "(r + 2 ^ 32 * q) mod 2 ^ (32 * Suc n) = r + 2 ^ 32 * (q mod 2 ^ (32 * n))"
proof -
  have "(r + 2 ^ 32 * q) mod (2 ^ 32 * 2 ^ (32 * n)) = 2 ^ 32 * ((r + 2 ^ 32 * q) div 2 ^ 32 mod 2 ^ (32 * n)) + (r + 2 ^ 32 * q) mod 2 ^ 32"
    by (rule mod_mult2_eq)
  then show ?thesis using assms by (simp add: power_add)
qed

lemma uval_uadd_loop:
  "length xs = length ys \<Longrightarrow> unat c \<le> 1 \<Longrightarrow>
     uval (uadd_loop c xs ys) = (unat c + uval xs + uval ys) mod 2 ^ (32 * length xs)
     \<and> length (uadd_loop c xs ys) = length xs"
proof (induction c xs ys rule: uadd_loop.induct)
  case (1 c x xs y ys)
  define n where "n = c + ucast x + ucast y"
  let ?s = "unat c + unat x + unat y"
  have s: "?s \<le> 8589934591"
    using "1.prems" unat_u32_bound [of x] unat_u32_bound [of y] by linarith
  have "unat (c + ucast x) = unat c + unat x"
    using "1.prems" unat_u32_bound [of x] by (simp add: unat_word_ariths unat_ucast_u64)
  then have un: "unat n = ?s"
    using s unat_u32_bound [of y] unfolding n_def by (simp add: unat_word_ariths unat_ucast_u64)
  have lo: "unat (ucast (n AND 0xffffffff) :: u32) = ?s mod 2 ^ 32"
  proof -
    have "n AND 0xffffffff = take_bit 32 n"
      by (simp add: take_bit_eq_mask mask_eq_exp_minus_1)
    moreover have "unat (ucast (take_bit 32 n) :: u32) = take_bit 32 (unat n)"
      by (simp add: unsigned_ucast_eq unsigned_take_bit_eq)
    ultimately show ?thesis using un by (simp only: take_bit_eq_mod)
  qed
  have hi: "unat (drop_bit 32 n) = ?s div 2 ^ 32"
  proof -
    have "unat (drop_bit 32 n) = drop_bit 32 (unat n)" by (rule unat_drop_bit_eq)
    then show ?thesis using un by (simp only: drop_bit_eq_div)
  qed
  have h1: "unat (drop_bit 32 n) \<le> 1" unfolding hi using div_le_mono [OF s, of "2 ^ 32"] by simp
  have IH: "uval (uadd_loop (drop_bit 32 n) xs ys) = (?s div 2 ^ 32 + uval xs + uval ys) mod 2 ^ (32 * length xs)"
    "length (uadd_loop (drop_bit 32 n) xs ys) = length xs"
    using "1.IH" [OF n_def, of] h1 "1.prems" hi by auto
  have "uval (uadd_loop c (x # xs) (y # ys))
      = ?s mod 2 ^ 32 + 2 ^ 32 * ((?s div 2 ^ 32 + uval xs + uval ys) mod 2 ^ (32 * length xs))"
    using lo IH by (simp add: Let_def n_def)
  also have "\<dots> = (?s mod 2 ^ 32 + 2 ^ 32 * (?s div 2 ^ 32 + uval xs + uval ys)) mod 2 ^ (32 * Suc (length xs))"
    by (rule mod_digit [symmetric]) simp
  also have "?s mod 2 ^ 32 + 2 ^ 32 * (?s div 2 ^ 32 + uval xs + uval ys)
      = unat c + uval (x # xs) + uval (y # ys)"
    using mult_div_mod_eq [of "2 ^ 32" ?s] by (simp add: algebra_simps)
  finally show ?case using IH(2) by (simp add: Let_def n_def)
qed simp_all

lemma uval_uadd:
  "length a = length b \<Longrightarrow> uval (uadd a b) = (uval a + uval b) mod 2 ^ (32 * length a)"
  using uval_uadd_loop [of a b 0] by (simp add: uadd_def)

lemma length_uadd [simp]: "length a = length b \<Longrightarrow> length (uadd a b) = length a"
  using uval_uadd_loop [of a b 0] by (simp add: uadd_def)

lemma uval_ucompl: "uval (ucompl a) = 2 ^ (32 * length a) - 1 - uval a"
proof (induction a)
  case (Cons x a)
  show ?case
    using Cons uval_bound [of a] unat_u32_bound [of x] unat_not_u32 [of x]
    by (simp add: ucompl_def power_add algebra_simps)
qed (simp add: ucompl_def)

lemma uval_uinc: "a \<noteq> [] \<Longrightarrow> uval (uinc a) = (uval a + 1) mod 2 ^ (32 * length a)"
proof (induction a)
  case (Cons x a)
  show ?case
  proof (cases "x + 1 = 0")
    case True
    note ux = unat_inc_u32(2) [OF True]
    have "(uval (x # a) + 1) mod 2 ^ (32 * Suc (length a)) = (0 + 2 ^ 32 * (uval a + 1)) mod 2 ^ (32 * Suc (length a))"
      using ux by simp
    also have "\<dots> = 2 ^ 32 * ((uval a + 1) mod 2 ^ (32 * length a))"
      using mod_digit [of 0 "uval a + 1" "length a"] by simp
    finally show ?thesis using True Cons.IH by (cases "a = []") simp_all
  next
    case False
    have "unat x + 1 < 2 ^ 32" using False unat_inc_u32(1) [of x] unat_u32_bound [of "x + 1"] by simp
    from mod_digit [OF this, of "uval a" "length a"] show ?thesis
      using False unat_inc_u32(1) [of x] uval_bound [of a] by (simp add: algebra_simps)
  qed
qed simp

lemma uval_udec: "a \<noteq> [] \<Longrightarrow> uval (udec a) = (uval a + (2 ^ (32 * length a) - 1)) mod 2 ^ (32 * length a)"
proof (induction a)
  case (Cons x a)
  let ?N = "2 ^ (32 * length a) :: nat"
  have N: "0 < ?N" by simp
  show ?case
  proof (cases "x = 0")
    case True
    obtain M where M: "?N = Suc M" using N by (cases "?N") auto
    have "uval (x # a) + (2 ^ (32 * Suc (length a)) - 1) = 4294967295 + 2 ^ 32 * (uval a + (?N - 1))"
      using True by (simp add: power_add M)
    then have "(uval (x # a) + (2 ^ (32 * Suc (length a)) - 1)) mod 2 ^ (32 * Suc (length a))
        = 4294967295 + 2 ^ 32 * ((uval a + (?N - 1)) mod ?N)"
      using mod_digit [of 4294967295 "uval a + (?N - 1)" "length a"] by simp
    then show ?thesis using True Cons.IH by (cases "a = []") (simp_all add: unsigned_minus_1_eq_mask mask_eq_exp_minus_1)
  next
    case False
    then have x: "unat (x - 1) = unat x - 1" "0 < unat x"
      by (simp_all add: unat_minus_one word_greater_zero_iff unat_gt_0)
    have ne: "x - 1 \<noteq> - 1" using False by (metis diff_add_cancel add.left_inverse)
    have "uval (x # a) + (2 ^ (32 * Suc (length a)) - 1) = (unat x - 1) + 2 ^ 32 * (uval a + ?N)"
      using x(2) by (cases "unat x") (simp_all add: power_add algebra_simps)
    then have "(uval (x # a) + (2 ^ (32 * Suc (length a)) - 1)) mod 2 ^ (32 * Suc (length a))
        = (unat x - 1) + 2 ^ 32 * uval a"
      using mod_digit [of "unat x - 1" "uval a + ?N" "length a"] unat_u32_bound [of x] uval_bound [of a]
      by simp
    then show ?thesis using ne x(1) by simp
  qed
qed simp

lemma uval_uneg: "a \<noteq> [] \<Longrightarrow> uval (uneg a) = (2 ^ (32 * length a) - uval a) mod 2 ^ (32 * length a)"
  using uval_uinc [of "ucompl a"] uval_ucompl [of a] uval_bound [of a]
  by (simp add: uneg_def ucompl_def Suc_diff_Suc)

lemma uval_usub:
  "length a = length b \<Longrightarrow> a \<noteq> [] \<Longrightarrow>
     uval (usub a b) = (uval a + (2 ^ (32 * length a) - uval b)) mod 2 ^ (32 * length a)"
  unfolding usub_def by (subst uval_uadd, simp, subst uval_uneg) (auto simp: mod_add_right_eq)

section \<open>Comparisons are those of the numbers\<close>

lemma uval_append: "uval (xs @ ys) = uval xs + 2 ^ (32 * length xs) * uval ys"
  by (induction xs) (simp_all add: power_add algebra_simps)

lemma top_digit_less:
  assumes "x < (y::u32)" "length xs = length ys"
  shows "uval (xs @ [x]) < uval (ys @ [y])"
proof -
  let ?P = "2 ^ (32 * length ys) :: nat"
  have "uval (xs @ [x]) < ?P + ?P * unat x"
    using uval_bound [of xs] assms(2) by (simp add: uval_append)
  also have "\<dots> = ?P * (unat x + 1)" by simp
  also have "\<dots> \<le> ?P * unat y"
    using assms(1) by (intro mult_le_mono2) (simp add: word_less_nat_alt)
  also have "\<dots> \<le> uval (ys @ [y])" by (simp add: uval_append)
  finally show ?thesis .
qed

lemma cmp_loop_uval:
  "length a = length b \<Longrightarrow> cmp_loop lt gt eq (rev a) (rev b) =
     (if uval a < uval b then lt else if uval a > uval b then gt else eq)"
proof (induction a arbitrary: b rule: rev_induct)
  case (snoc x a)
  then obtain b' y where b: "b = b' @ [y]" "length a = length b'"
    by (cases b rule: rev_cases) auto
  show ?case
  proof (cases x y rule: linorder_cases)
    case equal
    then show ?thesis using snoc.IH [OF b(2)] b by (simp add: uval_append)
  next
    case less
    then show ?thesis using top_digit_less [OF less b(2)] b(1) by simp
  next
    case greater
    then show ?thesis using top_digit_less [OF greater b(2) [symmetric]] b(1) less_imp_not_less
      by (auto simp: less_imp_not_less)
  qed
qed simp

lemma comparisons_uval:
  assumes "length a = length b"
  shows "ult a b \<longleftrightarrow> uval a < uval b" "ule a b \<longleftrightarrow> uval a \<le> uval b"
    "ugt a b \<longleftrightarrow> uval a > uval b" "uge a b \<longleftrightarrow> uval a \<ge> uval b" "ueq a b \<longleftrightarrow> uval a = uval b"
  using assms by (auto simp: ult_def ule_def ugt_def uge_def cmp_loop_uval ueq_def uval_inject
      list.rel_eq [unfolded fun_eq_iff, rule_format])

section \<open>Shifts are multiplication and division by powers of two\<close>

lemma bit_uval: "bit (uval a) m \<longleftrightarrow> m div 32 < length a \<and> bit (a ! (m div 32)) (m mod 32)"
proof (induction a arbitrary: m)
  case (Cons x a)
  have lo: "take_bit 32 (uval (x # a)) = unat x" and hi: "drop_bit 32 (uval (x # a)) = uval a"
    using unat_u32_bound [of x] by (simp_all add: take_bit_eq_mod drop_bit_eq_div)
  show ?case
  proof (cases "m < 32")
    case True
    then have "bit (uval (x # a)) m = bit (take_bit 32 (uval (x # a))) m" by (simp add: bit_take_bit_iff)
    also have "\<dots> = bit x m" unfolding lo by (simp add: bit_unsigned_iff)
    finally show ?thesis using True by simp
  next
    case False
    then have m: "m = 32 + (m - 32)" by simp
    have "bit (uval (x # a)) m = bit (drop_bit 32 (uval (x # a))) (m - 32)"
      using m by (metis bit_drop_bit_eq comp_apply)
    also have "\<dots> = bit (uval a) (m - 32)" unfolding hi ..
    finally show ?thesis using Cons.IH False m le_div_geq [of 32 m] le_mod_geq [of 32 m]
      by simp
  qed
qed simp

lemma length_shift_steps [simp]:
  "length (shl_step a k s i pn) = length pn" "length (shr_step a k s i pn) = length pn"
  by (simp_all add: shl_step_def shr_step_def Let_def)

lemma length_shift_folds [simp]:
  "length (fold (shl_step a k s) is pn) = length pn" "length (fold (shr_step a k s) is pn) = length pn"
  by (induction "is" arbitrary: pn) simp_all

lemma length_shifts [simp]: "length (ushl a n) = length a" "length (ushr a n) = length a"
  by (simp_all add: ushl_def ushr_def)

lemma bit_uval_at: "r < 32 \<Longrightarrow> bit (uval a) (32 * q + r) \<longleftrightarrow> q < length a \<and> bit (a ! q) r"
  by (simp add: bit_uval)

lemma shl_step_nth:
  "length pn = length a \<Longrightarrow> i < length a \<Longrightarrow> j < length a \<Longrightarrow>
     shl_step a k s i pn ! j = pn ! j OR
       ((if s \<noteq> 0 \<and> j = i + k + 1 then drop_bit (32 - s) (a!i) else 0) OR
       (if j = i + k then push_bit s (a!i) else 0))"
  by (auto simp: shl_step_def Let_def nth_list_update or.assoc)

lemma shl_fold:
  "n \<le> length a \<Longrightarrow> j < length a \<Longrightarrow> fold (shl_step a k s) [0..<n] (replicate (length a) 0) ! j =
      (if k \<le> j \<and> j < n + k then push_bit s (a!(j - k)) else 0) OR
      (if s \<noteq> 0 \<and> k + 1 \<le> j \<and> j < n + k + 1 then drop_bit (32 - s) (a!(j - k - 1)) else 0)"
proof (induction n arbitrary: j)
  case 0
  then show ?case by auto
next
  case (Suc n)
  define F where "F = fold (shl_step a k s) [0..<n] (replicate (length a) 0)"
  have "length F = length a" by (simp add: F_def)
  note st = shl_step_nth [OF this, of n j k s]
  have IH: "F ! j = (if k \<le> j \<and> j < n + k then push_bit s (a!(j - k)) else 0) OR
      (if s \<noteq> 0 \<and> k + 1 \<le> j \<and> j < n + k + 1 then drop_bit (32 - s) (a!(j - k - 1)) else 0)"
    unfolding F_def using Suc by simp
  have "fold (shl_step a k s) [0..<Suc n] (replicate (length a) 0) = shl_step a k s n F"
    by (simp add: F_def)
  then show ?case using st IH Suc.prems
    by (cases "j = n + k + 1"; cases "j = n + k") (auto simp: less_Suc_eq or.commute)
qed

lemma shr_step_nth:
  "length pn = length a \<Longrightarrow> i < length a \<Longrightarrow> j < length a \<Longrightarrow>
     shr_step a k s i pn ! j = pn ! j OR
       ((if s \<noteq> 0 \<and> j + k + 1 = i then push_bit (32 - s) (a!i) else 0) OR
       (if j + k = i then drop_bit s (a!i) else 0))"
  by (auto simp: shr_step_def Let_def nth_list_update or.assoc)

lemma shr_fold:
  "n \<le> length a \<Longrightarrow> j < length a \<Longrightarrow> fold (shr_step a k s) [0..<n] (replicate (length a) 0) ! j =
      (if j + k < n then drop_bit s (a!(j + k)) else 0) OR
      (if s \<noteq> 0 \<and> j + k + 1 < n then push_bit (32 - s) (a!(j + k + 1)) else 0)"
proof (induction n arbitrary: j)
  case 0
  then show ?case by simp
next
  case (Suc n)
  define F where "F = fold (shr_step a k s) [0..<n] (replicate (length a) 0)"
  have "length F = length a" by (simp add: F_def)
  note st = shr_step_nth [OF this, of n j k s]
  have IH: "F ! j = (if j + k < n then drop_bit s (a!(j + k)) else 0) OR
      (if s \<noteq> 0 \<and> j + k + 1 < n then push_bit (32 - s) (a!(j + k + 1)) else 0)"
    unfolding F_def using Suc by simp
  have "fold (shr_step a k s) [0..<Suc n] (replicate (length a) 0) = shr_step a k s n F"
    by (simp add: F_def)
  then show ?case using st IH Suc.prems
    by (cases "j + k + 1 = n"; cases "j + k = n") (auto simp: less_Suc_eq)
qed

lemma ushl_bits:
  assumes "j < length a"
  shows "bit (ushl a n ! j) t \<longleftrightarrow> t < 32 \<and> n \<le> 32 * j + t \<and> bit (uval a) (32 * j + t - n)"
proof -
  define k where "k = n div 32"
  define s where "s = n mod 32"
  note ks = k_def s_def
  have n: "n = 32 * k + s" "s < 32" by (simp_all add: ks)
  have w: "ushl a n ! j = (if k \<le> j then push_bit s (a!(j - k)) else 0) OR
      (if s \<noteq> 0 \<and> k + 1 \<le> j then drop_bit (32 - s) (a!(j - k - 1)) else 0)"
    unfolding ushl_def ks [symmetric] using assms by (subst shl_fold) auto
  consider "t < 32" "k \<le> j" "s \<le> t" | "t < 32" "k + 1 \<le> j" "t < s" | "t < 32" "\<not> k + 1 \<le> j" "t < s"
    | "t < 32" "\<not> k \<le> j" "s \<le> t" | "32 \<le> t" by linarith
  then show ?thesis
  proof cases
    case 1
    have e: "32 * j + t - n = 32 * (j - k) + (t - s)" "n \<le> 32 * j + t"
      using n 1 by simp_all
    have "\<not> bit (drop_bit (32 - s) (a!(j - k - 1))) t"
      using 1 n(2) by (auto simp: bit_drop_bit_eq dest: bit_imp_le_length)
    then have "bit (ushl a n ! j) t \<longleftrightarrow> bit (a!(j - k)) (t - s)"
      unfolding w using 1 by (simp add: bit_or_iff bit_push_bit_iff)
    moreover have "t - s < 32" "j - k < length a" using 1 assms by auto
    ultimately show ?thesis unfolding e(1) using bit_uval_at [of "t - s" a "j - k"] 1 e(2) assms
      by (simp only: simp_thms)
  next
    case 2
    have e: "32 * j + t - n = 32 * (j - k - 1) + (32 + t - s)" "n \<le> 32 * j + t"
      using n 2 by simp_all
    have "bit (ushl a n ! j) t \<longleftrightarrow> bit (a!(j - k - 1)) (32 + t - s)"
      unfolding w using 2 n(2) by (simp add: bit_or_iff bit_push_bit_iff bit_drop_bit_eq)
    moreover have "32 + t - s < 32" "j - k - 1 < length a" using 2 n(2) assms by auto
    ultimately show ?thesis unfolding e(1) using bit_uval_at [of "32 + t - s" a "j - k - 1"] 2 e(2) assms
      by (simp only: simp_thms)
  next
    case 3
    then have "\<not> n \<le> 32 * j + t" using n by simp
    then show ?thesis unfolding w using 3 by (simp add: bit_or_iff bit_push_bit_iff)
  next
    case 4
    then have "\<not> n \<le> 32 * j + t" using n by simp
    then show ?thesis unfolding w using 4 by simp
  next
    case 5
    then show ?thesis by (auto dest: bit_imp_le_length)
  qed
qed

lemma ushr_bits:
  assumes "j < length a"
  shows "bit (ushr a n ! j) t \<longleftrightarrow> t < 32 \<and> bit (uval a) (32 * j + t + n)"
proof -
  define k where "k = n div 32"
  define s where "s = n mod 32"
  note ks = k_def s_def
  have n: "n = 32 * k + s" "s < 32" by (simp_all add: ks)
  have w: "ushr a n ! j = (if j + k < length a then drop_bit s (a!(j + k)) else 0) OR
      (if s \<noteq> 0 \<and> j + k + 1 < length a then push_bit (32 - s) (a!(j + k + 1)) else 0)"
    unfolding ushr_def ks [symmetric] using assms by (subst shr_fold) auto
  consider "t < 32" "t + s < 32" | "t < 32" "32 \<le> t + s" | "32 \<le> t" by linarith
  then show ?thesis
  proof cases
    case 1
    have e: "32 * j + t + n = 32 * (j + k) + (t + s)" using n by simp
    show ?thesis unfolding w e bit_uval_at [OF 1(2)] using 1
      by (auto simp: bit_or_iff bit_push_bit_iff bit_drop_bit_eq ac_simps)
  next
    case 2
    have e: "32 * j + t + n = 32 * (j + k + 1) + (t + s - 32)" using n 2 by simp
    have l: "t + s - 32 < 32" using 2 n(2) by simp
    have "\<not> bit (drop_bit s (a!(j + k))) t"
      using 2 by (auto simp: bit_drop_bit_eq dest: bit_imp_le_length)
    then show ?thesis unfolding w e bit_uval_at [OF l] using 2 n(2)
      by (auto simp: bit_or_iff bit_push_bit_iff ac_simps dest: bit_imp_le_length)
  next
    case 3
    then show ?thesis by (auto dest: bit_imp_le_length)
  qed
qed

lemma uval_ushl: "uval (ushl a n) = uval a * 2 ^ n mod 2 ^ (32 * length a)"
proof -
  have "bit (uval (ushl a n)) m \<longleftrightarrow> bit (take_bit (32 * length a) (push_bit n (uval a))) m" for m
    using ushl_bits [of "m div 32" a n "m mod 32"]
    by (auto simp: bit_uval [of "ushl a n"] bit_take_bit_iff bit_push_bit_iff div_less_iff_less_mult mult.commute)
  then have "uval (ushl a n) = take_bit (32 * length a) (push_bit n (uval a))" by (rule bit_eqI)
  then show ?thesis by (simp add: take_bit_eq_mod push_bit_eq_mult)
qed

lemma uval_ushr: "uval (ushr a n) = uval a div 2 ^ n"
proof -
  have "bit (uval (ushr a n)) m \<longleftrightarrow> bit (drop_bit n (uval a)) m" for m
  proof (cases "m div 32 < length a")
    case True
    then show ?thesis using ushr_bits [OF True, of n "m mod 32"]
      by (simp add: bit_uval [of "ushr a n"] bit_drop_bit_eq ac_simps)
  next
    case False
    then have "\<not> (n + m) div 32 < length a" by (meson div_le_mono le_add2 le_trans not_less)
    then show ?thesis using False by (simp add: bit_uval bit_drop_bit_eq)
  qed
  then have "uval (ushr a n) = drop_bit n (uval a)" by (rule bit_eqI)
  then show ?thesis by (simp add: drop_bit_eq_div)
qed

section \<open>Bytes and hexadecimal\<close>

lemma bytes_u32_byte_of: "bytes_u32 (map (byte_of x) [0..<4]) = x"
proof (rule bit_word_eqI)
  fix n assume "n < LENGTH(32)"
  then have "n < 32" by simp
  then consider "n < 8" | "8 \<le> n" "n < 16" | "16 \<le> n" "n < 24" | "24 \<le> n" "n < 32" by linarith
  then show "bit (bytes_u32 (map (byte_of x) [0..<4])) n = bit x n"
    by cases (auto simp: bytes_u32_def byte_of_def bit_simps)
qed

lemma length_pn_bytes [simp]: "length (pn_bytes a) = 4 * length a"
  by (induction a) (simp_all add: pn_bytes_def)

lemma subbytes_pn_bytes: "i < length a \<Longrightarrow> subbytes (4 * i) 4 (pn_bytes a) = map (byte_of (a!i)) [0..<4]"
proof (induction a arbitrary: i)
  case (Cons x a)
  have p: "pn_bytes (x # a) = map (byte_of x) [0..<4] @ pn_bytes a" by (simp add: pn_bytes_def)
  show ?case
  proof (cases i)
    case 0
    then show ?thesis unfolding p by (simp add: subbytes_def del: upt.simps)
  next
    case (Suc k)
    then show ?thesis using Cons unfolding p by (simp add: subbytes_def del: upt.simps upt_Suc)
  qed
qed simp

lemma bytes_pn_pn_bytes: "bytes_pn (length a) (pn_bytes a) = a"
  by (rule nth_equalityI) (simp_all add: bytes_pn_def subbytes_pn_bytes bytes_u32_byte_of del: upt_Suc)

lemma hex_digit_table:
  "\<forall>n \<in> set [0..<16]. phexdigit (hex_digit n) = of_nat n \<and> (phexdigit (hex_digit n) \<noteq> 0 \<or> hex_digit n = CHR ''0'')
     \<and> \<not> c_isspace (hex_digit n) \<and> hex_digit n \<noteq> CHR ''x'' \<and> hex_digit n \<noteq> CHR ''X''"
  by code_simp

lemma hex_digit_facts:
  assumes "n < 16"
  shows "phexdigit (hex_digit n) = of_nat n" "phexdigit (hex_digit n) \<noteq> 0 \<or> hex_digit n = CHR ''0''"
    "\<not> c_isspace (hex_digit n)" "hex_digit n \<noteq> CHR ''x''" "hex_digit n \<noteq> CHR ''X''"
  using bspec [OF hex_digit_table, of n] assms by auto

lemma hex2_byte: "(of_nat (unat b mod 16) :: byte) OR push_bit 4 (of_nat (unat b div 16)) = b"
proof -
  have lo: "(of_nat (unat b mod 16) :: byte) = take_bit 4 b"
  proof -
    have "take_bit 4 b = of_nat (take_bit 4 (unat b))" by (simp add: of_nat_take_bit)
    then show ?thesis by (simp add: take_bit_eq_mod)
  qed
  have hi: "(of_nat (unat b div 16) :: byte) = drop_bit 4 b"
  proof -
    have "unat (drop_bit 4 b) = unat b div 16" using unat_drop_bit_eq [of 4 b] by (simp add: drop_bit_eq_div)
    then have "(of_nat (unat b div 16) :: byte) = of_nat (unat (drop_bit 4 b))" by simp
    then show ?thesis by simp
  qed
  show ?thesis unfolding lo hi
  proof (rule bit_word_eqI)
    fix n assume "n < LENGTH(8)"
    then show "bit (take_bit 4 b OR push_bit 4 (drop_bit 4 b)) n = bit b n"
      by (cases "n < 4") (auto simp: bit_simps not_less)
  qed
qed

text \<open>The characters \<open>GetHex\<close> prints: two per byte, from the most significant byte down.\<close>

lemma GetHex_rev: "GetHex a = concat (map hex2 (rev (pn_bytes a)))"
proof -
  have "map (\<lambda>i. pn_bytes a ! (4 * length a - i - 1)) [0..<4 * length a] = rev (pn_bytes a)"
    by (rule nth_equalityI) (simp_all add: rev_nth)
  then have "map hex2 (rev (pn_bytes a)) = map (\<lambda>i. hex2 (pn_bytes a ! (4 * length a - i - 1))) [0..<4 * length a]"
    by (metis (no_types, lifting) map_map comp_apply map_eq_conv)
  then show ?thesis by (simp add: GetHex_def)
qed

lemma sethex_fill_hex2: "sethex_fill (length bs) (rev (concat (map hex2 (rev bs)))) = bs"
proof (induction bs)
  case (Cons b bs)
  have "unat b mod 16 < 16" "unat b div 16 < 16" using byte_less [of b] by auto
  then show ?case using Cons hex2_byte [of b]
    by (simp add: hex2_def hex_digit_facts)
qed simp

lemma sethex_digits_hex:
  assumes "\<forall>c \<in> set s. \<exists>n < 16. c = hex_digit n"
  shows "sethex_digits s = s"
proof -
  have d: "phexdigit c \<noteq> 0 \<or> c = CHR ''0''" "\<not> c_isspace c" "c \<noteq> CHR ''x''" "c \<noteq> CHR ''X''"
    if c: "c \<in> set s" for c
  proof -
    obtain n where "n < 16" "c = hex_digit n" using bspec [OF assms c] by blast
    then show "phexdigit c \<noteq> 0 \<or> c = CHR ''0''" "\<not> c_isspace c" "c \<noteq> CHR ''x''" "c \<noteq> CHR ''X''"
      using hex_digit_facts [of n] by auto
  qed
  have "dropWhile c_isspace s = s" using d(2) by (cases s) auto
  moreover have "takeWhile (\<lambda>c. phexdigit c \<noteq> 0 \<or> c = CHR ''0'') s = s"
    using d(1) by (simp add: takeWhile_eq_all_conv)
  ultimately show ?thesis using d(3,4)
    by (auto simp: sethex_digits_def Let_def split: list.split)
qed

lemma GetHex_digits: "\<forall>c \<in> set (GetHex a). \<exists>n < 16. c = hex_digit n"
proof
  fix c assume "c \<in> set (GetHex a)"
  then obtain b :: byte where "c = hex_digit (unat b div 16) \<or> c = hex_digit (unat b mod 16)"
    by (auto simp: GetHex_rev hex2_def)
  moreover have "unat b div 16 < 16" "unat b mod 16 < 16" using byte_less [of b] by auto
  ultimately show "\<exists>n < 16. c = hex_digit n" by blast
qed

section \<open>Properties\<close>

text \<open>C23. The word loops are modular arithmetic: on arrays of the same width \<open>W > 0\<close>,
  \<open>+=\<close> (with its 64-bit carries), unary minus, \<open>-=\<close>, \<open>++\<close> and \<open>--\<close> compute the sum, the
  negation, the difference, the successor and the predecessor modulo \<open>2^(32*W)\<close>.\<close>

theorem base_uint_modular:
  assumes "length a = length b" and "a \<noteq> []"
  shows "uval (uadd a b) = (uval a + uval b) mod 2 ^ (32 * length a)
    \<and> uval (uneg a) = (2 ^ (32 * length a) - uval a) mod 2 ^ (32 * length a)
    \<and> uval (usub a b) = (uval a + (2 ^ (32 * length a) - uval b)) mod 2 ^ (32 * length a)
    \<and> uval (uinc a) = (uval a + 1) mod 2 ^ (32 * length a)
    \<and> uval (udec a) = (uval a + (2 ^ (32 * length a) - 1)) mod 2 ^ (32 * length a)"
  using uval_uadd [OF assms(1)] uval_uneg [OF assms(2)] uval_usub [OF assms] uval_uinc [OF assms(2)]
    uval_udec [OF assms(2)] by (intro conjI)

theorem base_uint_modular_witness:
  "uval (uadd (set64 8 0xffffffffffffffff) (set64 8 1))
     = (uval (set64 8 0xffffffffffffffff) + uval (set64 8 1)) mod 2 ^ (32 * length (set64 8 0xffffffffffffffff))"
proof -
  have l: "length (set64 8 0xffffffffffffffff) = length (set64 8 1)" by simp
  have n: "set64 8 0xffffffffffffffff \<noteq> []" by (simp add: set64_def)
  show ?thesis using base_uint_modular [OF l n] by (elim conjE)
qed

text \<open>The shift loops, which move bits across word boundaries, are multiplication and division
  by a power of two: \<open><<=\<close> gives the product modulo \<open>2^(32*W)\<close> and \<open>>>=\<close> the quotient, for
  every shift count and every width.\<close>

theorem base_uint_shifts:
  "uval (ushl a n) = uval a * 2 ^ n mod 2 ^ (32 * length a) \<and> uval (ushr a n) = uval a div 2 ^ n"
  by (simp only: uval_ushl uval_ushr)

text \<open>The comparison loops, from the most significant word down, are the comparisons of the
  numbers, for arrays of the same width.\<close>

theorem base_uint_comparisons:
  assumes "length a = length b"
  shows "(ult a b \<longleftrightarrow> uval a < uval b) \<and> (ule a b \<longleftrightarrow> uval a \<le> uval b)
    \<and> (ugt a b \<longleftrightarrow> uval a > uval b) \<and> (uge a b \<longleftrightarrow> uval a \<ge> uval b) \<and> (ueq a b \<longleftrightarrow> uval a = uval b)"
  using comparisons_uval [OF assms] by blast

theorem base_uint_comparisons_witness:
  "ult (set64 8 5) (set64 8 0x100000000) \<longleftrightarrow> uval (set64 8 5) < uval (set64 8 0x100000000)"
proof -
  have l: "length (set64 8 5) = length (set64 8 0x100000000)" by simp
  show ?thesis using base_uint_comparisons [OF l] by (elim conjE)
qed

text \<open>\<open>SetHex\<close> reads back what \<open>GetHex\<close> prints, for every value and width.\<close>

theorem SetHex_GetHex: "SetHex (length a) (GetHex a) = a"
proof -
  have "sethex_digits (GetHex a) = GetHex a" by (rule sethex_digits_hex [OF GetHex_digits])
  then show ?thesis
    using sethex_fill_hex2 [of "pn_bytes a"] bytes_pn_pn_bytes [of a]
    by (simp add: SetHex_def GetHex_rev)
qed

end
