(* ===== verification/Script.thy ===== *)
theory Script
  imports Prelude
begin

text \<open>
  Scripts (\<open>script/script.h\<close>): script numbers with their variable-length encoding and the checked
  arithmetic on them, the building of scripts from opcodes and data, the reading of instructions
  (\<open>GetOp2\<close>) and the loops over them (\<open>FindAndDelete\<close>, \<open>Find\<close>, \<open>IsPushOnly\<close>, \<open>ToString\<close>).
\<close>

section \<open>Opcodes\<close>

text \<open>
  \<open>opcodetype\<close> is an unscoped enum that also holds the direct pushes 1..75 and the unassigned codes,
  so it is an integer; the named opcodes the code refers to are abbreviations.
\<close>

type_synonym opcodetype = int

abbreviation (input) OP_0 :: opcodetype where "OP_0 \<equiv> 0x00"
abbreviation (input) OP_PUSHDATA1 :: opcodetype where "OP_PUSHDATA1 \<equiv> 0x4c"
abbreviation (input) OP_PUSHDATA2 :: opcodetype where "OP_PUSHDATA2 \<equiv> 0x4d"
abbreviation (input) OP_PUSHDATA4 :: opcodetype where "OP_PUSHDATA4 \<equiv> 0x4e"
abbreviation (input) OP_1 :: opcodetype where "OP_1 \<equiv> 0x51"
abbreviation (input) OP_16 :: opcodetype where "OP_16 \<equiv> 0x60"
abbreviation (input) OP_INVALIDOPCODE :: opcodetype where "OP_INVALIDOPCODE \<equiv> 0xff"

text \<open>The enum itself: every enumerator with its value, in the order of the declaration.\<close>

definition opcode_table :: "(string \<times> opcodetype) list" where
  "opcode_table = [
    (''OP_0'', 0x00), (''OP_FALSE'', 0x00), (''OP_PUSHDATA1'', 0x4c), (''OP_PUSHDATA2'', 0x4d),
    (''OP_PUSHDATA4'', 0x4e), (''OP_1NEGATE'', 0x4f), (''OP_RESERVED'', 0x50), (''OP_1'', 0x51),
    (''OP_TRUE'', 0x51), (''OP_2'', 0x52), (''OP_3'', 0x53), (''OP_4'', 0x54),
    (''OP_5'', 0x55), (''OP_6'', 0x56), (''OP_7'', 0x57), (''OP_8'', 0x58),
    (''OP_9'', 0x59), (''OP_10'', 0x5a), (''OP_11'', 0x5b), (''OP_12'', 0x5c),
    (''OP_13'', 0x5d), (''OP_14'', 0x5e), (''OP_15'', 0x5f), (''OP_16'', 0x60),
    (''OP_NOP'', 0x61), (''OP_VER'', 0x62), (''OP_IF'', 0x63), (''OP_NOTIF'', 0x64),
    (''OP_VERIF'', 0x65), (''OP_VERNOTIF'', 0x66), (''OP_ELSE'', 0x67), (''OP_ENDIF'', 0x68),
    (''OP_VERIFY'', 0x69), (''OP_RETURN'', 0x6a), (''OP_TOALTSTACK'', 0x6b), (''OP_FROMALTSTACK'', 0x6c),
    (''OP_2DROP'', 0x6d), (''OP_2DUP'', 0x6e), (''OP_3DUP'', 0x6f), (''OP_2OVER'', 0x70),
    (''OP_2ROT'', 0x71), (''OP_2SWAP'', 0x72), (''OP_IFDUP'', 0x73), (''OP_DEPTH'', 0x74),
    (''OP_DROP'', 0x75), (''OP_DUP'', 0x76), (''OP_NIP'', 0x77), (''OP_OVER'', 0x78),
    (''OP_PICK'', 0x79), (''OP_ROLL'', 0x7a), (''OP_ROT'', 0x7b), (''OP_SWAP'', 0x7c),
    (''OP_TUCK'', 0x7d), (''OP_CAT'', 0x7e), (''OP_SUBSTR'', 0x7f), (''OP_LEFT'', 0x80),
    (''OP_RIGHT'', 0x81), (''OP_SIZE'', 0x82), (''OP_INVERT'', 0x83), (''OP_AND'', 0x84),
    (''OP_OR'', 0x85), (''OP_XOR'', 0x86), (''OP_EQUAL'', 0x87), (''OP_EQUALVERIFY'', 0x88),
    (''OP_RESERVED1'', 0x89), (''OP_RESERVED2'', 0x8a), (''OP_1ADD'', 0x8b), (''OP_1SUB'', 0x8c),
    (''OP_2MUL'', 0x8d), (''OP_2DIV'', 0x8e), (''OP_NEGATE'', 0x8f), (''OP_ABS'', 0x90),
    (''OP_NOT'', 0x91), (''OP_0NOTEQUAL'', 0x92), (''OP_ADD'', 0x93), (''OP_SUB'', 0x94),
    (''OP_MUL'', 0x95), (''OP_DIV'', 0x96), (''OP_MOD'', 0x97), (''OP_LSHIFT'', 0x98),
    (''OP_RSHIFT'', 0x99), (''OP_BOOLAND'', 0x9a), (''OP_BOOLOR'', 0x9b), (''OP_NUMEQUAL'', 0x9c),
    (''OP_NUMEQUALVERIFY'', 0x9d), (''OP_NUMNOTEQUAL'', 0x9e), (''OP_LESSTHAN'', 0x9f), (''OP_GREATERTHAN'', 0xa0),
    (''OP_LESSTHANOREQUAL'', 0xa1), (''OP_GREATERTHANOREQUAL'', 0xa2), (''OP_MIN'', 0xa3), (''OP_MAX'', 0xa4),
    (''OP_WITHIN'', 0xa5), (''OP_RIPEMD160'', 0xa6), (''OP_SHA1'', 0xa7), (''OP_SHA256'', 0xa8),
    (''OP_HASH160'', 0xa9), (''OP_HASH256'', 0xaa), (''OP_CODESEPARATOR'', 0xab), (''OP_CHECKSIG'', 0xac),
    (''OP_CHECKSIGVERIFY'', 0xad), (''OP_CHECKMULTISIG'', 0xae), (''OP_CHECKMULTISIGVERIFY'', 0xaf), (''OP_NOP1'', 0xb0),
    (''OP_NOP2'', 0xb1), (''OP_NOP3'', 0xb2), (''OP_NOP4'', 0xb3), (''OP_NOP5'', 0xb4),
    (''OP_NOP6'', 0xb5), (''OP_NOP7'', 0xb6), (''OP_NOP8'', 0xb7), (''OP_NOP9'', 0xb8),
    (''OP_NOP10'', 0xb9), (''OP_SMALLDATA'', 0xf9), (''OP_SMALLINTEGER'', 0xfa), (''OP_PUBKEYS'', 0xfb),
    (''OP_PUBKEYHASH'', 0xfd), (''OP_PUBKEY'', 0xfe), (''OP_INVALIDOPCODE'', 0xff)]"

text \<open>Apart from the two aliases no two names share a value, and every value is a byte.\<close>

lemma opcode_table_distinct:
  "distinct (map snd (filter (\<lambda>(n, _). n \<notin> {''OP_FALSE'', ''OP_TRUE''}) opcode_table))"
  "\<forall>(n, v) \<in> set opcode_table. 0 \<le> v \<and> v \<le> 0xff"
  by code_simp+

definition MAX_SCRIPT_ELEMENT_SIZE :: nat where
  "MAX_SCRIPT_ELEMENT_SIZE = 520"

section \<open>Script numbers\<close>

text \<open>A \<open>CScriptNum\<close> is its \<open>m_value\<close>, an \<open>int64_t\<close>.\<close>

definition int64_max :: int where "int64_max = 2 ^ 63 - 1"
definition int64_min :: int where "int64_min = - (2 ^ 63)"

function vch_loop :: "u64 \<Rightarrow> bytes" where
  "vch_loop absvalue = (if absvalue = 0 then []
     else ucast (absvalue AND 0xff) # vch_loop (drop_bit 8 absvalue))"
  by auto
termination
proof (relation "measure unat")
  fix x :: u64 assume "x \<noteq> 0"
  then have "0 < unat x" by (simp add: unat_gt_0)
  moreover have "unat (drop_bit 8 x) = unat x div 2 ^ 8" by (simp only: unat_drop_bit_eq drop_bit_eq_div [of 8 "unat x"])
  ultimately show "(drop_bit 8 x, x) \<in> measure unat" by simp
qed simp

declare vch_loop.simps [simp del]

definition scriptnum_serialize :: "int \<Rightarrow> bytes" where
  "scriptnum_serialize value =
    (if value = 0 then []
     else
       let neg = value < 0;
           absvalue = word_of_int (if neg then - value else value) :: u64;
           result = vch_loop absvalue
       in if last result AND 0x80 \<noteq> 0 then result @ [if neg then 0x80 else 0]
          else if neg then butlast result @ [last result OR 0x80]
          else result)"

fun set_vch_loop :: "bytes \<Rightarrow> nat \<Rightarrow> u64 \<Rightarrow> u64" where
  "set_vch_loop [] i result = result"
| "set_vch_loop (v # vch) i result = set_vch_loop vch (i + 1) (result OR push_bit (8 * i) (ucast v))"

definition set_vch :: "bytes \<Rightarrow> int" where
  "set_vch vch =
    (if vch = [] then 0
     else
       let result = set_vch_loop vch 0 0
       in if last vch AND 0x80 \<noteq> 0
          then - sint (result AND NOT (push_bit (8 * (length vch - 1)) 0x80))
          else sint result)"

definition nMaxNumSize :: nat where "nMaxNumSize = 4"

definition CScriptNum :: "bytes \<Rightarrow> bool \<Rightarrow> int result" where
  "CScriptNum vch fRequireMinimal =
    (if length vch > nMaxNumSize then Inl (Thrown ''script number overflow'')
     else if fRequireMinimal \<and> length vch > 0 \<and> last vch AND 0x7f = 0 \<and>
        (length vch \<le> 1 \<or> vch ! (length vch - 2) AND 0x80 = 0)
       then Inl (Thrown ''non-minimally encoded script number'')
     else Inr (set_vch vch))"

definition scriptnum_neg :: "int \<Rightarrow> int result" where
  "scriptnum_neg m_value = (if m_value \<noteq> int64_min then Inr (- m_value) else Inl AssertFailed)"

definition scriptnum_add_eq :: "int \<Rightarrow> int \<Rightarrow> int result" where
  "scriptnum_add_eq m_value rhs =
    (if rhs = 0 \<or> (rhs > 0 \<and> m_value \<le> int64_max - rhs) \<or> (rhs < 0 \<and> m_value \<ge> int64_min - rhs)
     then Inr (m_value + rhs) else Inl AssertFailed)"

definition scriptnum_sub_eq :: "int \<Rightarrow> int \<Rightarrow> int result" where
  "scriptnum_sub_eq m_value rhs =
    (if rhs = 0 \<or> (rhs > 0 \<and> m_value \<ge> int64_min + rhs) \<or> (rhs < 0 \<and> m_value \<le> int64_max + rhs)
     then Inr (m_value - rhs) else Inl AssertFailed)"

definition getint :: "int \<Rightarrow> int" where
  "getint m_value =
    (if m_value > 2 ^ 31 - 1 then 2 ^ 31 - 1
     else if m_value < - (2 ^ 31) then - (2 ^ 31)
     else m_value)"

subsection \<open>Little-endian values\<close>

fun le_val :: "bytes \<Rightarrow> nat" where
  "le_val [] = 0"
| "le_val (b # bs) = unat b + 256 * le_val bs"

lemma le_val_append: "le_val (xs @ ys) = le_val xs + 256 ^ length xs * le_val ys"
  by (induction xs) (simp_all add: algebra_simps)

lemma le_val_less: "le_val xs < 256 ^ length xs"
proof (induction xs)
  case (Cons b xs)
  then have "le_val xs + 1 \<le> 256 ^ length xs" by simp
  then have "256 * (le_val xs + 1) \<le> 256 * 256 ^ length xs" by (rule mult_le_mono2)
  then show ?case using byte_less [of b] by simp
qed simp

lemma le_val_inj: "length xs = length ys \<Longrightarrow> le_val xs = le_val ys \<Longrightarrow> xs = ys"
proof (induction xs ys rule: list_induct2)
  case (Cons x xs y ys)
  have "unat x = le_val (x # xs) mod 256" "unat y = le_val (y # ys) mod 256" using byte_less by simp_all
  then have "x = y" using Cons.prems by (metis word_unat_eq_iff)
  then show ?case using Cons by simp
qed simp

lemma unat_vch_step: "unat (drop_bit 8 (x :: u64)) = unat x div 256" "unat (ucast (x AND 0xff) :: byte) = unat x mod 256"
proof -
  show "unat (drop_bit 8 x) = unat x div 256" by (simp only: unat_drop_bit_eq drop_bit_eq_div [of 8 "unat x"]) simp
  have "0xff = (mask 8 :: u64)" by (simp add: mask_eq_exp_minus_1)
  then have "x AND 0xff = take_bit 8 x" by (simp only: take_bit_eq_mask)
  then have "(ucast (x AND 0xff) :: byte) = ucast (take_bit 8 x)" by (simp only:)
  also have "\<dots> = ucast x" by (rule bit_word_eqI) (auto simp: bit_simps)
  finally show "unat (ucast (x AND 0xff) :: byte) = unat x mod 256" by (simp add: unsigned_ucast_eq take_bit_eq_mod)
qed

lemma vch_loop_0 [simp]: "vch_loop 0 = []" by (subst vch_loop.simps) simp

lemma vch_loop_step: "x \<noteq> 0 \<Longrightarrow> vch_loop x = ucast (x AND 0xff) # vch_loop (drop_bit 8 x)"
  by (subst vch_loop.simps) simp

lemma le_val_vch_loop: "le_val (vch_loop x) = unat x"
proof (induction x rule: vch_loop.induct)
  case (1 x)
  then show ?case by (cases "x = 0") (simp_all add: vch_loop_step unat_vch_step)
qed

text \<open>Byte strings without a trailing zero byte.\<close>

definition no_pad :: "bytes \<Rightarrow> bool" where
  "no_pad bs \<longleftrightarrow> bs = [] \<or> last bs \<noteq> 0"

lemma no_pad_Cons: "no_pad (b # bs) \<longleftrightarrow> (if bs = [] then b \<noteq> 0 else no_pad bs)"
  by (simp add: no_pad_def)

lemma no_pad_vch_loop: "no_pad (vch_loop x)"
proof (induction x rule: vch_loop.induct)
  case (1 x)
  show ?case
  proof (cases "x = 0")
    case False
    have "vch_loop (drop_bit 8 x) = [] \<Longrightarrow> ucast (x AND 0xff) \<noteq> (0 :: byte)"
    proof
      assume "vch_loop (drop_bit 8 x) = []" "ucast (x AND 0xff) = (0 :: byte)"
      then have "unat x div 256 = 0" "unat x mod 256 = 0"
        using le_val_vch_loop [of "drop_bit 8 x"] unat_vch_step [of x] by simp_all
      then have "unat x = 0" by (metis div_mult_mod_eq add_0 mult_0)
      then show False using False by (metis unat_eq_zero)
    qed
    then show ?thesis using 1 False by (simp add: vch_loop_step no_pad_Cons)
  qed (simp add: no_pad_def)
qed

lemma no_pad_pos: "no_pad bs \<Longrightarrow> bs \<noteq> [] \<Longrightarrow> 0 < le_val bs"
proof (induction bs)
  case (Cons b bs)
  show ?case
  proof (cases "bs = []")
    case True
    then have "b \<noteq> 0" using Cons.prems by (simp add: no_pad_def)
    then show ?thesis using True by (simp add: unat_gt_0)
  qed (use Cons in \<open>simp add: no_pad_Cons\<close>)
qed simp

lemma le_val_Cons_eq: "le_val (x # xs) = le_val (y # ys) \<Longrightarrow> x = y \<and> le_val xs = le_val ys"
proof -
  assume a: "le_val (x # xs) = le_val (y # ys)"
  have h: "le_val (b # bs) mod 256 = unat b" for b bs
    unfolding le_val.simps mod_mult_self2 by (rule mod_less [OF byte_less])
  have u: "unat x = unat y" using arg_cong [OF a, of "\<lambda>n. n mod 256"] unfolding h .
  show ?thesis
  proof
    show "x = y" by (rule iffD2 [OF word_unat_eq_iff u])
    show "le_val xs = le_val ys" using a u unfolding le_val.simps by linarith
  qed
qed

lemma no_pad_unique: "no_pad xs \<Longrightarrow> no_pad ys \<Longrightarrow> le_val xs = le_val ys \<Longrightarrow> xs = ys"
proof (induction xs arbitrary: ys)
  case Nil
  then show ?case using no_pad_pos [of ys] by (cases "ys = []") simp_all
next
  case (Cons x xs)
  have "ys \<noteq> []" using no_pad_pos [OF Cons.prems(1)] Cons.prems(3) by auto
  then obtain y ys' where ys: "ys = y # ys'" by (cases ys) auto
  have "x = y \<and> le_val xs = le_val ys'" by (rule le_val_Cons_eq [OF Cons.prems(3) [unfolded ys]])
  moreover have "no_pad xs" using Cons.prems(1) by (cases xs) (simp_all add: no_pad_def)
  moreover have "no_pad ys'" using Cons.prems(2) by (cases ys') (simp_all add: no_pad_def ys)
  ultimately show ?case using Cons.IH ys by blast
qed

lemma vch_loop_le_val:
  assumes "no_pad bs" "length bs \<le> 8"
  shows "vch_loop (of_nat (le_val bs)) = bs"
proof -
  have "(256 :: nat) ^ length bs \<le> 256 ^ 8" using assms(2) by (intro power_increasing) simp_all
  then have "le_val bs < 2 ^ 64" using le_val_less [of bs] by simp
  then have "unat (of_nat (le_val bs) :: u64) = le_val bs" by (simp add: unat_of_nat)
  then show ?thesis using no_pad_unique [OF no_pad_vch_loop assms(1)] by (simp add: le_val_vch_loop)
qed

lemma nat_or_push: "(a :: nat) < 2 ^ k \<Longrightarrow> a OR push_bit k b = a + 2 ^ k * b"
proof -
  assume "a < 2 ^ k"
  then have "take_bit k a = a" by (simp add: take_bit_nat_eq_self)
  moreover have "take_bit k a AND push_bit k b = 0" by (rule bit_eqI) (auto simp: bit_simps)
  ultimately show ?thesis using disjunctive_add_eq_or [of a "push_bit k b"] by (simp add: push_bit_eq_mult ac_simps)
qed

lemma unat_set_vch_loop:
  "unat r < 256 ^ i \<Longrightarrow> i + length vch \<le> 8 \<Longrightarrow> unat (set_vch_loop vch i r) = unat r + 256 ^ i * le_val vch"
proof (induction vch arbitrary: i r)
  case (Cons v vch)
  have e: "(256 :: nat) ^ i = 2 ^ (8 * i)" for i by (simp add: power_mult)
  have "2 ^ (8 * i) * unat v < 2 ^ (8 * i) * 256" using byte_less [of v] by simp
  also have "\<dots> = (2 :: nat) ^ (8 * i + 8)" by (simp add: power_add)
  also have "\<dots> \<le> 2 ^ 64" using Cons.prems(2) by (intro power_increasing) simp_all
  finally have "push_bit (8 * i) (unat v) < 2 ^ 64" by (simp add: push_bit_eq_mult ac_simps)
  then have "unat (push_bit (8 * i) (ucast v) :: u64) = push_bit (8 * i) (unat v)"
    using byte_less [of v] by (simp add: unsigned_push_bit_eq take_bit_nat_eq_self unsigned_ucast_eq)
  then have s: "unat (r OR push_bit (8 * i) (ucast v)) = unat r + 256 ^ i * unat v"
    using Cons.prems(1) by (simp add: unsigned_or_eq nat_or_push e)
  have "unat r + 256 ^ i * unat v < 256 ^ i * (unat v + 1)" using Cons.prems(1) by simp
  also have "\<dots> \<le> 256 ^ i * 256" using byte_less [of v] by (intro mult_le_mono2) simp
  finally have "unat (r OR push_bit (8 * i) (ucast v)) < 256 ^ i * 256" unfolding s .
  then have "unat (r OR push_bit (8 * i) (ucast v)) < 256 ^ (i + 1)" by (simp only: power_add power_one_right)
  define r' where "r' = (r OR push_bit (8 * i) (ucast v))"
  have "unat (set_vch_loop vch (i + 1) r') = unat r' + 256 ^ (i + 1) * le_val vch"
    using Cons.IH [of r' "i + 1"] Cons.prems(2) \<open>unat _ < 256 ^ (i + 1)\<close> by (simp add: r'_def)
  moreover have "unat r' = unat r + 256 ^ i * unat v" unfolding r'_def s ..
  ultimately show ?case unfolding set_vch_loop.simps r'_def [symmetric] by (simp add: algebra_simps)
qed simp

subsection \<open>The sign bit\<close>

definition byte_facts :: "byte \<Rightarrow> bool" where
  "byte_facts b \<longleftrightarrow> (b AND 0x80 \<noteq> 0) = (128 \<le> unat b) \<and> (b AND 0x7f = 0) = (unat b mod 128 = 0) \<and>
     unat (b OR 0x80) = unat b mod 128 + 128"

lemma byte_facts_all: "list_all (\<lambda>n. byte_facts (word_of_int n)) [0..255]"
  by code_simp

lemma byte_facts: "byte_facts b"
proof -
  have "uint b \<in> set [0..255]" using uint_lt2p [of b] by simp
  then have "byte_facts (word_of_int (uint b))" using byte_facts_all unfolding list_all_iff by blast
  then show ?thesis unfolding word_of_int_uint .
qed

lemma byte_sign:
  fixes b :: byte
  shows "b AND 0x80 \<noteq> 0 \<longleftrightarrow> 128 \<le> unat b"
    and "b AND 0x7f = 0 \<longleftrightarrow> unat b mod 128 = 0"
    and "unat (b OR 0x80) = unat b mod 128 + 128"
  using byte_facts [of b] by (simp_all only: byte_facts_def)

lemma sint_small: "unat (w :: u64) < 2 ^ 63 \<Longrightarrow> sint w = int (unat w)"
proof -
  assume a: "unat w < 2 ^ 63"
  have u: "uint w = int (unat w)" by (rule of_nat_unat [symmetric])
  have "int (unat w) < int (2 ^ 63)" using a by (simp only: of_nat_less_iff)
  then have "int (unat w) < 2 ^ 63" by simp
  moreover have "- (2 ^ 63) \<le> int (unat w)" by (rule order_trans [of _ 0]) simp_all
  ultimately have "signed_take_bit 63 (int (unat w)) = int (unat w)" by (intro signed_take_bit_int_eq_self)
  moreover have "sint w = signed_take_bit (LENGTH(64) - Suc 0) (uint w)" by (rule sint_uint)
  ultimately show ?thesis unfolding u by simp
qed

lemma unat_push_1: "n < 64 \<Longrightarrow> unat (push_bit n 1 :: u64) = 2 ^ n"
proof -
  assume n: "n < 64"
  have "unat (push_bit n 1 :: u64) = take_bit 64 (push_bit n (unat (1 :: u64)))" by (simp only: unsigned_push_bit_eq) simp
  also have "push_bit n (unat (1 :: u64)) = 2 ^ n" by (simp add: push_bit_eq_mult)
  also have "take_bit 64 (2 ^ n) = (2 :: nat) ^ n" using n by (intro take_bit_nat_eq_self power_strict_increasing) simp_all
  finally show ?thesis .
qed

lemma vch_parts_less:
  assumes "length ms \<le> 7" "t < 256"
  shows "le_val ms + 256 ^ length ms * t < 256 ^ length ms * (t + 1)" "256 ^ length ms * (t + 1) \<le> 2 ^ 56 * (t + 1)"
proof -
  show "le_val ms + 256 ^ length ms * t < 256 ^ length ms * (t + 1)" using le_val_less [of ms] by simp
  have "(256 :: nat) ^ length ms \<le> 256 ^ 7" using assms(1) by (intro power_increasing) simp_all
  then show "256 ^ length ms * (t + 1) \<le> 2 ^ 56 * (t + 1)" by (intro mult_le_mono1) simp
qed

lemma set_vch_snoc:
  assumes "length ms \<le> 7"
  shows "set_vch (ms @ [t]) = (if 128 \<le> unat t then -1 else 1) * int (le_val ms + 256 ^ length ms * (unat t mod 128))"
proof -
  let ?m = "length ms"
  define R where "R = set_vch_loop (ms @ [t]) 0 0"
  have R: "unat R = le_val ms + 256 ^ ?m * unat t"
    using unat_set_vch_loop [of 0 0 "ms @ [t]"] assms by (simp add: R_def le_val_append)
  show ?thesis
  proof (cases "128 \<le> unat t")
    case False
    have "256 ^ ?m * (unat t + 1) \<le> 2 ^ 56 * (unat t + 1)" by (rule vch_parts_less(2) [OF assms byte_less])
    also have "\<dots> \<le> 2 ^ 56 * 128" using False by (intro mult_le_mono2) simp
    finally have "unat R < 2 ^ 63" using vch_parts_less(1) [OF assms byte_less, of t] unfolding R by simp
    then have "sint R = int (unat R)" by (rule sint_small)
    then show ?thesis using False by (simp add: set_vch_def byte_sign R_def [symmetric] R)
  next
    case True
    let ?P = "push_bit (8 * ?m) 0x80 :: u64"
    have e: "(0x80 :: u64) = push_bit 7 1" by simp
    have P: "?P = push_bit (8 * ?m + 7) 1" unfolding e push_bit_push_bit ..
    have k: "(2 :: nat) ^ (8 * ?m + 7) = 256 ^ ?m * 128" by (simp add: power_add power_mult)
    have uP: "unat ?P = 256 ^ ?m * 128"
      unfolding P k [symmetric] using assms by (intro unat_push_1) simp
    have "unat R div (256 ^ ?m * 128) = 1"
      unfolding R div_mult2_eq using le_val_less [of ms] True byte_less [of t] by simp
    then have "bit (unat R) (8 * ?m + 7)" unfolding bit_iff_odd k by simp
    then have "bit R (8 * ?m + 7)" by (simp add: bit_unsigned_iff)
    then have "\<And>n. bit ?P n \<Longrightarrow> bit R n" unfolding P by (auto simp: bit_simps)
    then have d: "R AND NOT ?P = R - ?P" by (rule disjunctive_diff [symmetric])
    have "256 ^ ?m * 128 \<le> 256 ^ ?m * unat t" using True by (rule mult_le_mono2)
    then have "?P \<le> R" unfolding word_le_nat_alt uP R by (rule trans_le_add2)
    then have "unat (R AND NOT ?P) = unat R - 256 ^ ?m * 128" unfolding d by (simp only: unat_sub uP)
    also have "\<dots> = le_val ms + 256 ^ ?m * (unat t - 128)" using True unfolding R by (simp add: diff_mult_distrib2)
    also have "unat t - 128 = unat t mod 128" using True byte_less [of t] by (simp add: mod_if)
    finally have u: "unat (R AND NOT ?P) = le_val ms + 256 ^ ?m * (unat t mod 128)" .
    have m: "unat t mod 128 < 256" by (rule less_trans [of _ 128]) simp_all
    have "256 ^ ?m * (unat t mod 128 + 1) \<le> 2 ^ 56 * (unat t mod 128 + 1)" by (rule vch_parts_less(2) [OF assms m])
    also have "\<dots> \<le> 2 ^ 56 * 128" by (intro mult_le_mono2) simp
    finally have "unat (R AND NOT ?P) < 2 ^ 63" using vch_parts_less(1) [OF assms m] unfolding u by simp
    then have "sint (R AND NOT ?P) = int (unat (R AND NOT ?P))" by (rule sint_small)
    then show ?thesis using True by (simp add: set_vch_def byte_sign R_def [symmetric] u)
  qed
qed

definition min_enc :: "bytes \<Rightarrow> bool" where
  "min_enc vch \<longleftrightarrow> vch = [] \<or> \<not> (last vch AND 0x7f = 0 \<and> (length vch \<le> 1 \<or> vch ! (length vch - 2) AND 0x80 = 0))"

lemma min_enc_snoc:
  "min_enc (ms @ [t]) \<longleftrightarrow> unat t mod 128 \<noteq> 0 \<or> ms \<noteq> [] \<and> 128 \<le> unat (last ms)"
proof (cases ms rule: rev_cases)
  case Nil
  then show ?thesis by (simp add: min_enc_def byte_sign(2))
next
  case (snoc xs x)
  have "x AND 0x80 = 0 \<longleftrightarrow> \<not> 128 \<le> unat x" using byte_sign(1) [of x] by blast
  then show ?thesis by (simp add: snoc min_enc_def byte_sign(2) nth_append)
qed

lemma serialize_pos:
  assumes "no_pad rs" "rs \<noteq> []" "length rs \<le> 8" "v = (if neg then -1 else 1) * int (le_val rs)"
  shows "scriptnum_serialize v = (if 128 \<le> unat (last rs) then rs @ [if neg then 0x80 else 0]
     else if neg then butlast rs @ [last rs OR 0x80] else rs)"
proof -
  have p: "0 < le_val rs" using no_pad_pos [OF assms(1,2)] .
  have n: "v < 0 \<longleftrightarrow> neg" "v \<noteq> 0" using p by (simp_all add: assms(4))
  have "word_of_int (if neg then - v else v) = (of_nat (le_val rs) :: u64)" by (simp add: assms(4))
  then have "vch_loop (word_of_int (if neg then - v else v)) = rs" using vch_loop_le_val [OF assms(1,3)] by (simp only:)
  then show ?thesis using n(2) by (simp only: scriptnum_serialize_def Let_def byte_sign(1) n(1) if_False)
qed

lemma byte_eq: "unat x = unat y \<Longrightarrow> x = y" for x y :: byte
  by (rule iffD2 [OF word_unat_eq_iff])

lemma byte_split: "unat (t :: byte) = unat t mod 128 + (if 128 \<le> unat t then 128 else 0)"
  using byte_less [of t] by (cases "128 \<le> unat t") (simp_all add: le_mod_geq)

lemma serialize_set_vch:
  assumes "min_enc vch" "length vch \<le> 8"
  shows "scriptnum_serialize (set_vch vch) = vch"
proof (cases vch rule: rev_cases)
  case Nil
  then show ?thesis by (simp add: set_vch_def scriptnum_serialize_def)
next
  case (snoc ms t)
  let ?q = "unat t mod 128" and ?neg = "128 \<le> unat t"
  have l: "length ms \<le> 7" using assms(2) snoc by simp
  have v: "set_vch vch = (if ?neg then -1 else 1) * int (le_val ms + 256 ^ length ms * ?q)"
    unfolding snoc by (rule set_vch_snoc [OF l])
  show ?thesis
  proof (cases "?q = 0")
    case True
    then have m: "ms \<noteq> []" "128 \<le> unat (last ms)" using assms(1) by (simp_all add: snoc min_enc_snoc)
    then have "no_pad ms" by (auto simp: no_pad_def)
    then have "scriptnum_serialize (set_vch vch) = ms @ [if ?neg then 0x80 else 0]"
      using serialize_pos [OF _ m(1), of "set_vch vch" ?neg] l m(2) v True by simp
    moreover have "t = (if ?neg then 0x80 else 0)"
      using byte_split [of t] True by (intro byte_eq) (cases ?neg, simp_all)
    ultimately show ?thesis using snoc by simp
  next
    case False
    let ?t = "of_nat ?q :: byte"
    have q: "?q < 128" by simp
    then have "?q < 2 ^ LENGTH(8)" by simp
    then have u: "unat ?t = ?q" unfolding unat_of_nat by (rule mod_less)
    then have t0: "?t \<noteq> 0" using False by (metis unsigned_0)
    have np: "no_pad (ms @ [?t])" using t0 by (simp add: no_pad_def)
    have "set_vch vch = (if ?neg then -1 else 1) * int (le_val (ms @ [?t]))" unfolding v by (simp add: le_val_append u)
    then have s: "scriptnum_serialize (set_vch vch) = (if ?neg then ms @ [?t OR 0x80] else ms @ [?t])"
      using serialize_pos [OF np, of "set_vch vch" ?neg] l u q by simp
    have "?neg \<Longrightarrow> ?t OR 0x80 = t"
      by (rule byte_eq) (use byte_split [of t] in \<open>simp only: byte_sign(3) u mod_mod_trivial if_True\<close>)
    moreover have "\<not> ?neg \<Longrightarrow> ?t = t"
      using byte_split [of t] u by (intro byte_eq) (simp only: if_False add_0_right)
    ultimately show ?thesis unfolding s by (auto simp: snoc)
  qed
qed

lemma set_vch_serialize:
  assumes "n \<noteq> 0" "int64_min < n" "n \<le> int64_max"
  shows "set_vch (scriptnum_serialize n) = n" "min_enc (scriptnum_serialize n)" "length (scriptnum_serialize n) \<le> 8"
    "nat \<bar>n\<bar> < 256 ^ k * 128 \<Longrightarrow> length (scriptnum_serialize n) \<le> k + 1"
proof -
  let ?a = "nat \<bar>n\<bar>"
  define rs where "rs = vch_loop (of_nat ?a)"
  have a: "?a < 2 ^ 63" "0 < ?a" using assms by (auto simp: int64_min_def int64_max_def)
  have val: "le_val rs = ?a" unfolding rs_def le_val_vch_loop unat_of_nat using a(1) by (intro mod_less) simp
  have np: "no_pad rs" unfolding rs_def by (rule no_pad_vch_loop)
  have ne: "rs \<noteq> []" using val a(2) by auto
  then obtain ms t where rs: "rs = ms @ [t]" by (cases rs rule: rev_cases) auto
  have t: "0 < unat t" using np by (simp add: rs no_pad_def unat_gt_0)
  have ge: "256 ^ length ms * unat t \<le> ?a" using val by (simp add: rs le_val_append)
  have bound: "length ms < j" if "?a < 256 ^ j" for j
  proof (rule ccontr)
    assume "\<not> length ms < j"
    then have "(256 :: nat) ^ j \<le> 256 ^ length ms" by (intro power_increasing) simp_all
    also have "\<dots> \<le> 256 ^ length ms * unat t" using t by simp
    finally show False using ge that by simp
  qed
  have big: "length ms < j" if "?a < 256 ^ j * 128" "128 \<le> unat t" for j
  proof (rule ccontr)
    assume "\<not> length ms < j"
    then have "(256 :: nat) ^ j \<le> 256 ^ length ms" by (intro power_increasing) simp_all
    then have "256 ^ j * 128 \<le> 256 ^ length ms * unat t" using that(2) by (rule mult_le_mono)
    then show False using ge that(1) by simp
  qed
  have l8: "length ms \<le> 7" using bound [of 8] a(1) by simp
  have v: "n = (if n < 0 then -1 else 1) * int (le_val rs)" unfolding val by simp
  have s: "scriptnum_serialize n = (if 128 \<le> unat t then rs @ [if n < 0 then 0x80 else 0]
     else if n < 0 then ms @ [t OR 0x80] else rs)"
    using serialize_pos [OF np ne _ v] l8 by (simp add: rs)
  have k: "length (scriptnum_serialize n) \<le> k + 1" if "?a < 256 ^ k * 128" for k
  proof (cases "128 \<le> unat t")
    case True
    then show ?thesis using big [OF that] by (simp add: s rs)
  next
    case False
    have "(256 :: nat) ^ k * 128 < 256 ^ (k + 1)" by simp
    then show ?thesis using bound [of "k + 1"] that False by (simp add: s rs)
  qed
  show "?a < 256 ^ k * 128 \<Longrightarrow> length (scriptnum_serialize n) \<le> k + 1" by (rule k)
  show len: "length (scriptnum_serialize n) \<le> 8" using k [of 7] a(1) by simp
  show "set_vch (scriptnum_serialize n) = n"
  proof (cases "128 \<le> unat t")
    case True
    then have "length rs \<le> 7" using len by (simp add: s)
    from set_vch_snoc [OF this] show ?thesis using True v by (auto simp: s)
  next
    case False
    then show ?thesis using set_vch_snoc [OF l8] v val by (auto simp: s rs le_val_append byte_sign(3))
  qed
  show "min_enc (scriptnum_serialize n)"
  proof (cases "128 \<le> unat t")
    case True
    then show ?thesis using ne by (simp add: s min_enc_snoc) (simp add: rs)
  next
    case False
    then show ?thesis using t by (simp add: s rs min_enc_snoc byte_sign(3))
  qed
qed

lemma CScriptNum_iff:
  "CScriptNum vch True = Inr n \<longleftrightarrow> length vch \<le> 4 \<and> min_enc vch \<and> set_vch vch = n"
  by (auto simp: CScriptNum_def nMaxNumSize_def min_enc_def)

lemma CScriptNum_range:
  assumes "length vch \<le> 4" shows "\<bar>set_vch vch\<bar> < 2 ^ 31"
proof (cases vch rule: rev_cases)
  case (snoc ms t)
  then have l: "length ms \<le> 3" using assms by simp
  have "(256 :: nat) ^ length ms \<le> 256 ^ 3" using l by (intro power_increasing) simp_all
  then have "256 ^ length ms * (unat t mod 128 + 1) \<le> 256 ^ 3 * 128" by (intro mult_le_mono) auto
  then have "le_val ms + 256 ^ length ms * (unat t mod 128) < 2 ^ 31" using le_val_less [of ms] by simp
  then have "int (le_val ms + 256 ^ length ms * (unat t mod 128)) < int (2 ^ 31)" by (simp only: of_nat_less_iff)
  moreover define X where "X = int (le_val ms + 256 ^ length ms * (unat t mod 128))"
  ultimately have X: "0 \<le> X" "X < 2 ^ 31" by simp_all
  have "set_vch vch = (if 128 \<le> unat t then -1 else 1) * X" unfolding snoc X_def using l by (intro set_vch_snoc) simp
  then show ?thesis using X by (cases "128 \<le> unat t") simp_all
qed (simp add: set_vch_def)

text \<open>C12. With the minimality check on, a byte string is accepted as the script number \<open>n\<close> exactly when \<open>n\<close> has
  at most 31 bits and the bytes are what \<open>serialize\<close> writes for \<open>n\<close>: decoding inverts encoding, every
  operand has one encoding, negative zero and padded numbers are rejected.\<close>
theorem CScriptNum_canonical:
  "CScriptNum vch True = Inr n \<longleftrightarrow> \<bar>n\<bar> < 2 ^ 31 \<and> vch = scriptnum_serialize n"
proof
  assume "CScriptNum vch True = Inr n"
  then have *: "length vch \<le> 4" "min_enc vch" "set_vch vch = n" by (simp_all add: CScriptNum_iff)
  then show "\<bar>n\<bar> < 2 ^ 31 \<and> vch = scriptnum_serialize n"
    using CScriptNum_range [OF *(1)] serialize_set_vch [OF *(2)] by auto
next
  assume a: "\<bar>n\<bar> < 2 ^ 31 \<and> vch = scriptnum_serialize n"
  show "CScriptNum vch True = Inr n"
  proof (cases "n = 0")
    case True
    then show ?thesis using a by (simp add: CScriptNum_iff scriptnum_serialize_def min_enc_def set_vch_def)
  next
    case False
    have r: "int64_min < n" "n \<le> int64_max" using a by (auto simp: int64_min_def int64_max_def)
    have "nat \<bar>n\<bar> < 256 ^ 3 * 128" using a by (simp add: nat_less_iff)
    then have "length vch \<le> 4" using set_vch_serialize(4) [OF False r, of 3] a by simp
    then show ?thesis using set_vch_serialize(1,2) [OF False r] a by (simp add: CScriptNum_iff)
  qed
qed

text \<open>Arithmetic on decoded operands never trips the overflow assertions of \<open>+=\<close>, \<open>-=\<close> and unary minus and
  gives the mathematical result, which encodes in at most five bytes and decodes back, and \<open>getint\<close> of
  an operand does not clamp it.\<close>
theorem scriptnum_arith_safe:
  assumes "CScriptNum x f = Inr a" "CScriptNum y g = Inr b"
  shows "scriptnum_add_eq a b = Inr (a + b) \<and> scriptnum_sub_eq a b = Inr (a - b) \<and> scriptnum_neg a = Inr (- a) \<and>
    getint a = a \<and> (\<forall>n \<in> {a + b, a - b, - a}. length (scriptnum_serialize n) \<le> 5 \<and> set_vch (scriptnum_serialize n) = n)"
proof -
  have ab: "\<bar>a\<bar> < 2 ^ 31" "\<bar>b\<bar> < 2 ^ 31"
    using assms CScriptNum_range [of x] CScriptNum_range [of y] by (auto simp: CScriptNum_def nMaxNumSize_def split: if_splits)
  have enc: "length (scriptnum_serialize n) \<le> 5 \<and> set_vch (scriptnum_serialize n) = n" if "\<bar>n\<bar> < 2 ^ 32" for n
  proof (cases "n = 0")
    case False
    have r: "int64_min < n" "n \<le> int64_max" using that by (auto simp: int64_min_def int64_max_def)
    have "nat \<bar>n\<bar> < 256 ^ 4 * 128" using that by (simp add: nat_less_iff)
    then show ?thesis using set_vch_serialize(4) [OF False r, of 4] set_vch_serialize(1) [OF False r] by simp
  qed (simp add: scriptnum_serialize_def set_vch_def)
  have "\<bar>a + b\<bar> < 2 ^ 32" "\<bar>a - b\<bar> < 2 ^ 32" "\<bar>- a\<bar> < 2 ^ 32" using ab by auto
  then have "\<forall>n \<in> {a + b, a - b, - a}. length (scriptnum_serialize n) \<le> 5 \<and> set_vch (scriptnum_serialize n) = n"
    using enc by blast
  moreover have r: "- 2147483648 < a" "a < 2147483648" "- 2147483648 < b" "b < 2147483648" using ab by auto
  have "scriptnum_add_eq a b = Inr (a + b)" using r by (auto simp: scriptnum_add_eq_def int64_min_def int64_max_def)
  moreover have "scriptnum_sub_eq a b = Inr (a - b)" using r by (auto simp: scriptnum_sub_eq_def int64_min_def int64_max_def)
  moreover have "scriptnum_neg a = Inr (- a)" "getint a = a" using r by (auto simp: scriptnum_neg_def getint_def int64_min_def)
  ultimately show ?thesis by blast
qed

theorem scriptnum_arith_safe_witness:
  "scriptnum_add_eq 2147483647 (- 255) = Inr 2147483392 \<and> scriptnum_neg 2147483647 = Inr (- 2147483647)"
proof -
  have "CScriptNum [0xff, 0xff, 0xff, 0x7f] True = Inr 2147483647" "CScriptNum [0xff, 0x80] True = Inr (- 255)"
    by code_simp+
  from scriptnum_arith_safe [OF this] show ?thesis by simp
qed

section \<open>Building scripts\<close>

text \<open>Appending an opcode and appending data with the shortest of the four length forms.\<close>

definition push_opcode :: "bytes \<Rightarrow> opcodetype \<Rightarrow> bytes result" where
  "push_opcode this opcode =
    (if opcode < 0 \<or> opcode > 0xff then Inl (Thrown ''CScript::operator<<() : invalid opcode'')
     else Inr (this @ [word_of_int opcode]))"

text \<open>The bytes of an unsigned integer in memory, least significant first.\<close>

fun le_bytes :: "nat \<Rightarrow> nat \<Rightarrow> bytes" where
  "le_bytes 0 n = []"
| "le_bytes (Suc k) n = of_nat (n mod 256) # le_bytes k (n div 256)"

definition push_data :: "bytes \<Rightarrow> bytes \<Rightarrow> bytes" where
  "push_data this b =
    (if length b < 0x4c then this @ [of_nat (length b)] @ b
     else if length b \<le> 0xff then this @ [0x4c] @ [of_nat (length b)] @ b
     else if length b \<le> 0xffff then this @ [0x4d] @ le_bytes 2 (length b) @ b
     else this @ [0x4e] @ le_bytes 4 (length b) @ b)"

definition script_append :: "bytes \<Rightarrow> bytes \<Rightarrow> bytes" where
  "script_append a b = a @ b"

definition push_script :: "bytes \<Rightarrow> bytes \<Rightarrow> bytes result" where
  "push_script this b = Inl AssertFailed"

definition DecodeOP_N :: "opcodetype \<Rightarrow> int result" where
  "DecodeOP_N opcode =
    (if opcode = OP_0 then Inr 0
     else if opcode \<ge> OP_1 \<and> opcode \<le> OP_16 then Inr (opcode - (OP_1 - 1))
     else Inl AssertFailed)"

definition EncodeOP_N :: "int \<Rightarrow> opcodetype result" where
  "EncodeOP_N n =
    (if n \<ge> 0 \<and> n \<le> 16 then (if n = 0 then Inr OP_0 else Inr (OP_1 + n - 1))
     else Inl AssertFailed)"

section \<open>Reading scripts\<close>

text \<open>
  \<open>GetOp2\<close>: whether an instruction was read, the iterator afterwards (it is a reference: a failed read
  leaves it where it got to), the opcode and the pushed bytes.
\<close>

definition GetOp2 :: "bytes \<Rightarrow> nat \<Rightarrow> bool \<times> nat \<times> opcodetype \<times> bytes" where
  "GetOp2 this pc =
    (if pc \<ge> length this then (False, pc, OP_INVALIDOPCODE, [])
     else
       let opcode = uint (this ! pc); pc = pc + 1 in
       if opcode \<le> OP_PUSHDATA4 then
         let r = (if opcode < OP_PUSHDATA1 then Some (nat opcode, pc)
                  else if opcode = OP_PUSHDATA1 then
                    (if length this - pc < 1 then None else Some (unat (this ! pc), pc + 1))
                  else if opcode = OP_PUSHDATA2 then
                    (if length this - pc < 2 then None else Some (le_val (subbytes pc 2 this), pc + 2))
                  else (if length this - pc < 4 then None else Some (le_val (subbytes pc 4 this), pc + 4)))
         in (case r of
               None \<Rightarrow> (False, pc, OP_INVALIDOPCODE, [])
             | Some (nSize, pc) \<Rightarrow>
                 if length this - pc < nSize then (False, pc, OP_INVALIDOPCODE, [])
                 else (True, pc + nSize, opcode, subbytes pc nSize this))
       else (True, pc, opcode, []))"

lemma GetOp2_progress:
  "GetOp2 this pc = (True, pc', opcode, vch) \<Longrightarrow> pc < pc' \<and> pc' \<le> length this"
  by (auto simp: GetOp2_def Let_def split: if_splits)

lemma GetOp2_dec: "(True, pc', opcode, vch) = GetOp2 this pc \<Longrightarrow> length this - pc' < length this - pc"
  using GetOp2_progress [OF sym] by (metis diff_less_mono2 less_le_trans)

text \<open>\<open>FindAndDelete\<close>: the inner loop erases copies of \<open>b\<close> at \<open>pc\<close>, the outer one steps over an instruction.\<close>

function fd_erase :: "bytes \<Rightarrow> nat \<Rightarrow> bytes \<Rightarrow> nat \<Rightarrow> bytes \<times> nat" where
  "fd_erase b pc s nFound =
    (if b \<noteq> [] \<and> length s - pc \<ge> length b \<and> subbytes pc (length b) s = b then
       fd_erase b pc (take pc s @ drop (pc + length b) s) (nFound + 1)
     else (s, nFound))"
  by auto
termination
proof (relation "measure (\<lambda>(b, pc, s, n). length s)")
  fix b s :: bytes and pc n :: nat
  assume a: "b \<noteq> [] \<and> length s - pc \<ge> length b \<and> subbytes pc (length b) s = b"
  then have "0 < length b" "length b \<le> length s - pc" by simp_all
  then have "length (take pc s @ drop (pc + length b) s) < length s" unfolding length_append length_take length_drop by linarith
  then show "((b, pc, take pc s @ drop (pc + length b) s, n + 1), (b, pc, s, n)) \<in> measure (\<lambda>(b, pc, s, n). length s)"
    by simp
qed simp

declare fd_erase.simps [simp del]

lemma fd_erase_length: "length (fst (fd_erase b pc s n)) \<le> length s"
proof (induction b pc s n rule: fd_erase.induct)
  case (1 b pc s n)
  show ?case
  proof (cases "b \<noteq> [] \<and> length s - pc \<ge> length b \<and> subbytes pc (length b) s = b")
    case True
    have "length (take pc s @ drop (pc + length b) s) \<le> length s" unfolding length_append length_take length_drop by linarith
    then show ?thesis using 1 [OF True] by (subst fd_erase.simps) (simp add: True)
  next
    case False
    then show ?thesis by (subst fd_erase.simps) (simp only: if_False fst_conv)
  qed
qed

function fd_loop :: "bytes \<Rightarrow> nat \<Rightarrow> bytes \<Rightarrow> nat \<Rightarrow> bytes \<times> nat" where
  "fd_loop b pc s nFound =
    (let (s, nFound) = fd_erase b pc s nFound;
         (ok, pc, _) = GetOp2 s pc
     in if ok then fd_loop b pc s nFound else (s, nFound))"
  by auto
termination
proof (relation "measure (\<lambda>(b, pc, s, n). length s - pc)", goal_cases)
  case (2 b pc s n x s' n' y ok z pc' w)
  have g: "(True, pc', fst w, snd w) = GetOp2 s' pc" using 2 by simp
  have "length s' \<le> length s" using fd_erase_length [of b pc s n] 2(2) unfolding 2(1) [symmetric] by (metis fst_conv)
  then have "length s' - pc' < length s - pc" using GetOp2_dec [OF g] by simp
  then show ?case by simp
qed simp

declare fd_loop.simps [simp del]

definition FindAndDelete :: "bytes \<Rightarrow> bytes \<Rightarrow> bytes \<times> nat" where
  "FindAndDelete this b = (if b = [] then (this, 0) else fd_loop b 0 this 0)"

function script_find_loop :: "bytes \<Rightarrow> opcodetype \<Rightarrow> nat \<Rightarrow> nat \<Rightarrow> nat" where
  "script_find_loop this op pc nFound =
    (if pc = length this then nFound
     else case GetOp2 this pc of (ok, pc', opcode, _) \<Rightarrow>
       if ok then script_find_loop this op pc' (if opcode = op then nFound + 1 else nFound) else nFound)"
  by auto
termination
  by (relation "measure (\<lambda>(this, op, pc, n). length this - pc)") (auto dest: GetOp2_dec)

definition Script_Find :: "bytes \<Rightarrow> opcodetype \<Rightarrow> nat" where
  "Script_Find this op = script_find_loop this op 0 0"

function push_only_loop :: "bytes \<Rightarrow> nat \<Rightarrow> bool" where
  "push_only_loop this pc =
    (if pc < length this then
       (case GetOp2 this pc of (ok, pc', opcode, _) \<Rightarrow>
          if ok then (if opcode > OP_16 then False else push_only_loop this pc') else False)
     else True)"
  by auto
termination
  by (relation "measure (\<lambda>(this, pc). length this - pc)") (auto dest: GetOp2_dec)

definition IsPushOnly :: "bytes \<Rightarrow> bool" where
  "IsPushOnly this = push_only_loop this 0"

text \<open>\<open>ToString\<close>; \<open>ValueString\<close> and \<open>GetOpName\<close> are not in the tree.\<close>

function script_string_loop :: "(bytes \<Rightarrow> string) \<Rightarrow> (opcodetype \<Rightarrow> string) \<Rightarrow> bytes \<Rightarrow> nat \<Rightarrow> string \<Rightarrow> string" where
  "script_string_loop ValueString GetOpName this pc str =
    (if pc < length this then
       let str = (if str \<noteq> [] then str @ '' '' else str) in
       (case GetOp2 this pc of (ok, pc', opcode, vch) \<Rightarrow>
          if \<not> ok then str @ ''[error]''
          else script_string_loop ValueString GetOpName this pc'
            (str @ (if 0 \<le> opcode \<and> opcode \<le> OP_PUSHDATA4 then ValueString vch else GetOpName opcode)))
     else str)"
  by auto
termination
  by (relation "measure (\<lambda>(_, _, this, pc, _). length this - pc)") (auto dest: GetOp2_dec)

definition Script_ToString :: "(bytes \<Rightarrow> string) \<Rightarrow> (opcodetype \<Rightarrow> string) \<Rightarrow> bytes \<Rightarrow> string" where
  "Script_ToString ValueString GetOpName this = script_string_loop ValueString GetOpName this 0 []"

declare script_find_loop.simps [simp del] push_only_loop.simps [simp del] script_string_loop.simps [simp del]

section \<open>Instructions\<close>

lemma GetOp2_drop:
  assumes "pc \<le> length this"
  shows "GetOp2 this pc = (case GetOp2 (drop pc this) 0 of (ok, n, op, v) \<Rightarrow> (ok, pc + n, op, v))"
proof -
  have n: "drop pc this ! j = this ! (pc + j)" if "pc + j < length this" for j using that by simp
  show ?thesis using assms unfolding GetOp2_def Let_def subbytes_def
    by (cases "pc = length this") (auto simp: add.commute)
qed

lemma GetOp2_prefix:
  assumes "GetOp2 x 0 = (True, n, op, v)"
  shows "GetOp2 (x @ post) 0 = (True, n, op, v)"
proof -
  obtain c x' where x: "x = c # x'" using assms by (cases x) (auto simp: GetOp2_def)
  consider "uint c < 76" | "uint c = 76" | "uint c = 77" | "uint c = 78" | "78 < uint c" by linarith
  then show ?thesis
  proof cases
    case 1
    then show ?thesis using assms unfolding x GetOp2_def Let_def subbytes_def by (auto split: if_splits)
  next
    case 2
    then show ?thesis using assms unfolding x GetOp2_def Let_def subbytes_def by (cases x') (auto split: if_splits)
  next
    case 3
    then show ?thesis using assms unfolding x GetOp2_def Let_def subbytes_def
      by (cases x'; cases "tl x'") (auto split: if_splits)
  next
    case 4
    have t: "4 \<le> length x' \<Longrightarrow> take 4 (x' @ post) = take 4 x'" by simp
    from 4 show ?thesis using assms unfolding x GetOp2_def Let_def subbytes_def by (auto split: if_splits)
  next
    case 5
    then show ?thesis using assms unfolding x GetOp2_def Let_def by (auto split: if_splits)
  qed
qed

lemma GetOp2_local:
  assumes "GetOp2 x 0 = (True, n, op, v)"
  shows "GetOp2 (pre @ x @ post) (length pre) = (True, length pre + n, op, v)"
  using GetOp2_prefix [OF assms] by (subst GetOp2_drop) simp_all

text \<open>A byte string that is exactly one instruction, and scripts that are sequences of them.\<close>

definition is_op :: "bytes \<Rightarrow> bool" where
  "is_op x \<longleftrightarrow> (case GetOp2 x 0 of (ok, n, _) \<Rightarrow> ok \<and> n = length x)"

lemma is_opE:
  assumes "is_op x" obtains op v where "GetOp2 x 0 = (True, length x, op, v)"
  using assms by (cases "GetOp2 x 0") (auto simp: is_op_def)

lemma is_op_nonempty: "is_op x \<Longrightarrow> x \<noteq> []"
  by (auto simp: is_op_def GetOp2_def)

lemma GetOp2_end: "GetOp2 s (length s) = (False, length s, OP_INVALIDOPCODE, [])"
  by (simp add: GetOp2_def)

lemma GetOp2_at:
  assumes "is_op x" shows "\<exists>op v. GetOp2 (pre @ x @ post) (length pre) = (True, length pre + length x, op, v)"
  using assms by (elim is_opE) (auto dest: GetOp2_local)

lemma op_prefix_eq:
  assumes "is_op x" "is_op b" "b @ r = x @ t"
  shows "b = x"
proof -
  obtain op v where x: "GetOp2 x 0 = (True, length x, op, v)" using assms(1) by (rule is_opE)
  obtain op' v' where b: "GetOp2 b 0 = (True, length b, op', v')" using assms(2) by (rule is_opE)
  have "GetOp2 (b @ r) 0 = (True, length x, op, v)" unfolding assms(3) by (rule GetOp2_prefix [OF x])
  then have "length b = length x" using GetOp2_prefix [OF b, of r] by simp
  then show ?thesis using assms(3) by simp
qed

lemma fd_erase_ops:
  assumes "is_op b" "\<forall>x \<in> set ops. is_op x"
  shows "fd_erase b (length pre) (pre @ concat ops) n =
    (pre @ concat (dropWhile (\<lambda>x. x = b) ops), n + length (takeWhile (\<lambda>x. x = b) ops))"
  using assms(2)
proof (induction ops arbitrary: n)
  case Nil
  then show ?case using is_op_nonempty [OF assms(1)] by (subst fd_erase.simps) simp
next
  case (Cons x ops)
  show ?case
  proof (cases "x = b")
    case True
    have "fd_erase b (length pre) (pre @ b @ concat ops) n = fd_erase b (length pre) (pre @ concat ops) (n + 1)"
      using is_op_nonempty [OF assms(1)] by (subst fd_erase.simps) (simp add: subbytes_def)
    then show ?thesis using Cons True by simp
  next
    case False
    have "subbytes (length pre) (length b) (pre @ x @ concat ops) \<noteq> b"
    proof
      assume "subbytes (length pre) (length b) (pre @ x @ concat ops) = b"
      then have "b @ drop (length b) (x @ concat ops) = x @ concat ops"
        unfolding subbytes_def by (metis append_eq_conv_conj append_take_drop_id)
      then have "b = x" using op_prefix_eq [of x b] Cons.prems assms(1) by auto
      then show False using False by simp
    qed
    then show ?thesis using False by (subst fd_erase.simps) simp
  qed
qed

lemma fd_loop_ops:
  assumes "is_op b" "\<forall>x \<in> set ops. is_op x"
  shows "fd_loop b (length pre) (pre @ concat ops) n = (pre @ concat (filter (\<lambda>x. x \<noteq> b) ops), n + count_list ops b)"
  using assms(2)
proof (induction "length ops" arbitrary: ops pre n rule: less_induct)
  case less
  define d t where "d = dropWhile (\<lambda>x. x = b) ops" and "t = takeWhile (\<lambda>x. x = b) ops"
  have split: "count_list ops b = length t + count_list d b" "filter (\<lambda>x. x \<noteq> b) ops = filter (\<lambda>x. x \<noteq> b) d"
    unfolding d_def t_def by (induction ops) auto
  have er: "fd_erase b (length pre) (pre @ concat ops) n = (pre @ concat d, n + length t)"
    unfolding d_def t_def by (rule fd_erase_ops [OF assms(1) less.prems])
  show ?case
  proof (cases d)
    case Nil
    then show ?thesis by (subst fd_loop.simps) (simp add: er split GetOp2_end)
  next
    case (Cons x e)
    have x: "x \<noteq> b" using hd_dropWhile [of "\<lambda>x. x = b" ops] Cons unfolding d_def by (metis list.distinct(1) list.sel(1))
    have "set d \<subseteq> set ops" unfolding d_def by (auto dest: set_dropWhileD)
    then have m: "is_op x" "\<forall>y \<in> set e. is_op y" using Cons less.prems by auto
    obtain op v where g: "GetOp2 (pre @ x @ concat e) (length pre) = (True, length pre + length x, op, v)"
      using GetOp2_at [OF m(1)] by blast
    have "length e < length ops" using length_dropWhile_le [of "\<lambda>x. x = b" ops] Cons by (simp add: d_def)
    from less.hyps [OF this m(2), of "pre @ x" "n + length t"]
    have "fd_loop b (length pre + length x) (pre @ x @ concat e) (n + length t)
      = (pre @ x @ concat (filter (\<lambda>x. x \<noteq> b) e), n + length t + count_list e b)" by simp
    then show ?thesis using x by (subst fd_loop.simps) (simp add: er split Cons g)
  qed
qed

text \<open>On a script made of complete instructions, \<open>FindAndDelete\<close> of one instruction removes exactly the
  instructions equal to it, keeps all others in order (bytes inside pushed data are never touched) and
  returns how many it removed.\<close>
theorem FindAndDelete_ops:
  assumes "is_op b" "\<forall>x \<in> set ops. is_op x"
  shows "FindAndDelete (concat ops) b = (concat (filter (\<lambda>x. x \<noteq> b) ops), count_list ops b)"
  using fd_loop_ops [OF assms, of "[]" 0] is_op_nonempty [OF assms(1)] by (simp add: FindAndDelete_def)

theorem FindAndDelete_ops_witness:
  "FindAndDelete [0xab, 0x02, 0xab, 0xab, 0xab, 0x51] [0xab] = ([0x02, 0xab, 0xab, 0x51], 2)"
proof -
  have "is_op [0xab]" "is_op [0x02, 0xab, 0xab]" "is_op [0x51]" by code_simp+
  then show ?thesis using FindAndDelete_ops [of "[0xab]" "[[0xab], [0x02, 0xab, 0xab], [0xab], [0x51]]"] by simp
qed

text \<open>\<open>FindAndDelete\<close> returns on every script and every pattern, well-formed or not, and the bytes it removed
  are the reported number of copies of the pattern.\<close>
theorem FindAndDelete_length:
  "length (fst (FindAndDelete s b)) + snd (FindAndDelete s b) * length b = length s"
proof -
  have er: "length (fst (fd_erase b pc s n)) + snd (fd_erase b pc s n) * length b = length s + n * length b" for b pc s n
  proof (induction b pc s n rule: fd_erase.induct)
    case (1 b pc s n)
    show ?case
    proof (cases "b \<noteq> [] \<and> length s - pc \<ge> length b \<and> subbytes pc (length b) s = b")
      case True
      then have "0 < length b" "length b \<le> length s - pc" by simp_all
      then have "length (take pc s @ drop (pc + length b) s) + length b = length s"
        unfolding length_append length_take length_drop by linarith
      moreover have "fd_erase b pc s n = fd_erase b pc (take pc s @ drop (pc + length b) s) (n + 1)"
        by (subst fd_erase.simps) (rule if_P [OF True])
      ultimately show ?thesis using 1 [OF True] by (simp only:) (simp add: algebra_simps)
    next
      case False
      then show ?thesis by (subst (1 2) fd_erase.simps) (simp only: if_False fst_conv snd_conv)
    qed
  qed
  have "length (fst (fd_loop b pc s n)) + snd (fd_loop b pc s n) * length b = length s + n * length b" for b pc s n
  proof (induction b pc s n rule: fd_loop.induct)
    case (1 b pc s n)
    obtain s' n' where e: "fd_erase b pc s n = (s', n')" by (cases "fd_erase b pc s n")
    obtain ok pc' r where g: "GetOp2 s' pc = (ok, pc', r)" by (cases "GetOp2 s' pc") auto
    have l: "length s' + n' * length b = length s + n * length b" using er [of b pc s n] unfolding e fst_conv snd_conv .
    show ?case
    proof (cases ok)
      case True
      then show ?thesis using 1 [OF e [symmetric] refl g [symmetric] refl] l by (subst (1 2) fd_loop.simps) (simp add: e g)
    next
      case False
      then show ?thesis using l by (subst (1 2) fd_loop.simps) (simp add: e g)
    qed
  qed
  from this [of b 0 s 0] show ?thesis by (simp add: FindAndDelete_def)
qed

section \<open>Pushed data\<close>

lemma length_le_bytes [simp]: "length (le_bytes k n) = k"
  by (induction k arbitrary: n) simp_all

lemma le_val_le_bytes: "le_val (le_bytes k n) = n mod 256 ^ k"
proof (induction k arbitrary: n)
  case (Suc k)
  have "unat (of_nat (n mod 256) :: byte) = n mod 256" unfolding unat_of_nat by (rule mod_less) simp
  then show ?case using Suc by (simp add: mod_mult2_eq)
qed simp

lemma push_data_prefix: "push_data s d = s @ push_data [] d"
  by (simp add: push_data_def)

lemma GetOp2_push:
  assumes "length d < 2 ^ 32"
  shows "\<exists>op. GetOp2 (push_data [] d) 0 = (True, length (push_data [] d), op, d) \<and> 0 \<le> op \<and> op \<le> OP_PUSHDATA4"
proof -
  have u: "uint (of_nat n :: byte) = int n" "unat (of_nat n :: byte) = n" if "n < 256" for n
    using that by (simp_all add: unsigned_of_nat take_bit_nat_eq_self)
  have v: "le_val (le_bytes 2 (length d)) = length d" if "length d \<le> 0xffff"
    unfolding le_val_le_bytes using that by (intro mod_less) simp
  have w: "le_val (le_bytes 4 (length d)) = length d"
    unfolding le_val_le_bytes using assms by (intro mod_less) simp
  consider "length d < 0x4c" | "0x4c \<le> length d" "length d \<le> 0xff" | "0xff < length d" "length d \<le> 0xffff" | "0xffff < length d"
    by linarith
  then show ?thesis
  proof cases
    case 1
    then show ?thesis by (simp add: push_data_def GetOp2_def u Let_def subbytes_def)
  next
    case 2
    then show ?thesis by (simp add: push_data_def GetOp2_def u Let_def subbytes_def)
  next
    case 3
    then show ?thesis by (simp add: push_data_def GetOp2_def Let_def subbytes_def v)
  next
    case 4
    then show ?thesis by (simp add: push_data_def GetOp2_def Let_def subbytes_def w)
  qed
qed

lemma push_read:
  assumes "length d < 2 ^ 32"
  shows "\<exists>op. GetOp2 (push_data s d @ t) (length s) = (True, length (push_data s d), op, d) \<and> 0 \<le> op \<and> op \<le> OP_PUSHDATA4"
proof -
  obtain op where "GetOp2 (push_data [] d) 0 = (True, length (push_data [] d), op, d)" "0 \<le> op" "op \<le> OP_PUSHDATA4"
    using GetOp2_push [OF assms] by blast
  then show ?thesis using GetOp2_local [of "push_data [] d" _ op d s t] by (simp add: push_data_prefix [of s])
qed

text \<open>C37. Data of any length below 2^32 appended to a script with \<open><<\<close> is read back by \<open>GetOp\<close> at its place: the
  whole data, nothing after it, with a push opcode, whichever of the four length forms was chosen.\<close>
theorem push_GetOp:
  assumes "length d < 2 ^ 32"
  shows "\<exists>op. GetOp2 (push_data s d @ t) (length s) = (True, length (push_data s d), op, d) \<and> 0 \<le> op \<and> op \<le> OP_PUSHDATA4"
  by (rule push_read [OF assms])

theorem push_GetOp_witness:
  "\<exists>op. GetOp2 (push_data [0x76] (replicate 300 7) @ [0x87]) 1 = (True, 304, op, replicate 300 7)"
  using push_GetOp [of "replicate 300 7" "[0x76]" "[0x87]"] by (auto simp: push_data_def)

lemma is_op_push: "length d < 2 ^ 32 \<Longrightarrow> is_op (push_data [] d)"
  using GetOp2_push [of d] by (auto simp: is_op_def)

end
