(* ===== verification/Transaction.thy ===== *)
theory Transaction
  imports Uint256 Script
begin

text \<open>
  Transactions (\<open>primitives/transaction.h\<close>): outpoints, inputs, outputs and transactions with their
  null values, comparisons, finality, replacement order and output total. Hashes are 256-bit numbers as
  in \<open>Uint256\<close> (eight limbs); \<open>MoneyRange\<close>, \<open>SerializeHash\<close>, the best height and the clock are
  parameters, their code is not in the tree.
\<close>

section \<open>Outpoints\<close>

record COutPoint =
  op_hash :: base_uint
  op_n :: u32

definition COutPoint_Null :: COutPoint where
  "COutPoint_Null = \<lparr>op_hash = set64 8 0, op_n = -1\<rparr>"

definition OutPoint_IsNull :: "COutPoint \<Rightarrow> bool" where
  "OutPoint_IsNull this = (ueq64 (op_hash this) 0 \<and> op_n this = -1)"

definition outpoint_lt :: "COutPoint \<Rightarrow> COutPoint \<Rightarrow> bool" where
  "outpoint_lt a b = (ult (op_hash a) (op_hash b) \<or> (ueq (op_hash a) (op_hash b) \<and> op_n a < op_n b))"

definition outpoint_eq :: "COutPoint \<Rightarrow> COutPoint \<Rightarrow> bool" where
  "outpoint_eq a b = (ueq (op_hash a) (op_hash b) \<and> op_n a = op_n b)"

section \<open>Inputs and outputs\<close>

record CTxIn =
  prevout :: COutPoint
  scriptSig :: bytes
  nSequence :: u32

definition CTxIn_Init :: CTxIn where
  "CTxIn_Init = \<lparr>prevout = COutPoint_Null, scriptSig = [], nSequence = -1\<rparr>"

definition mk_txin :: "COutPoint \<Rightarrow> bytes \<Rightarrow> u32 \<Rightarrow> CTxIn" where
  "mk_txin prevoutIn scriptSigIn nSequenceIn = \<lparr>prevout = prevoutIn, scriptSig = scriptSigIn, nSequence = nSequenceIn\<rparr>"

definition TxIn_IsFinal :: "CTxIn \<Rightarrow> bool" where
  "TxIn_IsFinal this = (nSequence this = -1)"

definition txin_eq :: "CTxIn \<Rightarrow> CTxIn \<Rightarrow> bool" where
  "txin_eq a b = (outpoint_eq (prevout a) (prevout b) \<and> scriptSig a = scriptSig b \<and> nSequence a = nSequence b)"

record CTxOut =
  nValue :: int
  scriptPubKey :: bytes

definition CTxOut_Null :: CTxOut where
  "CTxOut_Null = \<lparr>nValue = -1, scriptPubKey = []\<rparr>"

definition TxOut_IsNull :: "CTxOut \<Rightarrow> bool" where
  "TxOut_IsNull this = (nValue this = -1)"

definition txout_eq :: "CTxOut \<Rightarrow> CTxOut \<Rightarrow> bool" where
  "txout_eq a b = (nValue a = nValue b \<and> scriptPubKey a = scriptPubKey b)"

section \<open>Transactions\<close>

record CTransaction =
  tx_nVersion :: int
  vin :: "CTxIn list"
  vout :: "CTxOut list"
  nLockTime :: u32

definition CTransaction_Null :: CTransaction where
  "CTransaction_Null = \<lparr>tx_nVersion = 1, vin = [], vout = [], nLockTime = 0\<rparr>"

definition Tx_IsNull :: "CTransaction \<Rightarrow> bool" where
  "Tx_IsNull this = (vin this = [] \<and> vout this = [])"

definition LOCKTIME_THRESHOLD :: int where
  "LOCKTIME_THRESHOLD = 500000000"

definition Tx_IsFinal :: "int \<Rightarrow> int \<Rightarrow> CTransaction \<Rightarrow> int \<Rightarrow> int \<Rightarrow> bool" where
  "Tx_IsFinal nBestHeight adjustedTime this nBlockHeight nBlockTime =
    (if nLockTime this = 0 then True
     else
       let nBlockHeight = (if nBlockHeight = 0 then nBestHeight else nBlockHeight);
           nBlockTime = (if nBlockTime = 0 then adjustedTime else nBlockTime)
       in if uint (nLockTime this) < (if uint (nLockTime this) < LOCKTIME_THRESHOLD then nBlockHeight else nBlockTime) then True
          else list_all TxIn_IsFinal (vin this))"

text \<open>The loop of \<open>IsNewerThan\<close> over the pairs of sequence numbers.\<close>

fun newer_loop :: "(u32 \<times> u32) list \<Rightarrow> bool \<Rightarrow> u32 \<Rightarrow> bool" where
  "newer_loop [] fNewer nLowest = fNewer"
| "newer_loop ((seq, old) # ps) fNewer nLowest =
    (if seq \<noteq> old then
       let (fNewer, nLowest) = (if seq \<le> nLowest then (False, seq) else (fNewer, nLowest));
           (fNewer, nLowest) = (if old < nLowest then (True, old) else (fNewer, nLowest))
       in newer_loop ps fNewer nLowest
     else newer_loop ps fNewer nLowest)"

definition IsNewerThan :: "CTransaction \<Rightarrow> CTransaction \<Rightarrow> bool" where
  "IsNewerThan this old =
    (if length (vin this) \<noteq> length (vin old) then False
     else if \<not> list_all2 (\<lambda>a b. outpoint_eq (prevout a) (prevout b)) (vin this) (vin old) then False
     else newer_loop (zip (map nSequence (vin this)) (map nSequence (vin old))) False (-1))"

definition IsCoinBase :: "CTransaction \<Rightarrow> bool" where
  "IsCoinBase this = (length (vin this) = 1 \<and> OutPoint_IsNull (prevout (vin this ! 0)))"

fun value_out_loop :: "(int \<Rightarrow> bool) \<Rightarrow> CTxOut list \<Rightarrow> int \<Rightarrow> int result" where
  "value_out_loop MoneyRange [] nValueOut = Inr nValueOut"
| "value_out_loop MoneyRange (txout # rest) nValueOut =
    (let nValueOut = nValueOut + nValue txout in
     if \<not> MoneyRange (nValue txout) \<or> \<not> MoneyRange nValueOut then
       Inl (Thrown ''CTransaction::GetValueOut() : value out of range'')
     else value_out_loop MoneyRange rest nValueOut)"

definition GetValueOut :: "(int \<Rightarrow> bool) \<Rightarrow> CTransaction \<Rightarrow> int result" where
  "GetValueOut MoneyRange this = value_out_loop MoneyRange (vout this) 0"

definition tx_eq :: "CTransaction \<Rightarrow> CTransaction \<Rightarrow> bool" where
  "tx_eq a b = (tx_nVersion a = tx_nVersion b \<and> list_all2 txin_eq (vin a) (vin b) \<and>
     list_all2 txout_eq (vout a) (vout b) \<and> nLockTime a = nLockTime b)"

section \<open>The order of replacements\<close>

definition differing :: "(u32 \<times> u32) list \<Rightarrow> (u32 \<times> u32) set" where
  "differing ps = {p \<in> set ps. fst p \<noteq> snd p}"

lemma newer_loop_spec:
  assumes "finite D" "f \<longleftrightarrow> (\<exists>p \<in> D. \<forall>q \<in> D. snd p < fst q)" "\<forall>p \<in> D. fst p \<noteq> snd p"
    "\<forall>p \<in> D. l \<le> fst p \<and> l \<le> snd p" "D \<noteq> {} \<longrightarrow> (\<exists>p \<in> D. l = fst p \<or> l = snd p)" "D = {} \<longrightarrow> l = -1"
  shows "newer_loop ps f l \<longleftrightarrow> (\<exists>p \<in> D \<union> differing ps. \<forall>q \<in> D \<union> differing ps. snd p < fst q)"
  using assms
proof (induction ps arbitrary: D f l)
  case Nil
  then show ?case by (simp add: differing_def)
next
  case (Cons p ps)
  obtain a b where p: "p = (a, b)" by (cases p)
  show ?case
  proof (cases "a = b")
    case True
    then have "differing (p # ps) = differing ps" by (auto simp: differing_def p)
    then show ?thesis using Cons.IH [OF Cons.prems] True by (simp add: p)
  next
    case False
    define r where "r = (if a \<le> l then (False, a) else (f, l))"
    define r' where "r' = (if b < snd r then (True, b) else r)"
    have step: "newer_loop (p # ps) f l = newer_loop ps (fst r') (snd r')"
      using False by (auto simp: p r_def r'_def Let_def)
    let ?D = "insert (a, b) D"
    have un: "D \<union> differing (p # ps) = ?D \<union> differing ps" using False by (auto simp: differing_def p)
    have m1: "l \<le> - (1 :: u32)" by simp
    have le: "\<And>q. q \<in> D \<Longrightarrow> l \<le> fst q \<and> l \<le> snd q" using Cons.prems(4) by blast
    have att: "D \<noteq> {} \<Longrightarrow> \<exists>q \<in> D. l = fst q \<or> l = snd q" using Cons.prems(5) by blast
    have f_l: "f \<longleftrightarrow> D \<noteq> {} \<and> (\<forall>q \<in> D. l < fst q)"
    proof
      assume f
      then obtain q where q: "q \<in> D" "\<forall>q' \<in> D. snd q < fst q'" using Cons.prems(2) by blast
      then show "D \<noteq> {} \<and> (\<forall>q \<in> D. l < fst q)" using le [OF q(1)] by (meson empty_iff order.strict_trans1)
    next
      assume d: "D \<noteq> {} \<and> (\<forall>q \<in> D. l < fst q)"
      then obtain q where "q \<in> D" "l = snd q" using att by fastforce
      then show f using d Cons.prems(2) by blast
    qed
    have "newer_loop ps (fst r') (snd r') \<longleftrightarrow> (\<exists>p \<in> ?D \<union> differing ps. \<forall>q \<in> ?D \<union> differing ps. snd p < fst q)"
    proof (rule Cons.IH)
      have rl: "snd r' = min (min a b) l" by (auto simp: r'_def r_def min_def)
      have rf: "fst r' \<longleftrightarrow> (\<forall>q \<in> ?D. snd r' < fst q)"
      proof (cases "a \<le> l")
        case al: True
        show ?thesis
        proof (cases "b < a")
          case True
          then have "\<And>q. q \<in> D \<Longrightarrow> b < fst q" using al le by (meson order.strict_trans2)
          then show ?thesis using al True by (simp add: r'_def r_def)
        qed (use al in \<open>simp add: r'_def r_def\<close>)
      next
        case al: False
        then have "D \<noteq> {}" using Cons.prems(6) m1 by auto
        then show ?thesis
        proof (cases "b < l")
          case True
          then have "\<And>q. q \<in> D \<Longrightarrow> b < fst q" "b < a" using al le by (meson order.strict_trans2, simp)
          then show ?thesis using al True by (simp add: r'_def r_def)
        qed (use al f_l in \<open>auto simp: r'_def r_def not_le\<close>)
      qed
      show "finite ?D" "\<forall>p \<in> ?D. fst p \<noteq> snd p" using Cons.prems(1,3) False by simp_all
      show ge: "\<forall>p \<in> ?D. snd r' \<le> fst p \<and> snd r' \<le> snd p" using le unfolding rl by (auto simp: min_le_iff_disj)
      show at: "?D \<noteq> {} \<longrightarrow> (\<exists>p \<in> ?D. snd r' = fst p \<or> snd r' = snd p)"
        using att m1 Cons.prems(6) unfolding rl by (cases "D = {}") (auto simp: min_def)
      show "?D = {} \<longrightarrow> snd r' = -1" by simp
      show "fst r' \<longleftrightarrow> (\<exists>p \<in> ?D. \<forall>q \<in> ?D. snd p < fst q)"
      proof
        assume "fst r'"
        then have r: "\<forall>q \<in> ?D. snd r' < fst q" using rf by blast
        obtain p where "p \<in> ?D" "snd r' = fst p \<or> snd r' = snd p" using at by blast
        then show "\<exists>p \<in> ?D. \<forall>q \<in> ?D. snd p < fst q" using r by fastforce
      next
        assume "\<exists>p \<in> ?D. \<forall>q \<in> ?D. snd p < fst q"
        then show "fst r'" using rf ge by (meson order.strict_trans1)
      qed
    qed
    then show ?thesis unfolding step un .
  qed
qed

lemma pairs_ex:
  fixes g h :: "nat \<Rightarrow> u32" and n :: nat
  defines "S \<equiv> {p. \<exists>i. p = (g i, h i) \<and> i < n \<and> g i \<noteq> h i}"
  shows "(\<exists>p \<in> S. \<forall>q \<in> S. snd p < fst q) \<longleftrightarrow> (\<exists>i < n. g i \<noteq> h i \<and> (\<forall>j < n. g j \<noteq> h j \<longrightarrow> h i < g j))"
proof
  assume "\<exists>p \<in> S. \<forall>q \<in> S. snd p < fst q"
  then obtain i where i: "i < n" "g i \<noteq> h i" "\<forall>q \<in> S. h i < fst q" by (auto simp: S_def)
  moreover have "(g j, h j) \<in> S" if "j < n" "g j \<noteq> h j" for j using that by (auto simp: S_def)
  ultimately show "\<exists>i < n. g i \<noteq> h i \<and> (\<forall>j < n. g j \<noteq> h j \<longrightarrow> h i < g j)" by fastforce
next
  assume "\<exists>i < n. g i \<noteq> h i \<and> (\<forall>j < n. g j \<noteq> h j \<longrightarrow> h i < g j)"
  then obtain i where i: "i < n" "g i \<noteq> h i" "\<forall>j < n. g j \<noteq> h j \<longrightarrow> h i < g j" by blast
  then have "(g i, h i) \<in> S" by (auto simp: S_def)
  moreover have "\<forall>q \<in> S. snd (g i, h i) < fst q" using i(3) by (auto simp: S_def)
  ultimately show "\<exists>p \<in> S. \<forall>q \<in> S. snd p < fst q" by blast
qed

text \<open>\<open>IsNewerThan\<close> holds exactly for two transactions that spend the same outpoints in the same order when the
  lowest of the sequence numbers that changed belongs to the old version alone: some changed input had an
  old sequence number below every new one.\<close>
theorem IsNewerThan_spec:
  "IsNewerThan a b \<longleftrightarrow>
    length (vin a) = length (vin b) \<and>
    (\<forall>i < length (vin a). outpoint_eq (prevout (vin a ! i)) (prevout (vin b ! i))) \<and>
    (\<exists>i < length (vin a). nSequence (vin a ! i) \<noteq> nSequence (vin b ! i) \<and>
       (\<forall>j < length (vin a). nSequence (vin a ! j) \<noteq> nSequence (vin b ! j) \<longrightarrow>
          nSequence (vin b ! i) < nSequence (vin a ! j)))"
proof (cases "length (vin a) = length (vin b) \<and> list_all2 (\<lambda>a b. outpoint_eq (prevout a) (prevout b)) (vin a) (vin b)")
  case True
  let ?ps = "zip (map nSequence (vin a)) (map nSequence (vin b))"
  have "IsNewerThan a b = newer_loop ?ps False (-1)" using True by (simp add: IsNewerThan_def)
  also have "\<dots> \<longleftrightarrow> (\<exists>p \<in> differing ?ps. \<forall>q \<in> differing ?ps. snd p < fst q)"
    using newer_loop_spec [of "{}" False "-1" ?ps] by simp
  also have "differing ?ps = {p. \<exists>i. p = (nSequence (vin a ! i), nSequence (vin b ! i)) \<and> i < length (vin a) \<and>
      nSequence (vin a ! i) \<noteq> nSequence (vin b ! i)}"
    using True by (auto simp: differing_def in_set_zip) (metis nth_map)
  finally show ?thesis using True unfolding pairs_ex by (simp add: list_all2_conv_all_nth)
next
  case False
  then show ?thesis by (auto simp: IsNewerThan_def list_all2_conv_all_nth)
qed

theorem IsNewerThan_spec_witness:
  "IsNewerThan (CTransaction_Null\<lparr>vin := [CTxIn_Init, CTxIn_Init\<lparr>nSequence := 7\<rparr>]\<rparr>)
    (CTransaction_Null\<lparr>vin := [CTxIn_Init, CTxIn_Init\<lparr>nSequence := 6\<rparr>]\<rparr>)"
  unfolding IsNewerThan_spec by (simp add: outpoint_eq_def ueq_def CTxIn_Init_def list.rel_refl Ex_less_Suc All_less_Suc)

section \<open>The output total\<close>

lemma value_out_loop_spec:
  assumes "\<And>v. MoneyRange v \<longleftrightarrow> 0 \<le> v \<and> v \<le> M" "0 \<le> acc" "acc \<le> M"
  shows "value_out_loop MoneyRange os acc = Inr t \<longleftrightarrow>
    (\<forall>x \<in> set os. 0 \<le> nValue x \<and> nValue x \<le> M) \<and> acc + sum_list (map nValue os) \<le> M \<and> t = acc + sum_list (map nValue os)"
  using assms(2,3)
proof (induction os arbitrary: acc)
  case (Cons x os)
  have pos: "\<forall>x \<in> set os. 0 \<le> nValue x \<and> nValue x \<le> M \<Longrightarrow> 0 \<le> sum_list (map nValue os)"
    by (intro sum_list_nonneg) auto
  show ?case
  proof (cases "MoneyRange (nValue x) \<and> MoneyRange (acc + nValue x)")
    case True
    then show ?thesis using Cons.IH [of "acc + nValue x"] by (auto simp: Let_def assms(1))
  next
    case False
    then show ?thesis using pos Cons.prems by (auto simp: Let_def assms(1))
  qed
qed auto

text \<open>\<open>GetValueOut\<close> returns a total exactly when every output is in the money range and so is their sum, and
  the total is then that sum: no intermediate total can leave the range unnoticed.\<close>
theorem GetValueOut_sum:
  assumes "\<And>v. MoneyRange v \<longleftrightarrow> 0 \<le> v \<and> v \<le> M" "0 \<le> M"
  shows "GetValueOut MoneyRange tx = Inr t \<longleftrightarrow>
    (\<forall>x \<in> set (vout tx). 0 \<le> nValue x \<and> nValue x \<le> M) \<and> sum_list (map nValue (vout tx)) \<le> M \<and>
    t = sum_list (map nValue (vout tx))"
  using value_out_loop_spec [where acc = 0 and os = "vout tx" and t = t, OF assms(1) order_refl assms(2)] by (simp add: GetValueOut_def)

theorem GetValueOut_sum_witness:
  "GetValueOut (\<lambda>v. 0 \<le> v \<and> v \<le> 100) (CTransaction_Null\<lparr>vout := [\<lparr>nValue = 40, scriptPubKey = []\<rparr>, \<lparr>nValue = 60, scriptPubKey = []\<rparr>]\<rparr>) = Inr 100"
  by (subst GetValueOut_sum [of _ 100]) simp_all

end
