(* ===== verification/Interpreter.thy ===== *)
theory Interpreter
  imports Transaction
begin

text \<open>
  The script interpreter (\<open>script/interpreter.cpp\<close>), as the file stands: \<open>CastToBool\<close>, the signature
  format check, the opcode switch of \<open>EvalScript\<close> with its limits, and \<open>SignatureHash\<close>.

  Several bodies of the file are cut out: the opcodes that push small integers, \<open>OP_DEPTH\<close> and
  \<open>OP_SIZE\<close> push nothing and the arithmetic switches have only their \<open>default: assert(!"invalid opcode")\<close>;
  these are modelled as they stand. Where the remaining code uses a value whose computation is cut out
  (the index of \<open>OP_PICK\<close>, the verdict of \<open>OP_WITHIN\<close>, the middle of \<open>OP_CHECKMULTISIG\<close>) or a
  definition that is not in the tree (hash functions, \<open>CheckSig\<close>, \<open>IsCanonicalPubKey\<close>, the values
  \<open>vchTrue\<close>/\<open>vchFalse\<close>, the \<open>SIGHASH_*\<close> constants), it is a field of the environment.

  The stack is a list with the top at its end, as the vector. A script that fails leaves a stack nobody
  may use, so a failed evaluation is the value \<open>None\<close>; exceptions are caught and fail too, a failed
  assertion aborts (\<open>Inl AssertFailed\<close>).
\<close>

section \<open>Values and signatures\<close>

text \<open>The first non-zero byte decides; a last byte 0x80 is negative zero.\<close>

fun CastToBool :: "bytes \<Rightarrow> bool" where
  "CastToBool [] = False"
| "CastToBool (v # vch) = (if v \<noteq> 0 then \<not> (vch = [] \<and> v = 0x80) else CastToBool vch)"

record sighash_types =
  SIGHASH_ALL :: u32
  SIGHASH_NONE :: u32
  SIGHASH_SINGLE :: u32
  SIGHASH_ANYONECANPAY :: u32

definition IsCanonicalSignature :: "sighash_types \<Rightarrow> bytes \<Rightarrow> bool" where
  "IsCanonicalSignature T vchSig =
    (if length vchSig < 9 then False
     else if length vchSig > 73 then False
     else
       let nHashType = vchSig ! (length vchSig - 1) AND ucast (NOT (SIGHASH_ANYONECANPAY T)) in
       if ucast nHashType < SIGHASH_ALL T \<or> ucast nHashType > SIGHASH_SINGLE T then False
       else if vchSig ! 0 \<noteq> 0x30 then False
       else if unat (vchSig ! 1) \<noteq> length vchSig - 3 then False
       else
         let nLenR = unat (vchSig ! 3) in
         if 5 + nLenR \<ge> length vchSig then False
         else
           let nLenS = unat (vchSig ! (5 + nLenR)) in
           if nLenR + nLenS + 7 \<noteq> length vchSig then False
           else
             let R = 4 in
             if vchSig ! (R - 2) \<noteq> 0x02 then False
             else if nLenR = 0 then False
             else if vchSig ! R AND 0x80 \<noteq> 0 then False
             else if nLenR > 1 \<and> vchSig ! R = 0 \<and> \<not> (vchSig ! (R + 1) AND 0x80 \<noteq> 0) then False
             else
               let S = 6 + nLenR in
               if vchSig ! (S - 2) \<noteq> 0x02 then False
               else if nLenS = 0 then False
               else if vchSig ! S AND 0x80 \<noteq> 0 then False
               else if nLenS > 1 \<and> vchSig ! S = 0 \<and> \<not> (vchSig ! (S + 1) AND 0x80 \<noteq> 0) then False
               else True)"

section \<open>The evaluation state\<close>

record eval_state =
  stack :: "bytes list"
  altstack :: "bytes list"
  vfExec :: "bool list"
  nOpCount :: int
  codehash :: nat

text \<open>What the evaluation calls: the functions and the cut-out values described above.\<close>

record interp_env =
  vchTrue :: bytes
  vchFalse :: bytes
  hash_ripemd160 :: "bytes \<Rightarrow> bytes"
  hash_sha1 :: "bytes \<Rightarrow> bytes"
  hash_sha256 :: "bytes \<Rightarrow> bytes"
  hash_Hash160 :: "bytes \<Rightarrow> bytes"
  hash_Hash :: "bytes \<Rightarrow> bytes"
  sig_types :: sighash_types
  fStrictEncodings :: bool
  IsCanonicalPubKey :: "bytes \<Rightarrow> bool"
  CheckSig :: "bytes \<Rightarrow> bytes \<Rightarrow> bytes \<Rightarrow> bool"
  pick_index :: "bytes list \<Rightarrow> int"
  within_value :: "bytes list \<Rightarrow> bool"
  multisig_keys :: "bytes list \<Rightarrow> int"
  multisig_check :: "eval_state \<Rightarrow> (bool \<times> nat) option"

type_synonym step = "eval_state option result"

abbreviation (input) fail :: step where "fail \<equiv> Inr None"
abbreviation (input) continue :: "eval_state \<Rightarrow> step" where "continue s \<equiv> Inr (Some s)"

definition bool_vch :: "interp_env \<Rightarrow> bool \<Rightarrow> bytes" where
  "bool_vch E b = (if b then vchTrue E else vchFalse E)"

text \<open>\<open>stacktop(-k)\<close> (its uses are guarded) and dropping the last \<open>k\<close> elements.\<close>

definition stacktop :: "bytes list \<Rightarrow> nat \<Rightarrow> bytes" where
  "stacktop st k = st ! (length st - k)"

definition dropn :: "nat \<Rightarrow> bytes list \<Rightarrow> bytes list" where
  "dropn k st = take (length st - k) st"

section \<open>The opcodes\<close>

text \<open>Control flow.\<close>

definition exec_control :: "opcodetype \<Rightarrow> bool \<Rightarrow> eval_state \<Rightarrow> step" where
  "exec_control opcode fExec s =
    (if opcode = 0x61 \<or> (0xb0 \<le> opcode \<and> opcode \<le> 0xb9) then continue s
     else if opcode = 0x63 \<or> opcode = 0x64 then
       (if fExec then
          if length (stack s) < 1 then fail
          else
            let fValue = CastToBool (stacktop (stack s) 1);
                fValue = (if opcode = 0x64 then \<not> fValue else fValue)
            in continue (s\<lparr>stack := dropn 1 (stack s), vfExec := vfExec s @ [fValue]\<rparr>)
        else continue (s\<lparr>vfExec := vfExec s @ [False]\<rparr>))
     else if opcode = 0x67 then
       (if vfExec s = [] then fail
        else continue (s\<lparr>vfExec := butlast (vfExec s) @ [\<not> last (vfExec s)]\<rparr>))
     else if opcode = 0x68 then
       (if vfExec s = [] then fail else continue (s\<lparr>vfExec := butlast (vfExec s)\<rparr>))
     else if opcode = 0x69 then
       (if length (stack s) < 1 then fail
        else if CastToBool (stacktop (stack s) 1) then continue (s\<lparr>stack := dropn 1 (stack s)\<rparr>)
        else fail)
     else fail)"

text \<open>Stack operations; \<open>None\<close> is a failure, opcodes of other groups give \<open>None\<close> too.\<close>

definition stack_op :: "interp_env \<Rightarrow> opcodetype \<Rightarrow> bytes list \<Rightarrow> bytes list \<Rightarrow> (bytes list \<times> bytes list) option" where
  "stack_op E opcode st alt =
    (let need = (\<lambda>n r. if length st < n then None else Some r) in
     if opcode = 0x6b then need 1 (dropn 1 st, alt @ [stacktop st 1])
     else if opcode = 0x6c then (if length alt < 1 then None else Some (st @ [last alt], butlast alt))
     else if opcode = 0x6d then need 2 (dropn 2 st, alt)
     else if opcode = 0x6e then need 2 (st @ [stacktop st 2, stacktop st 1], alt)
     else if opcode = 0x6f then need 3 (st @ [stacktop st 3, stacktop st 2, stacktop st 1], alt)
     else if opcode = 0x70 then need 4 (st @ [stacktop st 4, stacktop st 3], alt)
     else if opcode = 0x71 then
       need 6 (dropn 6 st @ [stacktop st 4, stacktop st 3, stacktop st 2, stacktop st 1] @ [stacktop st 6, stacktop st 5], alt)
     else if opcode = 0x72 then need 4 (dropn 4 st @ [stacktop st 2, stacktop st 1, stacktop st 4, stacktop st 3], alt)
     else if opcode = 0x73 then need 1 (if CastToBool (stacktop st 1) then st @ [stacktop st 1] else st, alt)
     else if opcode = 0x74 then Some (st, alt)
     else if opcode = 0x75 then need 1 (dropn 1 st, alt)
     else if opcode = 0x76 then need 1 (st @ [stacktop st 1], alt)
     else if opcode = 0x77 then need 2 (dropn 2 st @ [stacktop st 1], alt)
     else if opcode = 0x78 then need 2 (st @ [stacktop st 2], alt)
     else if opcode = 0x79 \<or> opcode = 0x7a then
       (if length st < 2 then None
        else
          let n = pick_index E st; st = dropn 1 st in
          if n < 0 \<or> n \<ge> int (length st) then None
          else
            let vch = stacktop st (nat n + 1);
                st = (if opcode = 0x7a then dropn (nat n + 1) st @ drop (length st - nat n) st else st)
            in Some (st @ [vch], alt))
     else if opcode = 0x7b then need 3 (dropn 3 st @ [stacktop st 2, stacktop st 1, stacktop st 3], alt)
     else if opcode = 0x7c then need 2 (dropn 2 st @ [stacktop st 1, stacktop st 2], alt)
     else if opcode = 0x7d then need 2 (dropn 2 st @ [stacktop st 1, stacktop st 2, stacktop st 1], alt)
     else if opcode = 0x82 then need 1 (st, alt)
     else None)"

definition exec_stack :: "interp_env \<Rightarrow> opcodetype \<Rightarrow> eval_state \<Rightarrow> step" where
  "exec_stack E opcode s =
    (case stack_op E opcode (stack s) (altstack s) of
       None \<Rightarrow> fail
     | Some (st, alt) \<Rightarrow> continue (s\<lparr>stack := st, altstack := alt\<rparr>))"

text \<open>\<open>fEqual\<close>, \<open>fSuccess\<close>: push the verdict, and for the VERIFY form pop it again or fail.\<close>

definition push_verdict :: "interp_env \<Rightarrow> bool \<Rightarrow> bool \<Rightarrow> bytes list \<Rightarrow> eval_state \<Rightarrow> step" where
  "push_verdict E verify ok st s =
    (if verify then (if ok then continue (s\<lparr>stack := st\<rparr>) else fail)
     else continue (s\<lparr>stack := st @ [bool_vch E ok]\<rparr>))"

definition exec_equal :: "interp_env \<Rightarrow> opcodetype \<Rightarrow> eval_state \<Rightarrow> step" where
  "exec_equal E opcode s =
    (if length (stack s) < 2 then fail
     else push_verdict E (opcode = 0x88) (stacktop (stack s) 2 = stacktop (stack s) 1) (dropn 2 (stack s)) s)"

text \<open>The arithmetic opcodes, whose inner switches have lost every case but the asserting default.\<close>

definition exec_unary :: "eval_state \<Rightarrow> step" where
  "exec_unary s = (if length (stack s) < 1 then fail else Inl AssertFailed)"

definition exec_binary :: "eval_state \<Rightarrow> step" where
  "exec_binary s = (if length (stack s) < 2 then fail else Inl AssertFailed)"

definition exec_within :: "interp_env \<Rightarrow> eval_state \<Rightarrow> step" where
  "exec_within E s =
    (if length (stack s) < 3 then fail
     else continue (s\<lparr>stack := dropn 3 (stack s) @ [bool_vch E (within_value E (stack s))]\<rparr>))"

definition exec_hash :: "interp_env \<Rightarrow> opcodetype \<Rightarrow> eval_state \<Rightarrow> step" where
  "exec_hash E opcode s =
    (if length (stack s) < 1 then fail
     else
       let vch = stacktop (stack s) 1;
           vchHash = (if opcode = 0xa6 then hash_ripemd160 E vch
                      else if opcode = 0xa7 then hash_sha1 E vch
                      else if opcode = 0xa8 then hash_sha256 E vch
                      else if opcode = 0xa9 then hash_Hash160 E vch
                      else hash_Hash E vch)
       in continue (s\<lparr>stack := dropn 1 (stack s) @ [vchHash]\<rparr>))"

definition exec_checksig :: "interp_env \<Rightarrow> bytes \<Rightarrow> opcodetype \<Rightarrow> eval_state \<Rightarrow> step" where
  "exec_checksig E script opcode s =
    (if length (stack s) < 2 then fail
     else
       let vchSig = stacktop (stack s) 2;
           vchPubKey = stacktop (stack s) 1;
           scriptCode = drop (codehash s) script;
           scriptCode = fst (FindAndDelete scriptCode (push_data [] vchSig));
           fSuccess = (\<not> fStrictEncodings E \<or> (IsCanonicalSignature (sig_types E) vchSig \<and> IsCanonicalPubKey E vchPubKey));
           fSuccess = (if fSuccess then CheckSig E vchSig vchPubKey scriptCode else fSuccess)
       in push_verdict E (opcode = 0xad) fSuccess (dropn 2 (stack s)) s)"

text \<open>What is left of \<open>OP_CHECKMULTISIG\<close>; \<open>popstack\<close> of an empty stack throws.\<close>

definition exec_multisig :: "interp_env \<Rightarrow> opcodetype \<Rightarrow> eval_state \<Rightarrow> step" where
  "exec_multisig E opcode s =
    (if length (stack s) < 1 then fail
     else
       let nKeysCount = multisig_keys E (stack s) in
       if nKeysCount < 0 \<or> nKeysCount > 20 then fail
       else
         let s = s\<lparr>nOpCount := nOpCount s + nKeysCount\<rparr> in
         if nOpCount s > 201 then fail
         else if int (length (stack s)) < 2 + nKeysCount then fail
         else (case multisig_check E s of
             None \<Rightarrow> fail
           | Some (fSuccess, i) \<Rightarrow>
               if length (stack s) < i then fail
               else push_verdict E (opcode = 0xaf) fSuccess (dropn i (stack s)) s))"

text \<open>The switch; \<open>pc\<close> is the iterator behind the instruction.\<close>

definition exec_op :: "interp_env \<Rightarrow> bytes \<Rightarrow> nat \<Rightarrow> bool \<Rightarrow> opcodetype \<Rightarrow> eval_state \<Rightarrow> step" where
  "exec_op E script pc fExec opcode s =
    (if opcode = 0x4f \<or> (0x51 \<le> opcode \<and> opcode \<le> 0x60) then continue s
     else if opcode = 0x61 \<or> (0x63 \<le> opcode \<and> opcode \<le> 0x64) \<or> (0x67 \<le> opcode \<and> opcode \<le> 0x6a) \<or> (0xb0 \<le> opcode \<and> opcode \<le> 0xb9) then
       exec_control opcode fExec s
     else if (0x6b \<le> opcode \<and> opcode \<le> 0x7d) \<or> opcode = 0x82 then exec_stack E opcode s
     else if opcode = 0x87 \<or> opcode = 0x88 then exec_equal E opcode s
     else if opcode = 0x8b \<or> opcode = 0x8c \<or> (0x8f \<le> opcode \<and> opcode \<le> 0x92) then exec_unary s
     else if opcode = 0x93 \<or> opcode = 0x94 \<or> (0x9a \<le> opcode \<and> opcode \<le> 0xa4) then exec_binary s
     else if opcode = 0xa5 then exec_within E s
     else if 0xa6 \<le> opcode \<and> opcode \<le> 0xaa then exec_hash E opcode s
     else if opcode = 0xab then continue (s\<lparr>codehash := pc\<rparr>)
     else if opcode = 0xac \<or> opcode = 0xad then exec_checksig E script opcode s
     else if opcode = 0xae \<or> opcode = 0xaf then exec_multisig E opcode s
     else fail)"

section \<open>The loop\<close>

definition disabled_op :: "opcodetype \<Rightarrow> bool" where
  "disabled_op opcode = (opcode \<in> {0x7e, 0x7f, 0x80, 0x81, 0x83, 0x84, 0x85, 0x86, 0x8d, 0x8e, 0x95, 0x96, 0x97, 0x98, 0x99})"

text \<open>One instruction that has been read, with the limits before and after it.\<close>

definition eval_instr :: "interp_env \<Rightarrow> bytes \<Rightarrow> nat \<Rightarrow> opcodetype \<Rightarrow> bytes \<Rightarrow> eval_state \<Rightarrow> step" where
  "eval_instr E script pc opcode vchPushValue s =
    (let fExec = (False \<notin> set (vfExec s)) in
     if length vchPushValue > MAX_SCRIPT_ELEMENT_SIZE then fail
     else
       let s = (if opcode > OP_16 then s\<lparr>nOpCount := nOpCount s + 1\<rparr> else s) in
       if opcode > OP_16 \<and> nOpCount s > 201 then fail
       else if disabled_op opcode then fail
       else
         (case (if fExec \<and> 0 \<le> opcode \<and> opcode \<le> OP_PUSHDATA4 then continue (s\<lparr>stack := stack s @ [vchPushValue]\<rparr>)
                else if fExec \<or> (0x63 \<le> opcode \<and> opcode \<le> 0x68) then exec_op E script pc fExec opcode s
                else continue s) of
            Inl e \<Rightarrow> Inl e
          | Inr None \<Rightarrow> fail
          | Inr (Some s) \<Rightarrow> if length (stack s) + length (altstack s) > 1000 then fail else continue s))"

function eval_loop :: "interp_env \<Rightarrow> bytes \<Rightarrow> nat \<Rightarrow> eval_state \<Rightarrow> step" where
  "eval_loop E script pc s =
    (if pc < length script then
       (case GetOp2 script pc of (ok, pc', opcode, vchPushValue) \<Rightarrow>
          if ok then
            (case eval_instr E script pc' opcode vchPushValue s of
               Inl e \<Rightarrow> Inl e
             | Inr None \<Rightarrow> fail
             | Inr (Some s') \<Rightarrow> eval_loop E script pc' s')
          else fail)
     else continue s)"
  by auto
termination
  by (relation "measure (\<lambda>(E, script, pc, s). length script - pc)") (auto dest: GetOp2_dec)

declare eval_loop.simps [simp del]

text \<open>\<open>EvalScript\<close>: the stack after a successful evaluation.\<close>

definition EvalScript :: "interp_env \<Rightarrow> bytes list \<Rightarrow> bytes \<Rightarrow> bytes list option result" where
  "EvalScript E st script =
    (if length script > 10000 then Inr None
     else
       (case eval_loop E script 0 \<lparr>stack = st, altstack = [], vfExec = [], nOpCount = 0, codehash = 0\<rparr> of
          Inl e \<Rightarrow> Inl e
        | Inr None \<Rightarrow> Inr None
        | Inr (Some s) \<Rightarrow> if vfExec s \<noteq> [] then Inr None else Inr (Some (stack s))))"

section \<open>The signature hash\<close>

text \<open>\<open>ser_hash\<close> is the double hash of the serialised transaction and hash type (\<open>CHashWriter\<close>, not in the tree).\<close>

definition blank_inputs :: "nat \<Rightarrow> bytes \<Rightarrow> CTransaction \<Rightarrow> CTransaction" where
  "blank_inputs nIn scriptCode tx =
    (let vs = map (\<lambda>i. i\<lparr>scriptSig := []\<rparr>) (vin tx) in tx\<lparr>vin := vs[nIn := (vs ! nIn)\<lparr>scriptSig := scriptCode\<rparr>]\<rparr>)"

definition zero_sequences :: "nat \<Rightarrow> CTransaction \<Rightarrow> CTransaction" where
  "zero_sequences nIn tx =
    tx\<lparr>vin := map (\<lambda>i. if i \<noteq> nIn then (vin tx ! i)\<lparr>nSequence := 0\<rparr> else vin tx ! i) [0..<length (vin tx)]\<rparr>"

definition signed_tx :: "sighash_types \<Rightarrow> bytes \<Rightarrow> CTransaction \<Rightarrow> nat \<Rightarrow> u32 \<Rightarrow> CTransaction" where
  "signed_tx T scriptCode txTo nIn nHashType =
    (let txTmp = blank_inputs nIn scriptCode txTo;
         txTmp =
           (if nHashType AND 0x1f = SIGHASH_NONE T then zero_sequences nIn (txTmp\<lparr>vout := []\<rparr>)
            else if nHashType AND 0x1f = SIGHASH_SINGLE T then
              zero_sequences nIn (txTmp\<lparr>vout := replicate nIn CTxOut_Null @ [vout txTmp ! nIn]\<rparr>)
            else txTmp)
     in if nHashType AND SIGHASH_ANYONECANPAY T \<noteq> 0 then txTmp\<lparr>vin := [vin txTmp ! nIn]\<rparr> else txTmp)"

definition SignatureHash :: "sighash_types \<Rightarrow> (CTransaction \<Rightarrow> u32 \<Rightarrow> base_uint) \<Rightarrow> bytes \<Rightarrow> CTransaction \<Rightarrow> nat \<Rightarrow> u32 \<Rightarrow> base_uint" where
  "SignatureHash T ser_hash scriptCode txTo nIn nHashType =
    (if nIn \<ge> length (vin txTo) then set64 8 1
     else
       let scriptCode = fst (FindAndDelete scriptCode [0xab]) in
       if nHashType AND 0x1f \<noteq> SIGHASH_NONE T \<and> nHashType AND 0x1f = SIGHASH_SINGLE T \<and> nIn \<ge> length (vout txTo) then set64 8 1
       else ser_hash (signed_tx T scriptCode txTo nIn nHashType) nHashType)"

section \<open>Signatures in DER form\<close>

lemma unat_of_nat_byte: "n < 256 \<Longrightarrow> unat (of_nat n :: byte) = n"
  by (simp add: unsigned_of_nat take_bit_nat_eq_self)

text \<open>A positive integer in the shortest big-endian form.\<close>

definition der_int :: "bytes \<Rightarrow> bool" where
  "der_int X \<longleftrightarrow> X \<noteq> [] \<and> unat (hd X) < 128 \<and> (1 < length X \<and> hd X = 0 \<longrightarrow> 128 \<le> unat (X ! 1))"

definition der_sig :: "bytes \<Rightarrow> bytes \<Rightarrow> byte \<Rightarrow> bytes" where
  "der_sig R S h = [0x30, of_nat (length R + length S + 4), 0x02, of_nat (length R)] @ R @ [0x02, of_nat (length S)] @ S @ [h]"

lemma der_int_at:
  assumes "v = p @ X @ q" "X \<noteq> []"
  shows "v ! length p = hd X" "1 < length X \<Longrightarrow> v ! (length p + 1) = X ! 1"
  using assms by (cases X; simp add: nth_append)+

lemma der_int_code:
  assumes "v = p @ X @ q" "r = length p" "n = length X"
  shows "der_int X \<longleftrightarrow> \<not> n = 0 \<and> \<not> (v ! r AND 0x80 \<noteq> 0) \<and>
    \<not> (n > 1 \<and> v ! r = 0 \<and> \<not> (v ! (r + 1) AND 0x80 \<noteq> 0))"
  using der_int_at [OF assms(1)] unfolding byte_sign(1) assms(2,3) der_int_def by (cases "X = []") auto

lemma der_sig_nth:
  assumes "v = der_sig R S h" "length R < 256" "length S < 256"
  shows "length v = length R + length S + 7" "v ! 0 = 0x30" "v ! 1 = of_nat (length R + length S + 4)" "v ! 2 = 0x02"
    "unat (v ! 3) = length R" "v ! (4 + length R) = 0x02" "unat (v ! (5 + length R)) = length S" "v ! (length v - 1) = h"
proof -
  show l: "length v = length R + length S + 7" by (simp add: assms(1) der_sig_def)
  show "v ! 0 = 0x30" "v ! 1 = of_nat (length R + length S + 4)" "v ! 2 = 0x02" by (simp_all add: assms(1) der_sig_def)
  note u = unat_of_nat_byte
  have "v ! 3 = of_nat (length R)" by (simp add: assms(1) der_sig_def)
  then show "unat (v ! 3) = length R" using u [OF assms(2)] by (simp only:)
  let ?a = "[0x30, of_nat (length R + length S + 4), 0x02, of_nat (length R)] @ R"
  have v: "v = ?a @ [0x02, of_nat (length S)] @ S @ [h]" by (simp add: assms(1) der_sig_def)
  have la: "length ?a = 4 + length R" by simp
  have n: "v ! (length ?a + k) = ([0x02, of_nat (length S)] @ S @ [h]) ! k" for k unfolding v by (rule nth_append_length_plus)
  show "v ! (4 + length R) = 0x02" using n [of 0] unfolding la by simp
  have "v ! (5 + length R) = of_nat (length S)" using n [of 1] unfolding la by (simp add: ac_simps)
  then show "unat (v ! (5 + length R)) = length S" using u [OF assms(3)] by (simp only:)
  show "v ! (length v - 1) = h" by (simp add: assms(1) der_sig_def nth_append)
qed

lemma hashtype_code:
  assumes "SIGHASH_ALL T = 1" "SIGHASH_SINGLE T = 3" "SIGHASH_ANYONECANPAY T = 0x80"
  shows "(ucast (h AND ucast (NOT (SIGHASH_ANYONECANPAY T)) :: byte) < SIGHASH_ALL T \<or>
      ucast (h AND ucast (NOT (SIGHASH_ANYONECANPAY T)) :: byte) > SIGHASH_SINGLE T) \<longleftrightarrow> \<not> (h AND 0x7f \<in> {1, 2, 3})"
proof -
  have "ucast (NOT (0x80 :: u32)) = (0x7f :: byte)" by code_simp
  then have e: "h AND ucast (NOT (SIGHASH_ANYONECANPAY T)) = h AND 0x7f" unfolding assms(3) by (simp only:)
  have c: "ucast x < (1 :: u32) \<or> ucast x > (3 :: u32) \<longleftrightarrow> \<not> x \<in> {1, 2, 3}" for x :: byte
  proof -
    have "unat x < 2 ^ 32" using byte_less [of x] by simp
    then have "unat (ucast x :: u32) = unat x" by (simp add: unsigned_ucast_eq take_bit_nat_eq_self)
    then have "ucast x < (1 :: u32) \<or> ucast x > (3 :: u32) \<longleftrightarrow> unat x < 1 \<or> unat x > 3" by (simp add: word_less_nat_alt)
    also have "\<dots> \<longleftrightarrow> \<not> unat x \<in> {1, 2, 3}" by auto
    also have "unat x \<in> {1, 2, 3} \<longleftrightarrow> x \<in> {1, 2, 3}" by (auto simp: word_unat_eq_iff)
    finally show ?thesis .
  qed
  show ?thesis unfolding e assms(1,2) by (rule c)
qed

text \<open>The parts a signature of the right lengths splits into.\<close>

lemma der_split:
  assumes "9 \<le> length v" "v ! 0 = 0x30" "unat (v ! 1) = length v - 3" "v ! 2 = 0x02" "unat (v ! 3) + unat (v ! (5 + unat (v ! 3))) + 7 = length v"
    "v ! (4 + unat (v ! 3)) = 0x02"
  obtains R S h where "v = der_sig R S h" "length R = unat (v ! 3)" "length S = unat (v ! (5 + unat (v ! 3)))"
proof
  let ?r = "unat (v ! 3)" and ?s = "unat (v ! (5 + unat (v ! 3)))"
  let ?R = "take ?r (drop 4 v)" and ?S = "take ?s (drop (6 + ?r) v)" and ?h = "v ! (length v - 1)"
  show r: "length ?R = ?r" and s: "length ?S = ?s" using assms(5) by simp_all
  have w: "of_nat (length ?R) = v ! 3" "of_nat (length ?S) = v ! (5 + ?r)" unfolding r s by simp_all
  have "of_nat (length ?R + length ?S + 4) = v ! 1"
  proof -
    have "length ?R + length ?S + 4 = unat (v ! 1)" unfolding r s using assms(3,5) by simp
    then have "of_nat (length ?R + length ?S + 4) = (of_nat (unat (v ! 1)) :: byte)" by (simp only:)
    then show ?thesis by simp
  qed
  note w = w this
  show "v = der_sig ?R ?S ?h"
  proof (rule nth_equalityI)
    show "length v = length (der_sig ?R ?S ?h)" unfolding der_sig_def using r s assms(5) by simp
  next
    fix i assume i: "i < length v"
    have l: "length v = 4 + ?r + 2 + ?s + 1" using assms(5) by simp
    consider "i < 4" | "4 \<le> i" "i < 4 + ?r" | "i = 4 + ?r" | "i = 5 + ?r" | "6 + ?r \<le> i" "i < 6 + ?r + ?s" | "i = 6 + ?r + ?s"
      using i l by linarith
    then show "v ! i = der_sig ?R ?S ?h ! i"
    proof cases
      case 1
      then have "i = 0 \<or> i = 1 \<or> i = 2 \<or> i = 3" by auto
      then show ?thesis unfolding der_sig_def w using assms(2,4) by (elim disjE) simp_all
    next
      case 2
      then obtain k where k: "i = 4 + k" by (metis le_Suc_ex)
      then show ?thesis unfolding der_sig_def using r 2 l by (simp add: nth_append)
    next
      case 3
      then show ?thesis unfolding der_sig_def using r assms(6) by (simp add: nth_append)
    next
      case 4
      then show ?thesis unfolding der_sig_def w using r by (simp add: nth_append)
    next
      case 5
      then obtain k where k: "i = 6 + ?r + k" by (metis le_Suc_ex)
      then show ?thesis unfolding der_sig_def using r s 5 l by (simp add: nth_append)
    next
      case 6
      then show ?thesis unfolding der_sig_def using r s l by (simp add: nth_append add.assoc)
    qed
  qed
qed

lemma canonical_form:
  assumes "SIGHASH_ALL T = 1" "SIGHASH_SINGLE T = 3" "SIGHASH_ANYONECANPAY T = 0x80" "r = unat (v ! 3)" "s = unat (v ! (5 + r))"
  shows "IsCanonicalSignature T v \<longleftrightarrow> 9 \<le> length v \<and> length v \<le> 73 \<and> v ! (length v - 1) AND 0x7f \<in> {1, 2, 3} \<and> v ! 0 = 0x30 \<and>
    unat (v ! 1) = length v - 3 \<and> \<not> 5 + r \<ge> length v \<and> r + s + 7 = length v \<and> v ! 2 = 0x02 \<and>
    (\<not> r = 0 \<and> \<not> (v ! 4 AND 0x80 \<noteq> 0) \<and> \<not> (r > 1 \<and> v ! 4 = 0 \<and> \<not> (v ! (4 + 1) AND 0x80 \<noteq> 0))) \<and> v ! (4 + r) = 0x02 \<and>
    (\<not> s = 0 \<and> \<not> (v ! (6 + r) AND 0x80 \<noteq> 0) \<and> \<not> (s > 1 \<and> v ! (6 + r) = 0 \<and> \<not> (v ! (6 + r + 1) AND 0x80 \<noteq> 0)))"
proof -
  have c: "(if b then False else x) = (\<not> b \<and> x)" for b x by simp
  have n: "(4 :: nat) - 2 = 2" "6 + r - 2 = 4 + r" by simp_all
  show ?thesis
    unfolding IsCanonicalSignature_def Let_def c hashtype_code [OF assms(1-3)] assms(4,5) [symmetric] n not_less not_not
    by blast
qed

text \<open>C4. The signature check accepts exactly the strict DER signatures with a known hash type: total length 9 to
  73, the marker and length bytes right, \<open>R\<close> and \<open>S\<close> positive and shortest, nothing behind the hash type byte.
  (The hash type constants are those of the protocol.)\<close>
theorem IsCanonicalSignature_DER:
  assumes "SIGHASH_ALL T = 1" "SIGHASH_SINGLE T = 3" "SIGHASH_ANYONECANPAY T = 0x80"
  shows "IsCanonicalSignature T v \<longleftrightarrow> 9 \<le> length v \<and> length v \<le> 73 \<and>
    (\<exists>R S h. v = der_sig R S h \<and> der_int R \<and> der_int S \<and> h AND 0x7f \<in> {1, 2, 3})"
proof
  assume a: "IsCanonicalSignature T v"
  note f = canonical_form [OF assms refl refl, THEN iffD1, OF a]
  have h: "9 \<le> length v" "length v \<le> 73" "v ! (length v - 1) AND 0x7f \<in> {1, 2, 3}" "v ! 0 = 0x30" "unat (v ! 1) = length v - 3"
    "unat (v ! 3) + unat (v ! (5 + unat (v ! 3))) + 7 = length v" "v ! 2 = 0x02" "v ! (4 + unat (v ! 3)) = 0x02"
    using f by blast+
  obtain R S g where v: "v = der_sig R S g" "length R = unat (v ! 3)" "length S = unat (v ! (5 + unat (v ! 3)))"
    using der_split [OF h(1,4,5,7,6,8)] by blast
  have g: "v ! (length v - 1) = g" using der_sig_nth(8) [OF v(1)] byte_less v(2,3) by metis
  have "v = [0x30, of_nat (length R + length S + 4), 0x02, of_nat (length R)] @ R @ ([0x02, of_nat (length S)] @ S @ [g])"
    using v(1) by (simp add: der_sig_def)
  then have R: "der_int R" by (rule der_int_code [where r = 4, THEN iffD2, OF _ _ v(2) [symmetric]]) (simp, use f in blast)
  have "v = ([0x30, of_nat (length R + length S + 4), 0x02, of_nat (length R)] @ R @ [0x02, of_nat (length S)]) @ S @ [g]"
    using v(1) by (simp add: der_sig_def)
  then have S: "der_int S" by (rule der_int_code [where r = "6 + unat (v ! 3)", THEN iffD2, OF _ _ v(3) [symmetric]]) (use v(2) in simp, use f in blast)
  show "9 \<le> length v \<and> length v \<le> 73 \<and> (\<exists>R S h. v = der_sig R S h \<and> der_int R \<and> der_int S \<and> h AND 0x7f \<in> {1, 2, 3})"
    using h(1,2) h(3) [unfolded g] v(1) R S by blast
next
  assume "9 \<le> length v \<and> length v \<le> 73 \<and> (\<exists>R S h. v = der_sig R S h \<and> der_int R \<and> der_int S \<and> h AND 0x7f \<in> {1, 2, 3})"
  then obtain R S h where l: "9 \<le> length v" "length v \<le> 73" and v: "v = der_sig R S h" "der_int R" "der_int S" "h AND 0x7f \<in> {1, 2, 3}"
    by blast
  have len: "length v = length R + length S + 7" by (simp add: v(1) der_sig_def)
  then have rs: "length R < 256" "length S < 256" using l by simp_all
  note n = der_sig_nth [OF v(1) rs]
  have "unat (v ! 1) = length R + length S + 4" unfolding n(3) using len l by (intro unat_of_nat_byte) simp
  then have n1: "unat (v ! 1) = length v - 3" using len by simp
  have "v = [0x30, of_nat (length R + length S + 4), 0x02, of_nat (length R)] @ R @ ([0x02, of_nat (length S)] @ S @ [h])"
    using v(1) by (simp add: der_sig_def)
  from der_int_code [THEN iffD1, OF this _ refl v(2), of 4]
  have R: "\<not> length R = 0 \<and> \<not> (v ! 4 AND 0x80 \<noteq> 0) \<and> \<not> (length R > 1 \<and> v ! 4 = 0 \<and> \<not> (v ! (4 + 1) AND 0x80 \<noteq> 0))" by simp
  have "v = ([0x30, of_nat (length R + length S + 4), 0x02, of_nat (length R)] @ R @ [0x02, of_nat (length S)]) @ S @ [h]"
    using v(1) by (simp add: der_sig_def)
  from der_int_code [THEN iffD1, OF this _ refl v(3), of "6 + length R"]
  have S: "\<not> length S = 0 \<and> \<not> (v ! (6 + length R) AND 0x80 \<noteq> 0) \<and>
    \<not> (length S > 1 \<and> v ! (6 + length R) = 0 \<and> \<not> (v ! (6 + length R + 1) AND 0x80 \<noteq> 0))" by simp
  have g1: "\<not> 5 + length R \<ge> length v" "length R + length S + 7 = length v" using len S by (cases S; simp)+
  have g2: "v ! (length v - 1) AND 0x7f \<in> {1, 2, 3}" unfolding n(8) by (rule v(4))
  show "IsCanonicalSignature T v"
    by (rule canonical_form [OF assms n(5) [symmetric] n(7) [symmetric], THEN iffD2])
      (use l n(2,4,6) n1 R S g1 g2 in blast)
qed

theorem IsCanonicalSignature_DER_witness:
  "IsCanonicalSignature \<lparr>SIGHASH_ALL = 1, SIGHASH_NONE = 2, SIGHASH_SINGLE = 3, SIGHASH_ANYONECANPAY = 0x80\<rparr>
     [0x30, 0x07, 0x02, 0x02, 0x00, 0x80, 0x02, 0x01, 0x11, 0x81]"
proof -
  have "[0x30, 0x07, 0x02, 0x02, 0x00, 0x80, 0x02, 0x01, 0x11, 0x81] = der_sig [0x00, 0x80] [0x11] 0x81" by code_simp
  moreover have "der_int [0x00, 0x80]" "der_int [0x11]" "(0x81 :: byte) AND 0x7f \<in> {1, 2, 3}" by code_simp+
  ultimately have "\<exists>R S h. [0x30, 0x07, 0x02, 0x02, 0x00, 0x80, 0x02, 0x01, 0x11, 0x81] = der_sig R S h \<and> der_int R \<and> der_int S \<and>
      h AND 0x7f \<in> {1, 2, 3}" by blast
  then show ?thesis by (subst IsCanonicalSignature_DER) simp_all
qed

end
