(* ===== verification/InterpreterSpec.thy ===== *)
theory InterpreterSpec
  imports Interpreter
begin

text \<open>
  What the script interpreter guarantees: its limits, when it can abort, how pushes evaluate, and what a
  signature hash covers.
\<close>

section \<open>Limits\<close>

lemma eval_instr_cases:
  assumes "eval_instr E script pc opcode v s = Inr (Some s')"
  obtains t where "t = (if opcode > OP_16 then s\<lparr>nOpCount := nOpCount s + 1\<rparr> else s)" "opcode > OP_16 \<Longrightarrow> nOpCount t \<le> 201"
    "length v \<le> 520" "length (stack s') + length (altstack s') \<le> 1000" "\<not> disabled_op opcode"
    "(if False \<notin> set (vfExec s) \<and> 0 \<le> opcode \<and> opcode \<le> OP_PUSHDATA4 then Inr (Some (t\<lparr>stack := stack t @ [v]\<rparr>))
      else if False \<notin> set (vfExec s) \<or> (0x63 \<le> opcode \<and> opcode \<le> 0x68) then exec_op E script pc (False \<notin> set (vfExec s)) opcode t
      else Inr (Some t)) = Inr (Some s')"
proof -
  define t where "t = (if opcode > OP_16 then s\<lparr>nOpCount := nOpCount s + 1\<rparr> else s)"
  define r where "r = (if False \<notin> set (vfExec s) \<and> 0 \<le> opcode \<and> opcode \<le> OP_PUSHDATA4 then Inr (Some (t\<lparr>stack := stack t @ [v]\<rparr>))
      else if False \<notin> set (vfExec s) \<or> (0x63 \<le> opcode \<and> opcode \<le> 0x68) then exec_op E script pc (False \<notin> set (vfExec s)) opcode t
      else Inr (Some t))"
  have "length v \<le> 520 \<and> \<not> (opcode > OP_16 \<and> nOpCount t > 201) \<and> \<not> disabled_op opcode \<and>
    (case r of Inl e \<Rightarrow> Inl e | Inr None \<Rightarrow> Inr None
     | Inr (Some s) \<Rightarrow> if length (stack s) + length (altstack s) > 1000 then Inr None else Inr (Some s)) = Inr (Some s')"
    using assms unfolding eval_instr_def Let_def t_def [symmetric] r_def [symmetric] MAX_SCRIPT_ELEMENT_SIZE_def
    by (simp split: if_splits)
  then have "length v \<le> 520" "opcode > OP_16 \<Longrightarrow> nOpCount t \<le> 201" "\<not> disabled_op opcode"
    "r = Inr (Some s') \<and> length (stack s') + length (altstack s') \<le> 1000"
    by (auto split: sum.splits option.splits if_splits)
  then show ?thesis using that [OF t_def] unfolding r_def by blast
qed

text \<open>The elements on both stacks stay within the element limit when every produced value does.\<close>

definition elems_ok :: "bytes list \<Rightarrow> bool" where
  "elems_ok st \<longleftrightarrow> (\<forall>x \<in> set st. length x \<le> 520)"

definition env_ok :: "interp_env \<Rightarrow> bool" where
  "env_ok E \<longleftrightarrow> length (vchTrue E) \<le> 520 \<and> length (vchFalse E) \<le> 520 \<and>
     (\<forall>x. length (hash_ripemd160 E x) \<le> 520 \<and> length (hash_sha1 E x) \<le> 520 \<and> length (hash_sha256 E x) \<le> 520 \<and>
        length (hash_Hash160 E x) \<le> 520 \<and> length (hash_Hash E x) \<le> 520)"

lemma elems_append [simp]: "elems_ok (a @ b) \<longleftrightarrow> elems_ok a \<and> elems_ok b"
  by (auto simp: elems_ok_def)

lemma elems_Cons [simp]: "elems_ok (x # b) \<longleftrightarrow> length x \<le> 520 \<and> elems_ok b"
  by (auto simp: elems_ok_def)

lemma elems_Nil [simp]: "elems_ok []"
  by (simp add: elems_ok_def)

lemma elems_dropn [simp]: "elems_ok st \<Longrightarrow> elems_ok (dropn k st)"
  by (auto simp: elems_ok_def dropn_def dest: in_set_takeD)

lemma elems_drop: "elems_ok st \<Longrightarrow> elems_ok (drop k st)"
  by (auto simp: elems_ok_def dest: in_set_dropD)

lemma elems_top [simp]: "elems_ok st \<Longrightarrow> 0 < k \<Longrightarrow> k \<le> length st \<Longrightarrow> length (stacktop st k) \<le> 520"
  by (auto simp: elems_ok_def stacktop_def)

lemma elems_top1 [simp]: "elems_ok st \<Longrightarrow> st \<noteq> [] \<Longrightarrow> length (stacktop st (Suc 0)) \<le> 520"
  by (rule elems_top) (simp_all add: Suc_le_eq)

lemma elems_last [simp]: "elems_ok st \<Longrightarrow> st \<noteq> [] \<Longrightarrow> length (last st) \<le> 520"
  by (auto simp: elems_ok_def)

lemma elems_butlast [simp]: "elems_ok st \<Longrightarrow> elems_ok (butlast st)"
  by (auto simp: elems_ok_def dest: in_set_butlastD)

lemma guard_iff:
  "(if a then None else r) = Some y \<longleftrightarrow> \<not> a \<and> r = Some y"
  "(if a then Inr None else q) = Inr (Some z) \<longleftrightarrow> \<not> a \<and> q = Inr (Some z)"
  by simp_all

lemma if_elim: "(if c then x else y) = r \<Longrightarrow> (c \<Longrightarrow> x = r \<Longrightarrow> P) \<Longrightarrow> (\<not> c \<Longrightarrow> y = r \<Longrightarrow> P) \<Longrightarrow> P"
  by (cases c) simp_all

lemma if3_cases: "(if a then x else if b then y else z) = r \<Longrightarrow> x = r \<or> y = r \<or> z = r"
  by (simp split: if_splits)

lemma stack_op_elems:
  assumes "stack_op E opcode st alt = Some (st', alt')" "elems_ok st" "elems_ok alt"
  shows "elems_ok st' \<and> elems_ok alt'"
proof (cases "opcode = 0x79 \<or> opcode = 0x7a")
  case True
  let ?n = "pick_index E st" and ?st = "dropn 1 st"
  have l: "length ?st = length st - 1" by (simp add: dropn_def)
  have "(if length st < 2 then None else if ?n < 0 \<or> ?n \<ge> int (length ?st) then None
     else Some ((if opcode = 0x7a then dropn (nat ?n + 1) ?st @ drop (length ?st - nat ?n) ?st else ?st) @ [stacktop ?st (nat ?n + 1)], alt)) = Some (st', alt')"
    using True assms(1) unfolding stack_op_def Let_def by (elim disjE) simp_all
  then have n: "\<not> ?n < 0 \<and> \<not> ?n \<ge> int (length ?st)" and
    st': "st' = (if opcode = 0x7a then dropn (nat ?n + 1) ?st @ drop (length ?st - nat ?n) ?st else ?st) @ [stacktop ?st (nat ?n + 1)]" "alt' = alt"
    unfolding guard_iff option.inject prod.inject by blast+
  have "length (stacktop ?st (nat ?n + 1)) \<le> 520" using n assms(2) by (intro elems_top elems_dropn) auto
  then show ?thesis unfolding st' using assms(2,3) by (simp add: elems_drop)
next
  case False
  note r = assms(1) [unfolded stack_op_def Let_def]
  from r False assms(2,3) show ?thesis by (elim if_elim) (auto simp: not_less)
qed

lemma push_verdict_elems:
  assumes "push_verdict E verify ok st s = Inr (Some s')" "elems_ok st" "elems_ok (altstack s)" "env_ok E"
  shows "elems_ok (stack s') \<and> elems_ok (altstack s')"
  using assms by (auto simp: push_verdict_def bool_vch_def env_ok_def split: if_splits)

lemma exec_op_elems:
  assumes "exec_op E script pc fExec opcode s = Inr (Some s')" "elems_ok (stack s)" "elems_ok (altstack s)" "env_ok E"
  shows "elems_ok (stack s') \<and> elems_ok (altstack s')"
proof -
  note rule = push_verdict_elems [OF _ _ _ assms(4)]
  have c: "exec_control opcode fExec s = Inr (Some s') \<Longrightarrow> ?thesis"
    using assms(2,3) by (auto simp: exec_control_def Let_def split: if_splits)
  have st: "exec_stack E opcode s = Inr (Some s') \<Longrightarrow> ?thesis"
    using stack_op_elems [OF _ assms(2,3)] by (auto simp: exec_stack_def split: option.splits)
  have eq: "exec_equal E opcode s = Inr (Some s') \<Longrightarrow> ?thesis"
    using assms(2,3) by (auto simp: exec_equal_def split: if_splits dest!: rule)
  have w: "exec_within E s = Inr (Some s') \<Longrightarrow> ?thesis"
    using assms(2-4) by (auto simp: exec_within_def bool_vch_def env_ok_def split: if_splits)
  have h: "exec_hash E opcode s = Inr (Some s') \<Longrightarrow> ?thesis"
    using assms(2-4) by (auto simp: exec_hash_def env_ok_def Let_def guard_iff)
  have cs: "exec_checksig E script opcode s = Inr (Some s') \<Longrightarrow> ?thesis"
    using assms(2,3) unfolding exec_checksig_def Let_def by (auto split: if_splits dest!: rule)
  have ms: "exec_multisig E opcode s = Inr (Some s') \<Longrightarrow> ?thesis"
    using assms(2,3) unfolding exec_multisig_def Let_def by (auto split: if_splits option.splits dest!: rule)
  show ?thesis
    using assms(1-3) c st eq w h cs ms
    unfolding exec_op_def exec_unary_def exec_binary_def by (simp split: if_splits) auto
qed

lemma eval_instr_elems:
  assumes "eval_instr E script pc opcode v s = Inr (Some s')" "elems_ok (stack s)" "elems_ok (altstack s)" "env_ok E"
  shows "elems_ok (stack s') \<and> elems_ok (altstack s')"
  using assms(1)
proof (rule eval_instr_cases)
  fix t
  assume t: "t = (if opcode > OP_16 then s\<lparr>nOpCount := nOpCount s + 1\<rparr> else s)" and v: "length v \<le> 520"
    and r: "(if False \<notin> set (vfExec s) \<and> 0 \<le> opcode \<and> opcode \<le> OP_PUSHDATA4 then Inr (Some (t\<lparr>stack := stack t @ [v]\<rparr>))
      else if False \<notin> set (vfExec s) \<or> (0x63 \<le> opcode \<and> opcode \<le> 0x68) then exec_op E script pc (False \<notin> set (vfExec s)) opcode t
      else Inr (Some t)) = Inr (Some s')"
  have t': "elems_ok (stack t)" "elems_ok (altstack t)" using assms(2,3) by (simp_all add: t)
  consider "s' = t\<lparr>stack := stack t @ [v]\<rparr>" | "exec_op E script pc (False \<notin> set (vfExec s)) opcode t = Inr (Some s')" | "s' = t"
    using if3_cases [OF r] unfolding sum.inject option.inject by blast
  then show ?thesis
  proof cases
    case 1
    then show ?thesis using t' v by simp
  next
    case 2
    then show ?thesis by (rule exec_op_elems [OF _ t' assms(4)])
  next
    case 3
    then show ?thesis using t' by simp
  qed
qed

lemma eval_loop_limits:
  assumes "eval_loop E script pc s = Inr (Some s')" "elems_ok (stack s)" "elems_ok (altstack s)" "env_ok E"
  shows "elems_ok (stack s') \<and> elems_ok (altstack s') \<and> (pc < length script \<longrightarrow> length (stack s') + length (altstack s') \<le> 1000)"
  using assms
proof (induction E script pc s rule: eval_loop.induct)
  case (1 E script pc s)
  show ?case
  proof (cases "pc < length script")
    case True
    obtain ok pc' opcode v where g: "GetOp2 script pc = (ok, pc', opcode, v)" by (cases "GetOp2 script pc") auto
    from "1.prems"(1) True g have ok: ok by (subst (asm) eval_loop.simps) (simp split: if_splits)
    then obtain t where t: "eval_instr E script pc' opcode v s = Inr (Some t)" "eval_loop E script pc' t = Inr (Some s')"
      using "1.prems"(1) True g by (subst (asm) eval_loop.simps) (auto split: sum.splits option.splits)
    have e: "elems_ok (stack t)" "elems_ok (altstack t)" using eval_instr_elems [OF t(1) "1.prems"(2-4)] by simp_all
    have l: "length (stack t) + length (altstack t) \<le> 1000" using t(1) by (rule eval_instr_cases)
    have IH: "elems_ok (stack s') \<and> elems_ok (altstack s') \<and> (pc' < length script \<longrightarrow> length (stack s') + length (altstack s') \<le> 1000)"
      using "1.IH" [OF True g [symmetric] refl refl ok t(1) refl t(2) e "1.prems"(4)] by blast
    have "s' = t" if "\<not> pc' < length script" using t(2) that by (subst (asm) eval_loop.simps) simp
    then show ?thesis using IH l by (cases "pc' < length script") auto
  next
    case False
    then have "s' = s" using "1.prems"(1) by (subst (asm) eval_loop.simps) simp
    then show ?thesis using "1.prems" False by simp
  qed
qed

definition witness_env :: interp_env where
  "witness_env = \<lparr>vchTrue = [1], vchFalse = [], hash_ripemd160 = \<lambda>_. [], hash_sha1 = \<lambda>_. [], hash_sha256 = \<lambda>_. [],
     hash_Hash160 = \<lambda>_. [], hash_Hash = \<lambda>_. [],
     sig_types = \<lparr>SIGHASH_ALL = 1, SIGHASH_NONE = 2, SIGHASH_SINGLE = 3, SIGHASH_ANYONECANPAY = 0x80\<rparr>,
     fStrictEncodings = True, IsCanonicalPubKey = \<lambda>_. True, CheckSig = \<lambda>_ _ _. False, pick_index = \<lambda>_. 0,
     within_value = \<lambda>_. True, multisig_keys = \<lambda>_. 0, multisig_check = \<lambda>_. None\<rparr>"

lemma witness_env_ok: "env_ok witness_env"
  by (simp add: env_ok_def witness_env_def)

definition init_state :: "bytes list \<Rightarrow> eval_state" where
  "init_state st = \<lparr>stack = st, altstack = [], vfExec = [], nOpCount = 0, codehash = 0\<rparr>"

lemma EvalScript_loop:
  "EvalScript E st script = Inr (Some st') \<longleftrightarrow> length script \<le> 10000 \<and>
    (\<exists>s. eval_loop E script 0 (init_state st) = Inr (Some s) \<and> vfExec s = [] \<and> st' = stack s)"
  by (auto simp: EvalScript_def init_state_def split: sum.splits option.splits if_splits)

text \<open>C13. A script that succeeds is at most 10000 bytes long and, unless it is empty, leaves at most 1000 elements;
  every element it leaves has at most 520 bytes when those it was given had (and hash functions and
  truth values yield such). No sequence of opcodes gets around the limits.\<close>
theorem EvalScript_limits:
  assumes "EvalScript E st script = Inr (Some st')" "env_ok E" "\<forall>x \<in> set st. length x \<le> 520"
  shows "length script \<le> 10000 \<and> (script \<noteq> [] \<longrightarrow> length st' \<le> 1000) \<and> (\<forall>x \<in> set st'. length x \<le> 520)"
proof -
  obtain s where s: "length script \<le> 10000" "eval_loop E script 0 (init_state st) = Inr (Some s)" "st' = stack s"
    using assms(1) by (auto simp: EvalScript_loop)
  have "elems_ok (stack (init_state st))" "elems_ok (altstack (init_state st))"
    using assms(3) by (simp_all add: init_state_def elems_ok_def)
  from eval_loop_limits [OF s(2) this assms(2)] show ?thesis using s(1,3) by (auto simp: elems_ok_def)
qed

theorem EvalScript_limits_witness:
  "EvalScript witness_env [[1], [2]] [0x7c, 0x02, 7, 8] = Inr (Some [[2], [1], [7, 8]]) \<and>
    length [[2], [1], [7, 8 :: byte]] \<le> 1000 \<and> length [7, 8 :: byte] \<le> 520"
proof -
  have e: "EvalScript witness_env [[1], [2]] [0x7c, 0x02, 7, 8] = Inr (Some [[2], [1], [7, 8]])" by code_simp
  show ?thesis using EvalScript_limits [OF e witness_env_ok] e by simp
qed

section \<open>Aborts\<close>

definition arith_op :: "opcodetype \<Rightarrow> bool" where
  "arith_op opcode \<longleftrightarrow> opcode = 0x8b \<or> opcode = 0x8c \<or> (0x8f \<le> opcode \<and> opcode \<le> 0x92) \<or>
     opcode = 0x93 \<or> opcode = 0x94 \<or> (0x9a \<le> opcode \<and> opcode \<le> 0xa4)"

lemma exec_no_abort:
  "exec_control opcode f s \<noteq> Inl e" "exec_stack E opcode s \<noteq> Inl e" "push_verdict E v ok st s \<noteq> Inl e"
  "exec_within E s \<noteq> Inl e" "exec_hash E opcode s \<noteq> Inl e"
  by (auto simp: exec_control_def exec_stack_def push_verdict_def exec_within_def exec_hash_def Let_def split: option.splits)

lemma exec_no_abort2:
  "exec_equal E opcode s \<noteq> Inl e" "exec_checksig E script opcode s \<noteq> Inl e" "exec_multisig E opcode s \<noteq> Inl e"
  using exec_no_abort(3) by (auto simp: exec_equal_def exec_checksig_def exec_multisig_def Let_def split: option.splits)

lemma exec_op_abort: "exec_op E script pc f opcode s = Inl e \<Longrightarrow> arith_op opcode \<and> e = AssertFailed"
  unfolding exec_op_def exec_unary_def exec_binary_def arith_op_def
  by (elim if_elim) (auto simp: exec_no_abort exec_no_abort2)

lemma eval_instr_abort: "eval_instr E script pc opcode v s = Inl e \<Longrightarrow> arith_op opcode \<and> e = AssertFailed"
  unfolding eval_instr_def Let_def
  by (auto split: if_splits sum.splits option.splits dest!: exec_op_abort)

lemma GetOp2_byte: "GetOp2 this pc = (True, pc', opcode, v) \<Longrightarrow> \<exists>b \<in> set this. uint b = opcode"
  by (auto simp: GetOp2_def Let_def split: if_splits)

lemma eval_loop_abort:
  "eval_loop E script pc s = Inl e \<Longrightarrow> e = AssertFailed \<and> (\<exists>b \<in> set script. arith_op (uint b))"
proof (induction E script pc s rule: eval_loop.induct)
  case (1 E script pc s)
  obtain ok pc' opcode v where g: "GetOp2 script pc = (ok, pc', opcode, v)" by (cases "GetOp2 script pc") auto
  from "1.prems" g have ok: ok and pc: "pc < length script" by (subst (asm) eval_loop.simps; simp split: if_splits)+
  then obtain b where b: "b \<in> set script" "uint b = opcode" using GetOp2_byte [of script pc pc' opcode v] g ok by auto
  show ?case
  proof (cases "eval_instr E script pc' opcode v s")
    case (Inl e')
    then have "e' = e" using "1.prems" g ok pc by (subst (asm) eval_loop.simps) simp
    then show ?thesis using eval_instr_abort [OF Inl] b by auto
  next
    case (Inr r)
    then obtain t where t: "r = Some t" "eval_loop E script pc' t = Inl e"
      using "1.prems" g ok pc by (subst (asm) eval_loop.simps) (simp split: option.splits)
    show ?thesis using "1.IH" [OF pc g [symmetric] refl refl ok Inr t] .
  qed
qed

text \<open>C26. Evaluation always returns, and the only way it does not return a verdict is the assertion in the arithmetic
  opcodes (whose cases are missing from the file): a script without a byte that is one of those opcodes is
  never aborted, whatever it contains.\<close>
theorem EvalScript_abort:
  assumes "EvalScript E st script = Inl e"
  shows "e = AssertFailed \<and> (\<exists>b \<in> set script. arith_op (uint b))"
  using assms eval_loop_abort by (auto simp: EvalScript_def split: if_splits sum.splits option.splits)

theorem EvalScript_abort_witness:
  "EvalScript witness_env [[1], [1]] [0x93] = Inl AssertFailed \<and> arith_op (uint (0x93 :: byte))"
proof -
  have e: "EvalScript witness_env [[1], [1]] [0x93] = Inl AssertFailed" by code_simp
  then show ?thesis using EvalScript_abort [OF e] by simp
qed

section \<open>Pushing\<close>

lemma eval_loop_step:
  assumes "GetOp2 script pc = (True, pc', opcode, v)" "pc < length script" "eval_instr E script pc' opcode v s = Inr (Some s')"
  shows "eval_loop E script pc s = eval_loop E script pc' s'"
  by (subst eval_loop.simps) (simp add: assms)

lemma eval_push:
  assumes "length d \<le> 520" "length (stack s) < 1000" "vfExec s = []" "altstack s = []" "0 \<le> opcode" "opcode \<le> OP_PUSHDATA4"
  shows "eval_instr E script pc opcode d s = Inr (Some (s\<lparr>stack := stack s @ [d]\<rparr>))"
  using assms by (simp add: eval_instr_def MAX_SCRIPT_ELEMENT_SIZE_def Let_def disabled_op_def)

lemma eval_pushes:
  assumes "\<forall>d \<in> set ds. length d \<le> 520" "length (stack s) + length ds \<le> 1000" "vfExec s = []" "altstack s = []"
  shows "eval_loop E (pre @ concat (map (push_data []) ds)) (length pre) s = Inr (Some (s\<lparr>stack := stack s @ ds\<rparr>))"
  using assms
proof (induction ds arbitrary: pre s)
  case Nil
  then show ?case by (subst eval_loop.simps) simp
next
  case (Cons d ds)
  let ?script = "pre @ concat (map (push_data []) (d # ds))" and ?s = "s\<lparr>stack := stack s @ [d]\<rparr>"
  have "length d < 2 ^ 32" using Cons.prems(1) by simp
  from push_read [OF this, of pre "concat (map (push_data []) ds)"] obtain op where
    op: "GetOp2 ?script (length pre) = (True, length pre + length (push_data [] d), op, d)" "0 \<le> op" "op \<le> OP_PUSHDATA4"
    by (auto simp: push_data_prefix [of pre])
  have pc: "length pre < length ?script" using is_op_nonempty [OF is_op_push [OF \<open>length d < 2 ^ 32\<close>]] by simp
  have "eval_instr E ?script (length pre + length (push_data [] d)) op d s = Inr (Some ?s)"
    using Cons.prems op(2,3) by (intro eval_push) simp_all
  from eval_loop_step [OF op(1) pc this]
  have "eval_loop E ?script (length pre) s = eval_loop E ?script (length pre + length (push_data [] d)) ?s" .
  also have "\<dots> = Inr (Some (?s\<lparr>stack := stack ?s @ ds\<rparr>))"
    using Cons.IH [of ?s "pre @ push_data [] d"] Cons.prems by simp
  finally show ?case by simp
qed

text \<open>A script built by appending data with \<open><<\<close> evaluates to exactly that data on the stack, in order, whenever
  it respects the size limits: building, reading and executing pushes agree.\<close>
theorem EvalScript_pushes:
  assumes "\<forall>d \<in> set ds. length d \<le> 520" "length st + length ds \<le> 1000" "length (foldl push_data [] ds) \<le> 10000"
  shows "EvalScript E st (foldl push_data [] ds) = Inr (Some (st @ ds))"
proof -
  have f: "foldl push_data s ds = s @ concat (map (push_data []) ds)" for s
  proof (induction ds arbitrary: s)
    case (Cons d ds)
    show ?case unfolding foldl.simps Cons.IH push_data_prefix [of s d] by simp
  qed simp
  show ?thesis using eval_pushes [of ds "init_state st" E "[]"] assms by (auto simp: EvalScript_loop f init_state_def)
qed

theorem EvalScript_pushes_witness:
  "EvalScript witness_env [[9]] (foldl push_data [] [[1, 2, 3], []]) = Inr (Some [[9], [1, 2, 3], []])"
proof -
  have "length (foldl push_data [] [[1, 2, 3], []]) \<le> 10000" by code_simp
  then show ?thesis using EvalScript_pushes [of "[[1, 2, 3], []]" "[[9]]" witness_env] by simp
qed

text \<open>The opcodes that should push -1 and 1 to 16 push nothing: with one of them as the whole script the
  evaluation succeeds and the stack is what it was (the statement that pushes the number is missing from
  their case).\<close>
theorem small_int_pushes_nothing:
  assumes "opc = 0x4f \<or> (0x51 \<le> uint opc \<and> uint opc \<le> 0x60)" "length st \<le> 1000"
  shows "EvalScript E st [opc] = Inr (Some st)"
proof -
  have o: "uint opc = 0x4f \<or> (0x51 \<le> uint opc \<and> uint opc \<le> 0x60)" using assms(1) by auto
  then have g: "GetOp2 [opc] 0 = (True, 1, uint opc, [])" by (auto simp: GetOp2_def Let_def)
  have "eval_instr E [opc] 1 (uint opc) [] (init_state st) = Inr (Some (init_state st))"
    using o assms(2) by (auto simp: eval_instr_def exec_op_def disabled_op_def init_state_def Let_def MAX_SCRIPT_ELEMENT_SIZE_def)
  then have "eval_loop E [opc] 0 (init_state st) = eval_loop E [opc] 1 (init_state st)"
    by (intro eval_loop_step [OF g]) simp_all
  also have "\<dots> = Inr (Some (init_state st))" by (subst eval_loop.simps) simp
  finally show ?thesis by (simp add: EvalScript_loop init_state_def)
qed

theorem small_int_pushes_nothing_witness:
  "EvalScript witness_env [] [0x52] = Inr (Some [])"
  by (rule small_int_pushes_nothing) simp_all

section \<open>What a signature commits to\<close>

text \<open>Two transactions agree on everything the hash type makes input \<open>nIn\<close>'s signature cover.\<close>

definition same_signed :: "sighash_types \<Rightarrow> nat \<Rightarrow> u32 \<Rightarrow> CTransaction \<Rightarrow> CTransaction \<Rightarrow> bool" where
  "same_signed T nIn ht a b \<longleftrightarrow>
    tx_nVersion a = tx_nVersion b \<and> nLockTime a = nLockTime b \<and>
    prevout (vin a ! nIn) = prevout (vin b ! nIn) \<and> nSequence (vin a ! nIn) = nSequence (vin b ! nIn) \<and>
    (ht AND SIGHASH_ANYONECANPAY T = 0 \<longrightarrow>
       map prevout (vin a) = map prevout (vin b) \<and>
       (ht AND 0x1f \<noteq> SIGHASH_NONE T \<and> ht AND 0x1f \<noteq> SIGHASH_SINGLE T \<longrightarrow> map nSequence (vin a) = map nSequence (vin b))) \<and>
    (ht AND 0x1f \<noteq> SIGHASH_NONE T \<longrightarrow>
       (if ht AND 0x1f = SIGHASH_SINGLE T then vout a ! nIn = vout b ! nIn else vout a = vout b))"

text \<open>The inputs of the signed copy.\<close>

definition signed_in :: "nat \<Rightarrow> bytes \<Rightarrow> bool \<Rightarrow> CTxIn list \<Rightarrow> nat \<Rightarrow> CTxIn" where
  "signed_in nIn sc z vs i = \<lparr>prevout = prevout (vs ! i), scriptSig = (if i = nIn then sc else []),
     nSequence = (if z \<and> i \<noteq> nIn then 0 else nSequence (vs ! i))\<rparr>"

lemma blank_inputs_vin:
  "nIn < length (vin tx) \<Longrightarrow> vin (blank_inputs nIn sc tx) = map (signed_in nIn sc False (vin tx)) [0..<length (vin tx)]"
  by (rule nth_equalityI) (auto simp: blank_inputs_def signed_in_def Let_def nth_list_update)

lemma zero_sequences_vin:
  "nIn < length (vin tx) \<Longrightarrow> vin (zero_sequences nIn (blank_inputs nIn sc tx\<lparr>vout := w\<rparr>)) =
     map (signed_in nIn sc True (vin tx)) [0..<length (vin tx)]"
proof (rule nth_equalityI)
  assume n: "nIn < length (vin tx)"
  show "length (vin (zero_sequences nIn (blank_inputs nIn sc tx\<lparr>vout := w\<rparr>))) = length (map (signed_in nIn sc True (vin tx)) [0..<length (vin tx)])"
    by (simp add: zero_sequences_def blank_inputs_def Let_def)
  fix i assume "i < length (vin (zero_sequences nIn (blank_inputs nIn sc tx\<lparr>vout := w\<rparr>)))"
  then have i: "i < length (vin tx)" by (simp add: zero_sequences_def blank_inputs_def Let_def)
  then show "vin (zero_sequences nIn (blank_inputs nIn sc tx\<lparr>vout := w\<rparr>)) ! i = map (signed_in nIn sc True (vin tx)) [0..<length (vin tx)] ! i"
    using n by (simp add: zero_sequences_def blank_inputs_vin signed_in_def)
qed

lemma signed_tx_eq:
  fixes T :: sighash_types and ht :: u32 and tx :: CTransaction
  assumes "nIn < length (vin tx)"
  defines "none \<equiv> ht AND 0x1f = SIGHASH_NONE T" and "single \<equiv> ht AND 0x1f = SIGHASH_SINGLE T"
  shows "signed_tx T sc tx nIn ht = \<lparr>tx_nVersion = tx_nVersion tx,
     vin = (let vs = map (signed_in nIn sc (none \<or> single) (vin tx)) [0..<length (vin tx)]
            in if ht AND SIGHASH_ANYONECANPAY T \<noteq> 0 then [vs ! nIn] else vs),
     vout = (if none then [] else if single then replicate nIn CTxOut_Null @ [vout tx ! nIn] else vout tx),
     nLockTime = nLockTime tx\<rparr>"
proof -
  have f: "tx_nVersion (blank_inputs nIn sc tx) = tx_nVersion tx" "vout (blank_inputs nIn sc tx) = vout tx"
    "nLockTime (blank_inputs nIn sc tx) = nLockTime tx" by (simp_all add: blank_inputs_def Let_def)
  have z: "tx_nVersion (zero_sequences nIn t) = tx_nVersion t" "vout (zero_sequences nIn t) = vout t"
    "nLockTime (zero_sequences nIn t) = nLockTime t" for t by (simp_all add: zero_sequences_def)
  show ?thesis
    unfolding signed_tx_def Let_def none_def [symmetric] single_def [symmetric]
    by (intro CTransaction.equality) (auto simp: f z blank_inputs_vin [OF assms(1)] zero_sequences_vin [OF assms(1)])
qed

lemma signed_in_eq_iff:
  "signed_in nIn sc z vs i = signed_in nIn sc z ws i \<longleftrightarrow> prevout (vs ! i) = prevout (ws ! i) \<and>
     (z \<and> i \<noteq> nIn \<or> nSequence (vs ! i) = nSequence (ws ! i))"
  by (auto simp: signed_in_def)

lemma map_upt_eq_iff: "map f [0..<m] = map g [0..<n] \<longleftrightarrow> m = n \<and> (\<forall>i < m. f i = g i)"
  by (auto simp: list_eq_iff_nth_eq)

lemma signed_ins_eq_iff:
  "map (signed_in nIn sc z vs) [0..<length vs] = map (signed_in nIn sc z ws) [0..<length ws] \<longleftrightarrow>
     length vs = length ws \<and> (\<forall>i < length vs. prevout (vs ! i) = prevout (ws ! i) \<and>
       (z \<and> i \<noteq> nIn \<or> nSequence (vs ! i) = nSequence (ws ! i)))"
  unfolding map_upt_eq_iff signed_in_eq_iff ..

text \<open>C16. The transaction that is hashed for input \<open>nIn\<close> is the same for two transactions exactly when they agree on
  what the hash type covers: always version, lock time and the input's own outpoint and sequence number;
  the other outpoints unless ANYONECANPAY; their sequence numbers only for neither NONE nor SINGLE;
  all outputs, only output \<open>nIn\<close> (SINGLE), or none (NONE); input scripts never.\<close>
theorem signed_tx_commits:
  assumes "nIn < length (vin a)" "nIn < length (vin b)"
  shows "signed_tx T sc a nIn ht = signed_tx T sc b nIn ht \<longleftrightarrow> same_signed T nIn ht a b"
proof -
  let ?z = "ht AND 0x1f = SIGHASH_NONE T \<or> ht AND 0x1f = SIGHASH_SINGLE T"
  let ?ins = "\<lambda>tx :: CTransaction. let vs = map (signed_in nIn sc ?z (vin tx)) [0..<length (vin tx)]
    in if ht AND SIGHASH_ANYONECANPAY T \<noteq> 0 then [vs ! nIn] else vs"
  have i: "?ins a = ?ins b \<longleftrightarrow> prevout (vin a ! nIn) = prevout (vin b ! nIn) \<and> nSequence (vin a ! nIn) = nSequence (vin b ! nIn) \<and>
    (ht AND SIGHASH_ANYONECANPAY T = 0 \<longrightarrow> map prevout (vin a) = map prevout (vin b) \<and>
      (\<not> ?z \<longrightarrow> map nSequence (vin a) = map nSequence (vin b)))"
  proof (cases "ht AND SIGHASH_ANYONECANPAY T = 0")
    case True
    have "?ins a = ?ins b \<longleftrightarrow> length (vin a) = length (vin b) \<and> (\<forall>i < length (vin a). prevout (vin a ! i) = prevout (vin b ! i) \<and>
       (?z \<and> i \<noteq> nIn \<or> nSequence (vin a ! i) = nSequence (vin b ! i)))"
      using True by (simp only: Let_def simp_thms if_False signed_ins_eq_iff)
    also have "\<dots> \<longleftrightarrow> prevout (vin a ! nIn) = prevout (vin b ! nIn) \<and> nSequence (vin a ! nIn) = nSequence (vin b ! nIn) \<and>
      map prevout (vin a) = map prevout (vin b) \<and> (\<not> ?z \<longrightarrow> map nSequence (vin a) = map nSequence (vin b))"
      using assms by (auto simp: list_eq_iff_nth_eq)
    finally show ?thesis using True by simp
  next
    case False
    then show ?thesis using assms by (simp add: Let_def signed_in_eq_iff)
  qed
  show ?thesis
    unfolding signed_tx_eq [OF assms(1)] signed_tx_eq [OF assms(2)] same_signed_def CTransaction.ext_inject i by auto
qed

theorem signed_tx_commits_witness:
  "signed_tx (sig_types witness_env) [] (CTransaction_Null\<lparr>vin := [CTxIn_Init], vout := [CTxOut_Null]\<rparr>) 0 2 =
   signed_tx (sig_types witness_env) [] (CTransaction_Null\<lparr>vin := [CTxIn_Init\<lparr>scriptSig := [1]\<rparr>]\<rparr>) 0 2"
proof -
  let ?a = "CTransaction_Null\<lparr>vin := [CTxIn_Init], vout := [CTxOut_Null]\<rparr>" and ?b = "CTransaction_Null\<lparr>vin := [CTxIn_Init\<lparr>scriptSig := [1]\<rparr>]\<rparr>"
  have "same_signed (sig_types witness_env) 0 2 ?a ?b" by (simp add: same_signed_def witness_env_def)
  moreover have "0 < length (vin ?a)" "0 < length (vin ?b)" by simp_all
  ultimately show ?thesis using signed_tx_commits by blast
qed

end
