(* ===== verification/Util.thy ===== *)
theory Util
  imports Containers NetAddr "HOL-Library.Mapping"
begin

text \<open>
  Program options and the lock order checker (\<open>util.cpp\<close>). Options: the command line, the configuration file, their
  negations, and the accessors; \<open>std::map\<close> is a mapping whose iteration, which sees the keys that the
  body inserts ahead of it, goes to the next larger key. Conversions of strings to numbers, the configuration parser and the version
  string are parameters. The checker: per-thread stacks of held locks and the order table. Files, paths, logging to disk
  and the desktop integration are left out.
\<close>

section \<open>Options\<close>

type_synonym args = "(string, string) mapping"
type_synonym multi_args = "(string, string list) mapping"

definition map_count :: "('a, 'b) mapping \<Rightarrow> 'a \<Rightarrow> bool" where
  "map_count m k = (Mapping.lookup m k \<noteq> None)"

definition GetArg_string :: "args \<Rightarrow> string \<Rightarrow> string \<Rightarrow> string" where
  "GetArg_string mapArgs strArg strDefault =
    (case Mapping.lookup mapArgs strArg of Some v \<Rightarrow> v | None \<Rightarrow> strDefault)"

definition GetArg_int :: "(string \<Rightarrow> int) \<Rightarrow> args \<Rightarrow> string \<Rightarrow> int \<Rightarrow> int" where
  "GetArg_int atoi64 mapArgs strArg nDefault =
    (case Mapping.lookup mapArgs strArg of Some v \<Rightarrow> atoi64 v | None \<Rightarrow> nDefault)"

definition GetBoolArg :: "(string \<Rightarrow> int) \<Rightarrow> args \<Rightarrow> string \<Rightarrow> bool \<Rightarrow> bool" where
  "GetBoolArg atoi mapArgs strArg fDefault =
    (case Mapping.lookup mapArgs strArg of
       Some v \<Rightarrow> if v = [] then True else atoi v \<noteq> 0
     | None \<Rightarrow> fDefault)"

definition SoftSetArg :: "string \<Rightarrow> string \<Rightarrow> args \<Rightarrow> bool \<times> args" where
  "SoftSetArg strArg strValue mapArgs =
    (if map_count mapArgs strArg then (False, mapArgs) else (True, Mapping.update strArg strValue mapArgs))"

definition SoftSetBoolArg :: "string \<Rightarrow> bool \<Rightarrow> args \<Rightarrow> bool \<times> args" where
  "SoftSetBoolArg strArg fValue mapArgs =
    (if fValue then SoftSetArg strArg ''1'' mapArgs else SoftSetArg strArg ''0'' mapArgs)"

text \<open>\<open>mapArgs\<close>, which \<open>GetBoolArg\<close> reads, and the map it writes are the same map in every call.\<close>

definition InterpretNegativeSetting :: "(string \<Rightarrow> int) \<Rightarrow> string \<Rightarrow> args \<Rightarrow> args" where
  "InterpretNegativeSetting atoi name mapSettingsRet =
    (if take 3 name = ''-no'' then
       (let positive = ''-'' @ drop 3 name
        in if \<not> map_count mapSettingsRet positive
           then (let v = \<not> GetBoolArg atoi mapSettingsRet name False
                 in Mapping.update positive (if v then ''1'' else ''0'') mapSettingsRet)
           else mapSettingsRet)
     else mapSettingsRet)"

fun parse_args :: "string list \<Rightarrow> args \<times> multi_args \<Rightarrow> args \<times> multi_args" where
  "parse_args [] (mapArgs, mapMultiArgs) = (mapArgs, mapMultiArgs)"
| "parse_args (argv # rest) (mapArgs, mapMultiArgs) =
    (let str = takeWhile (\<lambda>c. c \<noteq> CHR ''='') argv;
         strValue = drop (length str + 1) argv
     in if str = [] \<or> hd str \<noteq> CHR ''-'' then (mapArgs, mapMultiArgs)
        else
          (let str = (if length str > 1 \<and> str ! 1 = CHR ''-'' then drop 1 str else str)
           in parse_args rest (Mapping.update str strValue mapArgs,
                Mapping.update str ((case Mapping.lookup mapMultiArgs str of None \<Rightarrow> [] | Some vs \<Rightarrow> vs) @ [strValue]) mapMultiArgs)))"

definition next_key :: "args \<Rightarrow> string \<Rightarrow> string option" where
  "next_key m k = List.find (\<lambda>x. k < x) (Mapping.ordered_keys m)"

partial_function (option) negatives_from :: "(string \<Rightarrow> int) \<Rightarrow> args \<Rightarrow> string \<Rightarrow> args option" where
  "negatives_from atoi mapArgs k =
    (let mapArgs = InterpretNegativeSetting atoi k mapArgs
     in case next_key mapArgs k of
          None \<Rightarrow> Some mapArgs
        | Some k' \<Rightarrow> negatives_from atoi mapArgs k')"

definition negatives :: "(string \<Rightarrow> int) \<Rightarrow> args \<Rightarrow> args option" where
  "negatives atoi mapArgs =
    (case Mapping.ordered_keys mapArgs of [] \<Rightarrow> Some mapArgs | k # _ \<Rightarrow> negatives_from atoi mapArgs k)"

definition ParseParameters :: "(string \<Rightarrow> int) \<Rightarrow> string list \<Rightarrow> (args \<times> multi_args) option" where
  "ParseParameters atoi argv =
    (case parse_args (drop 1 argv) (Mapping.empty, Mapping.empty) of
       (mapArgs, mapMultiArgs) \<Rightarrow>
         (case negatives atoi mapArgs of None \<Rightarrow> None | Some m \<Rightarrow> Some (m, mapMultiArgs)))"

text \<open>The entries of the configuration file, as the parser gives them.\<close>

fun ReadConfigFile :: "(string \<Rightarrow> int) \<Rightarrow> (string \<times> string) list \<Rightarrow> args \<times> multi_args \<Rightarrow> args \<times> multi_args" where
  "ReadConfigFile atoi [] (mapSettingsRet, mapMultiSettingsRet) = (mapSettingsRet, mapMultiSettingsRet)"
| "ReadConfigFile atoi ((string_key, v) # rest) (mapSettingsRet, mapMultiSettingsRet) =
    (let strKey = ''-'' @ string_key;
         mapSettingsRet = (if \<not> map_count mapSettingsRet strKey
           then InterpretNegativeSetting atoi strKey (Mapping.update strKey v mapSettingsRet) else mapSettingsRet)
     in ReadConfigFile atoi rest (mapSettingsRet,
          Mapping.update strKey ((case Mapping.lookup mapMultiSettingsRet strKey of None \<Rightarrow> [] | Some vs \<Rightarrow> vs) @ [v]) mapMultiSettingsRet))"

fun join :: "string list \<Rightarrow> string \<Rightarrow> string" where
  "join [] sep = []"
| "join [x] sep = x"
| "join (x # y # ys) sep = x @ sep @ join (y # ys) sep"

definition FormatSubVersion :: "(int \<Rightarrow> string) \<Rightarrow> string \<Rightarrow> int \<Rightarrow> string list \<Rightarrow> string" where
  "FormatSubVersion FormatVersion name nClientVersion comments =
    ''/'' @ name @ '':'' @ FormatVersion nClientVersion @
    (if comments \<noteq> [] then ''('' @ join comments ''; '' @ '')'' else []) @ ''/''"

text \<open>The categories of \<open>-debug\<close>, read once per thread.\<close>

definition LogAcceptCategory :: "bool \<Rightarrow> multi_args \<Rightarrow> string option \<Rightarrow> string set option \<Rightarrow> bool \<times> string set option" where
  "LogAcceptCategory fDebug mapMultiArgs category ptrCategory =
    (case category of
       None \<Rightarrow> (True, ptrCategory)
     | Some c \<Rightarrow>
         if \<not> fDebug then (False, ptrCategory)
         else
           (let setCategories = (case ptrCategory of
                  Some cs \<Rightarrow> cs
                | None \<Rightarrow> set (case Mapping.lookup mapMultiArgs ''-debug'' of None \<Rightarrow> [] | Some vs \<Rightarrow> vs))
            in (\<not> ([] \<notin> setCategories \<and> c \<notin> setCategories), Some setCategories)))"

section \<open>Negated options\<close>

text \<open>All keys the loop can reach: the given ones and what dropping negations leaves of them.\<close>

definition reach_keys :: "args \<Rightarrow> string set" where
  "reach_keys m = Mapping.keys m \<union> (\<Union>k \<in> Mapping.keys m. (\<lambda>j. CHR ''-'' # drop j k) ` {..length k})"

lemma lookup_update_if: "Mapping.lookup (Mapping.update k v m) x = (if x = k then Some v else Mapping.lookup m x)"
  by (simp add: lookup_update')

lemma negative_keys: "Mapping.keys (InterpretNegativeSetting atoi k m) =
    (if take 3 k = ''-no'' then insert (CHR ''-'' # drop 3 k) (Mapping.keys m) else Mapping.keys m)"
  by (auto simp: InterpretNegativeSetting_def Let_def map_count_def keys_dom_lookup lookup_update_if split: if_splits)

lemma negative_lookup: "Mapping.lookup m x = Some v \<Longrightarrow> Mapping.lookup (InterpretNegativeSetting atoi k m) x = Some v"
  by (auto simp: InterpretNegativeSetting_def Let_def map_count_def lookup_update_if)

lemma find_sorted:
  fixes xs :: "'a::linorder list"
  assumes "sorted xs"
  shows "List.find (\<lambda>x. k < x) xs = None \<Longrightarrow> x \<in> set xs \<Longrightarrow> \<not> k < x"
    "List.find (\<lambda>x. k < x) xs = Some y \<Longrightarrow> y \<in> set xs \<and> k < y"
    "List.find (\<lambda>x. k < x) xs = Some y \<Longrightarrow> x \<in> set xs \<Longrightarrow> k < x \<Longrightarrow> y \<le> x"
  using assms by (induction xs) (auto split: if_splits)

lemma next_key:
  assumes "finite (Mapping.keys m)"
  shows "next_key m k = None \<Longrightarrow> x \<in> Mapping.keys m \<Longrightarrow> \<not> k < x"
    "next_key m k = Some y \<Longrightarrow> y \<in> Mapping.keys m \<and> k < y"
    "next_key m k = Some y \<Longrightarrow> x \<in> Mapping.keys m \<Longrightarrow> k < x \<Longrightarrow> y \<le> x"
  unfolding next_key_def set_ordered_keys [OF assms, symmetric]
  by (fact find_sorted(1) [OF sorted_ordered_keys], fact find_sorted(2) [OF sorted_ordered_keys], fact find_sorted(3) [OF sorted_ordered_keys])

definition keys_closed :: "string set \<Rightarrow> bool" where
  "keys_closed U = (finite U \<and> (\<forall>k \<in> U. take 3 k = ''-no'' \<longrightarrow> CHR ''-'' # drop 3 k \<in> U))"

lemma reach_closed:
  assumes "finite (Mapping.keys m)"
  shows "keys_closed (reach_keys m)"
proof -
  have a: "CHR ''-'' # drop 3 k \<in> reach_keys m" if "k \<in> Mapping.keys m" "take 3 k = ''-no''" for k
  proof -
    have "length (take 3 k) = 3" by (simp add: that(2))
    then have "3 \<le> length k" by simp
    then show ?thesis using that(1) by (auto simp: reach_keys_def)
  qed
  have b: "CHR ''-'' # drop 3 (CHR ''-'' # drop j k) \<in> reach_keys m"
    if "k \<in> Mapping.keys m" "take 3 (CHR ''-'' # drop j k) = ''-no''" for j k
  proof -
    have "length (take 3 (CHR ''-'' # drop j k)) = 3" unfolding that(2) by simp
    then have "j + 2 \<le> length k" by simp
    then show ?thesis using that(1) by (auto simp: reach_keys_def numeral_eq_Suc)
  qed
  have "CHR ''-'' # drop 3 x \<in> reach_keys m" if x: "x \<in> reach_keys m" "take 3 x = ''-no''" for x
  proof (cases "x \<in> Mapping.keys m")
    case False
    then obtain k j where "k \<in> Mapping.keys m" "x = CHR ''-'' # drop j k" using x(1) by (auto simp: reach_keys_def)
    then show ?thesis using b x(2) by blast
  qed (use a x(2) in blast)
  then show ?thesis using assms by (simp add: keys_closed_def) (simp add: reach_keys_def)
qed

text \<open>The value a negated option gives, and the loop from a key on.\<close>

definition neg_value :: "(string \<Rightarrow> int) \<Rightarrow> args \<Rightarrow> string \<Rightarrow> string" where
  "neg_value atoi m k = (if \<not> GetBoolArg atoi m k False then ''1'' else ''0'')"

lemma positive_inject: "take 3 k = ''-no'' \<Longrightarrow> take 3 y = ''-no'' \<Longrightarrow> drop 3 k = drop 3 y \<Longrightarrow> k = y"
  by (metis append_take_drop_id)

lemma negatives_from_ok:
  assumes "keys_closed U"
  shows "Mapping.keys m \<subseteq> U \<Longrightarrow> k \<in> Mapping.keys m \<Longrightarrow> \<exists>m'. negatives_from atoi m k = Some m' \<and>
    (\<forall>x v. Mapping.lookup m x = Some v \<longrightarrow> Mapping.lookup m' x = Some v) \<and>
    (\<forall>y \<in> Mapping.keys m. k \<le> y \<and> take 3 y = ''-no'' \<and> CHR ''-'' # drop 3 y \<notin> Mapping.keys m \<longrightarrow>
       Mapping.lookup m' (CHR ''-'' # drop 3 y) = Some (neg_value atoi m y))"
proof (induction "card {x \<in> U. k < x}" arbitrary: m k rule: less_induct)
  case less
  let ?m = "InterpretNegativeSetting atoi k m"
  have kU: "Mapping.keys ?m \<subseteq> U" using less.prems assms by (auto simp: negative_keys keys_closed_def)
  have fin: "finite (Mapping.keys ?m)" "finite U" using kU assms finite_subset by (auto simp: keys_closed_def)
  have self: "Mapping.lookup ?m (CHR ''-'' # drop 3 k) = Some (neg_value atoi m k)"
    if "take 3 k = ''-no''" "CHR ''-'' # drop 3 k \<notin> Mapping.keys m"
    using that by (simp add: InterpretNegativeSetting_def Let_def map_count_def keys_dom_lookup domIff lookup_update_if neg_value_def)
  show ?case
  proof (cases "next_key ?m k")
    case None
    have "y = k" if "y \<in> Mapping.keys m" "k \<le> y" for y
    proof -
      have "y \<in> Mapping.keys ?m" using that(1) by (simp add: negative_keys)
      then show ?thesis using next_key(1) [OF fin(1) None, of y] that(2) by simp
    qed
    then show ?thesis using None self negative_lookup by (subst negatives_from.simps) (auto simp: Let_def)
  next
    case (Some k')
    have k': "k' \<in> Mapping.keys ?m" "k < k'" using next_key(2) [OF fin(1) Some] by auto
    have "{x \<in> U. k' < x} \<subset> {x \<in> U. k < x}" using k' kU by auto
    then have "card {x \<in> U. k' < x} < card {x \<in> U. k < x}" using fin(2) by (intro psubset_card_mono) auto
    from less.hyps [OF this kU k'(1)] obtain m' where m': "negatives_from atoi ?m k' = Some m'"
      "\<And>x v. Mapping.lookup ?m x = Some v \<Longrightarrow> Mapping.lookup m' x = Some v"
      "\<And>y. y \<in> Mapping.keys ?m \<Longrightarrow> k' \<le> y \<Longrightarrow> take 3 y = ''-no'' \<Longrightarrow> CHR ''-'' # drop 3 y \<notin> Mapping.keys ?m \<Longrightarrow>
         Mapping.lookup m' (CHR ''-'' # drop 3 y) = Some (neg_value atoi ?m y)" by blast
    have "Mapping.lookup m' (CHR ''-'' # drop 3 y) = Some (neg_value atoi m y)"
      if y: "y \<in> Mapping.keys m" "k \<le> y" "take 3 y = ''-no''" "CHR ''-'' # drop 3 y \<notin> Mapping.keys m" for y
    proof (cases "y = k")
      case True
      then show ?thesis using self y m'(2) by blast
    next
      case False
      then have "y \<in> Mapping.keys ?m" "k' \<le> y" using y next_key(3) [OF fin(1) Some, of y] by (auto simp: negative_keys)
      moreover have "CHR ''-'' # drop 3 y \<notin> Mapping.keys ?m" using y(3,4) False positive_inject by (auto simp: negative_keys)
      moreover obtain v where "Mapping.lookup m y = Some v" using y(1) by (auto simp: keys_dom_lookup)
      ultimately show ?thesis using m'(3) [OF _ _ y(3)] negative_lookup [of m y v atoi k] by (simp add: neg_value_def GetBoolArg_def)
    qed
    moreover have "negatives_from atoi m k = Some m'" using Some m'(1) by (subst negatives_from.simps) (simp add: Let_def)
    ultimately show ?thesis using m'(2) negative_lookup by blast
  qed
qed

lemma parse_args_finite: "finite (Mapping.keys (fst mm)) \<Longrightarrow> finite (Mapping.keys (fst (parse_args argv mm)))"
  by (induction argv mm rule: parse_args.induct) (simp_all add: Let_def)

text \<open>Reading the command line always ends, keeps every option given, and interprets negations: \<open>-nofoo\<close> sets \<open>-foo\<close> to the
  opposite of its own boolean value unless \<open>-foo\<close> was given, wherever the two are in the order of the map
  that is being extended while it is read.\<close>
theorem ParseParameters_negations:
  assumes "parse_args (drop 1 argv) (Mapping.empty, Mapping.empty) = (m0, multi)" "atoi ''0'' = 0" "atoi ''1'' = 1"
  shows "\<exists>m. ParseParameters atoi argv = Some (m, multi) \<and>
    (\<forall>x v. Mapping.lookup m0 x = Some v \<longrightarrow> Mapping.lookup m x = Some v) \<and>
    (\<forall>x d. map_count m0 (''-no'' @ x) \<and> \<not> map_count m0 (''-'' @ x) \<longrightarrow>
       GetBoolArg atoi m (''-'' @ x) d = (\<not> GetBoolArg atoi m0 (''-no'' @ x) False))"
proof (cases "Mapping.ordered_keys m0")
  case Nil
  moreover have "finite (Mapping.keys m0)" using parse_args_finite [of "(Mapping.empty, Mapping.empty)" "drop 1 argv"] assms(1) by simp
  ultimately have "Mapping.keys m0 = {}" using set_ordered_keys [of m0] by simp
  then show ?thesis using Nil assms(1) by (simp add: ParseParameters_def negatives_def map_count_def keys_dom_lookup)
next
  case (Cons k ks)
  have fin: "finite (Mapping.keys m0)" using parse_args_finite [of "(Mapping.empty, Mapping.empty)" "drop 1 argv"] assms(1) by simp
  then have k: "k \<in> Mapping.keys m0" "\<And>y. y \<in> Mapping.keys m0 \<Longrightarrow> k \<le> y"
    using Cons set_ordered_keys [of m0] sorted_ordered_keys [of m0] by auto
  have "Mapping.keys m0 \<subseteq> reach_keys m0" by (simp add: reach_keys_def)
  from negatives_from_ok [OF reach_closed [OF fin] this k(1), of atoi] obtain m where
    m: "negatives_from atoi m0 k = Some m" "\<And>x v. Mapping.lookup m0 x = Some v \<Longrightarrow> Mapping.lookup m x = Some v"
      "\<And>y. y \<in> Mapping.keys m0 \<Longrightarrow> k \<le> y \<Longrightarrow> take 3 y = ''-no'' \<Longrightarrow> CHR ''-'' # drop 3 y \<notin> Mapping.keys m0 \<Longrightarrow>
         Mapping.lookup m (CHR ''-'' # drop 3 y) = Some (neg_value atoi m0 y)" by blast
  have "GetBoolArg atoi m (''-'' @ x) d = (\<not> GetBoolArg atoi m0 (''-no'' @ x) False)"
    if "map_count m0 (''-no'' @ x)" "\<not> map_count m0 (''-'' @ x)" for x d
  proof -
    have "Mapping.lookup m (''-'' @ x) = Some (neg_value atoi m0 (''-no'' @ x))"
      using m(3) [of "''-no'' @ x"] k(2) that by (auto simp: map_count_def keys_dom_lookup)
    then show ?thesis using assms(2,3) by (simp add: GetBoolArg_def neg_value_def)
  qed
  then show ?thesis using m(1,2) Cons assms(1) by (auto simp: ParseParameters_def negatives_def)
qed


theorem ParseParameters_negations_witness:
  "\<exists>m multi. ParseParameters (\<lambda>s. if s = ''0'' then 0 else 1) [''dystaterd'', ''-nolisten'', ''-debug=net''] = Some (m, multi) \<and>
    GetBoolArg (\<lambda>s. if s = ''0'' then 0 else 1) m ''-listen'' True = False"
proof -
  let ?argv = "[''dystaterd'', ''-nolisten'', ''-debug=net'']" and ?atoi = "\<lambda>s :: string. if s = ''0'' then 0 else 1 :: int"
  obtain m0 multi where p: "parse_args (drop 1 ?argv) (Mapping.empty, Mapping.empty) = (m0, multi)" by fastforce
  then have m0: "m0 = Mapping.update ''-debug'' ''net'' (Mapping.update ''-nolisten'' [] Mapping.empty)" by (auto simp: Let_def)
  have "?atoi ''0'' = 0" "?atoi ''1'' = 1" by simp_all
  from ParseParameters_negations [OF p this] obtain m where
    m: "ParseParameters ?atoi ?argv = Some (m, multi)"
    and n: "\<And>x d. map_count m0 (''-no'' @ x) \<and> \<not> map_count m0 (''-'' @ x) \<Longrightarrow>
      GetBoolArg ?atoi m (''-'' @ x) d = (\<not> GetBoolArg ?atoi m0 (''-no'' @ x) False)" by blast
  have "GetBoolArg ?atoi m (''-'' @ ''listen'') True = (\<not> GetBoolArg ?atoi m0 (''-no'' @ ''listen'') False)"
    by (rule n) (simp add: m0 map_count_def lookup_update_if)
  also have "\<dots> = False" by (simp add: m0 GetBoolArg_def lookup_update_if)
  finally show ?thesis using m by auto
qed

text \<open>What the command line or an earlier line of the file set is never changed by the file.\<close>

lemma ReadConfigFile_keeps:
  "Mapping.lookup m x = Some v \<Longrightarrow> Mapping.lookup (fst (ReadConfigFile atoi es (m, multi))) x = Some v"
proof (induction atoi es "(m, multi)" arbitrary: m multi rule: ReadConfigFile.induct)
  case (2 atoi string_key w rest m multi)
  let ?k = "''-'' @ string_key"
  let ?m = "if \<not> map_count m ?k then InterpretNegativeSetting atoi ?k (Mapping.update ?k w m) else m"
  have "Mapping.lookup ?m x = Some v"
    using "2.prems" by (cases "x = ?k") (auto simp: map_count_def lookup_update_if intro!: negative_lookup)
  from "2.hyps" [OF refl refl this] show ?case unfolding ReadConfigFile.simps Let_def .
qed simp

section \<open>The lock order checker\<close>

type_synonym LockStack = "(nat \<times> string) list"

text \<open>The table of orders, the stack of each thread and the reports made.\<close>

record 't lock_state =
  lockorders :: "nat \<times> nat \<Rightarrow> LockStack option"
  lockstack :: "'t \<Rightarrow> LockStack"
  deadlock_reports :: "(nat \<times> nat) list"

fun check_orders :: "nat \<Rightarrow> LockStack \<Rightarrow> LockStack \<Rightarrow> 't lock_state \<Rightarrow> 't lock_state" where
  "check_orders c stk [] s = s"
| "check_orders c stk (i # rest) s =
    (if fst i = c then s
     else
       (let p1 = (fst i, c)
        in if lockorders s p1 \<noteq> None then check_orders c stk rest s
           else
             (let s = s\<lparr>lockorders := (lockorders s)(p1 := Some stk)\<rparr>;
                  p2 = (c, fst i)
              in if lockorders s p2 \<noteq> None then s\<lparr>deadlock_reports := deadlock_reports s @ [p1]\<rparr>
                 else check_orders c stk rest s)))"

definition push_lock :: "'t \<Rightarrow> nat \<Rightarrow> string \<Rightarrow> bool \<Rightarrow> 't lock_state \<Rightarrow> 't lock_state" where
  "push_lock t c locklocation fTry s =
    (let stk = lockstack s t @ [(c, locklocation)];
         s = s\<lparr>lockstack := (lockstack s)(t := stk)\<rparr>
     in if \<not> fTry then check_orders c stk stk s else s)"

text \<open>\<open>pop_back\<close> on an empty stack is the failure \<open>OutOfRange\<close>.\<close>

definition pop_lock :: "'t \<Rightarrow> 't lock_state \<Rightarrow> 't lock_state result" where
  "pop_lock t s =
    (if lockstack s t = [] then Inl OutOfRange
     else Inr (s\<lparr>lockstack := (lockstack s)(t := butlast (lockstack s t))\<rparr>))"

datatype 't lock_event = EnterCritical 't nat string bool | LeaveCritical 't

fun lock_step :: "'t lock_event \<Rightarrow> 't lock_state \<Rightarrow> 't lock_state result" where
  "lock_step (EnterCritical t cs loc fTry) s = Inr (push_lock t cs loc fTry s)"
| "lock_step (LeaveCritical t) s = pop_lock t s"

definition lock_init :: "'t lock_state" where
  "lock_init = \<lparr>lockorders = (\<lambda>_. None), lockstack = (\<lambda>_. []), deadlock_reports = []\<rparr>"

text \<open>The orders a run exhibits: \<open>a\<close> before \<open>c\<close> when a thread takes \<open>c\<close>, not by a try, while \<open>a\<close> is below every
  \<open>c\<close> on its stack.\<close>

definition below :: "nat \<Rightarrow> LockStack \<Rightarrow> nat set" where
  "below c stk = fst ` set (takeWhile (\<lambda>i. fst i \<noteq> c) stk)"

fun orders_of :: "'t lock_event \<Rightarrow> 't lock_state \<Rightarrow> (nat \<times> nat) set" where
  "orders_of (EnterCritical t c loc fTry) s = (if fTry then {} else (\<lambda>a. (a, c)) ` below c (lockstack s t))"
| "orders_of (LeaveCritical t) s = {}"

fun run_orders :: "'t lock_event list \<Rightarrow> 't lock_state \<Rightarrow> (nat \<times> nat) set" where
  "run_orders [] s = {}"
| "run_orders (e # es) s = orders_of e s \<union> (case lock_step e s of Inl _ \<Rightarrow> {} | Inr s' \<Rightarrow> run_orders es s')"

text \<open>The table holds orders that occurred, and all of them while there is no report; a report is of an order and
  its inverse, and without one no order has its inverse.\<close>

definition orders_inv :: "(nat \<times> nat) set \<Rightarrow> 't lock_state \<Rightarrow> bool" where
  "orders_inv A s \<longleftrightarrow> dom (lockorders s) \<subseteq> A \<and> (\<forall>(a, b) \<in> set (deadlock_reports s). (a, b) \<in> A \<and> (b, a) \<in> A) \<and>
    (deadlock_reports s = [] \<longrightarrow> dom (lockorders s) = A \<and> (\<forall>a b. (a, b) \<in> A \<longrightarrow> (b, a) \<notin> A))"

lemma below_Cons: "below c (i # rest) = (if fst i = c then {} else insert (fst i) (below c rest))"
  by (auto simp: below_def)

lemma below_snoc: "below c (stk @ [(c, l)]) = below c stk"
  by (induction stk) (auto simp: below_def)

lemma orders_inv_mono:
  "orders_inv A s \<Longrightarrow> deadlock_reports s \<noteq> [] \<Longrightarrow> A \<subseteq> B \<Longrightarrow> orders_inv B s"
  by (auto simp: orders_inv_def)

lemma check_orders_ok:
  "orders_inv A s \<Longrightarrow> orders_inv (A \<union> (\<lambda>a. (a, c)) ` below c xs) (check_orders c stk xs s)"
proof (induction c stk xs s arbitrary: A rule: check_orders.induct)
  case (1 c stk s)
  then show ?case by (simp add: below_def)
next
  case (2 c stk i rest s)
  let ?p = "(fst i, c)" and ?q = "(c, fst i)"
  show ?case
  proof (cases "fst i = c")
    case True
    then show ?thesis using "2.prems" by (simp add: below_Cons)
  next
    case ne: False
    then have un: "A \<union> (\<lambda>a. (a, c)) ` below c (i # rest) = insert ?p A \<union> (\<lambda>a. (a, c)) ` below c rest" by (auto simp: below_Cons)
    show ?thesis
    proof (cases "lockorders s ?p \<noteq> None")
      case True
      then have "insert ?p A = A" using "2.prems" by (auto simp: orders_inv_def)
      then show ?thesis using "2.IH"(1) [OF ne refl True "2.prems"] ne True unfolding un by simp
    next
      case new: False
      let ?s = "s\<lparr>lockorders := (lockorders s)(?p := Some stk)\<rparr>"
      show ?thesis
      proof (cases "lockorders ?s ?q \<noteq> None")
        case True
        then have "?q \<in> A" using "2.prems" ne by (auto simp: orders_inv_def split: if_splits)
        then have "orders_inv (insert ?p A) (?s\<lparr>deadlock_reports := deadlock_reports ?s @ [?p]\<rparr>)"
          using "2.prems" by (auto simp: orders_inv_def)
        then have "orders_inv (insert ?p A \<union> (\<lambda>a. (a, c)) ` below c rest) (?s\<lparr>deadlock_reports := deadlock_reports ?s @ [?p]\<rparr>)"
          by (rule orders_inv_mono) auto
        then show ?thesis using ne new True unfolding un by (simp add: Let_def)
      next
        case False
        then have "orders_inv (insert ?p A) ?s" using "2.prems" ne new by (auto simp: orders_inv_def split: if_splits)
        from "2.IH"(2) [OF ne refl new refl refl False this] show ?thesis using ne new False unfolding un by (simp add: Let_def)
      qed
    qed
  qed
qed

lemma lock_step_ok:
  assumes "orders_inv A s" "lock_step e s = Inr s'"
  shows "orders_inv (A \<union> orders_of e s) s'"
proof (cases e)
  case (EnterCritical t c loc fTry)
  let ?s = "s\<lparr>lockstack := (lockstack s)(t := lockstack s t @ [(c, loc)])\<rparr>"
  have "orders_inv A ?s" using assms(1) by (simp add: orders_inv_def)
  from check_orders_ok [OF this, of c "lockstack s t @ [(c, loc)]" "lockstack s t @ [(c, loc)]"] this
  show ?thesis using assms(2) EnterCritical by (auto simp: push_lock_def Let_def below_snoc)
next
  case (LeaveCritical t)
  then show ?thesis using assms by (auto simp: pop_lock_def orders_inv_def split: if_splits)
qed

lemma lock_run_ok:
  "orders_inv A s \<Longrightarrow> foldR lock_step es s = Inr s' \<Longrightarrow> orders_inv (A \<union> run_orders es s) s'"
proof (induction es arbitrary: A s)
  case (Cons e es)
  obtain t where t: "lock_step e s = Inr t" "foldR lock_step es t = Inr s'" using Cons.prems(2) by (auto simp: bindR_Inr_iff)
  then show ?case using Cons.IH [OF lock_step_ok [OF Cons.prems(1) t(1)] t(2)] by (simp add: Un_assoc)
qed simp

text \<open>C27. The lock order checker reports exactly when there is something to report: after any run of critical sections by
  any threads, it has reported a potential deadlock if and only if two locks were taken in both orders, and
  every report names such a pair.\<close>
theorem lock_checker_exact:
  assumes "foldR lock_step es lock_init = Inr s"
  shows "(deadlock_reports s \<noteq> [] \<longleftrightarrow> (\<exists>a b. (a, b) \<in> run_orders es lock_init \<and> (b, a) \<in> run_orders es lock_init)) \<and>
    (\<forall>(a, b) \<in> set (deadlock_reports s). (a, b) \<in> run_orders es lock_init \<and> (b, a) \<in> run_orders es lock_init)"
proof -
  have "orders_inv {} (lock_init :: 'a lock_state)" by (auto simp: orders_inv_def lock_init_def)
  from lock_run_ok [OF this assms] have i: "orders_inv (run_orders es lock_init) s" by simp
  show ?thesis
  proof (cases "deadlock_reports s")
    case (Cons r rs)
    then show ?thesis using i by (cases r) (auto simp: orders_inv_def)
  qed (use i in \<open>auto simp: orders_inv_def\<close>)
qed

theorem lock_checker_exact_witness:
  "\<exists>s. foldR lock_step [EnterCritical True 1 ''cs_main'' False, EnterCritical True 2 ''cs_wallet'' False, LeaveCritical True, LeaveCritical True,
      EnterCritical False 2 ''cs_wallet'' False, EnterCritical False 1 ''cs_main'' False] lock_init = Inr s \<and>
    deadlock_reports s \<noteq> []"
proof -
  let ?es = "[EnterCritical True 1 ''cs_main'' False, EnterCritical True 2 ''cs_wallet'' False, LeaveCritical True, LeaveCritical True,
      EnterCritical False 2 ''cs_wallet'' False, EnterCritical False 1 ''cs_main'' False]"
  obtain s where s: "foldR lock_step ?es lock_init = Inr s" by (simp add: push_lock_def pop_lock_def lock_init_def Let_def)
  have "(1, 2) \<in> run_orders ?es lock_init" "(2, 1) \<in> run_orders ?es lock_init"
    by (simp_all add: push_lock_def pop_lock_def lock_init_def Let_def below_def)
  then show ?thesis using lock_checker_exact [OF s] s by blast
qed

end
