(* ===== verification/Block.thy ===== *)
theory Block
  imports Transaction
begin

text \<open>
  Blocks (\<open>primitives/block.h\<close>): headers, the Merkle tree over the transaction hashes, Merkle branches and
  their check. \<open>Hash2 a b\<close> is the double hash of two concatenated 256-bit numbers and \<open>TxHash\<close> the hash of a
  transaction; both are parameters (\<open>Hash\<close> and \<open>SerializeHash\<close> are not in the tree). A transaction's place
  is an \<open>int\<close> of the code that every caller takes from a loop over \<open>vtx\<close>: it is a \<open>nat\<close> in \<open>GetMerkleBranch\<close>, and
  an \<open>int\<close>, with its special value -1, in \<open>CheckMerkleBranch\<close>. Disk access is left out.
\<close>

section \<open>Headers\<close>

record CBlockHeader =
  bh_nVersion :: int
  hashPrevBlock :: base_uint
  hashMerkleRoot :: base_uint
  bh_nTime :: u32
  bh_nBits :: u32
  bh_nNonce :: u32

definition CBlockHeader_Null :: CBlockHeader where
  "CBlockHeader_Null = \<lparr>bh_nVersion = 2, hashPrevBlock = set64 8 0, hashMerkleRoot = set64 8 0, bh_nTime = 0,
     bh_nBits = 0, bh_nNonce = 0\<rparr>"

definition Header_IsNull :: "'a CBlockHeader_scheme \<Rightarrow> bool" where
  "Header_IsNull this = (bh_nBits this = 0)"

definition Header_GetBlockTime :: "'a CBlockHeader_scheme \<Rightarrow> int" where
  "Header_GetBlockTime this = uint (bh_nTime this)"

record CBlock = CBlockHeader +
  vtx :: "CTransaction list"
  vMerkleTree :: "base_uint list"

definition CBlock_Null :: CBlock where
  "CBlock_Null = CBlockHeader.extend CBlockHeader_Null \<lparr>vtx = [], vMerkleTree = []\<rparr>"

definition CBlock_of_header :: "CBlockHeader \<Rightarrow> CBlock" where
  "CBlock_of_header header = CBlockHeader.extend header \<lparr>vtx = [], vMerkleTree = []\<rparr>"

definition GetBlockHeader :: "CBlock \<Rightarrow> CBlockHeader" where
  "GetBlockHeader this = CBlockHeader.truncate this"

section \<open>The Merkle tree\<close>

text \<open>One level: the nodes at \<open>j + i\<close> and \<open>j + min (i + 1) (nSize - 1)\<close> for \<open>i = 0, 2, ..\<close> are hashed and appended.\<close>

definition merkle_push :: "(base_uint \<Rightarrow> base_uint \<Rightarrow> base_uint) \<Rightarrow> nat \<Rightarrow> nat \<Rightarrow> nat \<Rightarrow> base_uint list \<Rightarrow> base_uint list" where
  "merkle_push Hash2 j nSize i t = (let i2 = min (i + 1) (nSize - 1) in t @ [Hash2 (t ! (j + i)) (t ! (j + i2))])"

function merkle_levels :: "(base_uint \<Rightarrow> base_uint \<Rightarrow> base_uint) \<Rightarrow> nat \<Rightarrow> nat \<Rightarrow> base_uint list \<Rightarrow> base_uint list" where
  "merkle_levels Hash2 j nSize t =
    (if nSize > 1 then
       merkle_levels Hash2 (j + nSize) ((nSize + 1) div 2)
         (fold (merkle_push Hash2 j nSize) (map (\<lambda>k. 2 * k) [0..<(nSize + 1) div 2]) t)
     else t)"
  by auto
termination
  by (relation "measure (\<lambda>(_, _, n, _). n)") auto

declare merkle_levels.simps [simp del]

definition BuildMerkleTree :: "(base_uint \<Rightarrow> base_uint \<Rightarrow> base_uint) \<Rightarrow> (CTransaction \<Rightarrow> base_uint) \<Rightarrow> CBlock \<Rightarrow> base_uint \<times> CBlock" where
  "BuildMerkleTree Hash2 TxHash this =
    (let t = merkle_levels Hash2 0 (length (vtx this)) (map TxHash (vtx this))
     in (if t = [] then set64 8 0 else last t, this\<lparr>vMerkleTree := t\<rparr>))"

definition GetTxHash :: "CBlock \<Rightarrow> nat \<Rightarrow> base_uint result" where
  "GetTxHash this nIndex =
    (if \<not> length (vMerkleTree this) > 0 then Inl AssertFailed
     else if \<not> nIndex < length (vtx this) then Inl AssertFailed
     else Inr (vMerkleTree this ! nIndex))"

function branch_loop :: "base_uint list \<Rightarrow> nat \<Rightarrow> nat \<Rightarrow> nat \<Rightarrow> base_uint list \<Rightarrow> base_uint list" where
  "branch_loop t j nSize nIndex vMerkleBranch =
    (if nSize > 1 then
       (let i = min (nIndex XOR 1) (nSize - 1)
        in branch_loop t (j + nSize) ((nSize + 1) div 2) (drop_bit 1 nIndex) (vMerkleBranch @ [t ! (j + i)]))
     else vMerkleBranch)"
  by auto
termination
  by (relation "measure (\<lambda>(_, _, n, _). n)") auto

declare branch_loop.simps [simp del]

definition GetMerkleBranch :: "(base_uint \<Rightarrow> base_uint \<Rightarrow> base_uint) \<Rightarrow> (CTransaction \<Rightarrow> base_uint) \<Rightarrow> CBlock \<Rightarrow> nat \<Rightarrow>
    base_uint list \<times> CBlock" where
  "GetMerkleBranch Hash2 TxHash this nIndex =
    (let this = (if vMerkleTree this = [] then snd (BuildMerkleTree Hash2 TxHash this) else this)
     in (branch_loop (vMerkleTree this) 0 (length (vtx this)) nIndex [], this))"

fun check_branch_loop :: "(base_uint \<Rightarrow> base_uint \<Rightarrow> base_uint) \<Rightarrow> base_uint \<Rightarrow> base_uint list \<Rightarrow> int \<Rightarrow> base_uint" where
  "check_branch_loop Hash2 hash [] nIndex = hash"
| "check_branch_loop Hash2 hash (otherside # rest) nIndex =
    check_branch_loop Hash2 (if nIndex AND 1 \<noteq> 0 then Hash2 otherside hash else Hash2 hash otherside) rest (drop_bit 1 nIndex)"

definition CheckMerkleBranch :: "(base_uint \<Rightarrow> base_uint \<Rightarrow> base_uint) \<Rightarrow> base_uint \<Rightarrow> base_uint list \<Rightarrow> int \<Rightarrow> base_uint" where
  "CheckMerkleBranch Hash2 hash vMerkleBranch nIndex =
    (if nIndex = -1 then set64 8 0 else check_branch_loop Hash2 hash vMerkleBranch nIndex)"

section \<open>The tree by levels\<close>

text \<open>The specification: each level is the list of hashed pairs of the one below, the last element paired with itself.\<close>

definition merkle_row :: "(base_uint \<Rightarrow> base_uint \<Rightarrow> base_uint) \<Rightarrow> base_uint list \<Rightarrow> base_uint list" where
  "merkle_row H xs = map (\<lambda>k. H (xs ! (2 * k)) (xs ! min (2 * k + 1) (length xs - 1))) [0..<(length xs + 1) div 2]"

lemma length_merkle_row [simp]: "length (merkle_row H xs) = (length xs + 1) div 2"
  by (simp add: merkle_row_def)

function merkle_root :: "(base_uint \<Rightarrow> base_uint \<Rightarrow> base_uint) \<Rightarrow> base_uint list \<Rightarrow> base_uint" where
  "merkle_root H xs = (if length xs > 1 then merkle_root H (merkle_row H xs) else hd xs)"
  by auto
termination
  by (relation "measure (\<lambda>(_, xs). length xs)") auto

declare merkle_root.simps [simp del]

lemma fold_merkle_push:
  assumes "2 * m \<le> length xs + 1" "xs \<noteq> []"
  shows "fold (merkle_push H (length p) (length xs)) (map (\<lambda>k. 2 * k) [0..<m]) (p @ xs) =
    p @ xs @ map (\<lambda>k. H (xs ! (2 * k)) (xs ! min (2 * k + 1) (length xs - 1))) [0..<m]"
  using assms(1)
proof (induction m)
  case (Suc m)
  have i: "2 * m < length xs" "min (2 * m + 1) (length xs - 1) < length xs" using Suc.prems assms(2) by auto
  have n: "(p @ xs @ ys) ! (length p + k) = xs ! k" if "k < length xs" for k ys
    using that by (simp add: nth_append)
  show ?case using Suc i by (simp add: merkle_push_def Let_def nth_append)
qed simp

lemma merkle_levels_step:
  assumes "1 < length xs"
  shows "merkle_levels H (length p) (length xs) (p @ xs) =
    merkle_levels H (length (p @ xs)) (length (merkle_row H xs)) ((p @ xs) @ merkle_row H xs)"
proof -
  have "fold (merkle_push H (length p) (length xs)) (map (\<lambda>k. 2 * k) [0..<(length xs + 1) div 2]) (p @ xs) = p @ xs @ merkle_row H xs"
    using assms by (subst fold_merkle_push) (auto simp: merkle_row_def)
  then show ?thesis using assms by (subst merkle_levels.simps) simp
qed

lemma merkle_levels_prefix: "\<exists>ys. merkle_levels H (length p) (length xs) (p @ xs) = p @ xs @ ys"
proof (induction "length xs" arbitrary: p xs rule: less_induct)
  case less
  show ?case
  proof (cases "1 < length xs")
    case True
    then have "length (merkle_row H xs) < length xs" by simp
    from less [OF this, of "p @ xs"] show ?thesis unfolding merkle_levels_step [OF True] by auto
  next
    case False
    then show ?thesis by (subst merkle_levels.simps) simp
  qed
qed

lemma merkle_levels_root:
  "xs \<noteq> [] \<Longrightarrow> last (merkle_levels H (length p) (length xs) (p @ xs)) = merkle_root H xs"
proof (induction "length xs" arbitrary: p xs rule: less_induct)
  case less
  show ?case
  proof (cases "1 < length xs")
    case True
    then have "length (merkle_row H xs) < length xs" "merkle_row H xs \<noteq> []" by (auto simp flip: length_greater_0_conv)
    from less.hyps [OF this, of "p @ xs"] show ?thesis
      unfolding merkle_levels_step [OF True] using True by (subst merkle_root.simps) simp
  next
    case False
    then obtain x where "xs = [x]" using less.prems by (cases xs) auto
    then show ?thesis by (subst merkle_levels.simps, subst merkle_root.simps) simp
  qed
qed

lemma branch_loop_acc: "branch_loop t j n i acc = acc @ branch_loop t j n i []"
proof (induction n arbitrary: j i acc rule: less_induct)
  case (less n)
  show ?case
  proof (cases "n > 1")
    case True
    then have s: "(n + 1) div 2 < n" by simp
    let ?b = "\<lambda>acc. branch_loop t (j + n) ((n + 1) div 2) (drop_bit 1 i) acc"
    have "branch_loop t j n i acc = ?b (acc @ [t ! (j + min (i XOR 1) (n - 1))])" "branch_loop t j n i [] = ?b ([] @ [t ! (j + min (i XOR 1) (n - 1))])"
      using True by (subst branch_loop.simps, simp only: if_True Let_def)+
    then show ?thesis using less [OF s] by (metis append_Nil append_assoc)
  next
    case False
    then show ?thesis by (subst (1 2) branch_loop.simps) simp
  qed
qed

lemma xor_1_nat: "i XOR Suc 0 = (if even i then i + 1 else i - 1)"
  by (simp add: xor_Suc_0_eq)

text \<open>Checking a branch climbs one level per step.\<close>

lemma branch_checks:
  assumes "i < length xs" "t = p @ xs @ ys" "t = merkle_levels H (length p) (length xs) (p @ xs)"
  shows "check_branch_loop H (xs ! i) (branch_loop t (length p) (length xs) i []) (int i) = merkle_root H xs"
  using assms
proof (induction "length xs" arbitrary: p xs ys i rule: less_induct)
  case less
  show ?case
  proof (cases "1 < length xs")
    case True
    let ?r = "merkle_row H xs" and ?s = "min (i XOR 1) (length xs - 1)"
    have s: "?s < length xs" using True by auto
    have l: "length ?r < length xs" using True by simp
    have i2: "i div 2 < length ?r" using less.prems(1) by simp
    have at: "t ! (length p + ?s) = xs ! ?s" unfolding less.prems(2) using s by (simp add: nth_append)
    have node: "(if odd i then H (xs ! ?s) (xs ! i) else H (xs ! i) (xs ! ?s)) = ?r ! (i div 2)"
    proof (cases "odd i")
      case True
      then have "2 * (i div 2) = i - 1" "2 * (i div 2) + 1 = i" by presburger+
      then have "?r ! (i div 2) = H (xs ! (i - 1)) (xs ! min i (length xs - 1))" using i2 by (simp add: merkle_row_def)
      moreover have "min i (length xs - 1) = i" "?s = i - 1" using less.prems(1) True by (auto simp: xor_1_nat)
      ultimately show ?thesis using True by simp
    next
      case False
      then have "2 * (i div 2) = i" by presburger
      then show ?thesis using False i2 by (simp add: merkle_row_def xor_1_nat)
    qed
    have br: "branch_loop t (length p) (length xs) i [] =
        xs ! ?s # branch_loop t (length (p @ xs)) (length ?r) (i div 2) []"
      using True at by (subst branch_loop.simps) (simp add: Let_def branch_loop_acc [of t _ _ _ "[_]"] drop_bit_Suc)
    have ix: "drop_bit (Suc 0) (int i) = int (i div 2)" by (simp add: drop_bit_Suc zdiv_int)
    have odd_ix: "int i AND 1 \<noteq> 0 \<longleftrightarrow> odd i" by (simp add: and_one_eq) presburger
    have "check_branch_loop H (?r ! (i div 2)) (branch_loop t (length (p @ xs)) (length ?r) (i div 2) []) (int (i div 2)) = merkle_root H ?r"
    proof -
      have m: "t = merkle_levels H (length (p @ xs)) (length ?r) ((p @ xs) @ ?r)"
        unfolding less.prems(3) by (rule merkle_levels_step [OF True])
      then obtain zs where "t = (p @ xs) @ ?r @ zs" using merkle_levels_prefix [of H "p @ xs" ?r] by auto
      from less.hyps [OF l i2 this m] show ?thesis .
    qed
    then show ?thesis using True node by (subst merkle_root.simps) (auto simp: br ix odd_ix)
  next
    case False
    then have "i = 0" "xs ! 0 = hd xs" using less.prems(1) by (cases xs; auto)+
    then show ?thesis using False by (subst branch_loop.simps, subst merkle_root.simps) simp
  qed
qed

text \<open>C38. Every transaction can be proved to be in its block: the branch that \<open>GetMerkleBranch\<close> gives for index \<open>i\<close>,
  checked with \<open>CheckMerkleBranch\<close> against the hash of the \<open>i\<close>-th transaction, yields the Merkle root that
  \<open>BuildMerkleTree\<close> computes, for every hash function and every number of transactions.\<close>
theorem merkle_branch_correct:
  assumes "i < length (vtx b)"
  shows "CheckMerkleBranch H (TxHash (vtx b ! i)) (fst (GetMerkleBranch H TxHash (snd (BuildMerkleTree H TxHash b)) i)) (int i) =
    fst (BuildMerkleTree H TxHash b)"
proof -
  let ?xs = "map TxHash (vtx b)"
  let ?t = "merkle_levels H 0 (length ?xs) ?xs"
  have ne: "?xs \<noteq> []" using assms by auto
  obtain ys where t: "?t = ?xs @ ys" using merkle_levels_prefix [of H "[]" ?xs] by auto
  have c: "check_branch_loop H (?xs ! i) (branch_loop ?t 0 (length ?xs) i []) (int i) = merkle_root H ?xs"
    using branch_checks [of i ?xs ?t "[]" ys H] assms t by simp
  have r: "last ?t = merkle_root H ?xs" using merkle_levels_root [OF ne, of H "[]"] by simp
  have "?t \<noteq> []" using t ne by simp
  then show ?thesis using assms c r by (simp add: CheckMerkleBranch_def GetMerkleBranch_def BuildMerkleTree_def Let_def)
qed

theorem merkle_branch_correct_witness:
  "CheckMerkleBranch uxor (set64 8 4) (fst (GetMerkleBranch uxor (\<lambda>tx. set64 8 (ucast (nLockTime tx)))
       (snd (BuildMerkleTree uxor (\<lambda>tx. set64 8 (ucast (nLockTime tx))) (CBlock_Null\<lparr>vtx := map (\<lambda>n. CTransaction_Null\<lparr>nLockTime := n\<rparr>) [1, 2, 4]\<rparr>))) 2)) 2 =
    fst (BuildMerkleTree uxor (\<lambda>tx. set64 8 (ucast (nLockTime tx))) (CBlock_Null\<lparr>vtx := map (\<lambda>n. CTransaction_Null\<lparr>nLockTime := n\<rparr>) [1, 2, 4]\<rparr>))"
proof -
  let ?b = "CBlock_Null\<lparr>vtx := map (\<lambda>n. CTransaction_Null\<lparr>nLockTime := n\<rparr>) [1, 2, 4]\<rparr>"
  have "2 < length (vtx ?b)" by simp
  from merkle_branch_correct [OF this, of uxor "\<lambda>tx. set64 8 (ucast (nLockTime tx))"] show ?thesis by simp
qed

end
