(* ===== verification/Chain.thy ===== *)
theory Chain
  imports Block Containers
begin

text \<open>
  The block index and the active chain (\<open>chain.h\<close>, \<open>chain.cpp\<close>): index entries linked by \<open>pprev\<close>, their
  validity status and median time, and \<open>CChain\<close>, the vector that \<open>SetTip\<close> keeps in step with the links.
  A pointer to an index entry is a \<open>nat\<close> and the entries are a function from pointers, so that \<open>NULL\<close> is \<open>None\<close>.
  Loops that follow the links are partial functions: \<open>None\<close> stands for a loop that does not end.
  \<open>GetAncestor\<close> (skip lists) is not in the tree and is a parameter.
\<close>

section \<open>Positions and status\<close>

record CDiskBlockPos =
  dp_nFile :: int
  dp_nPos :: u32

definition DiskBlockPos_Null :: CDiskBlockPos where
  "DiskBlockPos_Null = \<lparr>dp_nFile = -1, dp_nPos = 0\<rparr>"

definition DiskBlockPos_IsNull :: "CDiskBlockPos \<Rightarrow> bool" where
  "DiskBlockPos_IsNull this = (dp_nFile this = -1)"

definition DiskBlockPos_eq :: "CDiskBlockPos \<Rightarrow> CDiskBlockPos \<Rightarrow> bool" where
  "DiskBlockPos_eq a b = (dp_nFile a = dp_nFile b \<and> dp_nPos a = dp_nPos b)"

definition BLOCK_VALID_UNKNOWN :: u32 where "BLOCK_VALID_UNKNOWN = 0"
definition BLOCK_VALID_HEADER :: u32 where "BLOCK_VALID_HEADER = 1"
definition BLOCK_VALID_TREE :: u32 where "BLOCK_VALID_TREE = 2"
definition BLOCK_VALID_TRANSACTIONS :: u32 where "BLOCK_VALID_TRANSACTIONS = 3"
definition BLOCK_VALID_CHAIN :: u32 where "BLOCK_VALID_CHAIN = 4"
definition BLOCK_VALID_SCRIPTS :: u32 where "BLOCK_VALID_SCRIPTS = 5"

definition BLOCK_VALID_MASK :: u32 where
  "BLOCK_VALID_MASK = BLOCK_VALID_HEADER OR BLOCK_VALID_TREE OR BLOCK_VALID_TRANSACTIONS OR
     BLOCK_VALID_CHAIN OR BLOCK_VALID_SCRIPTS"

definition BLOCK_HAVE_DATA :: u32 where "BLOCK_HAVE_DATA = 8"
definition BLOCK_HAVE_UNDO :: u32 where "BLOCK_HAVE_UNDO = 16"
definition BLOCK_FAILED_VALID :: u32 where "BLOCK_FAILED_VALID = 32"
definition BLOCK_FAILED_CHILD :: u32 where "BLOCK_FAILED_CHILD = 64"
definition BLOCK_FAILED_MASK :: u32 where "BLOCK_FAILED_MASK = BLOCK_FAILED_VALID OR BLOCK_FAILED_CHILD"

section \<open>Index entries\<close>

record CBlockIndex =
  phashBlock :: "base_uint option"
  pprev :: "nat option"
  pskip :: "nat option"
  nHeight :: int
  nFile :: int
  nDataPos :: u32
  nUndoPos :: u32
  nChainWork :: base_uint
  nTx :: u32
  nChainTx :: u32
  nStatus :: u32
  bi_nVersion :: int
  bi_hashMerkleRoot :: base_uint
  bi_nTime :: u32
  bi_nBits :: u32
  bi_nNonce :: u32
  nSequenceId :: u32

type_synonym block_index = "nat \<Rightarrow> CBlockIndex"

definition CBlockIndex_Null :: CBlockIndex where
  "CBlockIndex_Null = \<lparr>phashBlock = None, pprev = None, pskip = None, nHeight = 0, nFile = 0, nDataPos = 0, nUndoPos = 0,
     nChainWork = set64 8 0, nTx = 0, nChainTx = 0, nStatus = 0, bi_nVersion = 0, bi_hashMerkleRoot = set64 8 0,
     bi_nTime = 0, bi_nBits = 0, bi_nNonce = 0, nSequenceId = 0\<rparr>"

definition CBlockIndex_of_header :: "CBlockHeader \<Rightarrow> CBlockIndex" where
  "CBlockIndex_of_header block = CBlockIndex_Null\<lparr>bi_nVersion := bh_nVersion block,
     bi_hashMerkleRoot := hashMerkleRoot block, bi_nTime := bh_nTime block, bi_nBits := bh_nBits block,
     bi_nNonce := bh_nNonce block\<rparr>"

definition GetBlockPos :: "CBlockIndex \<Rightarrow> CDiskBlockPos" where
  "GetBlockPos this = (if nStatus this AND BLOCK_HAVE_DATA \<noteq> 0
     then \<lparr>dp_nFile = nFile this, dp_nPos = nDataPos this\<rparr> else DiskBlockPos_Null)"

definition GetUndoPos :: "CBlockIndex \<Rightarrow> CDiskBlockPos" where
  "GetUndoPos this = (if nStatus this AND BLOCK_HAVE_UNDO \<noteq> 0
     then \<lparr>dp_nFile = nFile this, dp_nPos = nUndoPos this\<rparr> else DiskBlockPos_Null)"

text \<open>\<open>*phashBlock\<close>: dereferencing the null pointer is the failure \<open>OutOfRange\<close>.\<close>

definition GetBlockHash :: "CBlockIndex \<Rightarrow> base_uint result" where
  "GetBlockHash this = (case phashBlock this of None \<Rightarrow> Inl OutOfRange | Some hash \<Rightarrow> Inr hash)"

definition Index_GetBlockHeader :: "block_index \<Rightarrow> CBlockIndex \<Rightarrow> CBlockHeader result" where
  "Index_GetBlockHeader h this =
    (let block = CBlockHeader_Null\<lparr>bh_nVersion := bi_nVersion this\<rparr>
     in bindR (case pprev this of
          None \<Rightarrow> Inr block
        | Some q \<Rightarrow> bindR (GetBlockHash (h q)) (\<lambda>hash. Inr (block\<lparr>hashPrevBlock := hash\<rparr>)))
        (\<lambda>block. Inr (block\<lparr>hashMerkleRoot := bi_hashMerkleRoot this, bh_nTime := bi_nTime this,
           bh_nBits := bi_nBits this, bh_nNonce := bi_nNonce this\<rparr>)))"

definition GetBlockTime :: "CBlockIndex \<Rightarrow> int" where
  "GetBlockTime this = uint (bi_nTime this)"

text \<open>The times of the last \<open>n\<close> entries, newest first; the code writes them from the end of its array backwards.\<close>

fun past_times :: "block_index \<Rightarrow> nat \<Rightarrow> nat option \<Rightarrow> int list" where
  "past_times h 0 p = []"
| "past_times h (Suc n) None = []"
| "past_times h (Suc n) (Some q) = GetBlockTime (h q) # past_times h n (pprev (h q))"

definition GetMedianTimePast :: "block_index \<Rightarrow> nat \<Rightarrow> int" where
  "GetMedianTimePast h this =
    (let pmedian = sort (rev (past_times h 11 (Some this))) in pmedian ! (length pmedian div 2))"

definition Index_IsValid :: "CBlockIndex \<Rightarrow> u32 \<Rightarrow> bool result" where
  "Index_IsValid this nUpTo =
    (if \<not> nUpTo AND NOT BLOCK_VALID_MASK = 0 then Inl AssertFailed
     else if nStatus this AND BLOCK_FAILED_MASK \<noteq> 0 then Inr False
     else Inr (nUpTo \<le> nStatus this AND BLOCK_VALID_MASK))"

definition RaiseValidity :: "u32 \<Rightarrow> CBlockIndex \<Rightarrow> (bool \<times> CBlockIndex) result" where
  "RaiseValidity nUpTo this =
    (if \<not> nUpTo AND NOT BLOCK_VALID_MASK = 0 then Inl AssertFailed
     else if nStatus this AND BLOCK_FAILED_MASK \<noteq> 0 then Inr (False, this)
     else if nStatus this AND BLOCK_VALID_MASK < nUpTo
     then Inr (True, this\<lparr>nStatus := (nStatus this AND NOT BLOCK_VALID_MASK) OR nUpTo\<rparr>)
     else Inr (False, this))"

text \<open>\<open>CDiskBlockIndex\<close>: the entry with the hash of its predecessor in place of the pointer.\<close>

record CDiskBlockIndex = CBlockIndex +
  hashPrev :: base_uint

definition DiskBlockIndex_of :: "block_index \<Rightarrow> CBlockIndex \<Rightarrow> CDiskBlockIndex result" where
  "DiskBlockIndex_of h pindex =
    bindR (case pprev pindex of None \<Rightarrow> Inr (set64 8 0) | Some q \<Rightarrow> GetBlockHash (h q))
      (\<lambda>hash. Inr (CBlockIndex.extend pindex \<lparr>hashPrev = hash\<rparr>))"

definition DiskBlockIndex_GetBlockHash :: "(CBlockHeader \<Rightarrow> base_uint) \<Rightarrow> CDiskBlockIndex \<Rightarrow> base_uint" where
  "DiskBlockIndex_GetBlockHash GetHash this = GetHash \<lparr>bh_nVersion = bi_nVersion this, hashPrevBlock = hashPrev this,
     hashMerkleRoot = bi_hashMerkleRoot this, bh_nTime = bi_nTime this, bh_nBits = bi_nBits this, bh_nNonce = bi_nNonce this\<rparr>"

section \<open>The active chain\<close>

type_synonym CChain = "nat option list"

definition Genesis :: "CChain \<Rightarrow> nat option" where
  "Genesis vChain = (if length vChain > 0 then vChain ! 0 else None)"

definition Tip :: "CChain \<Rightarrow> nat option" where
  "Tip vChain = (if length vChain > 0 then vChain ! (length vChain - 1) else None)"

definition chain_at :: "CChain \<Rightarrow> int \<Rightarrow> nat option" where
  "chain_at vChain n = (if n < 0 \<or> n \<ge> int (length vChain) then None else vChain ! nat n)"

text \<open>Two empty vectors are compared at index \<open>size() - 1\<close>, which wraps: that read is outside both.\<close>

definition chain_eq :: "CChain \<Rightarrow> CChain \<Rightarrow> bool result" where
  "chain_eq a b =
    (if length a \<noteq> length b then Inr False
     else if a = [] then Inl OutOfRange
     else Inr (a ! (length a - 1) = b ! (length b - 1)))"

definition Contains :: "block_index \<Rightarrow> CChain \<Rightarrow> nat \<Rightarrow> bool" where
  "Contains h vChain pindex = (chain_at vChain (nHeight (h pindex)) = Some pindex)"

definition chain_Next :: "block_index \<Rightarrow> CChain \<Rightarrow> nat \<Rightarrow> nat option" where
  "chain_Next h vChain pindex =
    (if Contains h vChain pindex then chain_at vChain (nHeight (h pindex) + 1) else None)"

definition Height :: "CChain \<Rightarrow> int" where
  "Height vChain = int (length vChain) - 1"

text \<open>\<open>vector::resize\<close>: new places hold null pointers. An index outside the vector is the failure \<open>OutOfRange\<close>.\<close>

definition vec_resize :: "nat \<Rightarrow> CChain \<Rightarrow> CChain" where
  "vec_resize n vChain = take n vChain @ replicate (n - length vChain) None"

partial_function (option) settip_loop :: "block_index \<Rightarrow> CChain \<Rightarrow> nat option \<Rightarrow> CChain result option" where
  "settip_loop h vChain pindex =
    (case pindex of
       None \<Rightarrow> Some (Inr vChain)
     | Some q \<Rightarrow>
         if nHeight (h q) < 0 \<or> nHeight (h q) \<ge> int (length vChain) then Some (Inl OutOfRange)
         else if vChain ! nat (nHeight (h q)) = Some q then Some (Inr vChain)
         else settip_loop h (vChain [nat (nHeight (h q)) := Some q]) (pprev (h q)))"

definition SetTip :: "block_index \<Rightarrow> CChain \<Rightarrow> nat option \<Rightarrow> CChain result option" where
  "SetTip h vChain pindex =
    (case pindex of
       None \<Rightarrow> Some (Inr [])
     | Some p \<Rightarrow> settip_loop h (vec_resize (nat (nHeight (h p) + 1)) vChain) pindex)"

type_synonym get_ancestor = "block_index \<Rightarrow> nat \<Rightarrow> int \<Rightarrow> nat option"

partial_function (option) locator_loop :: "get_ancestor \<Rightarrow> block_index \<Rightarrow> CChain \<Rightarrow> nat option \<Rightarrow> int \<Rightarrow> base_uint list \<Rightarrow>
    base_uint list result option" where
  "locator_loop GetAncestor h vChain pindex nStep vHave =
    (case pindex of
       None \<Rightarrow> Some (Inr vHave)
     | Some q \<Rightarrow>
         (case GetBlockHash (h q) of
            Inl err \<Rightarrow> Some (Inl err)
          | Inr hash \<Rightarrow>
              (let vHave = vHave @ [hash]
               in if nHeight (h q) = 0 then Some (Inr vHave)
                  else let n = max (nHeight (h q) - nStep) 0
                       in locator_loop GetAncestor h vChain
                            (if Contains h vChain q then chain_at vChain n else GetAncestor h q n)
                            (if length vHave > 10 then nStep * 2 else nStep) vHave)))"

definition GetLocator :: "get_ancestor \<Rightarrow> block_index \<Rightarrow> CChain \<Rightarrow> nat option \<Rightarrow> base_uint list result option" where
  "GetLocator GetAncestor h vChain pindex =
    locator_loop GetAncestor h vChain (case pindex of None \<Rightarrow> Tip vChain | Some p \<Rightarrow> Some p) 1 []"

partial_function (option) fork_loop :: "block_index \<Rightarrow> CChain \<Rightarrow> nat option \<Rightarrow> nat option option" where
  "fork_loop h vChain pindex =
    (case pindex of
       None \<Rightarrow> Some None
     | Some q \<Rightarrow> if Contains h vChain q then Some (Some q) else fork_loop h vChain (pprev (h q)))"

definition FindFork :: "get_ancestor \<Rightarrow> block_index \<Rightarrow> CChain \<Rightarrow> nat \<Rightarrow> nat option option" where
  "FindFork GetAncestor h vChain pindex =
    fork_loop h vChain (if nHeight (h pindex) > Height vChain then GetAncestor h pindex (Height vChain) else Some pindex)"

section \<open>The tree of blocks and its ancestors\<close>

text \<open>Heights count the links, and \<open>anc h q p\<close> follows them from \<open>p\<close> back to \<open>q\<close>.\<close>

definition wf_tree :: "block_index \<Rightarrow> bool" where
  "wf_tree h = (\<forall>p. case pprev (h p) of
     None \<Rightarrow> nHeight (h p) = 0
   | Some q \<Rightarrow> 0 \<le> nHeight (h q) \<and> nHeight (h p) = nHeight (h q) + 1)"

inductive anc :: "block_index \<Rightarrow> nat \<Rightarrow> nat \<Rightarrow> bool" for h where
  anc_self: "anc h p p"
| anc_link: "pprev (h p) = Some r \<Longrightarrow> anc h q r \<Longrightarrow> anc h q p"

inductive_cases ancE: "anc h q p"

text \<open>The vector holds a path: the entry at place \<open>k\<close> has height \<open>k\<close> and its predecessor at \<open>k - 1\<close>.\<close>

definition links_at :: "block_index \<Rightarrow> CChain \<Rightarrow> nat \<Rightarrow> nat \<Rightarrow> bool" where
  "links_at h c k r = (nHeight (h r) = int k \<and> pprev (h r) = (if k = 0 then None else c ! (k - 1)))"

definition chain_ok :: "block_index \<Rightarrow> CChain \<Rightarrow> bool" where
  "chain_ok h c = (\<forall>k < length c. \<exists>r. c ! k = Some r \<and> links_at h c k r)"

text \<open>What the code relies on \<open>GetAncestor\<close> for: the ancestor at the height asked for, \<open>NULL\<close> for a negative height.\<close>

definition ancestor_fun :: "block_index \<Rightarrow> get_ancestor \<Rightarrow> bool" where
  "ancestor_fun h GA = (\<forall>p n. (n < 0 \<longrightarrow> GA h p n = None) \<and>
     (0 \<le> n \<and> n \<le> nHeight (h p) \<longrightarrow> (\<exists>q. GA h p n = Some q \<and> anc h q p \<and> nHeight (h q) = n)))"

lemma wf_treeD:
  assumes "wf_tree h"
  shows "0 \<le> nHeight (h p)" "pprev (h p) = None \<longleftrightarrow> nHeight (h p) = 0"
    "pprev (h p) = Some q \<Longrightarrow> nHeight (h p) = nHeight (h q) + 1"
proof -
  have "case pprev (h p) of None \<Rightarrow> nHeight (h p) = 0 | Some q \<Rightarrow> 0 \<le> nHeight (h q) \<and> nHeight (h p) = nHeight (h q) + 1"
    using assms by (simp add: wf_tree_def)
  then show "0 \<le> nHeight (h p)" "pprev (h p) = None \<longleftrightarrow> nHeight (h p) = 0"
    "pprev (h p) = Some q \<Longrightarrow> nHeight (h p) = nHeight (h q) + 1"
    by (auto split: option.splits)
qed

lemma anc_trans: "anc h q p \<Longrightarrow> anc h p r \<Longrightarrow> anc h q r"
  by (rotate_tac, induction rule: anc.induct) (auto intro: anc.intros)

lemma anc_height:
  assumes "wf_tree h" "anc h q p"
  shows "nHeight (h q) \<le> nHeight (h p) \<and> (nHeight (h q) = nHeight (h p) \<longrightarrow> q = p)"
  using assms(2)
proof (induction rule: anc.induct)
  case (anc_link p r q)
  then show ?case using wf_treeD(3) [OF assms(1) anc_link(1)] by auto
qed simp

text \<open>The ancestors of an entry are ordered by height.\<close>

lemma anc_linear:
  assumes "wf_tree h" "anc h q p"
  shows "anc h r p \<Longrightarrow> nHeight (h q) \<le> nHeight (h r) \<Longrightarrow> anc h q r"
  using assms(2)
proof (induction rule: anc.induct)
  case (anc_self p)
  then have "r = p" using anc_height [OF assms(1) anc_self(1)] by auto
  then show ?case by (simp add: anc.anc_self)
next
  case (anc_link p s q)
  show ?case
  proof (cases "r = p")
    case True
    then show ?thesis using anc_link by (blast intro: anc.intros)
  next
    case False
    then have "anc h r s" using anc_link.prems(1) anc_link.hyps(1) by (auto elim: ancE)
    then show ?thesis using anc_link by blast
  qed
qed

lemma chain_okD: "chain_ok h c \<Longrightarrow> k < length c \<Longrightarrow> c ! k = Some r \<Longrightarrow> links_at h c k r"
  by (auto simp: chain_ok_def)

lemma links_Contains: "links_at h c k r \<Longrightarrow> k < length c \<Longrightarrow> c ! k = Some r \<Longrightarrow> Contains h c r"
  by (simp add: links_at_def Contains_def chain_at_def)

lemma chain_ok_at:
  assumes "chain_ok h c" "0 \<le> n" "n < int (length c)"
  obtains r where "chain_at c n = Some r" "nHeight (h r) = n" "Contains h c r"
proof -
  obtain r where "c ! nat n = Some r" "nHeight (h r) = n"
    using assms by (auto simp: chain_ok_def links_at_def dest!: spec [of _ "nat n"])
  then show ?thesis using that [of r] assms(2,3) by (simp add: chain_at_def Contains_def)
qed

lemma chain_ok_pprev:
  assumes "chain_ok h c" "Contains h c q" "pprev (h q) = Some r"
  shows "Contains h c r"
proof -
  let ?k = "nat (nHeight (h q))"
  have k: "?k < length c" "c ! ?k = Some q" using assms(2) by (auto simp: Contains_def chain_at_def split: if_splits)
  then have p: "?k - 1 < length c" "c ! (?k - 1) = Some r"
    using assms(3) chain_okD [OF assms(1) k] by (auto simp: links_at_def split: if_splits)
  then show ?thesis using chain_okD [OF assms(1)] links_Contains by blast
qed

lemma chain_ok_anc: "anc h q p \<Longrightarrow> chain_ok h c \<Longrightarrow> Contains h c p \<Longrightarrow> Contains h c q"
  by (induction rule: anc.induct) (auto dest: chain_ok_pprev)

lemma chain_ok_path:
  assumes "chain_ok h c" "j \<le> k" "k < length c" "c ! j = Some q" "c ! k = Some r"
  shows "anc h q r"
  using assms(2-5)
proof (induction k arbitrary: r rule: dec_induct)
  case base
  then show ?case by (simp add: anc_self)
next
  case (step k)
  obtain s where s: "c ! k = Some s" using assms(1) step.prems(1) by (auto simp: chain_ok_def dest: spec [of _ k])
  moreover have "pprev (h r) = c ! k" using assms(1) step.prems by (auto simp: chain_ok_def links_at_def dest!: spec [of _ "Suc k"])
  ultimately show ?case using step by (auto intro: anc_link)
qed

lemma Contains_iff_anc:
  assumes "chain_ok h c" "Tip c = Some p"
  shows "Contains h c q \<longleftrightarrow> anc h q p"
proof -
  have c: "c \<noteq> []" "c ! (length c - 1) = Some p" using assms(2) by (auto simp: Tip_def split: if_splits)
  show ?thesis
  proof
    assume q: "Contains h c q"
    then have "nat (nHeight (h q)) \<le> length c - 1" "c ! nat (nHeight (h q)) = Some q"
      by (auto simp: Contains_def chain_at_def split: if_splits)
    then show "anc h q p" using c by (intro chain_ok_path [OF assms(1) _ _ _ c(2)]) auto
  next
    have "length c - 1 < length c" using c(1) by simp
    then have "Contains h c p" using chain_okD [OF assms(1)] links_Contains c(2) by blast
    then show "anc h q p \<Longrightarrow> Contains h c q" using chain_ok_anc assms(1) by blast
  qed
qed


section \<open>SetTip\<close>

lemma settip_loop_ok:
  assumes "wf_tree h"
  shows "nHeight (h q) = int k \<Longrightarrow> k < length c \<Longrightarrow> (\<And>j r. j \<le> k \<Longrightarrow> c ! j = Some r \<Longrightarrow> links_at h c j r) \<Longrightarrow>
    (\<And>j. k < j \<Longrightarrow> j < length c \<Longrightarrow> \<exists>r. c ! j = Some r \<and> nHeight (h r) = int j \<and> pprev (h r) = (if j = k + 1 then Some q else c ! (j - 1))) \<Longrightarrow>
    \<exists>c'. settip_loop h c (Some q) = Some (Inr c') \<and> chain_ok h c' \<and> length c' = length c \<and> c' ! k = Some q \<and> (\<forall>j > k. c' ! j = c ! j)"
proof (induction k arbitrary: c q)
  case 0
  have p: "pprev (h q) = None" using wf_treeD(2) [OF assms] 0(1) by simp
  let ?c = "c[0 := Some q]"
  have "\<exists>r. ?c ! j = Some r \<and> links_at h ?c j r" if "j < length c" for j
  proof (cases j)
    case 0
    then show ?thesis using "0.prems"(1) p that by (simp add: links_at_def)
  next
    case (Suc i)
    then show ?thesis using "0.prems"(2) "0.prems"(4) [of j] that by (cases i) (auto simp: links_at_def)
  qed
  moreover have "?c = c" if "c ! 0 = Some q" using that by (metis list_update_id)
  ultimately show ?case using 0(1,2) p by (subst settip_loop.simps) (auto simp: chain_ok_def settip_loop.simps)
next
  case (Suc k)
  obtain r where r: "pprev (h q) = Some r" using wf_treeD(2) [OF assms, of q] Suc.prems(1) by auto
  then have hr: "nHeight (h r) = int k" using wf_treeD(3) [OF assms r] Suc.prems(1) by simp
  show ?case
  proof (cases "c ! Suc k = Some q")
    case True
    have low: "\<exists>s. c ! j = Some s \<and> links_at h c j s" if "j \<le> Suc k" for j
      using that
    proof (induction rule: inc_induct)
      case base
      then show ?case using True Suc.prems(3) by auto
    next
      case (step n)
      then obtain s where "links_at h c (Suc n) s" by auto
      then have s: "pprev (h s) = c ! n" "nHeight (h s) \<noteq> 0" by (simp_all add: links_at_def)
      then show ?case using wf_treeD(2) [OF assms, of s] Suc.prems(3) [of n] step.hyps by (cases "c ! n") auto
    qed
    have "chain_ok h c" unfolding chain_ok_def
    proof (intro allI impI)
      fix j assume "j < length c"
      then show "\<exists>s. c ! j = Some s \<and> links_at h c j s"
        using low [of j] Suc.prems(4) [of j] True by (cases "j \<le> Suc k") (auto simp: links_at_def split: if_splits)
    qed
    then show ?thesis using True Suc.prems(1,2) by (subst settip_loop.simps) (auto simp: nat_add_distrib)
  next
    case False
    let ?c = "c[Suc k := Some q]"
    have "\<exists>c'. settip_loop h ?c (Some r) = Some (Inr c') \<and> chain_ok h c' \<and> length c' = length ?c \<and> c' ! k = Some r \<and> (\<forall>j > k. c' ! j = ?c ! j)"
    proof (rule Suc.IH [OF hr])
      show "links_at h ?c j s" if "j \<le> k" "?c ! j = Some s" for j s
        using Suc.prems(3) [of j s] that by (auto simp: links_at_def)
      show "\<exists>s. ?c ! j = Some s \<and> nHeight (h s) = int j \<and> pprev (h s) = (if j = k + 1 then Some r else ?c ! (j - 1))"
        if "k < j" "j < length ?c" for j
        using Suc.prems(4) [of j] that Suc.prems(1) r by (cases "j = Suc k") (auto simp: nth_list_update split: if_splits)
    qed (use Suc.prems(2) in simp)
    then obtain c' where c': "settip_loop h ?c (Some r) = Some (Inr c')" "chain_ok h c'" "length c' = length c" "\<forall>j > k. c' ! j = ?c ! j" by auto
    have "settip_loop h c (Some q) = Some (Inr c')" using False Suc.prems(1,2) r c'(1) by (subst settip_loop.simps) (simp add: nat_add_distrib)
    moreover have "c' ! Suc k = Some q" "\<forall>j > Suc k. c' ! j = c ! j" using c'(4) Suc.prems(2) by simp_all
    ultimately show ?thesis using c'(2,3) by blast
  qed
qed

lemma vec_resize_nth: "j < n \<Longrightarrow> vec_resize n c ! j = (if j < length c then c ! j else None)"
  by (simp add: vec_resize_def nth_append)

lemma SetTip_ok:
  assumes "wf_tree h" "chain_ok h c"
  obtains c' where "SetTip h c (Some p) = Some (Inr c')" "chain_ok h c'" "Tip c' = Some p" "Height c' = nHeight (h p)"
proof -
  obtain k where k: "nHeight (h p) = int k" using wf_treeD(1) [OF assms(1), of p] by (metis nonneg_int_cases)
  let ?c = "vec_resize (k + 1) c"
  have l: "length ?c = k + 1" by (simp add: vec_resize_def)
  have "links_at h ?c j r" if "j \<le> k" "?c ! j = Some r" for j r
    using that chain_okD [OF assms(2), of j r] by (auto simp: vec_resize_nth links_at_def split: if_splits)
  then obtain c' where c': "settip_loop h ?c (Some p) = Some (Inr c')" "chain_ok h c'" "length c' = k + 1" "c' ! k = Some p"
    using settip_loop_ok [OF assms(1) k, of ?c] l by auto
  have "nat (nHeight (h p) + 1) = k + 1" using k by simp
  then show ?thesis using that [of c'] c' k by (simp add: SetTip_def Tip_def Height_def)
qed

text \<open>C17. \<open>SetTip\<close> returns and keeps the active chain in step with the tree of blocks: from a consistent chain, for any
  new tip, in whatever branch, it yields a consistent chain whose tip is that entry, whose height is its height,
  and which contains exactly its ancestors.\<close>
theorem SetTip_active:
  assumes "wf_tree h" "chain_ok h c"
  shows "\<exists>c'. SetTip h c (Some p) = Some (Inr c') \<and> chain_ok h c' \<and> Tip c' = Some p \<and> Height c' = nHeight (h p) \<and>
    (\<forall>q. Contains h c' q \<longleftrightarrow> anc h q p)"
proof -
  obtain c' where c': "SetTip h c (Some p) = Some (Inr c')" "chain_ok h c'" "Tip c' = Some p" "Height c' = nHeight (h p)"
    using SetTip_ok [OF assms] by blast
  then show ?thesis using Contains_iff_anc [OF c'(2,3)] by blast
qed

text \<open>Two branches above the genesis entry 0: the entries 1 to 10 and the entries from 11 on.\<close>

definition forked_tree :: block_index where
  "forked_tree p = CBlockIndex_Null\<lparr>phashBlock := Some (set64 8 (of_nat p)), nHeight := (if p \<le> 10 then int p else int p - 10),
     pprev := (if p = 0 then None else if p = 11 then Some 0 else Some (p - 1))\<rparr>"

lemma wf_forked_tree: "wf_tree forked_tree"
  by (auto simp: wf_tree_def forked_tree_def)

lemma chain_ok_forked: "chain_ok forked_tree [Some 0, Some 1, Some 2, Some 3]"
  by (auto simp: chain_ok_def links_at_def forked_tree_def less_Suc_eq numeral_eq_Suc)

theorem SetTip_active_witness:
  "\<exists>c'. SetTip forked_tree [Some 0, Some 1, Some 2, Some 3] (Some 12) = Some (Inr c') \<and> chain_ok forked_tree c' \<and>
    Tip c' = Some 12 \<and> Height c' = nHeight (forked_tree 12) \<and> (\<forall>q. Contains forked_tree c' q \<longleftrightarrow> anc forked_tree q 12)"
  by (rule SetTip_active [OF wf_forked_tree chain_ok_forked])


section \<open>FindFork\<close>

lemma fork_loop_ok:
  assumes "wf_tree h" "chain_ok h c"
  shows "nHeight (h p) = int k \<Longrightarrow> \<exists>r. fork_loop h c (Some p) = Some r \<and>
    (case r of None \<Rightarrow> \<forall>q. anc h q p \<longrightarrow> \<not> Contains h c q
     | Some q \<Rightarrow> anc h q p \<and> Contains h c q \<and> (\<forall>s. anc h s p \<and> Contains h c s \<longrightarrow> anc h s q))"
proof (induction k arbitrary: p)
  case 0
  then have p: "pprev (h p) = None" using wf_treeD(2) [OF assms(1)] by simp
  then have "anc h q p \<longleftrightarrow> q = p" for q by (auto intro: anc_self elim: ancE)
  then show ?case using p by (subst fork_loop.simps, cases "Contains h c p") (auto simp: fork_loop.simps)
next
  case (Suc k)
  obtain r where r: "pprev (h p) = Some r" using wf_treeD(2) [OF assms(1), of p] Suc.prems by auto
  then have "nHeight (h r) = int k" using wf_treeD(3) [OF assms(1) r] Suc.prems by simp
  note IH = Suc.IH [OF this]
  show ?case
  proof (cases "Contains h c p")
    case True
    then show ?thesis by (subst fork_loop.simps) (auto intro: anc_self)
  next
    case False
    then have "fork_loop h c (Some p) = fork_loop h c (Some r)" using r by (subst fork_loop.simps) simp
    moreover have "anc h s p \<and> Contains h c s \<longleftrightarrow> anc h s r \<and> Contains h c s" for s
      using False r by (auto intro: anc_link elim: ancE)
    ultimately show ?thesis using IH r by (fastforce split: option.splits intro: anc_link)
  qed
qed

text \<open>C29. \<open>FindFork\<close> always returns, and what it returns is the last common block: an ancestor of the given entry that is
  in the chain and of which every other ancestor in the chain is itself an ancestor; \<open>NULL\<close> exactly when
  none is in the chain.\<close>
theorem FindFork_last_common:
  assumes "wf_tree h" "chain_ok h c" "ancestor_fun h GA"
  shows "\<exists>r. FindFork GA h c p = Some r \<and>
    (case r of None \<Rightarrow> \<forall>q. anc h q p \<longrightarrow> \<not> Contains h c q
     | Some q \<Rightarrow> anc h q p \<and> Contains h c q \<and> (\<forall>s. anc h s p \<and> Contains h c s \<longrightarrow> anc h s q))"
proof (cases "nHeight (h p) > Height c")
  case False
  obtain k where "nHeight (h p) = int k" using wf_treeD(1) [OF assms(1), of p] by (metis nonneg_int_cases)
  then show ?thesis using fork_loop_ok [OF assms(1,2), of p k] False by (simp add: FindFork_def)
next
  case True
  have low: "nHeight (h s) \<le> Height c" if "Contains h c s" for s
    using that by (auto simp: Contains_def chain_at_def Height_def split: if_splits)
  show ?thesis
  proof (cases "c = []")
    case c: True
    then have "GA h p (Height c) = None" using assms(3) by (simp add: ancestor_fun_def Height_def)
    then show ?thesis using True c by (auto simp: FindFork_def Contains_def chain_at_def fork_loop.simps)
  next
    case c: False
    then have h0: "0 \<le> Height c" by (simp add: Height_def Suc_leI)
    then obtain a where a: "GA h p (Height c) = Some a" "anc h a p" "nHeight (h a) = Height c"
      using assms(3) True by (force simp: ancestor_fun_def)
    have "anc h s p \<and> Contains h c s \<longleftrightarrow> anc h s a \<and> Contains h c s" for s
      using anc_linear [OF assms(1) _ a(2), of s] low [of s] a(2,3) by (auto intro: anc_trans)
    moreover obtain r where "fork_loop h c (Some a) = Some r"
      "case r of None \<Rightarrow> \<forall>q. anc h q a \<longrightarrow> \<not> Contains h c q
       | Some q \<Rightarrow> anc h q a \<and> Contains h c q \<and> (\<forall>s. anc h s a \<and> Contains h c s \<longrightarrow> anc h s q)"
      using fork_loop_ok [OF assms(1,2), of a "nat (Height c)"] a(3) h0 by auto
    ultimately show ?thesis using True a by (fastforce simp: FindFork_def split: option.splits)
  qed
qed

text \<open>An ancestor function for the example: down the branch, then along 1 to 10.\<close>

definition forked_ancestor :: get_ancestor where
  "forked_ancestor h p n = (if n < 0 \<or> nHeight (forked_tree p) < n then None
     else Some (if p \<le> 10 \<or> n = 0 then nat n else nat n + 10))"

lemma forked_line: "(\<And>i. j < i \<Longrightarrow> i \<le> k \<Longrightarrow> pprev (h i) = Some (i - 1)) \<Longrightarrow> j \<le> k \<Longrightarrow> anc h j k"
proof (induction k)
  case (Suc k)
  then show ?case by (cases "j = Suc k") (auto intro: anc.intros)
qed (simp add: anc_self)

lemma forked_ancestor_ok: "ancestor_fun forked_tree forked_ancestor"
proof -
  have "\<exists>q. forked_ancestor forked_tree p n = Some q \<and> anc forked_tree q p \<and> nHeight (forked_tree q) = n"
    if n: "0 \<le> n" "n \<le> nHeight (forked_tree p)" for p n
  proof (cases "p \<le> 10")
    case True
    then have "anc forked_tree (nat n) p" using n by (intro forked_line) (auto simp: forked_tree_def)
    then show ?thesis using True n by (auto simp: forked_ancestor_def forked_tree_def)
  next
    case False
    have 0: "anc forked_tree 0 11" by (rule anc_link [OF _ anc_self]) (simp add: forked_tree_def)
    have "anc forked_tree 11 p" using False by (intro forked_line) (auto simp: forked_tree_def)
    then have "anc forked_tree 0 p" by (rule anc_trans [OF 0])
    moreover have "anc forked_tree (nat n + 10) p" if "n \<noteq> 0"
      using that False n by (intro forked_line) (auto simp: forked_tree_def)
    ultimately show ?thesis using False n by (auto simp: forked_ancestor_def forked_tree_def)
  qed
  then show ?thesis by (simp add: ancestor_fun_def forked_ancestor_def)
qed

theorem FindFork_last_common_witness:
  "\<exists>r. FindFork forked_ancestor forked_tree [Some 0, Some 1, Some 2, Some 3] 16 = Some r \<and>
    (case r of None \<Rightarrow> False | Some q \<Rightarrow> anc forked_tree q 16 \<and> Contains forked_tree [Some 0, Some 1, Some 2, Some 3] q)"
proof -
  have "anc forked_tree 0 16" using forked_ancestor_ok by (force simp: ancestor_fun_def forked_ancestor_def forked_tree_def)
  moreover have "Contains forked_tree [Some 0, Some 1, Some 2, Some 3] 0" by (simp add: Contains_def chain_at_def forked_tree_def)
  ultimately show ?thesis using FindFork_last_common [OF wf_forked_tree chain_ok_forked forked_ancestor_ok, of 16] by (auto split: option.splits)
qed


section \<open>GetLocator\<close>

text \<open>The entries a locator names: each an ancestor of the one before, down to the genesis entry.\<close>

fun back_path :: "block_index \<Rightarrow> nat list \<Rightarrow> bool" where
  "back_path h [] = False"
| "back_path h [q] = (nHeight (h q) = 0)"
| "back_path h (q # r # ps) = (anc h r q \<and> nHeight (h r) < nHeight (h q) \<and> back_path h (r # ps))"

definition hash_of :: "block_index \<Rightarrow> nat \<Rightarrow> base_uint" where
  "hash_of h q = the (phashBlock (h q))"

text \<open>What one more hash in \<open>vHave\<close> costs: \<open>fits k s n i\<close> says that with \<open>i\<close> hashes taken and steps of \<open>s\<close>, \<open>n\<close>
  more are enough for a height of \<open>k\<close>.\<close>

definition fits :: "int \<Rightarrow> int \<Rightarrow> nat \<Rightarrow> nat \<Rightarrow> bool" where
  "fits k s n i \<longleftrightarrow> (if i < 10 then s = 1 \<and> 10 - i < n \<and> k \<le> int (10 - i) + 2 ^ (n - (10 - i) - 1) - 1
     else 0 < n \<and> k \<le> s * (2 ^ (n - 1) - 1))"

lemma fits_step:
  assumes "fits k s n i" "0 < k" "0 < s"
  shows "\<exists>m. n = Suc m \<and> fits (max (k - s) 0) (if i + 1 > 10 then s * 2 else s) m (i + 1)"
proof -
  obtain m where n: "n = Suc m" using assms(1) by (cases n) (auto simp: fits_def split: if_splits)
  consider "i < 9" | "i = 9" | "i \<ge> 10" by linarith
  then have "fits (max (k - s) 0) (if i + 1 > 10 then s * 2 else s) m (i + 1)"
  proof cases
    case 1
    then show ?thesis using assms n by (auto simp: fits_def Suc_diff_Suc numeral_eq_Suc)
  next
    case 2
    then show ?thesis using assms n by (auto simp: fits_def)
  next
    case 3
    then have "k \<le> s * (2 ^ m - 1)" using assms(1) n by (simp add: fits_def)
    moreover from this have "m \<noteq> 0" using assms(2) by (cases m) auto
    then obtain j where j: "m = Suc j" by (cases m) auto
    ultimately have "k - s \<le> s * 2 * (2 ^ j - 1)" by (simp add: algebra_simps)
    moreover have "0 \<le> s * 2 * (2 ^ j - 1)" using assms(3) by simp
    ultimately show ?thesis using 3 j by (simp add: fits_def)
  qed
  then show ?thesis using n by blast
qed

lemma locator_loop_ok:
  assumes "wf_tree h" "chain_ok h c" "ancestor_fun h GA" "\<And>q. anc h q p0 \<Longrightarrow> phashBlock (h q) \<noteq> None"
  shows "anc h q p0 \<Longrightarrow> 0 < s \<Longrightarrow> fits (nHeight (h q)) s n (length vs) \<Longrightarrow>
    \<exists>qs. locator_loop GA h c (Some q) s vs = Some (Inr (vs @ map (hash_of h) (q # qs))) \<and> back_path h (q # qs) \<and> length (q # qs) \<le> n"
proof (induction n arbitrary: q s vs)
  case 0
  then show ?case by (auto simp: fits_def split: if_splits)
next
  case (Suc n)
  have hash: "GetBlockHash (h q) = Inr (hash_of h q)" using assms(4) [OF Suc.prems(1)] by (auto simp: GetBlockHash_def hash_of_def)
  show ?case
  proof (cases "nHeight (h q) = 0")
    case True
    then show ?thesis by (subst locator_loop.simps) (auto simp: hash Let_def intro: exI [of _ "[]"])
  next
    case False
    let ?vs = "vs @ [hash_of h q]" and ?s = "if length vs + 1 > 10 then s * 2 else s" and ?n = "max (nHeight (h q) - s) 0"
    have pos: "0 < nHeight (h q)" using False wf_treeD(1) [OF assms(1), of q] by simp
    obtain r where r: "(if Contains h c q then chain_at c ?n else GA h q ?n) = Some r" "anc h r q" "nHeight (h r) = ?n"
    proof (cases "Contains h c q")
      case True
      then have k: "nat (nHeight (h q)) < length c" "c ! nat (nHeight (h q)) = Some q"
        by (auto simp: Contains_def chain_at_def split: if_splits)
      then have "?n < int (length c)" using Suc.prems(2) pos by linarith
      then obtain r where "chain_at c ?n = Some r" "nHeight (h r) = ?n" using chain_ok_at [OF assms(2), of ?n] by auto
      moreover from this have "anc h r q" using k Suc.prems(2) pos
        by (intro chain_ok_path [OF assms(2) _ k(1) _ k(2), of "nat ?n"]) (auto simp: chain_at_def split: if_splits)
      ultimately show ?thesis using True that by simp
    next
      case False
      have "\<exists>r. GA h q ?n = Some r \<and> anc h r q \<and> nHeight (h r) = ?n" using assms(3) Suc.prems(2) pos by (simp add: ancestor_fun_def)
      then show ?thesis using False that by auto
    qed
    have f: "fits (nHeight (h r)) ?s n (length ?vs)" using fits_step [OF Suc.prems(3) pos Suc.prems(2)] r(3) by auto
    have s': "0 < ?s" using Suc.prems(2) by simp
    obtain qs where qs: "locator_loop GA h c (Some r) ?s ?vs = Some (Inr (?vs @ map (hash_of h) (r # qs)))"
      "back_path h (r # qs)" "length (r # qs) \<le> n"
      using Suc.IH [OF anc_trans [OF r(2) Suc.prems(1)] s' f] by blast
    have "locator_loop GA h c (Some q) s vs = locator_loop GA h c (Some r) ?s ?vs"
      using False r(1) by (subst locator_loop.simps) (simp add: hash Let_def)
    then show ?thesis using qs r(2,3) pos Suc.prems(2) by (intro exI [of _ "r # qs"]) auto
  qed
qed

text \<open>\<open>GetLocator\<close> always returns, and what it returns names the entry itself, then ancestors at strictly smaller
  heights, down to the genesis entry; for a height below \<open>2^m + 10\<close> it has at most \<open>m + 11\<close> hashes, because
  the steps double after the tenth (so 42 at most for a height that is an \<open>int\<close>, where the code reserves
  32).\<close>
theorem GetLocator_bounds:
  assumes "wf_tree h" "chain_ok h c" "ancestor_fun h GA" "\<And>q. anc h q p \<Longrightarrow> phashBlock (h q) \<noteq> None"
    "nHeight (h p) < 2 ^ m + 10"
  shows "\<exists>qs. GetLocator GA h c (Some p) = Some (Inr (map (hash_of h) (p # qs))) \<and> back_path h (p # qs) \<and> length (p # qs) \<le> m + 11"
proof -
  have "fits (nHeight (h p)) 1 (m + 11) (length [])" using assms(5) by (simp add: fits_def)
  then show ?thesis using locator_loop_ok [OF assms(1-3), of p p 1 "m + 11" "[]"] assms(4) by (simp add: GetLocator_def anc_self)
qed

theorem GetLocator_bounds_witness:
  "\<exists>qs. GetLocator forked_ancestor forked_tree [Some 0, Some 1, Some 2, Some 3] (Some 1034) =
      Some (Inr (map (hash_of forked_tree) (1034 # qs))) \<and> back_path forked_tree (1034 # qs) \<and> length (1034 # qs) \<le> 21 + 0"
proof -
  have "phashBlock (forked_tree q) \<noteq> None" for q by (simp add: forked_tree_def)
  moreover have "nHeight (forked_tree 1034) < 2 ^ 10 + 10" by (simp add: forked_tree_def)
  ultimately show ?thesis using GetLocator_bounds [OF wf_forked_tree chain_ok_forked forked_ancestor_ok, of 1034 10] by simp
qed

section \<open>Validity levels\<close>

definition status_level :: "CBlockIndex \<Rightarrow> u32" where
  "status_level e = nStatus e AND BLOCK_VALID_MASK"

lemma valid_mask: "BLOCK_VALID_MASK = 7"
  by (simp add: BLOCK_VALID_MASK_def BLOCK_VALID_HEADER_def BLOCK_VALID_TREE_def BLOCK_VALID_TRANSACTIONS_def
    BLOCK_VALID_CHAIN_def BLOCK_VALID_SCRIPTS_def)

lemma level_update:
  fixes s n m :: u32
  assumes "n AND NOT m = 0"
  shows "((s AND NOT m) OR n) AND m = n" "((s AND NOT m) OR n) AND NOT m = s AND NOT m"
proof -
  have n: "bit m i" if "bit n i" for i
  proof -
    have "\<not> bit (n AND NOT m) i" using assms by simp
    then show ?thesis using that bit_imp_le_length [OF that] by (simp add: bit_simps)
  qed
  show "((s AND NOT m) OR n) AND m = n" "((s AND NOT m) OR n) AND NOT m = s AND NOT m"
    using n by (auto intro!: bit_word_eqI simp: bit_simps)
qed

lemma and_mask_and: "(s :: u32) AND NOT m = t AND NOT m \<Longrightarrow> f AND m = 0 \<Longrightarrow> s AND f = t AND f"
  by (auto simp: bit_eq_iff bit_simps dest: bit_imp_le_length)

lemma level_ok: "n \<le> BLOCK_VALID_SCRIPTS \<Longrightarrow> n AND NOT 7 = 0"
proof -
  assume "n \<le> BLOCK_VALID_SCRIPTS"
  then have "unat n \<in> {0, 1, 2, 3, 4, 5}" by (auto simp: BLOCK_VALID_SCRIPTS_def word_le_nat_alt)
  then have "n \<in> {0, 1, 2, 3, 4, 5}" by (auto simp: word_unat_eq_iff)
  then show "n AND NOT 7 = 0" by auto
qed

text \<open>C40. The validity level of an index entry only rises: any sequence of \<open>RaiseValidity\<close> calls with validity levels
  passes its assertions; the level of an entry that is not marked failed becomes the largest of its old level and
  the ones asked for, a failed entry keeps its level, and the data and failure bits are never touched; and
  \<open>IsValid\<close> then holds exactly up to that level of an entry that has not failed.\<close>
theorem RaiseValidity_max:
  assumes "list_all (\<lambda>n. n \<le> BLOCK_VALID_SCRIPTS) ns" "n \<le> BLOCK_VALID_SCRIPTS"
  shows "\<exists>e'. foldR (\<lambda>n e. bindR (RaiseValidity n e) (\<lambda>(_, e'). Inr e')) ns e = Inr e' \<and>
    status_level e' = (if nStatus e AND BLOCK_FAILED_MASK = 0 then fold max ns (status_level e) else status_level e) \<and>
    nStatus e' AND NOT BLOCK_VALID_MASK = nStatus e AND NOT BLOCK_VALID_MASK \<and>
    Index_IsValid e' n = Inr (nStatus e AND BLOCK_FAILED_MASK = 0 \<and> n \<le> status_level e')"
  using assms(1)
proof (induction ns arbitrary: e)
  case Nil
  have "n AND NOT 7 = 0" using level_ok [OF assms(2)] by (simp add: valid_mask)
  then show ?case using assms(2) by (simp add: Index_IsValid_def status_level_def valid_mask)
next
  case (Cons m ms)
  let ?r = "bindR (RaiseValidity m e) (\<lambda>(_, e'). Inr e')"
  have m: "m AND NOT BLOCK_VALID_MASK = 0" using level_ok Cons.prems by (simp add: valid_mask)
  obtain e1 where e1: "?r = Inr e1" "status_level e1 = (if nStatus e AND BLOCK_FAILED_MASK = 0 then max m (status_level e) else status_level e)"
    "nStatus e1 AND NOT BLOCK_VALID_MASK = nStatus e AND NOT BLOCK_VALID_MASK"
  proof (cases "nStatus e AND BLOCK_FAILED_MASK = 0 \<and> status_level e < m")
    case True
    then have "max m (status_level e) = m" by (auto simp: max_def)
    then show ?thesis using True m level_update [OF m, of "nStatus e"] that [of "e\<lparr>nStatus := (nStatus e AND NOT BLOCK_VALID_MASK) OR m\<rparr>"]
      by (simp add: RaiseValidity_def status_level_def)
  next
    case False
    then show ?thesis using m that [of e] by (auto simp: RaiseValidity_def status_level_def max_def not_less)
  qed
  have "nStatus e1 AND BLOCK_FAILED_MASK = nStatus e AND BLOCK_FAILED_MASK"
    by (rule and_mask_and [OF e1(3)]) (simp add: valid_mask BLOCK_FAILED_MASK_def BLOCK_FAILED_VALID_def BLOCK_FAILED_CHILD_def)
  then show ?case using Cons.IH [of e1] Cons.prems e1 by (auto simp: max.commute)
qed

theorem RaiseValidity_max_witness:
  "\<exists>e'. foldR (\<lambda>n e. bindR (RaiseValidity n e) (\<lambda>(_, e'). Inr e')) [1, 5, 3] (CBlockIndex_Null\<lparr>nStatus := 10\<rparr>) = Inr e' \<and>
    status_level e' = 5 \<and> Index_IsValid e' BLOCK_VALID_CHAIN = Inr True"
proof -
  have "list_all (\<lambda>n. n \<le> BLOCK_VALID_SCRIPTS) [1, 5, 3]" "BLOCK_VALID_CHAIN \<le> BLOCK_VALID_SCRIPTS"
    by (simp_all add: BLOCK_VALID_SCRIPTS_def BLOCK_VALID_CHAIN_def)
  from RaiseValidity_max [OF this, of "CBlockIndex_Null\<lparr>nStatus := 10\<rparr>"] show ?thesis
    by (auto simp: status_level_def valid_mask BLOCK_FAILED_MASK_def BLOCK_FAILED_VALID_def BLOCK_FAILED_CHILD_def BLOCK_VALID_CHAIN_def max_def)
qed

end
