(* ===== verification/Pow.thy ===== *)
theory Pow
  imports Chain "HOL-Library.Signed_Division"
begin

text \<open>
  Proof of work (\<open>pow.cpp\<close>): the difficulty of the next block, the check of a header's hash against its
  claimed target and the work a block stands for; and the miner's \<open>UpdateTime\<close> (\<open>miner.cpp\<close>).
  The chain parameters (\<open>chainparams.h\<close>) and the operations of \<open>uint256\<close> that its header in the tree does not
  have (\<open>SetCompact\<close>, \<open>GetCompact\<close>, \<open>*=\<close>, \<open>/=\<close>) are records of parameters. Signed division is C++'s,
  rounded towards zero.
\<close>

section \<open>Parameters\<close>

record CChainParams =
  ProofOfWorkLimit :: base_uint
  Interval :: int
  TargetSpacing :: int
  TargetTimespan :: int
  AllowMinDifficultyBlocks :: bool
  SkipProofOfWorkCheck :: bool

record uint256_ops =
  SetCompact :: "u32 \<Rightarrow> base_uint \<times> bool \<times> bool"
  GetCompact :: "base_uint \<Rightarrow> u32"
  umul :: "base_uint \<Rightarrow> base_uint \<Rightarrow> base_uint"
  udiv :: "base_uint \<Rightarrow> base_uint \<Rightarrow> base_uint"

section \<open>The next difficulty\<close>

text \<open>The testnet loop back to the last block that is not of minimal difficulty, and the walk to the first block of
  the interval.\<close>

partial_function (option) special_loop :: "CChainParams \<Rightarrow> block_index \<Rightarrow> u32 \<Rightarrow> nat \<Rightarrow> nat option" where
  "special_loop P h nProofOfWorkLimit pindex =
    (case pprev (h pindex) of
       None \<Rightarrow> Some pindex
     | Some q \<Rightarrow>
         if nHeight (h pindex) smod Interval P \<noteq> 0 \<and> bi_nBits (h pindex) = nProofOfWorkLimit
         then special_loop P h nProofOfWorkLimit q else Some pindex)"

fun walk_back :: "block_index \<Rightarrow> nat \<Rightarrow> nat option \<Rightarrow> nat option" where
  "walk_back h 0 p = p"
| "walk_back h (Suc n) None = None"
| "walk_back h (Suc n) (Some q) = walk_back h n (pprev (h q))"

definition GetNextWorkRequired :: "CChainParams \<Rightarrow> uint256_ops \<Rightarrow> block_index \<Rightarrow> nat option \<Rightarrow> CBlockHeader \<Rightarrow> u32 result option" where
  "GetNextWorkRequired P U h pindexLast pblock =
    (let nProofOfWorkLimit = GetCompact U (ProofOfWorkLimit P)
     in case pindexLast of
       None \<Rightarrow> Some (Inr nProofOfWorkLimit)
     | Some p \<Rightarrow>
         if (nHeight (h p) + 1) smod Interval P \<noteq> 0 then
           if AllowMinDifficultyBlocks P then
             if Header_GetBlockTime pblock > GetBlockTime (h p) + TargetSpacing P * 2 then Some (Inr nProofOfWorkLimit)
             else (case special_loop P h nProofOfWorkLimit p of
                     None \<Rightarrow> None
                   | Some q \<Rightarrow> Some (Inr (bi_nBits (h q))))
           else Some (Inr (bi_nBits (h p)))
         else
           (case walk_back h (nat (Interval P - 1)) (Some p) of
              None \<Rightarrow> Some (Inl AssertFailed)
            | Some pindexFirst \<Rightarrow>
                (let nActualTimespan = GetBlockTime (h p) - GetBlockTime (h pindexFirst);
                     nActualTimespan = (if nActualTimespan < TargetTimespan P sdiv 4 then TargetTimespan P sdiv 4 else nActualTimespan);
                     nActualTimespan = (if nActualTimespan > TargetTimespan P * 4 then TargetTimespan P * 4 else nActualTimespan);
                     bnNew = fst (SetCompact U (bi_nBits (h p)));
                     bnNew = umul U bnNew (set64 8 (word_of_int nActualTimespan));
                     bnNew = udiv U bnNew (set64 8 (word_of_int (TargetTimespan P)));
                     bnNew = (if ugt bnNew (ProofOfWorkLimit P) then ProofOfWorkLimit P else bnNew)
                 in Some (Inr (GetCompact U bnNew)))))"

section \<open>Checking and counting work\<close>

definition CheckProofOfWork :: "CChainParams \<Rightarrow> uint256_ops \<Rightarrow> base_uint \<Rightarrow> u32 \<Rightarrow> bool" where
  "CheckProofOfWork P U hash nBits =
    (if SkipProofOfWorkCheck P then True
     else (case SetCompact U nBits of (bnTarget, fNegative, fOverflow) \<Rightarrow>
       if fNegative \<or> ueq64 bnTarget 0 \<or> fOverflow \<or> ugt bnTarget (ProofOfWorkLimit P) then False
       else if ugt hash bnTarget then False
       else True))"

definition GetBlockProof :: "uint256_ops \<Rightarrow> CBlockIndex \<Rightarrow> base_uint" where
  "GetBlockProof U block =
    (case SetCompact U (bi_nBits block) of (bnTarget, fNegative, fOverflow) \<Rightarrow>
       if fNegative \<or> fOverflow \<or> ueq64 bnTarget 0 then set64 8 0
       else uadd64 (udiv U (ucompl bnTarget) (uadd64 bnTarget 1)) 1)"

section \<open>The time of a block being mined\<close>

text \<open>The time is narrowed from \<open>int64\<close> to \<open>unsigned int\<close>.\<close>

definition UpdateTime :: "CChainParams \<Rightarrow> uint256_ops \<Rightarrow> int \<Rightarrow> block_index \<Rightarrow> CBlockHeader \<Rightarrow> nat \<Rightarrow> CBlockHeader result option" where
  "UpdateTime P U adjusted_time h pblock pindexPrev =
    (let pblock = pblock\<lparr>bh_nTime := word_of_int (max (GetMedianTimePast h pindexPrev + 1) adjusted_time)\<rparr>
     in if AllowMinDifficultyBlocks P
        then (case GetNextWorkRequired P U h (Some pindexPrev) pblock of
                None \<Rightarrow> None
              | Some r \<Rightarrow> Some (bindR r (\<lambda>nBits. Inr (pblock\<lparr>bh_nBits := nBits\<rparr>))))
        else Some (Inr pblock))"

section \<open>Lemmas\<close>

text \<open>What the code relies on the missing operators for: the product when it fits, the quotient, and that all
  numbers have eight words.\<close>

definition ops_ok :: "uint256_ops \<Rightarrow> bool" where
  "ops_ok U = ((\<forall>n. length (fst (SetCompact U n)) = 8) \<and>
    (\<forall>a b. length a = 8 \<and> length b = 8 \<longrightarrow> length (umul U a b) = 8 \<and> length (udiv U a b) = 8 \<and>
       (uval a * uval b < 2 ^ 256 \<longrightarrow> uval (umul U a b) = uval a * uval b) \<and>
       (uval b \<noteq> 0 \<longrightarrow> uval (udiv U a b) = uval a div uval b)))"

lemma ops_okD:
  assumes "ops_ok U"
  shows "length (fst (SetCompact U n)) = 8"
    "length a = 8 \<Longrightarrow> length b = 8 \<Longrightarrow> length (umul U a b) = 8"
    "length a = 8 \<Longrightarrow> length b = 8 \<Longrightarrow> length (udiv U a b) = 8"
    "length a = 8 \<Longrightarrow> length b = 8 \<Longrightarrow> uval a * uval b < 2 ^ 256 \<Longrightarrow> uval (umul U a b) = uval a * uval b"
    "length a = 8 \<Longrightarrow> length b = 8 \<Longrightarrow> uval b \<noteq> 0 \<Longrightarrow> uval (udiv U a b) = uval a div uval b"
  using assms by (auto simp: ops_ok_def)

lemma walk_back_ok:
  assumes "wf_tree h"
  shows "int n \<le> nHeight (h p) \<Longrightarrow> \<exists>q. walk_back h n (Some p) = Some q \<and> nHeight (h q) = nHeight (h p) - int n"
proof (induction n arbitrary: p)
  case (Suc n)
  then obtain q where q: "pprev (h p) = Some q" using wf_treeD(2) [OF assms, of p] by auto
  then have "nHeight (h q) = nHeight (h p) - 1" using wf_treeD(3) [OF assms q] by simp
  then show ?case using Suc.IH [of q] Suc.prems q by auto
qed simp

lemma special_loop_returns:
  assumes "wf_tree h"
  shows "nHeight (h p) = int k \<Longrightarrow> \<exists>q. special_loop P h n p = Some q"
proof (induction k arbitrary: p)
  case 0
  then show ?case using wf_treeD(2) [OF assms, of p] by (subst special_loop.simps) simp
next
  case (Suc k)
  then obtain q where q: "pprev (h p) = Some q" using wf_treeD(2) [OF assms, of p] by auto
  then show ?case using Suc.IH [of q] Suc.prems wf_treeD(3) [OF assms q] by (subst special_loop.simps) auto
qed


lemma uval_set64:
  assumes "2 \<le> W"
  shows "uval (set64 W b) = unat b"
proof -
  have b: "unat b < 2 ^ 64" using unsigned_less [of b] by simp
  have lo: "unat (ucast b :: u32) = unat b mod 2 ^ 32" by (simp add: unsigned_ucast_eq take_bit_eq_mod)
  have "unat (drop_bit 32 b) = unat b div 2 ^ 32" using b by (simp add: drop_bit_eq_div unat_div_distrib)
  then have hi: "unat (ucast (drop_bit 32 b) :: u32) = unat b div 2 ^ 32"
    using b by (simp add: unsigned_ucast_eq take_bit_eq_mod div_less_iff_less_mult)
  have "uval (set64 W b) = unat b mod 2 ^ 32 + 2 ^ 32 * (unat b div 2 ^ 32)" by (simp add: set64_def lo hi)
  then show ?thesis by simp
qed

lemma ueq64_0:
  assumes "length a = 8"
  shows "ueq64 a 0 \<longleftrightarrow> uval a = 0"
proof -
  have "ueq64 a 0 \<longleftrightarrow> a = replicate 8 0"
    using assms by (auto simp: ueq64_def numeral_eq_Suc length_Suc_conv)
  also have "\<dots> \<longleftrightarrow> uval a = uval (replicate 8 0)" using uval_inject [of a "replicate 8 0"] assms by simp
  finally show ?thesis by simp
qed

lemma uval_8: "length a = 8 \<Longrightarrow> uval a < 2 ^ 256"
  using uval_bound [of a] by simp

lemma sdiv_nonneg: "0 \<le> a \<Longrightarrow> 0 < b \<Longrightarrow> (a :: int) sdiv b = a div b"
  by (simp add: signed_divide_int_def sgn_if)

lemma smod_nonneg: "0 \<le> a \<Longrightarrow> 0 < b \<Longrightarrow> (a :: int) smod b = a mod b"
  by (simp add: signed_modulo_int_def sgn_if)

section \<open>Work\<close>

text \<open>The quotient with the complement is the one by the modulus, rounded down.\<close>

lemma complement_div:
  assumes "(m :: nat) < M"
  shows "(M - 1 - m) div (m + 1) + 1 = M div (m + 1)"
proof -
  have "M = (M - 1 - m) + (m + 1)" using assms by simp
  then have "M div (m + 1) = ((M - 1 - m) + (m + 1)) div (m + 1)" by (rule arg_cong)
  also have "\<dots> = (M - 1 - m) div (m + 1) + 1" by (rule div_add_self2) simp
  finally show ?thesis ..
qed

lemma GetBlockProof_val:
  assumes "ops_ok U" "SetCompact U (bi_nBits b) = (t, False, False)" "uval t \<noteq> 0" "uval t + 1 < 2 ^ 256"
  shows "uval (GetBlockProof U b) = 2 ^ 256 div (uval t + 1)"
proof -
  have t: "length t = 8" using ops_okD(1) [OF assms(1), of "bi_nBits b"] assms(2) by simp
  have q1: "uval (uadd64 x 1) = (uval x + 1) mod 2 ^ 256" if "length x = 8" for x
    using that by (simp add: uadd64_def uval_uadd uval_set64)
  have s: "uval (uadd64 t 1) = uval t + 1" using q1 [OF t] assms(4) by simp
  have l: "length (ucompl t) = 8" "length (uadd64 t 1) = 8" using t by (simp_all add: uadd64_def)
  let ?d = "udiv U (ucompl t) (uadd64 t 1)"
  have d: "uval ?d = (2 ^ 256 - 1 - uval t) div (uval t + 1)" "length ?d = 8"
    using ops_okD(3,5) [OF assms(1) l] s t by (simp_all add: uval_ucompl)
  have q: "uval ?d + 1 = 2 ^ 256 div (uval t + 1)" unfolding d(1) using complement_div [OF uval_8 [OF t]] .
  have "(2 :: nat) ^ 256 div (uval t + 1) < 2 ^ 256" using assms(3) by (intro div_less_dividend) auto
  then have "uval (uadd64 ?d 1) = 2 ^ 256 div (uval t + 1)" using q1 [OF d(2)] q by simp
  then show ?thesis using assms(2,3) t by (simp add: GetBlockProof_def ueq64_0)
qed

text \<open>C31. The work credited for a block is what its hash proves: for a header that passes \<open>CheckProofOfWork\<close> on a network
  that checks it, \<open>GetBlockProof\<close> is exactly \<open>2^256\<close> divided by target + 1, never zero, and a
  hash is accepted for a block of work \<open>w\<close> only if it is below \<open>2^256 / w\<close>.\<close>
theorem work_of_checked_block:
  assumes "ops_ok U" "length (ProofOfWorkLimit P) = 8" "uval (ProofOfWorkLimit P) + 1 < 2 ^ 256" "\<not> SkipProofOfWorkCheck P"
    "length hash = 8" "CheckProofOfWork P U hash (bi_nBits b)"
  shows "uval (GetBlockProof U b) = 2 ^ 256 div (uval (fst (SetCompact U (bi_nBits b))) + 1) \<and> 0 < uval (GetBlockProof U b) \<and>
    (uval hash + 1) * uval (GetBlockProof U b) \<le> 2 ^ 256"
proof -
  obtain t neg ovf where t: "SetCompact U (bi_nBits b) = (t, neg, ovf)" by (cases "SetCompact U (bi_nBits b)")
  have l: "length t = 8" using ops_okD(1) [OF assms(1), of "bi_nBits b"] t by simp
  have c: "\<not> neg" "\<not> ovf" "uval t \<noteq> 0" "uval t \<le> uval (ProofOfWorkLimit P)" "uval hash \<le> uval t"
    using assms(2,4-6) t l comparisons_uval(3) [of t "ProofOfWorkLimit P"] comparisons_uval(3) [of hash t]
    by (auto simp: CheckProofOfWork_def ueq64_0 split: if_splits)
  have v: "uval (GetBlockProof U b) = 2 ^ 256 div (uval t + 1)"
    using GetBlockProof_val [OF assms(1) _ c(3)] t c(1,2,4) assms(3) by simp
  have "(uval hash + 1) * (2 ^ 256 div (uval t + 1)) \<le> (uval t + 1) * (2 ^ 256 div (uval t + 1))"
    using c(5) by (intro mult_le_mono1) simp
  also have "\<dots> \<le> 2 ^ 256" by (rule times_div_less_eq_dividend)
  finally have "(uval hash + 1) * (2 ^ 256 div (uval t + 1)) \<le> 2 ^ 256" .
  moreover have "0 < (2 :: nat) ^ 256 div (uval t + 1)" using c(4) assms(3) by (intro div_greater_zero_iff [THEN iffD2]) auto
  ultimately show ?thesis unfolding v using t by simp
qed

section \<open>Retargeting\<close>



text \<open>Operations for the examples: the compact form is the number itself.\<close>

definition of_nat256 :: "nat \<Rightarrow> base_uint" where
  "of_nat256 n = map (\<lambda>i. word_of_nat (n div 2 ^ (32 * i))) [0..<8]"

definition plain_ops :: uint256_ops where
  "plain_ops = \<lparr>SetCompact = \<lambda>n. (set64 8 (ucast n), False, False), GetCompact = \<lambda>a. a ! 0,
     umul = \<lambda>a b. of_nat256 (uval a * uval b), udiv = \<lambda>a b. of_nat256 (uval a div uval b)\<rparr>"

lemma uval_digits: "uval (map (\<lambda>i. word_of_nat (n div 2 ^ (32 * i)) :: u32) [0..<k]) = n mod 2 ^ (32 * k)"
proof (induction k)
  case (Suc k)
  have "unat (word_of_nat m :: u32) = m mod 2 ^ 32" for m by (simp add: unsigned_of_nat take_bit_eq_mod)
  then show ?case using Suc mod_mult2_eq [of n "2 ^ (32 * k)" "2 ^ 32"] by (simp add: uval_append power_add mult.commute)
qed simp

lemma uval_of_nat256: "n < 2 ^ 256 \<Longrightarrow> uval (of_nat256 n) = n"
  using uval_digits [of n 8] by (simp add: of_nat256_def)

lemma plain_ops_ok: "ops_ok plain_ops"
proof -
  have "uval a div uval b < 2 ^ 256" if "length a = 8" for a b
    using uval_8 [OF that] div_le_dividend [of "uval a" "uval b"] by linarith
  then show ?thesis by (simp add: ops_ok_def plain_ops_def uval_of_nat256) (simp add: of_nat256_def)
qed


definition plain_params :: CChainParams where
  "plain_params = \<lparr>ProofOfWorkLimit = set64 8 1000, Interval = 4, TargetSpacing = 100, TargetTimespan = 400,
     AllowMinDifficultyBlocks = False, SkipProofOfWorkCheck = False\<rparr>"

lemma uval_plain: "uval (set64 8 n) = unat n" "length (set64 8 n) = 8"
  by (simp_all add: uval_set64)

theorem work_of_checked_block_witness:
  "uval (GetBlockProof plain_ops (CBlockIndex_Null\<lparr>bi_nBits := 999\<rparr>)) = 2 ^ 256 div 1000"
proof -
  let ?b = "CBlockIndex_Null\<lparr>bi_nBits := 999\<rparr>"
  have "CheckProofOfWork plain_params plain_ops (set64 8 7) (bi_nBits ?b)"
    using comparisons_uval(3) [of "set64 8 999" "set64 8 1000"] comparisons_uval(3) [of "set64 8 7" "set64 8 999"]
    by (simp add: CheckProofOfWork_def plain_ops_def plain_params_def ueq64_0 uval_plain)
  then have "uval (GetBlockProof plain_ops ?b) = 2 ^ 256 div (uval (fst (SetCompact plain_ops (bi_nBits ?b))) + 1)"
    using work_of_checked_block [OF plain_ops_ok, of plain_params "set64 8 7" ?b] by (simp add: plain_params_def uval_plain)
  then show ?thesis by (simp add: plain_ops_def uval_plain)
qed


section \<open>Block times\<close>

lemma length_filter_mono: "(\<And>x. P x \<Longrightarrow> Q x) \<Longrightarrow> length (filter P xs) \<le> length (filter Q xs)"
  by (induction xs) (auto simp: le_Suc_eq)

text \<open>More than half of a sorted list is at or below its middle element.\<close>

lemma sorted_middle:
  fixes xs :: "int list"
  assumes "sorted xs" "xs \<noteq> []"
  shows "length xs div 2 < length (filter (\<lambda>x. x \<le> xs ! (length xs div 2)) xs)"
proof -
  let ?m = "length xs div 2"
  have m: "?m < length xs" using assms(2) by simp
  have "x \<le> xs ! ?m" if "x \<in> set (take (Suc ?m) xs)" for x
    using that assms(1) m by (auto simp: in_set_conv_nth sorted_iff_nth_mono)
  then have "filter (\<lambda>x. x \<le> xs ! ?m) (take (Suc ?m) xs) = take (Suc ?m) xs" by (simp add: filter_id_conv)
  moreover have "length (filter (\<lambda>x. x \<le> xs ! ?m) (take (Suc ?m) xs)) \<le> length (filter (\<lambda>x. x \<le> xs ! ?m) xs)"
    by (metis append_take_drop_id filter_append le_add1 length_append)
  ultimately show ?thesis using m by simp
qed

text \<open>A block being mined gets a time later than the median: when \<open>UpdateTime\<close> returns a header, its time is greater
  than that of more than half of the last eleven blocks, as long as the clock and the median fit in 32 bits;
  and it always returns one on a network without the testnet rule.\<close>
theorem UpdateTime_after_median:
  assumes "0 \<le> adjusted_time" "adjusted_time < 2 ^ 32" "GetMedianTimePast h p + 1 < 2 ^ 32"
  shows "(UpdateTime P U adjusted_time h b p = Some (Inr b') \<longrightarrow>
      length (past_times h 11 (Some p)) div 2 < length (filter (\<lambda>t. t < Header_GetBlockTime b') (past_times h 11 (Some p))) \<and>
      adjusted_time \<le> Header_GetBlockTime b') \<and>
    (\<not> AllowMinDifficultyBlocks P \<longrightarrow> (\<exists>b'. UpdateTime P U adjusted_time h b p = Some (Inr b')))"
proof (intro conjI impI)
  let ?ts = "past_times h 11 (Some p)" and ?t = "max (GetMedianTimePast h p + 1) adjusted_time"
  assume "UpdateTime P U adjusted_time h b p = Some (Inr b')"
  then have "bh_nTime b' = word_of_int ?t"
    by (auto simp: UpdateTime_def Let_def bindR_Inr_iff split: if_splits option.splits)
  moreover have "0 \<le> ?t" "?t < 2 ^ 32" using assms by (simp_all add: le_max_iff_disj)
  ultimately have t: "Header_GetBlockTime b' = ?t" by (simp only: Header_GetBlockTime_def unsigned_of_int take_bit_eq_mod) simp
  let ?s = "sort (rev ?ts)"
  have ne: "?s \<noteq> []" by (simp add: numeral_eq_Suc flip: length_greater_0_conv)
  have "length ?s div 2 < length (filter (\<lambda>x. x \<le> ?s ! (length ?s div 2)) ?s)" by (rule sorted_middle [OF _ ne]) simp
  also have "length (filter (\<lambda>x. x \<le> ?s ! (length ?s div 2)) ?s) = length (filter (\<lambda>x. x \<le> GetMedianTimePast h p) ?ts)"
    by (simp add: GetMedianTimePast_def Let_def filter_sort rev_filter [symmetric])
  also have "\<dots> \<le> length (filter (\<lambda>x. x < Header_GetBlockTime b') ?ts)"
    unfolding t by (intro length_filter_mono) auto
  finally show "length ?ts div 2 < length (filter (\<lambda>t. t < Header_GetBlockTime b') ?ts)" by simp
  show "adjusted_time \<le> Header_GetBlockTime b'" using t by simp
qed (simp add: UpdateTime_def Let_def)

theorem UpdateTime_after_median_witness:
  "\<exists>b'. UpdateTime plain_params plain_ops 1000 forked_tree CBlockHeader_Null 7 = Some (Inr b') \<and> 1000 \<le> Header_GetBlockTime b'"
proof -
  have "GetMedianTimePast forked_tree 7 + 1 < 2 ^ 32" by code_simp
  then show ?thesis using UpdateTime_after_median [of 1000 forked_tree 7 plain_params plain_ops CBlockHeader_Null]
    by (auto simp: plain_params_def)
qed

end
