(* ===== verification/Miner.thy ===== *)
theory Miner
  imports Pow
begin

text \<open>
  Block assembly (\<open>miner.cpp\<close>): the pass over the memory pool that sorts transactions into a priority queue
  and orphans waiting for their parents, the loop that fills the block under its limits, and the completion of
  the template. The memory pool is the list of its entries in key order; an orphan is a place of \<open>vOrphan\<close>, \<open>None\<close> once
  it is popped, so that following a pointer to it is the failure \<open>OutOfRange\<close>.
  The coins view, script checks, sizes, signature counts and subsidy are not in the tree: fields of an
  environment, with the arithmetic of \<open>double\<close> and the choice of \<open>std::pop_heap\<close> among equals.
\<close>

section \<open>The environment\<close>

type_synonym 'd prio_entry = "'d \<times> 'd \<times> CTransaction"

record ('v, 'd) miner_env =
  tx_hash :: "CTransaction \<Rightarrow> base_uint"
  tx_size :: "CTransaction \<Rightarrow> u32"
  legacy_sigops :: "CTransaction \<Rightarrow> u32"
  p2sh_sigops :: "'v \<Rightarrow> CTransaction \<Rightarrow> u32"
  have_coins :: "'v \<Rightarrow> base_uint \<Rightarrow> bool"
  coins_value :: "'v \<Rightarrow> COutPoint \<Rightarrow> int"
  coins_height :: "'v \<Rightarrow> base_uint \<Rightarrow> int"
  have_inputs :: "'v \<Rightarrow> CTransaction \<Rightarrow> bool"
  value_in :: "'v \<Rightarrow> CTransaction \<Rightarrow> int"
  check_inputs :: "'v \<Rightarrow> CTransaction \<Rightarrow> bool"
  update_coins :: "'v \<Rightarrow> CTransaction \<Rightarrow> int \<Rightarrow> 'v"
  money_range :: "int \<Rightarrow> bool"
  is_final :: "CTransaction \<Rightarrow> bool"
  pick :: "('d prio_entry \<Rightarrow> 'd prio_entry \<Rightarrow> bool) \<Rightarrow> 'd prio_entry list \<Rightarrow> nat"
  d_zero :: 'd
  d_add_mul :: "'d \<Rightarrow> int \<Rightarrow> int \<Rightarrow> 'd"
  d_div :: "'d \<Rightarrow> u32 \<Rightarrow> 'd"
  d_fee :: "int \<Rightarrow> u32 \<Rightarrow> 'd"
  d_less :: "'d \<Rightarrow> 'd \<Rightarrow> bool"
  d_eq :: "'d \<Rightarrow> 'd \<Rightarrow> bool"
  min_tx_fee :: 'd
  free_priority :: 'd
  fDebug :: bool
  max_block_sigops :: u32

record miner_limits =
  nBlockMaxSize :: u32
  nBlockPrioritySize :: u32
  nBlockMinSize :: u32

section \<open>The priority queue\<close>

record 'd COrphan =
  ptx :: CTransaction
  setDependsOn :: "base_uint set"
  or_dPriority :: 'd
  or_dFeePerKb :: 'd

definition COrphan_Init :: "('v, 'd) miner_env \<Rightarrow> CTransaction \<Rightarrow> 'd COrphan" where
  "COrphan_Init E ptxIn = \<lparr>ptx = ptxIn, setDependsOn = {}, or_dPriority = d_zero E, or_dFeePerKb = d_zero E\<rparr>"

definition TxPriorityCompare :: "('v, 'd) miner_env \<Rightarrow> bool \<Rightarrow> 'd prio_entry \<Rightarrow> 'd prio_entry \<Rightarrow> bool" where
  "TxPriorityCompare E byFee a b =
    (if byFee then
       (if d_eq E (fst (snd a)) (fst (snd b)) then d_less E (fst a) (fst b) else d_less E (fst (snd a)) (fst (snd b)))
     else
       (if d_eq E (fst a) (fst b) then d_less E (fst (snd a)) (fst (snd b)) else d_less E (fst a) (fst b)))"

section \<open>Reading the memory pool\<close>

type_synonym mempool = "(base_uint \<times> CTransaction) list"

record 'd gather =
  vOrphan :: "'d COrphan option list"
  mapDependers :: "base_uint \<Rightarrow> nat list"
  vecPriority :: "'d prio_entry list"

definition new_orphan :: "('v, 'd) miner_env \<Rightarrow> CTransaction \<Rightarrow> 'd gather \<Rightarrow> nat option \<Rightarrow> 'd gather \<times> nat" where
  "new_orphan E tx g porphan =
    (case porphan of
       Some p \<Rightarrow> (g, p)
     | None \<Rightarrow> (g\<lparr>vOrphan := vOrphan g @ [Some (COrphan_Init E tx)]\<rparr>, length (vOrphan g)))"

definition wait_for :: "base_uint \<Rightarrow> nat \<Rightarrow> 'd gather \<Rightarrow> 'd gather" where
  "wait_for hash p g = g\<lparr>mapDependers := (mapDependers g)(hash := mapDependers g hash @ [p]),
     vOrphan := (vOrphan g)[p := map_option (\<lambda>r. r\<lparr>setDependsOn := insert hash (setDependsOn r)\<rparr>) (vOrphan g ! p)]\<rparr>"

fun gather_inputs :: "('v, 'd) miner_env \<Rightarrow> 'v \<Rightarrow> mempool \<Rightarrow> int \<Rightarrow> CTransaction \<Rightarrow> CTxIn list \<Rightarrow> 'd gather \<Rightarrow> nat option \<Rightarrow> 'd \<Rightarrow> int \<Rightarrow>
    ('d gather \<times> nat option \<times> 'd \<times> int \<times> bool) result" where
  "gather_inputs E view pool nPrevHeight tx [] g porphan dPriority nTotalIn = Inr (g, porphan, dPriority, nTotalIn, False)"
| "gather_inputs E view pool nPrevHeight tx (txin # rest) g porphan dPriority nTotalIn =
    (let hash = op_hash (prevout txin)
     in if \<not> have_coins E view hash then
          (case map_of pool hash of
             None \<Rightarrow>
               if fDebug E then Inl AssertFailed
               else Inr ((case porphan of None \<Rightarrow> g | Some p \<Rightarrow> g\<lparr>vOrphan := (vOrphan g)[p := None]\<rparr>), porphan, dPriority, nTotalIn, True)
           | Some txPrev \<Rightarrow>
               (let (g, p) = new_orphan E tx g porphan;
                    g = wait_for hash p g;
                    n = unat (op_n (prevout txin))
                in if n < length (vout txPrev)
                   then gather_inputs E view pool nPrevHeight tx rest g (Some p) dPriority (nTotalIn + nValue (vout txPrev ! n))
                   else Inl OutOfRange))
        else
          (let nValueIn = coins_value E view (prevout txin);
               nConf = nPrevHeight - coins_height E view hash + 1
           in gather_inputs E view pool nPrevHeight tx rest g porphan (d_add_mul E dPriority nValueIn nConf) (nTotalIn + nValueIn)))"

definition gather_tx :: "('v, 'd) miner_env \<Rightarrow> 'v \<Rightarrow> mempool \<Rightarrow> int \<Rightarrow> CTransaction \<Rightarrow> 'd gather \<Rightarrow> 'd gather result" where
  "gather_tx E view pool nPrevHeight tx g =
    (if IsCoinBase tx \<or> \<not> is_final E tx then Inr g
     else bindR (gather_inputs E view pool nPrevHeight tx (vin tx) g None (d_zero E) 0)
       (\<lambda>(g, porphan, dPriority, nTotalIn, fMissingInputs).
          if fMissingInputs then Inr g
          else
            (let dPriority = d_div E dPriority (tx_size E tx)
             in bindR (GetValueOut (money_range E) tx) (\<lambda>nValueOut.
                  let dFeePerKb = d_fee E (nTotalIn - nValueOut) (tx_size E tx)
                  in case porphan of
                       Some p \<Rightarrow> Inr (g\<lparr>vOrphan := (vOrphan g)[p :=
                         map_option (\<lambda>r. r\<lparr>or_dPriority := dPriority, or_dFeePerKb := dFeePerKb\<rparr>) (vOrphan g ! p)]\<rparr>)
                     | None \<Rightarrow> Inr (g\<lparr>vecPriority := vecPriority g @ [(dPriority, dFeePerKb, tx)]\<rparr>)))))"

fun gather_pool :: "('v, 'd) miner_env \<Rightarrow> 'v \<Rightarrow> mempool \<Rightarrow> int \<Rightarrow> mempool \<Rightarrow> 'd gather \<Rightarrow> 'd gather result" where
  "gather_pool E view pool nPrevHeight [] g = Inr g"
| "gather_pool E view pool nPrevHeight ((_, tx) # rest) g =
    bindR (gather_tx E view pool nPrevHeight tx g) (gather_pool E view pool nPrevHeight rest)"

section \<open>Filling the block\<close>

record ('v, 'd) assembly =
  q_orphans :: "'d COrphan option list"
  q_dependers :: "base_uint \<Rightarrow> nat list"
  q_vec :: "'d prio_entry list"
  fSortedByFee :: bool
  as_view :: 'v
  as_txs :: "CTransaction list"
  as_fees :: "int list"
  as_sigops :: "u32 list"
  nBlockSize :: u64
  nBlockTx :: u64
  nBlockSigOps :: u32
  nFees :: int

definition orphan_at :: "'d COrphan option list \<Rightarrow> nat \<Rightarrow> 'd COrphan option" where
  "orphan_at orphans p = (if p < length orphans then orphans ! p else None)"

fun wake_orphans :: "base_uint \<Rightarrow> nat list \<Rightarrow> ('v, 'd) assembly \<Rightarrow> ('v, 'd) assembly result" where
  "wake_orphans hash [] s = Inr s"
| "wake_orphans hash (p # ps) s =
    (case orphan_at (q_orphans s) p of
       None \<Rightarrow> Inl OutOfRange
     | Some r \<Rightarrow>
         if setDependsOn r \<noteq> {} then
           (let r = r\<lparr>setDependsOn := setDependsOn r - {hash}\<rparr>;
                s = s\<lparr>q_orphans := (q_orphans s)[p := Some r]\<rparr>
            in wake_orphans hash ps
                 (if setDependsOn r = {} then s\<lparr>q_vec := q_vec s @ [(or_dPriority r, or_dFeePerKb r, ptx r)]\<rparr> else s))
         else wake_orphans hash ps s)"

definition add_tx :: "('v, 'd) miner_env \<Rightarrow> int \<Rightarrow> CTransaction \<Rightarrow> u32 \<Rightarrow> int \<Rightarrow> ('v, 'd) assembly \<Rightarrow> ('v, 'd) assembly result" where
  "add_tx E nPrevHeight tx nTxSigOps nTxFees s =
    (let hash = tx_hash E tx;
         s = s\<lparr>as_view := update_coins E (as_view s) tx (nPrevHeight + 1), as_txs := as_txs s @ [tx], as_fees := as_fees s @ [nTxFees],
           as_sigops := as_sigops s @ [nTxSigOps], nBlockSize := nBlockSize s + ucast (tx_size E tx), nBlockTx := nBlockTx s + 1,
           nBlockSigOps := nBlockSigOps s + nTxSigOps, nFees := nFees s + nTxFees\<rparr>
     in wake_orphans hash (q_dependers s hash) s)"

text \<open>One round of the loop; the places where the code continues with the next round return the state.\<close>

definition assemble_step :: "('v, 'd) miner_env \<Rightarrow> miner_limits \<Rightarrow> int \<Rightarrow> ('v, 'd) assembly \<Rightarrow> ('v, 'd) assembly result" where
  "assemble_step E L nPrevHeight s =
    (let i = pick E (TxPriorityCompare E (fSortedByFee s)) (q_vec s)
     in if \<not> i < length (q_vec s) then Inl OutOfRange
     else
       (let (dPriority, dFeePerKb, tx) = q_vec s ! i;
            s = s\<lparr>q_vec := take i (q_vec s) @ drop (Suc i) (q_vec s)\<rparr>;
            nNewSize = nBlockSize s + ucast (tx_size E tx);
            nTxSigOps = legacy_sigops E tx
        in if nNewSize \<ge> ucast (nBlockMaxSize L) then Inr s
        else if nBlockSigOps s + nTxSigOps \<ge> max_block_sigops E then Inr s
        else if fSortedByFee s \<and> d_less E dFeePerKb (min_tx_fee E) \<and> nNewSize \<ge> ucast (nBlockMinSize L) then Inr s
        else
          (let s = s\<lparr>fSortedByFee :=
                 if \<not> fSortedByFee s \<and> (nNewSize \<ge> ucast (nBlockPrioritySize L) \<or> d_less E dPriority (free_priority E))
                 then True else fSortedByFee s\<rparr>
           in if \<not> have_inputs E (as_view s) tx then Inr s
           else bindR (GetValueOut (money_range E) tx) (\<lambda>nValueOut.
             let nTxFees = value_in E (as_view s) tx - nValueOut;
                 nTxSigOps = nTxSigOps + p2sh_sigops E (as_view s) tx
             in if nBlockSigOps s + nTxSigOps \<ge> max_block_sigops E then Inr s
             else if \<not> check_inputs E (as_view s) tx then Inr s
             else add_tx E nPrevHeight tx nTxSigOps nTxFees s))))"

definition waiting :: "'d COrphan option \<Rightarrow> bool" where
  "waiting p = (case p of None \<Rightarrow> False | Some r \<Rightarrow> setDependsOn r \<noteq> {})"

text \<open>Each round takes an entry from the queue, and an orphan enters it once.\<close>

definition rounds_left :: "('v, 'd) assembly \<Rightarrow> nat" where
  "rounds_left s = length (q_vec s) + length (filter waiting (q_orphans s))"

lemma filter_update_lt:
  "p < length xs \<Longrightarrow> waiting (xs ! p) \<Longrightarrow> \<not> waiting y \<Longrightarrow> Suc (length (filter waiting (xs[p := y]))) = length (filter waiting xs)"
  by (induction xs arbitrary: p) (auto split: nat.splits)

lemma filter_update_eq:
  "waiting (xs ! p) \<Longrightarrow> waiting y \<Longrightarrow> length (filter waiting (xs[p := y])) = length (filter waiting xs)"
  by (induction xs arbitrary: p) (auto split: nat.splits)

lemma orphan_at_Some: "orphan_at xs p = Some r \<longleftrightarrow> p < length xs \<and> xs ! p = Some r"
  by (simp add: orphan_at_def)

lemma wake_orphans_rounds: "wake_orphans hash ps s = Inr s' \<Longrightarrow> rounds_left s' \<le> rounds_left s"
proof (induction hash ps s rule: wake_orphans.induct)
  case (2 hash p ps s)
  obtain r where r: "orphan_at (q_orphans s) p = Some r" using "2.prems" by (auto split: option.splits)
  then have p: "p < length (q_orphans s)" "q_orphans s ! p = Some r" by (simp_all add: orphan_at_Some)
  show ?case
  proof (cases "setDependsOn r = {}")
    case True
    then show ?thesis using "2.IH"(2) [OF r] "2.prems" r by simp
  next
    case False
    let ?r = "r\<lparr>setDependsOn := setDependsOn r - {hash}\<rparr>"
    let ?s = "s\<lparr>q_orphans := (q_orphans s)[p := Some ?r]\<rparr>"
    let ?t = "if setDependsOn ?r = {} then ?s\<lparr>q_vec := q_vec ?s @ [(or_dPriority ?r, or_dFeePerKb ?r, ptx ?r)]\<rparr> else ?s"
    have "rounds_left s' \<le> rounds_left ?t" using "2.IH"(1) [OF r False refl refl] "2.prems" r False by (simp add: Let_def)
    also have "rounds_left ?t = rounds_left s"
      using p False filter_update_lt [of p "q_orphans s" "Some ?r"] filter_update_eq [of "q_orphans s" p "Some ?r"]
      by (auto simp: rounds_left_def waiting_def)
    finally show ?thesis .
  qed
qed simp

lemma cascade_cases:
  assumes "(if c1 then x else if c2 then x else if c3 then x else if c4 then y
    else bindR g (\<lambda>v. if d then y else if e then y else z v)) = Inr r"
  obtains "x = Inr r" | "y = Inr r" | v where "\<not> c1" "\<not> c4" "\<not> d" "\<not> e" "z v = Inr r"
  using assms by (auto simp: bindR_Inr_iff split: if_splits)

lemma cascade_total:
  assumes "g = Inr v" "\<exists>s'. x = Inr s' \<and> Q s'" "\<exists>s'. y = Inr s' \<and> Q s'" "\<exists>s'. z v = Inr s' \<and> Q s'"
  shows "\<exists>s'. (if c1 then x else if c2 then x else if c3 then x else if c4 then y
    else bindR g (\<lambda>v. if d then y else if e then y else z v)) = Inr s' \<and> Q s'"
  using assms by simp

text \<open>One round, with the entry it takes and the order flag it leaves.\<close>

definition step_cascade :: "('v, 'd) miner_env \<Rightarrow> miner_limits \<Rightarrow> int \<Rightarrow> ('v, 'd) assembly \<Rightarrow> nat \<Rightarrow> 'd \<Rightarrow> CTransaction \<Rightarrow> bool \<Rightarrow>
    ('v, 'd) assembly result" where
  "step_cascade E L ht s i b tx f =
    (let u = (\<lambda>f. s\<lparr>q_vec := take i (q_vec s) @ drop (Suc i) (q_vec s), fSortedByFee := f\<rparr>)
     in if nBlockSize s + ucast (tx_size E tx) \<ge> ucast (nBlockMaxSize L) then Inr (u (fSortedByFee s))
     else if nBlockSigOps s + legacy_sigops E tx \<ge> max_block_sigops E then Inr (u (fSortedByFee s))
     else if fSortedByFee s \<and> d_less E b (min_tx_fee E) \<and> nBlockSize s + ucast (tx_size E tx) \<ge> ucast (nBlockMinSize L)
     then Inr (u (fSortedByFee s))
     else if \<not> have_inputs E (as_view s) tx then Inr (u f)
     else bindR (GetValueOut (money_range E) tx) (\<lambda>nValueOut.
       if nBlockSigOps s + (legacy_sigops E tx + p2sh_sigops E (as_view s) tx) \<ge> max_block_sigops E then Inr (u f)
       else if \<not> check_inputs E (as_view s) tx then Inr (u f)
       else add_tx E ht tx (legacy_sigops E tx + p2sh_sigops E (as_view s) tx) (value_in E (as_view s) tx - nValueOut) (u f)))"

lemma assemble_step_eq:
  assumes "i = pick E (TxPriorityCompare E (fSortedByFee s)) (q_vec s)" "i < length (q_vec s)" "q_vec s ! i = (a, b, tx)"
  shows "\<exists>f. assemble_step E L ht s = step_cascade E L ht s i b tx f"
proof -
  let ?Q = "nBlockSize s + ucast (tx_size E tx) \<ge> ucast (nBlockPrioritySize L) \<or> d_less E a (free_priority E)"
  define f where "f = (if \<not> fSortedByFee s \<and> ?Q then True else fSortedByFee s)"
  have "s\<lparr>q_vec := xs\<rparr> = s\<lparr>q_vec := xs, fSortedByFee := fSortedByFee s\<rparr>" for xs by simp
  then have "assemble_step E L ht s = step_cascade E L ht s i b tx f"
    unfolding assemble_step_def step_cascade_def assms(1) [symmetric] using assms(2,3)
    by (simp add: Let_def f_def cong: if_cong)
  then show ?thesis ..
qed

text \<open>What one round does: it drops the entry it took, or adds its transaction after all checks.\<close>

lemma assemble_step_cases:
  assumes "assemble_step E L ht s = Inr s'"
  obtains (dropped) i f where "i < length (q_vec s)" "s' = s\<lparr>q_vec := take i (q_vec s) @ drop (Suc i) (q_vec s), fSortedByFee := f\<rparr>"
  | (added) i f a b tx n fees where "i < length (q_vec s)" "q_vec s ! i = (a, b, tx)"
      "add_tx E ht tx n fees (s\<lparr>q_vec := take i (q_vec s) @ drop (Suc i) (q_vec s), fSortedByFee := f\<rparr>) = Inr s'"
      "nBlockSize s + ucast (tx_size E tx) < ucast (nBlockMaxSize L)" "nBlockSigOps s + n < max_block_sigops E"
      "have_inputs E (as_view s) tx" "check_inputs E (as_view s) tx"
proof -
  define i where "i = pick E (TxPriorityCompare E (fSortedByFee s)) (q_vec s)"
  have i: "i < length (q_vec s)" by (rule ccontr) (use assms in \<open>simp add: assemble_step_def Let_def flip: i_def\<close>)
  obtain a b tx where e: "q_vec s ! i = (a, b, tx)" by (cases "q_vec s ! i")
  obtain f where "assemble_step E L ht s = step_cascade E L ht s i b tx f" using assemble_step_eq [OF i_def i e] by blast
  with assms have "step_cascade E L ht s i b tx f = Inr s'" by simp
  then show thesis
    unfolding step_cascade_def Let_def
  proof (cases rule: cascade_cases)
    case 1
    then show thesis using i by (intro dropped [of i "fSortedByFee s"]) auto
  next
    case 2
    then show thesis using i by (intro dropped [of i f]) auto
  next
    case (3 v)
    show thesis by (rule added [OF i e 3(5)]) (use 3 in \<open>simp_all add: not_le\<close>)
  qed
qed

lemma assemble_step_rounds:
  assumes "assemble_step E L ht s = Inr s'"
  shows "rounds_left s' < rounds_left s"
  using assms
proof (cases rule: assemble_step_cases)
  case (dropped i f)
  then show ?thesis by (simp add: rounds_left_def)
next
  case (added i f a b tx n fees)
  then show ?thesis by (auto simp: add_tx_def Let_def rounds_left_def dest!: wake_orphans_rounds)
qed

function assemble :: "('v, 'd) miner_env \<Rightarrow> miner_limits \<Rightarrow> int \<Rightarrow> ('v, 'd) assembly \<Rightarrow> ('v, 'd) assembly result" where
  "assemble E L nPrevHeight s =
    (if q_vec s = [] then Inr s
     else (case assemble_step E L nPrevHeight s of
             Inl e \<Rightarrow> Inl e
           | Inr s' \<Rightarrow> assemble E L nPrevHeight s'))"
  by auto
termination
  by (relation "measure (\<lambda>(_, _, _, s). rounds_left s)") (auto dest: assemble_step_rounds)

declare assemble.simps [simp del]

section \<open>The block template\<close>

record miner_args =
  arg_blockversion :: "int option"
  arg_blockmaxsize :: int
  arg_blockprioritysize :: int
  arg_blockminsize :: int
  MAX_BLOCK_SIZE :: u32
  MAX_BLOCK_SIZE_GEN :: u32
  adjusted_time :: int

text \<open>The sizes of the arguments, narrowed to \<open>unsigned int\<close> and clamped.\<close>

definition block_limits :: "miner_args \<Rightarrow> miner_limits" where
  "block_limits A =
    (let maxsize = max 1000 (min (MAX_BLOCK_SIZE A - 1000) (word_of_int (arg_blockmaxsize A)));
         maxsize = (if adjusted_time A < 1368576000 then min maxsize (MAX_BLOCK_SIZE_GEN A) else maxsize)
     in \<lparr>nBlockMaxSize = maxsize, nBlockPrioritySize = min maxsize (word_of_int (arg_blockprioritysize A)),
         nBlockMinSize = min maxsize (word_of_int (arg_blockminsize A))\<rparr>)"

record CBlockTemplate =
  block :: CBlock
  vTxFees :: "int list"
  vTxSigOps :: "int list"

record 'v miner_calls =
  GetBlockValue :: "int \<Rightarrow> int \<Rightarrow> int"
  ConnectBlock :: "CBlock \<Rightarrow> 'v \<Rightarrow> bool"

definition set_header :: "CBlockHeader \<Rightarrow> CBlock \<Rightarrow> CBlock" where
  "set_header hdr b = CBlockHeader.extend hdr \<lparr>vtx = vtx b, vMerkleTree = vMerkleTree b\<rparr>"

definition start_assembly :: "'v \<Rightarrow> miner_limits \<Rightarrow> 'd gather \<Rightarrow> ('v, 'd) assembly" where
  "start_assembly view L g = \<lparr>q_orphans = vOrphan g, q_dependers = mapDependers g, q_vec = vecPriority g,
     fSortedByFee = (nBlockPrioritySize L \<le> 0), as_view = view, as_txs = [], as_fees = [], as_sigops = [],
     nBlockSize = 1000, nBlockTx = 0, nBlockSigOps = 100, nFees = 0\<rparr>"

definition finish_template :: "CChainParams \<Rightarrow> uint256_ops \<Rightarrow> ('v, 'd) miner_env \<Rightarrow> 'v miner_calls \<Rightarrow> miner_args \<Rightarrow> block_index \<Rightarrow> nat \<Rightarrow>
    'v \<Rightarrow> CBlock \<Rightarrow> ('v, 'd) assembly \<Rightarrow> CBlockTemplate result option" where
  "finish_template P U E C A h pindexPrev view pblock s =
    (let vtx0 = vtx pblock ! 0
     in if \<not> 0 < length (vout vtx0) then Some (Inl OutOfRange)
     else
       (let vtx0 = vtx0\<lparr>vout := (vout vtx0)[0 := (vout vtx0 ! 0)\<lparr>nValue := GetBlockValue C (nHeight (h pindexPrev) + 1) (nFees s)\<rparr>]\<rparr>
        in case GetBlockHash (h pindexPrev) of
          Inl e \<Rightarrow> Some (Inl e)
        | Inr hash \<Rightarrow>
            (case UpdateTime P U (adjusted_time A) h (GetBlockHeader (pblock\<lparr>hashPrevBlock := hash\<rparr>)) pindexPrev of
               None \<Rightarrow> None
             | Some (Inl e) \<Rightarrow> Some (Inl e)
             | Some (Inr hdr) \<Rightarrow>
                 (case GetNextWorkRequired P U h (Some pindexPrev) hdr of
                    None \<Rightarrow> None
                  | Some (Inl e) \<Rightarrow> Some (Inl e)
                  | Some (Inr nBits) \<Rightarrow>
                      if \<not> 0 < length (vin vtx0) then Some (Inl OutOfRange)
                      else
                        (let vtx0 = vtx0\<lparr>vin := (vin vtx0)[0 := (vin vtx0 ! 0)\<lparr>scriptSig := [0, 0]\<rparr>]\<rparr>;
                             pblock = set_header (hdr\<lparr>bh_nBits := nBits, bh_nNonce := 0\<rparr>) (pblock\<lparr>vtx := (vtx pblock)[0 := vtx0]\<rparr>)
                         in if \<not> ConnectBlock C pblock view
                            then Some (Inl (Thrown ''CreateNewBlock() : ConnectBlock failed''))
                            else Some (Inr \<lparr>block = pblock, vTxFees = (- nFees s) # as_fees s,
                              vTxSigOps = uint (legacy_sigops E vtx0) # map uint (as_sigops s)\<rparr>))))))"

definition CreateNewBlock :: "CChainParams \<Rightarrow> uint256_ops \<Rightarrow> ('v, 'd) miner_env \<Rightarrow> 'v miner_calls \<Rightarrow> miner_args \<Rightarrow> block_index \<Rightarrow> nat \<Rightarrow>
    'v \<Rightarrow> mempool \<Rightarrow> bytes \<Rightarrow> CBlockTemplate result option" where
  "CreateNewBlock P U E C A h pindexPrev pcoinsTip pool scriptPubKeyIn =
    (let pblock = (case arg_blockversion A of None \<Rightarrow> CBlock_Null | Some n \<Rightarrow> CBlock_Null\<lparr>bh_nVersion := n\<rparr>);
         txNew = CTransaction_Null\<lparr>vin := [CTxIn_Init\<lparr>prevout := COutPoint_Null\<rparr>], vout := [CTxOut_Null\<lparr>scriptPubKey := scriptPubKeyIn\<rparr>]\<rparr>;
         L = block_limits A;
         nPrevHeight = nHeight (h pindexPrev)
     in case gather_pool E pcoinsTip pool nPrevHeight pool \<lparr>vOrphan = [], mapDependers = (\<lambda>_. []), vecPriority = []\<rparr> of
          Inl e \<Rightarrow> Some (Inl e)
        | Inr g \<Rightarrow>
            (case assemble E L nPrevHeight (start_assembly pcoinsTip L g) of
               Inl e \<Rightarrow> Some (Inl e)
             | Inr s \<Rightarrow> finish_template P U E C A h pindexPrev pcoinsTip (pblock\<lparr>vtx := CTransaction_Null # as_txs s\<rparr>) s))"


section \<open>What the block holds\<close>

text \<open>The transactions connect one after the other, each on the coins left by the ones before.\<close>

fun connects :: "('v, 'd) miner_env \<Rightarrow> int \<Rightarrow> 'v \<Rightarrow> CTransaction list \<Rightarrow> bool" where
  "connects E ht v [] = True"
| "connects E ht v (tx # txs) = (have_inputs E v tx \<and> check_inputs E v tx \<and> connects E ht (update_coins E v tx (ht + 1)) txs)"

definition view_after :: "('v, 'd) miner_env \<Rightarrow> int \<Rightarrow> 'v \<Rightarrow> CTransaction list \<Rightarrow> 'v" where
  "view_after E ht v txs = fold (\<lambda>tx v. update_coins E v tx (ht + 1)) txs v"

lemma connects_snoc: "connects E ht v (txs @ [tx]) \<longleftrightarrow>
    connects E ht v txs \<and> have_inputs E (view_after E ht v txs) tx \<and> check_inputs E (view_after E ht v txs) tx"
  by (induction txs arbitrary: v) (auto simp: view_after_def)

definition assembly_ok :: "('v, 'd) miner_env \<Rightarrow> miner_limits \<Rightarrow> int \<Rightarrow> 'v \<Rightarrow> ('v, 'd) assembly \<Rightarrow> bool" where
  "assembly_ok E L ht v s \<longleftrightarrow> connects E ht v (as_txs s) \<and> as_view s = view_after E ht v (as_txs s) \<and>
    unat (nBlockSize s) = 1000 + (\<Sum>tx\<leftarrow>as_txs s. unat (tx_size E tx)) \<and> nBlockSigOps s = 100 + sum_list (as_sigops s) \<and>
    nFees s = sum_list (as_fees s) \<and> length (as_fees s) = length (as_txs s) \<and> length (as_sigops s) = length (as_txs s) \<and>
    (as_txs s \<noteq> [] \<longrightarrow> unat (nBlockSize s) < unat (nBlockMaxSize L) \<and> nBlockSigOps s < max_block_sigops E)"

text \<open>Everything but the queue, the orphans and the order flag.\<close>

definition unqueued :: "('v, 'd) assembly \<Rightarrow> ('v, 'd) assembly" where
  "unqueued s = s\<lparr>q_orphans := [], q_vec := [], fSortedByFee := False\<rparr>"

lemma unqueued_update [simp]:
  "unqueued (s\<lparr>q_orphans := orphans\<rparr>) = unqueued s" "unqueued (s\<lparr>q_vec := v\<rparr>) = unqueued s"
  "unqueued (s\<lparr>fSortedByFee := f\<rparr>) = unqueued s"
  by (simp_all add: unqueued_def)

lemma wake_orphans_frame: "wake_orphans hash ps s = Inr s' \<Longrightarrow> unqueued s' = unqueued s"
  by (induction hash ps s rule: wake_orphans.induct) (auto simp: Let_def split: option.splits if_splits)

lemma assembly_ok_unqueued:
  assumes "assembly_ok E L ht v s" "unqueued s' = unqueued s"
  shows "assembly_ok E L ht v s'"
proof -
  have u: "assembly_ok E L ht v t = assembly_ok E L ht v (unqueued t)" for t by (simp add: assembly_ok_def unqueued_def)
  show ?thesis using assms(1) unfolding u [of s] u [of s'] assms(2) .
qed

lemma unat_ucast_32_64: "unat (ucast (x :: u32) :: u64) = unat x"
  by (rule unat_ucast_u64)

lemma size_add:
  assumes "unat (m :: u64) < 2 ^ 32" "m + ucast (n :: u32) < ucast (k :: u32)"
  shows "unat (m + ucast n) = unat m + unat n" "unat m + unat n < unat k"
proof -
  have "unat m + unat n < 2 ^ 64" using assms(1) unat_u32_bound [of n] by simp
  then show s: "unat (m + ucast n) = unat m + unat n" by (simp add: unat_word_ariths unat_ucast_32_64)
  show "unat m + unat n < unat k" using assms(2) unfolding word_less_nat_alt s unat_ucast_32_64 .
qed

lemma assembly_okD:
  assumes "assembly_ok E L ht v s"
  shows "connects E ht v (as_txs s)" "as_view s = view_after E ht v (as_txs s)"
    "unat (nBlockSize s) = 1000 + (\<Sum>tx\<leftarrow>as_txs s. unat (tx_size E tx))" "nBlockSigOps s = 100 + sum_list (as_sigops s)"
    "nFees s = sum_list (as_fees s)" "length (as_fees s) = length (as_txs s)" "length (as_sigops s) = length (as_txs s)"
    "as_txs s \<noteq> [] \<longrightarrow> unat (nBlockSize s) < unat (nBlockMaxSize L)"
  using assms unfolding assembly_ok_def by - (elim conjE, assumption | elim conjE, blast)+

lemma assembly_ok_add:
  assumes "assembly_ok E L ht v s" "nBlockSize s + ucast (tx_size E tx) < ucast (nBlockMaxSize L)"
    "nBlockSigOps s + n < max_block_sigops E" "have_inputs E (as_view s) tx" "check_inputs E (as_view s) tx"
    "add_tx E ht tx n fees s = Inr s'"
  shows "assembly_ok E L ht v s'"
proof -
  note ok = assembly_okD [OF assms(1)]
  have "unat (nBlockSize s) < 2 ^ 32"
  proof (cases "as_txs s = []")
    case True
    then show ?thesis using ok(3) by simp
  next
    case False
    then show ?thesis using ok(8) unat_u32_bound [of "nBlockMaxSize L"] by simp
  qed
  note size = size_add [OF this assms(2)]
  define t where "t = s\<lparr>as_view := update_coins E (as_view s) tx (ht + 1), as_txs := as_txs s @ [tx], as_fees := as_fees s @ [fees],
    as_sigops := as_sigops s @ [n], nBlockSize := nBlockSize s + ucast (tx_size E tx), nBlockTx := nBlockTx s + 1,
    nBlockSigOps := nBlockSigOps s + n, nFees := nFees s + fees\<rparr>"
  have t: "as_view t = update_coins E (as_view s) tx (ht + 1)" "as_txs t = as_txs s @ [tx]" "as_fees t = as_fees s @ [fees]"
      "as_sigops t = as_sigops s @ [n]" "nBlockSize t = nBlockSize s + ucast (tx_size E tx)" "nBlockSigOps t = nBlockSigOps s + n"
      "nFees t = nFees s + fees"
    by (simp_all add: t_def)
  have "assembly_ok E L ht v t" unfolding assembly_ok_def t using assms(3-5) size ok
    by (intro conjI impI; simp add: connects_snoc view_after_def)
  moreover have "unqueued s' = unqueued t" using assms(6) unfolding add_tx_def Let_def t_def by (rule wake_orphans_frame)
  ultimately show ?thesis by (rule assembly_ok_unqueued)
qed

lemma assemble_step_ok:
  assumes "assembly_ok E L ht v s" "assemble_step E L ht s = Inr s'"
  shows "assembly_ok E L ht v s'"
  using assms(2)
proof (cases rule: assemble_step_cases)
  case (dropped i f)
  then have "unqueued s' = unqueued s" by simp
  with assms(1) show ?thesis by (rule assembly_ok_unqueued)
next
  case (added i f a b tx n fees)
  let ?s = "s\<lparr>q_vec := take i (q_vec s) @ drop (Suc i) (q_vec s), fSortedByFee := f\<rparr>"
  have "assembly_ok E L ht v ?s" by (rule assembly_ok_unqueued [OF assms(1)]) simp
  then show ?thesis by (rule assembly_ok_add [OF _ _ _ _ _ added(3)]) (simp_all add: added(4-7))
qed

lemma assemble_ok: "assembly_ok E L ht v s \<Longrightarrow> assemble E L ht s = Inr s' \<Longrightarrow> assembly_ok E L ht v s'"
proof (induction E L ht s rule: assemble.induct)
  case (1 E L ht s)
  show ?case
  proof (cases "q_vec s = []")
    case True
    then show ?thesis using "1.prems" by (subst (asm) assemble.simps) simp
  next
    case False
    then obtain t where t: "assemble_step E L ht s = Inr t" "assemble E L ht t = Inr s'"
      using "1.prems"(2) by (subst (asm) assemble.simps) (auto split: sum.splits)
    have "assembly_ok E L ht v t" by (rule assemble_step_ok [OF "1.prems"(1) t(1)])
    then show ?thesis using "1.IH" [OF False t(1)] t(2) by blast
  qed
qed

text \<open>C9. The block \<open>CreateNewBlock\<close> assembles is within its limits and connects: the transactions chosen, in their order,
  each have their inputs and pass their checks on the coins left by the ones before, so a transaction always follows its parents; the size
  counter is 1000 plus their sizes and stays below the limit, the signature operations stay below the network
  limit and are 100 plus those listed, and the fees add up.\<close>
theorem assembled_block:
  assumes "assemble E L ht (start_assembly view L g) = Inr s"
  shows "connects E ht view (as_txs s) \<and> unat (nBlockSize s) = 1000 + (\<Sum>tx\<leftarrow>as_txs s. unat (tx_size E tx)) \<and>
    nBlockSigOps s = 100 + sum_list (as_sigops s) \<and> nFees s = sum_list (as_fees s) \<and> length (as_fees s) = length (as_txs s) \<and>
    (as_txs s = [] \<or> unat (nBlockSize s) < unat (nBlockMaxSize L) \<and> nBlockSigOps s < max_block_sigops E)"
proof -
  have "assembly_ok E L ht view (start_assembly view L g)" by (simp add: assembly_ok_def start_assembly_def view_after_def)
  from assemble_ok [OF this assms] show ?thesis by (auto simp: assembly_ok_def)
qed

section \<open>The template\<close>

text \<open>What selection needs to end normally: every transaction's inputs are coins or outputs of pool transactions, and
  every output total is in range; and a heap that takes an element it has.\<close>

definition value_ok :: "('v, 'd) miner_env \<Rightarrow> CTransaction \<Rightarrow> bool" where
  "value_ok E tx = (\<exists>v. GetValueOut (money_range E) tx = Inr v)"

definition input_ok :: "('v, 'd) miner_env \<Rightarrow> 'v \<Rightarrow> mempool \<Rightarrow> CTxIn \<Rightarrow> bool" where
  "input_ok E view pool txin = (have_coins E view (op_hash (prevout txin)) \<or>
     (\<exists>t. map_of pool (op_hash (prevout txin)) = Some t \<and> unat (op_n (prevout txin)) < length (vout t)))"

definition pool_ok :: "('v, 'd) miner_env \<Rightarrow> 'v \<Rightarrow> mempool \<Rightarrow> mempool \<Rightarrow> bool" where
  "pool_ok E view pool rest = list_all (\<lambda>(_, tx). list_all (input_ok E view pool) (vin tx) \<and> value_ok E tx) rest"

definition pick_ok :: "('v, 'd) miner_env \<Rightarrow> bool" where
  "pick_ok E = (\<forall>less xs. xs \<noteq> [] \<longrightarrow> pick E less xs < length xs)"

text \<open>No pointer dangles: every orphan that waits for a hash is alive, and all output totals are in range.\<close>

definition queue_ok :: "('v, 'd) miner_env \<Rightarrow> 'd COrphan option list \<Rightarrow> (base_uint \<Rightarrow> nat list) \<Rightarrow> 'd prio_entry list \<Rightarrow> bool" where
  "queue_ok E orphans dependers vec \<longleftrightarrow> (\<forall>hash. \<forall>p \<in> set (dependers hash). p < length orphans) \<and>
    (\<forall>x \<in> set orphans. \<exists>r. x = Some r \<and> value_ok E (ptx r)) \<and> (\<forall>(_, _, tx) \<in> set vec. value_ok E tx)"

lemma queue_ok_orphan:
  "queue_ok E orphans dependers vec \<Longrightarrow> p < length orphans \<Longrightarrow> \<exists>r. orphans ! p = Some r \<and> value_ok E (ptx r)"
  by (auto simp: queue_ok_def)

lemma queue_ok_update:
  "queue_ok E orphans dependers vec \<Longrightarrow> value_ok E (ptx r) \<Longrightarrow> queue_ok E (orphans[p := Some r]) dependers vec"
  by (auto simp: queue_ok_def dest!: set_update_subset_insert [THEN subsetD])

definition gather_ok :: "('v, 'd) miner_env \<Rightarrow> 'd gather \<Rightarrow> bool" where
  "gather_ok E g = queue_ok E (vOrphan g) (mapDependers g) (vecPriority g)"

lemma gather_inputs_total:
  assumes "value_ok E tx"
  shows "list_all (input_ok E view pool) ins \<Longrightarrow> gather_ok E g \<Longrightarrow> (\<And>p. porphan = Some p \<Longrightarrow> p < length (vOrphan g)) \<Longrightarrow>
    \<exists>g' po d n. gather_inputs E view pool ht tx ins g porphan d0 n0 = Inr (g', po, d, n, False) \<and> gather_ok E g' \<and>
      (\<forall>p. po = Some p \<longrightarrow> p < length (vOrphan g'))"
proof (induction ins arbitrary: g porphan d0 n0)
  case (Cons txin rest)
  let ?hash = "op_hash (prevout txin)"
  show ?case
  proof (cases "have_coins E view ?hash")
    case True
    then show ?thesis using Cons.IH [OF _ Cons.prems(2,3)] Cons.prems(1) by (simp add: Let_def)
  next
    case False
    then obtain t where t: "map_of pool ?hash = Some t" "unat (op_n (prevout txin)) < length (vout t)"
      using Cons.prems(1) by (auto simp: input_ok_def)
    obtain g1 p where g1: "new_orphan E tx g porphan = (g1, p)" by fastforce
    then have ok1: "gather_ok E g1" "p < length (vOrphan g1)"
      using Cons.prems(2,3) assms by (auto simp: new_orphan_def gather_ok_def queue_ok_def COrphan_Init_def less_Suc_eq split: option.splits)
    obtain r where r: "vOrphan g1 ! p = Some r" "value_ok E (ptx r)" using queue_ok_orphan ok1 unfolding gather_ok_def by blast
    have "gather_ok E (wait_for ?hash p g1)"
      using queue_ok_update [of E "vOrphan g1" "mapDependers g1" "vecPriority g1" "r\<lparr>setDependsOn := insert ?hash (setDependsOn r)\<rparr>" p] ok1 r
      by (auto simp: gather_ok_def wait_for_def queue_ok_def)
    moreover have "p < length (vOrphan (wait_for ?hash p g1))" using ok1(2) by (simp add: wait_for_def)
    ultimately show ?thesis using Cons.IH [of "wait_for ?hash p g1" "Some p"] Cons.prems(1) False t g1 by (auto simp: Let_def)
  qed
qed auto


lemma gather_tx_total:
  assumes "list_all (input_ok E view pool) (vin tx)" "value_ok E tx" "gather_ok E g"
  shows "\<exists>g'. gather_tx E view pool ht tx g = Inr g' \<and> gather_ok E g'"
proof (cases "IsCoinBase tx \<or> \<not> is_final E tx")
  case False
  obtain g1 po d n where g1: "gather_inputs E view pool ht tx (vin tx) g None (d_zero E) 0 = Inr (g1, po, d, n, False)"
    "gather_ok E g1" "\<forall>p. po = Some p \<longrightarrow> p < length (vOrphan g1)"
    using gather_inputs_total [OF assms(2,1,3), where porphan = None and ht = ht and ?d0.0 = "d_zero E" and ?n0.0 = 0] by auto
  obtain v where v: "GetValueOut (money_range E) tx = Inr v" using assms(2) by (auto simp: value_ok_def)
  show ?thesis
  proof (cases po)
    case None
    then show ?thesis using False g1 v assms(2) by (auto simp: gather_tx_def Let_def gather_ok_def queue_ok_def)
  next
    case (Some p)
    then obtain r where r: "vOrphan g1 ! p = Some r" "value_ok E (ptx r)"
      using queue_ok_orphan g1(2,3) unfolding gather_ok_def by blast
    show ?thesis using False g1 v Some r queue_ok_update [of E "vOrphan g1" "mapDependers g1" "vecPriority g1" _ p]
      by (simp add: gather_tx_def Let_def gather_ok_def)
  qed
qed (use assms(3) in \<open>simp add: gather_tx_def\<close>)

lemma gather_pool_total:
  "pool_ok E view pool rest \<Longrightarrow> gather_ok E g \<Longrightarrow> \<exists>g'. gather_pool E view pool ht rest g = Inr g' \<and> gather_ok E g'"
proof (induction rest arbitrary: g)
  case (Cons e rest)
  obtain h tx where e: "e = (h, tx)" by (cases e)
  then have "list_all (input_ok E view pool) (vin tx)" "value_ok E tx" "pool_ok E view pool rest"
    using Cons.prems(1) by (simp_all add: pool_ok_def)
  then show ?case using gather_tx_total [OF _ _ Cons.prems(2), of view pool tx ht] Cons.IH e by fastforce
qed simp

definition assembly_queue_ok :: "('v, 'd) miner_env \<Rightarrow> ('v, 'd) assembly \<Rightarrow> bool" where
  "assembly_queue_ok E s = queue_ok E (q_orphans s) (q_dependers s) (q_vec s)"

lemma if_both: "Q x \<Longrightarrow> Q y \<Longrightarrow> Q (if c then x else y)"
  by simp

lemma wake_orphans_total:
  "assembly_queue_ok E s \<Longrightarrow> (\<forall>p \<in> set ps. p < length (q_orphans s)) \<Longrightarrow> \<exists>s'. wake_orphans hash ps s = Inr s' \<and> assembly_queue_ok E s'"
proof (induction ps arbitrary: s)
  case (Cons p ps)
  obtain r where r: "q_orphans s ! p = Some r" "value_ok E (ptx r)"
    using queue_ok_orphan [of E "q_orphans s" "q_dependers s" "q_vec s" p] Cons.prems by (auto simp: assembly_queue_ok_def)
  then have at: "orphan_at (q_orphans s) p = Some r" using Cons.prems(2) by (simp add: orphan_at_def)
  let ?r = "r\<lparr>setDependsOn := setDependsOn r - {hash}\<rparr>"
  let ?s = "s\<lparr>q_orphans := (q_orphans s)[p := Some ?r]\<rparr>"
  have q: "assembly_queue_ok E ?s"
    using queue_ok_update [of E "q_orphans s" "q_dependers s" "q_vec s" ?r p] Cons.prems(1) r(2) by (simp add: assembly_queue_ok_def)
  then have q': "assembly_queue_ok E (?s\<lparr>q_vec := q_vec ?s @ [(or_dPriority ?r, or_dFeePerKb ?r, ptx ?r)]\<rparr>)"
    using r(2) by (simp add: assembly_queue_ok_def queue_ok_def)
  show ?case
  proof (cases "setDependsOn r = {}")
    case True
    then show ?thesis using Cons.IH [OF Cons.prems(1)] Cons.prems(2) at by simp
  next
    case False
    let ?t = "if setDependsOn ?r = {} then ?s\<lparr>q_vec := q_vec ?s @ [(or_dPriority ?r, or_dFeePerKb ?r, ptx ?r)]\<rparr> else ?s"
    have "wake_orphans hash (p # ps) s = wake_orphans hash ps ?t"
      using at False by (simp only: wake_orphans.simps option.case Let_def if_True not_False_eq_True)
    moreover have "assembly_queue_ok E ?t" by (rule if_both [where Q = "assembly_queue_ok E", OF q' q])
    moreover have "length (q_orphans ?t) = length (q_orphans s)" by simp
    ultimately show ?thesis using Cons.IH [of ?t] Cons.prems(2) by (metis list.set_intros(2))
  qed
qed simp

lemma assemble_step_total:
  assumes "pick_ok E" "q_vec s \<noteq> []" "assembly_queue_ok E s"
  shows "\<exists>s'. assemble_step E L ht s = Inr s' \<and> assembly_queue_ok E s'"
proof -
  let ?i = "pick E (TxPriorityCompare E (fSortedByFee s)) (q_vec s)"
  have i: "?i < length (q_vec s)" using assms(1,2) by (simp add: pick_ok_def)
  obtain a b tx where e: "q_vec s ! ?i = (a, b, tx)" by (cases "q_vec s ! ?i")
  obtain f where f: "assemble_step E L ht s = step_cascade E L ht s ?i b tx f" using assemble_step_eq [OF refl i e] by blast
  let ?u = "\<lambda>f. s\<lparr>q_vec := take ?i (q_vec s) @ drop (Suc ?i) (q_vec s), fSortedByFee := f\<rparr>"
  have u: "assembly_queue_ok E (?u f)" for f
    using assms(3) by (auto simp: assembly_queue_ok_def queue_ok_def dest: in_set_takeD in_set_dropD)
  have "(a, b, tx) \<in> set (q_vec s)" using e i by (metis nth_mem)
  then obtain v where v: "GetValueOut (money_range E) tx = Inr v" using assms(3) by (auto simp: assembly_queue_ok_def queue_ok_def value_ok_def)
  have "\<exists>s'. add_tx E ht tx n fees (?u f) = Inr s' \<and> assembly_queue_ok E s'" for n fees
    unfolding add_tx_def Let_def using u [of f]
    by (intro wake_orphans_total) (auto simp: assembly_queue_ok_def queue_ok_def)
  moreover have "assembly_queue_ok E (s\<lparr>q_vec := take ?i (q_vec s) @ drop (Suc ?i) (q_vec s)\<rparr>)" using u [of "fSortedByFee s"] by simp
  ultimately show ?thesis unfolding f step_cascade_def Let_def using u by (intro cascade_total [OF v]) auto
qed

lemma assemble_total:
  "pick_ok E \<Longrightarrow> assembly_queue_ok E s \<Longrightarrow> \<exists>s'. assemble E L ht s = Inr s'"
proof (induction E L ht s rule: assemble.induct)
  case (1 E L ht s)
  show ?case
  proof (cases "q_vec s = []")
    case True
    then show ?thesis by (subst assemble.simps) simp
  next
    case False
    then obtain t where "assemble_step E L ht s = Inr t" "assembly_queue_ok E t" using assemble_step_total "1.prems" by blast
    then show ?thesis using "1.IH" [OF False] "1.prems"(1) False by (subst assemble.simps) simp
  qed
qed

text \<open>A pool of two transactions, one spending a coin and one spending the first, for the examples; doubles are \<open>int\<close>.\<close>

definition example_tx :: "u32 \<Rightarrow> base_uint \<Rightarrow> CTransaction" where
  "example_tx n parent = CTransaction_Null\<lparr>vin := [CTxIn_Init\<lparr>prevout := \<lparr>op_hash = parent, op_n = 0\<rparr>\<rparr>],
     vout := [CTxOut_Null\<lparr>nValue := 50\<rparr>], nLockTime := n\<rparr>"

definition example_env :: "(base_uint set, int) miner_env" where
  "example_env = \<lparr>tx_hash = \<lambda>tx. set64 8 (ucast (nLockTime tx)), tx_size = \<lambda>_. 200, legacy_sigops = \<lambda>_. 1, p2sh_sigops = \<lambda>_ _. 0,
     have_coins = \<lambda>v hash. hash \<in> v, coins_value = \<lambda>_ _. 60, coins_height = \<lambda>_ _. 1,
     have_inputs = \<lambda>v tx. list_all (\<lambda>i. op_hash (prevout i) \<in> v) (vin tx), value_in = \<lambda>_ _. 60, check_inputs = \<lambda>_ _. True,
     update_coins = \<lambda>v tx _. insert (set64 8 (ucast (nLockTime tx))) v, money_range = \<lambda>v. 0 \<le> v \<and> v \<le> 1000, is_final = \<lambda>_. True,
     pick = \<lambda>_ _. 0, d_zero = 0, d_add_mul = \<lambda>d a b. d + a * b, d_div = \<lambda>d n. d div uint n, d_fee = \<lambda>a n. a * 1000 div uint n,
     d_less = (<), d_eq = (=), min_tx_fee = 0, free_priority = 0, fDebug = False, max_block_sigops = 20000\<rparr>"

definition example_pool :: mempool where
  "example_pool = [(set64 8 1, example_tx 1 (set64 8 7)), (set64 8 2, example_tx 2 (set64 8 1))]"

definition example_args :: miner_args where
  "example_args = \<lparr>arg_blockversion = None, arg_blockmaxsize = 750000, arg_blockprioritysize = 50000, arg_blockminsize = 0,
     MAX_BLOCK_SIZE = 1000000, MAX_BLOCK_SIZE_GEN = 500000, adjusted_time = 1400000000\<rparr>"

lemma pick_ok_example: "pick_ok example_env"
  by (simp add: pick_ok_def example_env_def)

lemma pool_ok_example: "pool_ok example_env {set64 8 7} example_pool example_pool"
  by (simp add: pool_ok_def example_pool_def input_ok_def value_ok_def example_env_def example_tx_def GetValueOut_def CTransaction_Null_def)

text \<open>\<open>CreateNewBlock\<close> never gives a template: on a sound memory pool both of its loops end normally, with no pointer to a popped
  orphan and no unchecked exception, and then the function writes the coinbase's output into place 0 of the outputs
  of the empty transaction it put first in the block, outside the vector; the coinbase it built is never used.\<close>
theorem CreateNewBlock_no_coinbase:
  assumes "pick_ok E" "pool_ok E view pool pool"
  shows "\<exists>g s. gather_pool E view pool (nHeight (h p)) pool \<lparr>vOrphan = [], mapDependers = (\<lambda>_. []), vecPriority = []\<rparr> = Inr g \<and>
    assemble E (block_limits A) (nHeight (h p)) (start_assembly view (block_limits A) g) = Inr s \<and>
    CreateNewBlock P U E C A h p view pool script = Some (Inl OutOfRange)"
proof -
  let ?g0 = "\<lparr>vOrphan = [], mapDependers = (\<lambda>_. []), vecPriority = []\<rparr>"
  have "gather_ok E ?g0" by (simp add: gather_ok_def queue_ok_def)
  then obtain g where g: "gather_pool E view pool (nHeight (h p)) pool ?g0 = Inr g" "gather_ok E g"
    using gather_pool_total [OF assms(2)] by blast
  then have "assembly_queue_ok E (start_assembly view (block_limits A) g)"
    by (simp add: gather_ok_def assembly_queue_ok_def start_assembly_def)
  then obtain s where s: "assemble E (block_limits A) (nHeight (h p)) (start_assembly view (block_limits A) g) = Inr s"
    using assemble_total [OF assms(1)] by blast
  then have "CreateNewBlock P U E C A h p view pool script = Some (Inl OutOfRange)"
    using g(1) by (simp add: CreateNewBlock_def Let_def finish_template_def CTransaction_Null_def)
  then show ?thesis using g(1) s by blast
qed


theorem CreateNewBlock_no_coinbase_witness:
  "CreateNewBlock plain_params plain_ops example_env \<lparr>GetBlockValue = \<lambda>_ f. 50 + f, ConnectBlock = \<lambda>_ _. True\<rparr> example_args forked_tree 7
    {set64 8 7} example_pool [0x51] = Some (Inl OutOfRange)"
  using CreateNewBlock_no_coinbase [OF pick_ok_example pool_ok_example] by blast

theorem assembled_block_witness:
  "\<exists>g s. gather_pool example_env {set64 8 7} example_pool 7 example_pool \<lparr>vOrphan = [], mapDependers = (\<lambda>_. []), vecPriority = []\<rparr> = Inr g \<and>
    assemble example_env (block_limits example_args) 7 (start_assembly {set64 8 7} (block_limits example_args) g) = Inr s \<and>
    connects example_env 7 {set64 8 7} (as_txs s) \<and> nFees s = sum_list (as_fees s)"
proof -
  let ?g0 = "\<lparr>vOrphan = [], mapDependers = (\<lambda>_. []), vecPriority = []\<rparr>"
  have "gather_ok example_env ?g0" by (simp add: gather_ok_def queue_ok_def)
  then obtain g where g: "gather_pool example_env {set64 8 7} example_pool 7 example_pool ?g0 = Inr g" "gather_ok example_env g"
    using gather_pool_total [OF pool_ok_example] by blast
  then have "assembly_queue_ok example_env (start_assembly {set64 8 7} (block_limits example_args) g)"
    by (simp add: gather_ok_def assembly_queue_ok_def start_assembly_def)
  then obtain s where s: "assemble example_env (block_limits example_args) 7 (start_assembly {set64 8 7} (block_limits example_args) g) = Inr s"
    using assemble_total [OF pick_ok_example] by blast
  from assembled_block [OF s] g(1) s show ?thesis by blast
qed

section \<open>Nonces and solutions\<close>

text \<open>The static \<open>hashPrevBlock\<close> and the counter are state; the push of a big number and \<open>COINBASE_FLAGS\<close> are
  parameters. \<open>CheckWork\<close> reports whether the key was kept and the request counter was set.\<close>

definition IncrementExtraNonce :: "(base_uint \<Rightarrow> base_uint \<Rightarrow> base_uint) \<Rightarrow> (CTransaction \<Rightarrow> base_uint) \<Rightarrow> (u32 \<Rightarrow> bytes) \<Rightarrow> (bytes \<Rightarrow> u32 \<Rightarrow> bytes) \<Rightarrow> bytes \<Rightarrow>
    block_index \<Rightarrow> nat \<Rightarrow> CBlock \<Rightarrow> base_uint \<Rightarrow> u32 \<Rightarrow> (CBlock \<times> base_uint \<times> u32) result" where
  "IncrementExtraNonce Hash2 TxHash push_uint push_bignum COINBASE_FLAGS h pindexPrev pblock lastPrev nExtraNonce =
    (let (lastPrev, nExtraNonce) =
       (if \<not> ueq lastPrev (hashPrevBlock pblock) then (hashPrevBlock pblock, 0) else (lastPrev, nExtraNonce));
         nExtraNonce = nExtraNonce + 1;
         nNewHeight = word_of_int (nHeight (h pindexPrev) + 1)
     in if \<not> 0 < length (vtx pblock) \<or> \<not> 0 < length (vin (vtx pblock ! 0)) then Inl OutOfRange
        else
          (let sig = push_bignum (push_uint nNewHeight) nExtraNonce @ COINBASE_FLAGS;
               tx0 = vtx pblock ! 0;
               tx0 = tx0\<lparr>vin := (vin tx0)[0 := (vin tx0 ! 0)\<lparr>scriptSig := sig\<rparr>]\<rparr>;
               pblock = pblock\<lparr>vtx := (vtx pblock)[0 := tx0]\<rparr>
           in if \<not> length sig \<le> 100 then Inl AssertFailed
              else (let (root, pblock) = BuildMerkleTree Hash2 TxHash pblock
                    in Inr (pblock\<lparr>hashMerkleRoot := root\<rparr>, lastPrev, nExtraNonce))))"

record solution =
  sol_kept :: bool
  sol_counted :: bool
  sol_accepted :: bool

definition CheckWork :: "uint256_ops \<Rightarrow> (CBlockHeader \<Rightarrow> base_uint) \<Rightarrow> (CBlock \<Rightarrow> bool) \<Rightarrow> base_uint \<Rightarrow> CBlock \<Rightarrow> solution" where
  "CheckWork U GetHash ProcessBlock hashBestChain pblock =
    (let hash = GetHash (GetBlockHeader pblock);
         hashTarget = fst (SetCompact U (bh_nBits pblock))
     in if ugt hash hashTarget then \<lparr>sol_kept = False, sol_counted = False, sol_accepted = False\<rparr>
        else if \<not> ueq (hashPrevBlock pblock) hashBestChain then \<lparr>sol_kept = False, sol_counted = False, sol_accepted = False\<rparr>
        else \<lparr>sol_kept = True, sol_counted = True, sol_accepted = ProcessBlock pblock\<rparr>)"

end
