(* ===== verification/WalletTx.thy ===== *)
theory WalletTx
  imports Transaction StdMap
begin

text \<open>
  The transactions of a wallet (wallet.cpp, wallet.h): \<open>mapWallet\<close>, the index \<open>mapTxSpends\<close> from
  outpoints to the transactions that spend them, the metadata shared by conflicting transactions,
  order positions and smart times. A transaction id is the number of its \<open>uint256\<close>, and
  \<open>GetHash\<close>, the depth in the active chain, the block times, the accounting entries and the writes
  of the wallet file are parameters.
\<close>

section \<open>Outpoints as keys\<close>

datatype out_key = OutKey (ok_hash: nat) (ok_n: nat)

text \<open>\<open>operator<\<close> of \<open>COutPoint\<close>: the hash first.\<close>

instantiation out_key :: linorder
begin

definition less_out_key :: "out_key \<Rightarrow> out_key \<Rightarrow> bool" where
  "less_out_key a b \<longleftrightarrow> ok_hash a < ok_hash b \<or> (ok_hash a = ok_hash b \<and> ok_n a < ok_n b)"

definition less_eq_out_key :: "out_key \<Rightarrow> out_key \<Rightarrow> bool" where
  "less_eq_out_key (a :: out_key) b \<longleftrightarrow> a < b \<or> a = b"

instance
proof
  fix a b c :: out_key
  show "a < b \<longleftrightarrow> a \<le> b \<and> \<not> b \<le> a" "a \<le> a" "a \<le> b \<Longrightarrow> b \<le> c \<Longrightarrow> a \<le> c" "a \<le> b \<Longrightarrow> b \<le> a \<Longrightarrow> a = b"
    "a \<le> b \<or> b \<le> a"
    by (cases a; cases b; cases c; auto simp: less_out_key_def less_eq_out_key_def)+
qed

end

definition key_of :: "COutPoint \<Rightarrow> out_key" where
  "key_of p = OutKey (uval (op_hash p)) (unat (op_n p))"

lemma key_of_lt:
  "length (op_hash a) = length (op_hash b) \<Longrightarrow> key_of a < key_of b \<longleftrightarrow> outpoint_lt a b"
  by (simp add: key_of_def less_out_key_def outpoint_lt_def comparisons_uval word_less_nat_alt)

section \<open>Wallet transactions\<close>

record CWalletTx =
  wt_tx :: CTransaction
  wt_hashBlock :: nat
  wt_nIndex :: int
  wt_vMerkleBranch :: "nat list"
  mapValue :: "(string \<times> string) list"
  vOrderForm :: "(string \<times> string) list"
  fTimeReceivedIsTxTime :: u32
  nTimeReceived :: int
  nTimeSmart :: int
  fFromMe :: bool
  strFromAccount :: string
  nOrderPos :: int
  fDebitCached :: bool
  fCreditCached :: bool
  fAvailableCreditCached :: bool
  fChangeCached :: bool

definition wtx_MarkDirty :: "CWalletTx \<Rightarrow> CWalletTx" where
  "wtx_MarkDirty w = w\<lparr>fCreditCached := False, fAvailableCreditCached := False, fDebitCached := False,
     fChangeCached := False\<rparr>"

text \<open>\<open>BindWallet\<close>: the pointer to the wallet is not modelled.\<close>

definition BindWallet :: "CWalletTx \<Rightarrow> CWalletTx" where
  "BindWallet w = wtx_MarkDirty w"

definition GetTxTime :: "CWalletTx \<Rightarrow> int" where
  "GetTxTime w = (let n = nTimeSmart w in if n \<noteq> 0 then n else nTimeReceived w)"

text \<open>
  The environment. \<open>we_blank\<close> is what \<open>CWalletTx()\<close> makes: \<open>Init\<close> in wallet.h, older than
  wallet.cpp, does not say what \<open>nOrderPos\<close> and \<open>nTimeSmart\<close> are.
\<close>

record wtx_env =
  we_GetHash :: "CTransaction \<Rightarrow> nat"
  we_blank :: CWalletTx
  we_depth :: "CWalletTx \<Rightarrow> int"
  we_BlockTime :: "nat \<Rightarrow> int option"
  we_accounting :: "(int \<times> int) list"
  we_WriteTx :: "CWalletTx \<Rightarrow> bool"
  we_walletnotify :: bool

datatype wtx_event = TransactionChanged nat bool | WalletNotify nat

record wtx_state =
  mapWallet :: "(nat, CWalletTx) smap"
  mapTxSpends :: "(out_key \<times> nat) list"
  nOrderPosNext :: int
  wtx_events :: "wtx_event list"

text \<open>\<open>std::multimap\<close>: a new entry goes after the entries of the same key.\<close>

fun mmap_insert :: "'k::linorder \<Rightarrow> 'v \<Rightarrow> ('k \<times> 'v) list \<Rightarrow> ('k \<times> 'v) list" where
  "mmap_insert k v [] = [(k, v)]"
| "mmap_insert k v ((a, b) # m) = (if k < a then (k, v) # (a, b) # m else (a, b) # mmap_insert k v m)"

definition equal_range :: "'k \<Rightarrow> ('k \<times> 'v) list \<Rightarrow> 'v list" where
  "equal_range k m = List.map snd (List.filter (\<lambda>e. fst e = k) m)"

definition inputs :: "CWalletTx \<Rightarrow> out_key list" where
  "inputs w = List.map (\<lambda>txin. key_of (prevout txin)) (vin (wt_tx w))"

definition GetWalletTx :: "nat \<Rightarrow> wtx_state \<Rightarrow> CWalletTx option" where
  "GetWalletTx hash s = map_of (mapWallet s) hash"

definition wallet_MarkDirty :: "wtx_state \<Rightarrow> wtx_state" where
  "wallet_MarkDirty s = s\<lparr>mapWallet := List.map (\<lambda>(h, w). (h, wtx_MarkDirty w)) (mapWallet s)\<rparr>"

section \<open>The index of spends\<close>

definition GetConflicts :: "nat \<Rightarrow> wtx_state \<Rightarrow> nat set" where
  "GetConflicts txid s =
     (case map_of (mapWallet s) txid of
        None \<Rightarrow> {}
      | Some wtx \<Rightarrow>
          fold (\<lambda>o1 result. if length (equal_range o1 (mapTxSpends s)) \<le> 1 then result
                            else result \<union> set (equal_range o1 (mapTxSpends s)))
            (inputs wtx) {})"

definition is_spent :: "wtx_env \<Rightarrow> nat \<Rightarrow> nat \<Rightarrow> wtx_state \<Rightarrow> bool" where
  "is_spent E hash n s =
     list_ex (\<lambda>wtxid. case map_of (mapWallet s) wtxid of Some w \<Rightarrow> we_depth E w \<ge> 0 | None \<Rightarrow> False)
       (equal_range (OutKey hash n) (mapTxSpends s))"

text \<open>
  \<open>mapWallet[hash]\<close> makes a blank entry when there is none. \<open>oldest\<close> is the first loop of
  \<open>SyncMetaData\<close>: the id and the order position found so far.
\<close>

definition tx_touch :: "wtx_env \<Rightarrow> nat \<Rightarrow> (nat, CWalletTx) smap \<Rightarrow> (nat, CWalletTx) smap" where
  "tx_touch E h m = (if map_of m h = None then smap_put h (we_blank E) m else m)"

definition tx_at :: "wtx_env \<Rightarrow> nat \<Rightarrow> (nat, CWalletTx) smap \<Rightarrow> CWalletTx" where
  "tx_at E h m = (case map_of m h of Some w \<Rightarrow> w | None \<Rightarrow> we_blank E)"

definition max_int :: int where "max_int = 2147483647"

fun oldest :: "wtx_env \<Rightarrow> nat list \<Rightarrow> int \<Rightarrow> nat option \<Rightarrow> (nat, CWalletTx) smap \<Rightarrow> nat option \<times> (nat, CWalletTx) smap" where
  "oldest E [] nMinOrderPos copyFrom m = (copyFrom, m)"
| "oldest E (hash # rng) nMinOrderPos copyFrom m =
     (let m = tx_touch E hash m; n = nOrderPos (tx_at E hash m) in
      if n < nMinOrderPos then oldest E rng n (Some hash) m
      else oldest E rng nMinOrderPos copyFrom m)"

definition copy_meta :: "CWalletTx \<Rightarrow> CWalletTx \<Rightarrow> CWalletTx" where
  "copy_meta copyFrom copyTo = copyTo\<lparr>mapValue := mapValue copyFrom, vOrderForm := vOrderForm copyFrom,
     nTimeSmart := nTimeSmart copyFrom, fFromMe := fFromMe copyFrom, strFromAccount := strFromAccount copyFrom\<rparr>"

fun copy_loop :: "wtx_env \<Rightarrow> nat \<Rightarrow> nat list \<Rightarrow> (nat, CWalletTx) smap \<Rightarrow> (nat, CWalletTx) smap" where
  "copy_loop E src [] m = m"
| "copy_loop E src (hash # rng) m =
     (if src = hash then copy_loop E src rng m
      else copy_loop E src rng (smap_put hash (copy_meta (tx_at E src m) (tx_at E hash m)) m))"

text \<open>With no transaction below the largest int, the source of the copy is a null pointer.\<close>

definition SyncMetaData :: "wtx_env \<Rightarrow> nat list \<Rightarrow> (nat, CWalletTx) smap \<Rightarrow> (nat, CWalletTx) smap result" where
  "SyncMetaData E rng m =
     (case oldest E rng max_int None m of
        (Some src, m) \<Rightarrow> Inr (copy_loop E src rng m)
      | (None, m) \<Rightarrow> if rng = [] then Inr m else Inl OutOfRange)"

definition AddToSpends_out :: "wtx_env \<Rightarrow> out_key \<Rightarrow> nat \<Rightarrow> wtx_state \<Rightarrow> wtx_state result" where
  "AddToSpends_out E outpoint wtxid s =
     (let spends = mmap_insert outpoint wtxid (mapTxSpends s) in
      bindR (SyncMetaData E (equal_range outpoint spends) (mapWallet s)) (\<lambda>m.
      Inr (s\<lparr>mapTxSpends := spends, mapWallet := m\<rparr>)))"

fun spend_all :: "wtx_env \<Rightarrow> out_key list \<Rightarrow> nat \<Rightarrow> wtx_state \<Rightarrow> wtx_state result" where
  "spend_all E [] wtxid s = Inr s"
| "spend_all E (o1 # os) wtxid s = bindR (AddToSpends_out E o1 wtxid s) (spend_all E os wtxid)"

definition AddToSpends :: "wtx_env \<Rightarrow> nat \<Rightarrow> wtx_state \<Rightarrow> wtx_state result" where
  "AddToSpends E wtxid s =
     (case map_of (mapWallet s) wtxid of
        None \<Rightarrow> Inl AssertFailed
      | Some thisTx \<Rightarrow>
          if IsCoinBase (wt_tx thisTx) then Inr s
          else spend_all E (inputs thisTx) wtxid s)"

section \<open>Adding a transaction\<close>

text \<open>\<open>OrderedTxItems\<close>: transactions, then accounting entries, in a multimap by order position.\<close>

definition OrderedTxItems :: "wtx_env \<Rightarrow> wtx_state \<Rightarrow> (int \<times> (nat + int)) list" where
  "OrderedTxItems E s =
     sort_key fst (List.map (\<lambda>(h, w). (nOrderPos w, Inl h)) (mapWallet s) @
       List.map (\<lambda>(n, t). (n, Inr t)) (we_accounting E))"

definition item_time :: "wtx_state \<Rightarrow> nat + int \<Rightarrow> int" where
  "item_time s i =
     (case i of
        Inl h \<Rightarrow> (case map_of (mapWallet s) h of Some w \<Rightarrow> if nTimeSmart w = 0 then nTimeReceived w else nTimeSmart w | None \<Rightarrow> 0)
      | Inr t \<Rightarrow> t)"

definition smart_time :: "wtx_env \<Rightarrow> nat \<Rightarrow> int \<Rightarrow> int \<Rightarrow> wtx_state \<Rightarrow> int" where
  "smart_time E hash received blocktime s =
     (let latestTolerated = received + 300;
          items = List.filter (\<lambda>i. snd i \<noteq> Inl hash) (rev (OrderedTxItems E s));
          found = List.find (\<lambda>t. t \<le> latestTolerated) (List.map (\<lambda>i. item_time s (snd i)) items);
          latestEntry = (case found of Some t \<Rightarrow> t | None \<Rightarrow> 0);
          latestNow = (case found of Some t \<Rightarrow> max t received | None \<Rightarrow> received)
      in max latestEntry (min blocktime latestNow))"

definition put_tx :: "nat \<Rightarrow> CWalletTx \<Rightarrow> wtx_state \<Rightarrow> wtx_state" where
  "put_tx h w s = s\<lparr>mapWallet := smap_put h w (mapWallet s)\<rparr>"

definition insert_new_tx :: "wtx_env \<Rightarrow> int \<Rightarrow> nat \<Rightarrow> CWalletTx \<Rightarrow> wtx_state \<Rightarrow> wtx_state result" where
  "insert_new_tx E now hash wtxIn s =
     (let wtx = (BindWallet wtxIn)\<lparr>nTimeReceived := now, nOrderPos := nOrderPosNext s\<rparr>;
          wtx = wtx\<lparr>nTimeSmart := now\<rparr>;
          s = put_tx hash wtx (s\<lparr>nOrderPosNext := nOrderPosNext s + 1\<rparr>);
          s = (if wt_hashBlock wtxIn \<noteq> 0 then
                 (case we_BlockTime E (wt_hashBlock wtxIn) of
                    Some blocktime \<Rightarrow> put_tx hash (wtx\<lparr>nTimeSmart := smart_time E hash now blocktime s\<rparr>) s
                  | None \<Rightarrow> s)
               else s)
      in AddToSpends E hash s)"

text \<open>A transaction known already: what the new copy knows of its block is taken over.\<close>

definition merge_tx :: "CWalletTx \<Rightarrow> CWalletTx \<Rightarrow> bool \<times> CWalletTx" where
  "merge_tx wtxIn wtx =
     (let fUpdated = False;
          (fUpdated, wtx) = (if wt_hashBlock wtxIn \<noteq> 0 \<and> wt_hashBlock wtxIn \<noteq> wt_hashBlock wtx
             then (True, wtx\<lparr>wt_hashBlock := wt_hashBlock wtxIn\<rparr>) else (fUpdated, wtx));
          (fUpdated, wtx) = (if wt_nIndex wtxIn \<noteq> -1 \<and>
                (wt_vMerkleBranch wtxIn \<noteq> wt_vMerkleBranch wtx \<or> wt_nIndex wtxIn \<noteq> wt_nIndex wtx)
             then (True, wtx\<lparr>wt_vMerkleBranch := wt_vMerkleBranch wtxIn, wt_nIndex := wt_nIndex wtxIn\<rparr>)
             else (fUpdated, wtx));
          (fUpdated, wtx) = (if fFromMe wtxIn \<and> fFromMe wtxIn \<noteq> fFromMe wtx
             then (True, wtx\<lparr>fFromMe := fFromMe wtxIn\<rparr>) else (fUpdated, wtx))
      in (fUpdated, wtx))"

definition finish_add :: "wtx_env \<Rightarrow> nat \<Rightarrow> bool \<Rightarrow> bool \<Rightarrow> wtx_state \<Rightarrow> bool \<times> wtx_state" where
  "finish_add E hash fInsertedNew fUpdated s =
     (let wtx = tx_at E hash (mapWallet s) in
      if (fInsertedNew \<or> fUpdated) \<and> \<not> we_WriteTx E wtx then (False, s)
      else
        let s = put_tx hash (wtx_MarkDirty wtx) s;
            s = s\<lparr>wtx_events := wtx_events s @ [TransactionChanged hash fInsertedNew]\<rparr>;
            s = (if we_walletnotify E then s\<lparr>wtx_events := wtx_events s @ [WalletNotify hash]\<rparr> else s)
        in (True, s))"

definition AddToWallet :: "wtx_env \<Rightarrow> int \<Rightarrow> CWalletTx \<Rightarrow> bool \<Rightarrow> wtx_state \<Rightarrow> (bool \<times> wtx_state) result" where
  "AddToWallet E now wtxIn fFromLoadWallet s =
     (let hash = we_GetHash E (wt_tx wtxIn) in
      if fFromLoadWallet then
        bindR (AddToSpends E hash (put_tx hash (BindWallet wtxIn) s)) (\<lambda>s. Inr (True, s))
      else
        case map_of (mapWallet s) hash of
          None \<Rightarrow> bindR (insert_new_tx E now hash wtxIn s) (\<lambda>s. Inr (finish_add E hash True False s))
        | Some wtx \<Rightarrow>
            (case merge_tx wtxIn (BindWallet wtx) of (fUpdated, wtx) \<Rightarrow>
               Inr (finish_add E hash False fUpdated (put_tx hash wtx s))))"

definition EraseFromWallet :: "bool \<Rightarrow> nat \<Rightarrow> wtx_state \<Rightarrow> wtx_state" where
  "EraseFromWallet fFileBacked hash s =
     (if \<not> fFileBacked then s else s\<lparr>mapWallet := smap_del hash (mapWallet s)\<rparr>)"

section \<open>Facts about the pieces\<close>

lemma set_mmap_insert [simp]: "set (mmap_insert k v m) = insert (k, v) (set m)"
  by (induction k v m rule: mmap_insert.induct) auto

lemma sorted_mmap_insert: "sorted (List.map fst m) \<Longrightarrow> sorted (List.map fst (mmap_insert k v m))"
  by (induction k v m rule: mmap_insert.induct) fastforce+

lemma set_equal_range [simp]: "set (equal_range k m) = {v. (k, v) \<in> set m}"
  by (force simp: equal_range_def)

lemma tx_touch_known [simp]: "map_of m h = Some w \<Longrightarrow> tx_touch E h m = m"
  by (simp add: tx_touch_def)

lemma tx_at_known [simp]: "map_of m h = Some w \<Longrightarrow> tx_at E h m = w"
  by (simp add: tx_at_def)

lemma tx_at_put: "smap_ok m \<Longrightarrow> tx_at E g (smap_put h w m) = (if g = h then w else tx_at E g m)"
  by (simp add: tx_at_def smap_simps)

lemma copy_meta_self [simp]: "copy_meta w w = w" "copy_meta a (copy_meta b w) = copy_meta a w"
  by (simp_all add: copy_meta_def)

lemma copy_meta_fields [simp]:
  "wt_tx (copy_meta a w) = wt_tx w" "nOrderPos (copy_meta a w) = nOrderPos w" "inputs (copy_meta a w) = inputs w"
  "wt_hashBlock (copy_meta a w) = wt_hashBlock w"
  by (simp_all add: copy_meta_def inputs_def)

definition known :: "(nat, CWalletTx) smap \<Rightarrow> nat set" where
  "known m = {h. \<exists>w. map_of m h = Some w}"

lemma oldest_spec:
  "set rng \<subseteq> known m \<Longrightarrow> \<exists>c. oldest E rng n0 c0 m = (c, m) \<and>
     (if \<exists>h \<in> set rng. nOrderPos (tx_at E h m) < n0
      then \<exists>src \<in> set rng. c = Some src \<and> nOrderPos (tx_at E src m) < n0 \<and>
             (\<forall>h \<in> set rng. nOrderPos (tx_at E src m) \<le> nOrderPos (tx_at E h m))
      else c = c0)"
proof (induction rng arbitrary: n0 c0)
  case (Cons h rng)
  then obtain w where w: "map_of m h = Some w" "set rng \<subseteq> known m" by (auto simp: known_def)
  show ?case
  proof (cases "nOrderPos w < n0")
    case True
    from Cons.IH[OF w(2), of "nOrderPos w" "Some h"] True w(1) show ?thesis
      by (fastforce simp: Let_def split: if_splits)
  next
    case False
    from Cons.IH[OF w(2), of n0 c0] False w(1) show ?thesis
      by (fastforce simp: Let_def split: if_splits)
  qed
qed simp

lemma copy_loop_spec:
  "smap_ok m \<Longrightarrow> set rng \<subseteq> known m \<Longrightarrow>
   smap_ok (copy_loop E src rng m) \<and>
   map_of (copy_loop E src rng m) =
     (\<lambda>h. if h \<in> set rng \<and> h \<noteq> src then Some (copy_meta (tx_at E src m) (tx_at E h m)) else map_of m h)"
proof (induction rng arbitrary: m)
  case (Cons h rng)
  show ?case
  proof (cases "src = h")
    case True
    with Cons show ?thesis by (auto simp: fun_eq_iff)
  next
    case False
    let ?m = "smap_put h (copy_meta (tx_at E src m) (tx_at E h m)) m"
    have m: "smap_ok ?m" "map_of ?m = (map_of m)(h \<mapsto> copy_meta (tx_at E src m) (tx_at E h m))"
      using Cons.prems(1) by (simp_all add: smap_simps)
    have k: "set rng \<subseteq> known ?m" using Cons.prems(2) by (auto simp: known_def m(2))
    have a: "tx_at E src ?m = tx_at E src m" "\<And>g. g \<noteq> h \<Longrightarrow> tx_at E g ?m = tx_at E g m"
        "tx_at E h ?m = copy_meta (tx_at E src m) (tx_at E h m)"
      using False Cons.prems(1) by (simp_all add: tx_at_put)
    have "(if g \<in> set rng \<and> g \<noteq> src then Some (copy_meta (tx_at E src ?m) (tx_at E g ?m)) else map_of ?m g) =
       (if g \<in> set (h # rng) \<and> g \<noteq> src then Some (copy_meta (tx_at E src m) (tx_at E g m)) else map_of m g)" for g
      using False by (cases "g = h") (simp_all add: a m(2))
    with Cons.IH[OF m(1) k] False show ?thesis by (simp add: fun_eq_iff)
  qed
qed simp

section \<open>Conflicting transactions share their metadata\<close>

definition ids_known :: "wtx_state \<Rightarrow> bool" where
  "ids_known s \<longleftrightarrow> snd ` set (mapTxSpends s) \<subseteq> known (mapWallet s) \<and>
     (\<forall>h w. map_of (mapWallet s) h = Some w \<longrightarrow> nOrderPos w < max_int)"

lemma AddToSpends_out_spec:
  assumes "smap_ok (mapWallet s)" "ids_known s" "map_of (mapWallet s) wtxid = Some w"
  shows "\<exists>m src. AddToSpends_out E o1 wtxid s =
        Inr (s\<lparr>mapTxSpends := mmap_insert o1 wtxid (mapTxSpends s), mapWallet := m\<rparr>) \<and> smap_ok m \<and>
      (o1, src) \<in> set (mmap_insert o1 wtxid (mapTxSpends s)) \<and>
      (\<forall>h. (o1, h) \<in> set (mmap_insert o1 wtxid (mapTxSpends s)) \<longrightarrow>
         nOrderPos (tx_at E src (mapWallet s)) \<le> nOrderPos (tx_at E h (mapWallet s))) \<and>
      map_of m = (\<lambda>h. if (o1, h) \<in> set (mmap_insert o1 wtxid (mapTxSpends s))
                      then Some (copy_meta (tx_at E src (mapWallet s)) (tx_at E h (mapWallet s))) else map_of (mapWallet s) h)"
proof -
  let ?r = "equal_range o1 (mmap_insert o1 wtxid (mapTxSpends s))"
  have k: "set ?r \<subseteq> known (mapWallet s)" using assms(2,3) by (force simp: ids_known_def known_def)
  have "nOrderPos w < max_int" using assms(2,3) by (simp add: ids_known_def)
  then have "\<exists>h \<in> set ?r. nOrderPos (tx_at E h (mapWallet s)) < max_int" using assms(3) by auto
  with oldest_spec[OF k, of E max_int None] obtain src where
    src: "src \<in> set ?r" "oldest E ?r max_int None (mapWallet s) = (Some src, mapWallet s)"
      "\<forall>h \<in> set ?r. nOrderPos (tx_at E src (mapWallet s)) \<le> nOrderPos (tx_at E h (mapWallet s))" by auto
  let ?m = "copy_loop E src ?r (mapWallet s)"
  have m: "smap_ok ?m" "map_of ?m = (\<lambda>h. if h \<in> set ?r \<and> h \<noteq> src
      then Some (copy_meta (tx_at E src (mapWallet s)) (tx_at E h (mapWallet s))) else map_of (mapWallet s) h)"
    using copy_loop_spec[OF assms(1) k] by blast+
  obtain ws where ws: "map_of (mapWallet s) src = Some ws" using src(1) k by (auto simp: known_def)
  have "map_of ?m = (\<lambda>h. if h \<in> set ?r then Some (copy_meta (tx_at E src (mapWallet s)) (tx_at E h (mapWallet s)))
      else map_of (mapWallet s) h)"
    using ws src(1) by (auto simp: m(2) fun_eq_iff)
  with m(1) src show ?thesis
    by (intro exI[of _ ?m] exI[of _ src]) (simp add: AddToSpends_out_def SyncMetaData_def Let_def)
qed

text \<open>When a transaction is entered in the index as a spender of an outpoint, all the spenders of that
  outpoint end up with the metadata of the oldest one (the smallest order position): its map of values,
  order form, smart time, origin and account. Nothing else of them changes, and no other transaction.\<close>
theorem conflicts_share_metadata:
  assumes "smap_ok (mapWallet s)" "ids_known s" "map_of (mapWallet s) wtxid = Some w"
  shows "\<exists>s' src. AddToSpends_out E o1 wtxid s = Inr s' \<and>
      src \<in> set (equal_range o1 (mapTxSpends s')) \<and>
      (\<forall>h \<in> set (equal_range o1 (mapTxSpends s')).
         nOrderPos (tx_at E src (mapWallet s)) \<le> nOrderPos (tx_at E h (mapWallet s))) \<and>
      map_of (mapWallet s') = (\<lambda>h. if h \<in> set (equal_range o1 (mapTxSpends s'))
         then Some (copy_meta (tx_at E src (mapWallet s)) (tx_at E h (mapWallet s))) else map_of (mapWallet s) h)"
proof -
  from AddToSpends_out_spec[OF assms, of E o1] obtain m src where
    m: "AddToSpends_out E o1 wtxid s =
        Inr (s\<lparr>mapTxSpends := mmap_insert o1 wtxid (mapTxSpends s), mapWallet := m\<rparr>)"
      "(o1, src) \<in> set (mmap_insert o1 wtxid (mapTxSpends s))"
      "\<forall>h. (o1, h) \<in> set (mmap_insert o1 wtxid (mapTxSpends s)) \<longrightarrow>
         nOrderPos (tx_at E src (mapWallet s)) \<le> nOrderPos (tx_at E h (mapWallet s))"
      "map_of m = (\<lambda>h. if (o1, h) \<in> set (mmap_insert o1 wtxid (mapTxSpends s))
         then Some (copy_meta (tx_at E src (mapWallet s)) (tx_at E h (mapWallet s))) else map_of (mapWallet s) h)" by blast
  show ?thesis
    by (rule exI[of _ "s\<lparr>mapTxSpends := mmap_insert o1 wtxid (mapTxSpends s), mapWallet := m\<rparr>"], rule exI[of _ src])
       (use m in \<open>simp del: set_mmap_insert\<close>)
qed

section \<open>The index is complete\<close>

text \<open>Two versions of a wallet's map that differ in metadata only.\<close>

definition tx_core :: "CWalletTx \<Rightarrow> CTransaction \<times> int" where
  "tx_core w = (wt_tx w, nOrderPos w)"

definition same_txs :: "(nat, CWalletTx) smap \<Rightarrow> (nat, CWalletTx) smap \<Rightarrow> bool" where
  "same_txs m m' \<longleftrightarrow> (\<forall>h. map_option tx_core (map_of m' h) = map_option tx_core (map_of m h))"

lemma same_txs_refl [simp]: "same_txs m m"
  by (simp add: same_txs_def)

lemma same_txs_trans: "same_txs a b \<Longrightarrow> same_txs b c \<Longrightarrow> same_txs a c"
  by (simp add: same_txs_def)

lemma same_txs_Some:
  assumes "same_txs m m'"
  shows "map_of m' h = Some w' \<Longrightarrow> \<exists>w. map_of m h = Some w \<and> wt_tx w' = wt_tx w \<and> nOrderPos w' = nOrderPos w"
    "map_of m h = Some w \<Longrightarrow> \<exists>w'. map_of m' h = Some w' \<and> wt_tx w' = wt_tx w \<and> nOrderPos w' = nOrderPos w"
  using assms[unfolded same_txs_def, rule_format, of h]
  by (cases "map_of m h"; cases "map_of m' h"; simp add: tx_core_def)+

lemma same_txs_known: "same_txs m m' \<Longrightarrow> known m' = known m"
  unfolding known_def by (blast dest: same_txs_Some)

definition sorted_index :: "wtx_state \<Rightarrow> bool" where
  "sorted_index s \<longleftrightarrow> smap_ok (mapWallet s) \<and> sorted (List.map fst (mapTxSpends s))"

lemma AddToSpends_out_same:
  assumes "sorted_index s" "ids_known s" "map_of (mapWallet s) wtxid = Some w"
  shows "\<exists>s'. AddToSpends_out E o1 wtxid s = Inr s' \<and> sorted_index s' \<and> ids_known s' \<and>
    same_txs (mapWallet s) (mapWallet s') \<and> set (mapTxSpends s') = insert (o1, wtxid) (set (mapTxSpends s)) \<and>
    nOrderPosNext s' = nOrderPosNext s"
proof -
  have ok: "smap_ok (mapWallet s)" using assms(1) by (simp add: sorted_index_def)
  obtain m src where m: "AddToSpends_out E o1 wtxid s =
        Inr (s\<lparr>mapTxSpends := mmap_insert o1 wtxid (mapTxSpends s), mapWallet := m\<rparr>)" "smap_ok m"
      "map_of m = (\<lambda>h. if (o1, h) \<in> set (mmap_insert o1 wtxid (mapTxSpends s))
                      then Some (copy_meta (tx_at E src (mapWallet s)) (tx_at E h (mapWallet s))) else map_of (mapWallet s) h)"
    using AddToSpends_out_spec[OF ok assms(2,3), of E o1] by blast
  have k: "\<exists>v. map_of (mapWallet s) h = Some v" if "(o1, h) \<in> set (mmap_insert o1 wtxid (mapTxSpends s))" for h
    using that assms(2,3) by (auto simp: ids_known_def known_def)
  have st: "same_txs (mapWallet s) m"
    unfolding same_txs_def m(3) using k by (force simp: tx_core_def simp del: set_mmap_insert)
  then have "ids_known (s\<lparr>mapTxSpends := mmap_insert o1 wtxid (mapTxSpends s), mapWallet := m\<rparr>)"
    using assms(2,3) same_txs_known[OF st] same_txs_Some(1)[OF st] by (fastforce simp: ids_known_def known_def)
  with st m(1,2) assms(1) show ?thesis by (simp add: sorted_index_def sorted_mmap_insert)
qed

lemma spend_all_same:
  "sorted_index s \<Longrightarrow> ids_known s \<Longrightarrow> wtxid \<in> known (mapWallet s) \<Longrightarrow>
   \<exists>s'. spend_all E os wtxid s = Inr s' \<and> sorted_index s' \<and> ids_known s' \<and>
    same_txs (mapWallet s) (mapWallet s') \<and> set (mapTxSpends s') = (\<lambda>o1. (o1, wtxid)) ` set os \<union> set (mapTxSpends s) \<and>
    nOrderPosNext s' = nOrderPosNext s"
proof (induction os arbitrary: s)
  case (Cons o1 os)
  then obtain w where "map_of (mapWallet s) wtxid = Some w" by (auto simp: known_def)
  from AddToSpends_out_same[OF Cons.prems(1,2) this, of E o1] obtain s1 where
    s1: "AddToSpends_out E o1 wtxid s = Inr s1" "sorted_index s1" "ids_known s1"
      "same_txs (mapWallet s) (mapWallet s1)" "set (mapTxSpends s1) = insert (o1, wtxid) (set (mapTxSpends s))"
      "nOrderPosNext s1 = nOrderPosNext s" by blast
  have "wtxid \<in> known (mapWallet s1)" using Cons.prems(3) same_txs_known[OF s1(4)] by simp
  from Cons.IH[OF s1(2,3) this] s1 show ?case by (auto dest: same_txs_trans)
qed simp

definition spenders :: "(nat, CWalletTx) smap \<Rightarrow> (out_key \<times> nat) set" where
  "spenders m = {(o1, h). \<exists>w. map_of m h = Some w \<and> \<not> IsCoinBase (wt_tx w) \<and> o1 \<in> set (inputs w)}"

lemma same_txs_spenders: "same_txs m m' \<Longrightarrow> spenders m' = spenders m"
  unfolding spenders_def inputs_def by (fastforce dest: same_txs_Some)

text \<open>What the wallet keeps: the index holds exactly the spends of its transactions.\<close>

definition wallet_ok :: "wtx_env \<Rightarrow> wtx_state \<Rightarrow> bool" where
  "wallet_ok E s \<longleftrightarrow> sorted_index s \<and> set (mapTxSpends s) = spenders (mapWallet s) \<and>
     (\<forall>h w. map_of (mapWallet s) h = Some w \<longrightarrow>
        we_GetHash E (wt_tx w) = h \<and> nOrderPos w < nOrderPosNext s \<and> nOrderPos w < max_int) \<and>
     (\<forall>h w h' w'. map_of (mapWallet s) h = Some w \<and> map_of (mapWallet s) h' = Some w' \<and>
        nOrderPos w = nOrderPos w' \<longrightarrow> h = h')"

lemma wallet_ok_ids: "wallet_ok E s \<Longrightarrow> ids_known s"
  by (auto simp: wallet_ok_def ids_known_def spenders_def known_def)

lemma wallet_ok_same:
  assumes "wallet_ok E s" "sorted_index s'" "same_txs (mapWallet s) (mapWallet s')"
    "set (mapTxSpends s') = set (mapTxSpends s)" "nOrderPosNext s' = nOrderPosNext s"
  shows "wallet_ok E s'"
  using assms(1,2,4,5) same_txs_spenders[OF assms(3)] unfolding wallet_ok_def
  by (auto dest!: same_txs_Some(1)[OF assms(3)])

lemma put_same: "smap_ok m \<Longrightarrow> map_of m h = Some w \<Longrightarrow> tx_core w' = tx_core w \<Longrightarrow> same_txs m (smap_put h w' m)"
  by (simp add: same_txs_def smap_simps)

lemma spenders_put:
  "smap_ok m \<Longrightarrow> map_of m h = None \<Longrightarrow>
   spenders (smap_put h w m) = (if IsCoinBase (wt_tx w) then {} else (\<lambda>o1. (o1, h)) ` set (inputs w)) \<union> spenders m"
  by (auto simp: spenders_def smap_simps split: if_splits)

lemma add_spends_ok:
  assumes "wallet_ok E s" "map_of (mapWallet s) h = None" "we_GetHash E (wt_tx w) = h" "nOrderPos w < max_int"
    "nOrderPos w < n" "nOrderPosNext s \<le> n" "\<And>g v. map_of (mapWallet s) g = Some v \<Longrightarrow> nOrderPos v \<noteq> nOrderPos w"
  shows "\<exists>s'. AddToSpends E h (s\<lparr>nOrderPosNext := n, mapWallet := smap_put h w (mapWallet s)\<rparr>) = Inr s' \<and> wallet_ok E s' \<and>
    same_txs (smap_put h w (mapWallet s)) (mapWallet s')"
proof -
  let ?s = "s\<lparr>nOrderPosNext := n, mapWallet := smap_put h w (mapWallet s)\<rparr>"
  have ok: "smap_ok (mapWallet s)" "sorted_index s" using assms(1) by (auto simp: wallet_ok_def sorted_index_def)
  have l: "map_of (smap_put h w (mapWallet s)) = (map_of (mapWallet s))(h \<mapsto> w)" using ok(1) by (simp add: smap_simps)
  have si: "sorted_index ?s" using ok by (simp add: sorted_index_def smap_simps)
  have ids: "ids_known ?s"
    using wallet_ok_ids[OF assms(1)] assms(4) by (auto simp: ids_known_def known_def l)
  have entries: "\<forall>g v. map_of (mapWallet ?s) g = Some v \<longrightarrow>
        we_GetHash E (wt_tx v) = g \<and> nOrderPos v < nOrderPosNext ?s \<and> nOrderPos v < max_int"
  proof (intro allI impI)
    fix g v
    assume g: "map_of (mapWallet ?s) g = Some v"
    show "we_GetHash E (wt_tx v) = g \<and> nOrderPos v < nOrderPosNext ?s \<and> nOrderPos v < max_int"
    proof (cases "g = h")
      case True
      with g assms(3-5) show ?thesis by (simp add: l)
    next
      case False
      with g assms(1) have "we_GetHash E (wt_tx v) = g \<and> nOrderPos v < nOrderPosNext s \<and> nOrderPos v < max_int"
        by (simp add: wallet_ok_def l)
      with assms(6) show ?thesis by simp
    qed
  qed
  have inj: "\<forall>g v g' v'. map_of (mapWallet ?s) g = Some v \<and> map_of (mapWallet ?s) g' = Some v' \<and>
        nOrderPos v = nOrderPos v' \<longrightarrow> g = g'"
  proof (intro allI impI)
    fix g v g' v'
    assume a: "map_of (mapWallet ?s) g = Some v \<and> map_of (mapWallet ?s) g' = Some v' \<and> nOrderPos v = nOrderPos v'"
    have "\<forall>h w h' w'. map_of (mapWallet s) h = Some w \<and> map_of (mapWallet s) h' = Some w' \<and>
        nOrderPos w = nOrderPos w' \<longrightarrow> h = h'" using assms(1) unfolding wallet_ok_def by blast
    with a assms(7)[of g v] assms(7)[of g' v'] show "g = g'" by (cases "g = h"; cases "g' = h"; simp add: l; metis)
  qed
  have wok: "wallet_ok E s'" if "sorted_index s'" "same_txs (mapWallet ?s) (mapWallet s')"
      "set (mapTxSpends s') = spenders (mapWallet ?s)" "nOrderPosNext s' = n" for s'
    using that entries inj same_txs_spenders[OF that(2)] unfolding wallet_ok_def
    by (auto dest!: same_txs_Some(1)[OF that(2)])
  have idx: "set (mapTxSpends s) = spenders (mapWallet s)" using assms(1) by (simp add: wallet_ok_def)
  show ?thesis
  proof (cases "IsCoinBase (wt_tx w)")
    case True
    then have "AddToSpends E h ?s = Inr ?s" by (simp add: AddToSpends_def l)
    moreover have "wallet_ok E ?s" using True idx by (intro wok) (simp_all add: si spenders_put[OF ok(1) assms(2)])
    ultimately show ?thesis by auto
  next
    case False
    then have e: "AddToSpends E h ?s = spend_all E (inputs w) h ?s" by (simp add: AddToSpends_def l)
    have "h \<in> known (mapWallet ?s)" by (simp add: known_def l)
    from spend_all_same[OF si ids this, of E "inputs w"] obtain s' where
      s': "spend_all E (inputs w) h ?s = Inr s'" "sorted_index s'" "same_txs (mapWallet ?s) (mapWallet s')"
        "set (mapTxSpends s') = (\<lambda>o1. (o1, h)) ` set (inputs w) \<union> set (mapTxSpends ?s)" "nOrderPosNext s' = n"
      by auto
    have "wallet_ok E s'"
      using s' False idx by (intro wok) (simp_all add: spenders_put[OF ok(1) assms(2)])
    with e s'(1,3) show ?thesis by auto
  qed
qed

lemma merge_tx_core: "merge_tx wtxIn w = (u, w') \<Longrightarrow> tx_core w' = tx_core w"
  by (auto simp: merge_tx_def tx_core_def Let_def split: if_splits prod.splits)

lemma finish_add_ok:
  assumes "wallet_ok E s" "map_of (mapWallet s) h = Some w" "finish_add E h new upd s = (r, s')"
  shows "wallet_ok E s' \<and> same_txs (mapWallet s) (mapWallet s')"
proof (cases "(new \<or> upd) \<and> \<not> we_WriteTx E w")
  case True
  with assms show ?thesis by (auto simp: finish_add_def)
next
  case False
  have ok: "smap_ok (mapWallet s)" "sorted_index s" using assms(1) by (auto simp: wallet_ok_def sorted_index_def)
  have "same_txs (mapWallet s) (smap_put h (wtx_MarkDirty w) (mapWallet s))"
    by (rule put_same[OF ok(1) assms(2)]) (simp add: tx_core_def wtx_MarkDirty_def)
  moreover have "mapWallet s' = smap_put h (wtx_MarkDirty w) (mapWallet s)" "mapTxSpends s' = mapTxSpends s"
      "nOrderPosNext s' = nOrderPosNext s"
    using False assms(2,3) by (auto simp: finish_add_def put_tx_def Let_def split: if_splits)
  moreover from this ok have "sorted_index s'" by (simp add: sorted_index_def smap_simps)
  ultimately show ?thesis using wallet_ok_same[OF assms(1), of s'] by simp
qed

lemma insert_new_tx_ok:
  assumes "wallet_ok E s" "map_of (mapWallet s) h = None" "we_GetHash E (wt_tx wtxIn) = h" "nOrderPosNext s < max_int"
  shows "\<exists>s' w. insert_new_tx E now h wtxIn s = Inr s' \<and> wallet_ok E s' \<and> wt_tx w = wt_tx wtxIn \<and>
    same_txs (smap_put h w (mapWallet s)) (mapWallet s')"
proof -
  have ok: "smap_ok (mapWallet s)" using assms(1) by (auto simp: wallet_ok_def sorted_index_def)
  have pp: "smap_put h w' (smap_put h w m) = smap_put h w' m" for w w' and m :: "(nat, CWalletTx) smap"
    by (induction h w m rule: smap_put.induct) auto
  let ?w0 = "(BindWallet wtxIn)\<lparr>nTimeReceived := now, nOrderPos := nOrderPosNext s, nTimeSmart := now\<rparr>"
  obtain t where t: "insert_new_tx E now h wtxIn s =
      AddToSpends E h (s\<lparr>nOrderPosNext := nOrderPosNext s + 1, mapWallet := smap_put h (?w0\<lparr>nTimeSmart := t\<rparr>) (mapWallet s)\<rparr>)"
  proof (cases "wt_hashBlock wtxIn \<noteq> 0 \<and> we_BlockTime E (wt_hashBlock wtxIn) \<noteq> None")
    case True
    then obtain y where "we_BlockTime E (wt_hashBlock wtxIn) = Some y" by auto
    with True show thesis
      by (intro that[of "smart_time E h now y (s\<lparr>nOrderPosNext := nOrderPosNext s + 1, mapWallet := smap_put h ?w0 (mapWallet s)\<rparr>)"])
         (simp add: insert_new_tx_def put_tx_def Let_def pp)
  next
    case False
    then show thesis by (intro that[of now]) (auto simp: insert_new_tx_def put_tx_def Let_def split: option.splits)
  qed
  let ?w = "?w0\<lparr>nTimeSmart := t\<rparr>"
  have w: "wt_tx ?w = wt_tx wtxIn" "nOrderPos ?w = nOrderPosNext s" by (simp_all add: BindWallet_def wtx_MarkDirty_def)
  have "\<And>g v. map_of (mapWallet s) g = Some v \<Longrightarrow> nOrderPos v \<noteq> nOrderPos ?w"
    using assms(1) by (fastforce simp: wallet_ok_def w(2))
  with add_spends_ok[OF assms(1,2), of ?w "nOrderPosNext s + 1"] assms(3,4) w obtain s' where
    "AddToSpends E h (s\<lparr>nOrderPosNext := nOrderPosNext s + 1, mapWallet := smap_put h ?w (mapWallet s)\<rparr>) = Inr s'"
    "wallet_ok E s'" "same_txs (smap_put h ?w (mapWallet s)) (mapWallet s')" by auto
  with t w(1) show ?thesis by (intro exI[of _ s'] exI[of _ ?w]) simp
qed

lemma same_txs_put_known: "smap_ok m \<Longrightarrow> same_txs (smap_put h w m) m' \<Longrightarrow> known m' = insert h (known m)"
  using same_txs_known[of "smap_put h w m" m'] by (auto simp: known_def smap_simps split: if_splits)

lemma AddToWallet_new_ok:
  assumes "wallet_ok E s" "nOrderPosNext s < max_int"
  shows "\<exists>r s'. AddToWallet E now wtxIn False s = Inr (r, s') \<and> wallet_ok E s' \<and>
    known (mapWallet s') = insert (we_GetHash E (wt_tx wtxIn)) (known (mapWallet s))"
proof -
  let ?h = "we_GetHash E (wt_tx wtxIn)"
  have ok: "smap_ok (mapWallet s)" "sorted_index s" using assms(1) by (auto simp: wallet_ok_def sorted_index_def)
  show ?thesis
  proof (cases "map_of (mapWallet s) ?h")
    case None
    from insert_new_tx_ok[OF assms(1) None refl assms(2), of now] obtain s1 w where
      s1: "insert_new_tx E now ?h wtxIn s = Inr s1" "wallet_ok E s1" "same_txs (smap_put ?h w (mapWallet s)) (mapWallet s1)"
      by blast
    have k: "known (mapWallet s1) = insert ?h (known (mapWallet s))" by (rule same_txs_put_known[OF ok(1) s1(3)])
    then obtain w1 where w1: "map_of (mapWallet s1) ?h = Some w1" by (auto simp: known_def)
    obtain r s' where f: "finish_add E ?h True False s1 = (r, s')" by fastforce
    have "wallet_ok E s'" "known (mapWallet s') = known (mapWallet s1)"
      using finish_add_ok[OF s1(2) w1 f] by (simp_all add: same_txs_known)
    with k None s1(1) f show ?thesis by (simp add: AddToWallet_def)
  next
    case (Some w)
    obtain u w' where m: "merge_tx wtxIn (BindWallet w) = (u, w')" by fastforce
    have c: "tx_core w' = tx_core w"
      using merge_tx_core[OF m] by (simp add: BindWallet_def wtx_MarkDirty_def tx_core_def)
    let ?s = "put_tx ?h w' s"
    have st: "same_txs (mapWallet s) (mapWallet ?s)" using put_same[OF ok(1) Some c] by (simp add: put_tx_def)
    have w1: "map_of (mapWallet ?s) ?h = Some w'" using ok(1) by (simp add: put_tx_def smap_simps)
    have "sorted_index ?s" using ok by (simp add: sorted_index_def put_tx_def smap_simps)
    with wallet_ok_same[OF assms(1) _ st] have wo: "wallet_ok E ?s" by (simp add: put_tx_def)
    obtain r s' where f: "finish_add E ?h False u ?s = (r, s')" by fastforce
    have "known (mapWallet s) = insert ?h (known (mapWallet s))" using Some by (auto simp: known_def)
    moreover have "wallet_ok E s'" "known (mapWallet s') = known (mapWallet s)"
      using finish_add_ok[OF wo w1 f] same_txs_known[OF st] same_txs_known[of "mapWallet ?s" "mapWallet s'"] by auto
    ultimately show ?thesis using Some m f by (simp add: AddToWallet_def)
  qed
qed

lemma AddToWallet_load_ok:
  assumes "wallet_ok E s" "map_of (mapWallet s) (we_GetHash E (wt_tx w)) = None" "nOrderPos w < max_int"
    "nOrderPos w < nOrderPosNext s" "\<And>g v. map_of (mapWallet s) g = Some v \<Longrightarrow> nOrderPos v \<noteq> nOrderPos w"
  shows "\<exists>r s'. AddToWallet E now w True s = Inr (r, s') \<and> wallet_ok E s' \<and>
    known (mapWallet s') = insert (we_GetHash E (wt_tx w)) (known (mapWallet s))"
proof -
  let ?h = "we_GetHash E (wt_tx w)"
  have b: "wt_tx (BindWallet w) = wt_tx w" "nOrderPos (BindWallet w) = nOrderPos w"
    by (simp_all add: BindWallet_def wtx_MarkDirty_def)
  have e: "put_tx ?h (BindWallet w) s = s\<lparr>nOrderPosNext := nOrderPosNext s, mapWallet := smap_put ?h (BindWallet w) (mapWallet s)\<rparr>"
    by (simp add: put_tx_def)
  have ok: "smap_ok (mapWallet s)" using assms(1) by (auto simp: wallet_ok_def sorted_index_def)
  from add_spends_ok[OF assms(1,2), of "BindWallet w" "nOrderPosNext s"] assms(3-5) obtain s' where
    "AddToSpends E ?h (put_tx ?h (BindWallet w) s) = Inr s'" "wallet_ok E s'"
    "same_txs (smap_put ?h (BindWallet w) (mapWallet s)) (mapWallet s')" by (auto simp: b e)
  with same_txs_put_known[OF ok] show ?thesis by (auto simp: AddToWallet_def intro: exI[of _ True])
qed

text \<open>C10. Adding a transaction, new, known already or loaded from the file, never fails an assertion, and
  keeps the wallet consistent: the index holds exactly the pairs of an outpoint and a transaction of
  the wallet (no coinbase) that spends it, every transaction is under its own hash, and no two have
  the same order position.\<close>
theorem AddToWallet_keeps_index:
  assumes "wallet_ok E s" "nOrderPosNext s < max_int"
    "load \<Longrightarrow> map_of (mapWallet s) (we_GetHash E (wt_tx w)) = None \<and> nOrderPos w < nOrderPosNext s"
    "\<And>g v. load \<Longrightarrow> map_of (mapWallet s) g = Some v \<Longrightarrow> nOrderPos v \<noteq> nOrderPos w"
  shows "\<exists>r s'. AddToWallet E now w load s = Inr (r, s') \<and> wallet_ok E s' \<and>
    known (mapWallet s') = insert (we_GetHash E (wt_tx w)) (known (mapWallet s))"
  using AddToWallet_new_ok[OF assms(1,2), of now w] AddToWallet_load_ok[OF assms(1), of w now] assms(2-4)
  by (cases load) auto

section \<open>What the index answers\<close>

lemma spent_iff:
  assumes "wallet_ok E s"
  shows "is_spent E hash n s \<longleftrightarrow> (\<exists>h w. map_of (mapWallet s) h = Some w \<and> \<not> IsCoinBase (wt_tx w) \<and>
    OutKey hash n \<in> set (inputs w) \<and> we_depth E w \<ge> 0)"
proof -
  have "(OutKey hash n, h) \<in> set (mapTxSpends s) \<longleftrightarrow>
      (\<exists>w. map_of (mapWallet s) h = Some w \<and> \<not> IsCoinBase (wt_tx w) \<and> OutKey hash n \<in> set (inputs w))" for h
    using assms by (auto simp: wallet_ok_def spenders_def)
  then show ?thesis by (force simp: is_spent_def list_ex_iff split: option.splits)
qed

text \<open>An output counts as spent exactly when some transaction of the wallet, not a coinbase and not
  conflicted (depth at least 0), spends it.\<close>
theorem is_spent_exact:
  assumes "wallet_ok E s"
  shows "is_spent E hash n s \<longleftrightarrow> (\<exists>h w. map_of (mapWallet s) h = Some w \<and> \<not> IsCoinBase (wt_tx w) \<and>
    OutKey hash n \<in> set (inputs w) \<and> we_depth E w \<ge> 0)"
  by (rule spent_iff[OF assms])

lemma fold_conflicts:
  "fold (\<lambda>o1 result. if P o1 then result else result \<union> f o1) os A = A \<union> (\<Union>o1 \<in> {o1 \<in> set os. \<not> P o1}. f o1)"
  by (induction os arbitrary: A) auto

lemma length_le_1: "distinct xs \<Longrightarrow> x \<in> set xs \<Longrightarrow> length xs \<le> 1 \<longleftrightarrow> (\<forall>y \<in> set xs. y = x)"
  by (cases xs; cases "tl xs") auto

text \<open>The conflicts of a transaction of the wallet are the transactions, itself among them, that spend
  one of its outpoints, taken over those of its outpoints that another transaction of the wallet spends
  too: there are none exactly when no other transaction shares an input with it.\<close>
theorem GetConflicts_exact:
  assumes "wallet_ok E s" "distinct (mapTxSpends s)" "map_of (mapWallet s) txid = Some w" "\<not> IsCoinBase (wt_tx w)"
  shows "GetConflicts txid s = {h. \<exists>o1 \<in> set (inputs w). (o1, h) \<in> spenders (mapWallet s) \<and>
    (\<exists>g. g \<noteq> txid \<and> (o1, g) \<in> spenders (mapWallet s))}"
proof -
  have idx: "set (mapTxSpends s) = spenders (mapWallet s)" using assms(1) by (simp add: wallet_ok_def)
  have d: "distinct (equal_range o1 (mapTxSpends s))" for o1
    using assms(2) by (auto simp: equal_range_def distinct_map inj_on_def)
  have own: "txid \<in> set (equal_range o1 (mapTxSpends s))" if "o1 \<in> set (inputs w)" for o1
    using that assms(3,4) by (auto simp: idx spenders_def)
  have "\<not> length (equal_range o1 (mapTxSpends s)) \<le> 1 \<longleftrightarrow> (\<exists>g. g \<noteq> txid \<and> (o1, g) \<in> spenders (mapWallet s))"
    if "o1 \<in> set (inputs w)" for o1
    using length_le_1[OF d own[OF that]] by (auto simp: idx)
  then show ?thesis
    by (auto simp: GetConflicts_def assms(3) fold_conflicts idx)
qed

section \<open>Smart times\<close>

lemma find_Some: "List.find P xs = Some x \<Longrightarrow> P x \<and> x \<in> set xs"
  by (induction xs) (auto split: if_splits)

text \<open>The smart time of a new transaction in a block lies between the block time (or the time of receipt,
  when that is earlier) and five minutes past the time of receipt; it is the block time itself when
  that is not in the future and no other entry of the wallet is later than it.\<close>
theorem smart_time_bounds:
  assumes "0 \<le> received" "0 \<le> blocktime"
  shows "min blocktime received \<le> smart_time E hash received blocktime s \<and>
    smart_time E hash received blocktime s \<le> received + 300 \<and>
    (blocktime \<le> received \<and> (\<forall>i \<in> set (OrderedTxItems E s). snd i \<noteq> Inl hash \<longrightarrow> item_time s (snd i) \<le> blocktime) \<longrightarrow>
       smart_time E hash received blocktime s = blocktime)"
proof -
  let ?items = "List.filter (\<lambda>i. snd i \<noteq> Inl hash) (rev (OrderedTxItems E s))"
  let ?times = "List.map (\<lambda>i. item_time s (snd i)) ?items"
  show ?thesis
  proof (cases "List.find (\<lambda>t. t \<le> received + 300) ?times")
    case None
    then have "smart_time E hash received blocktime s = max 0 (min blocktime received)" by (simp add: smart_time_def Let_def)
    with assms show ?thesis by auto
  next
    case (Some t)
    then have st: "smart_time E hash received blocktime s = max t (min blocktime (max t received))"
      by (simp add: smart_time_def Let_def)
    have t: "t \<le> received + 300" "t \<in> set ?times" using find_Some[OF Some] by auto
    have "t \<le> blocktime" if "\<forall>i \<in> set (OrderedTxItems E s). snd i \<noteq> Inl hash \<longrightarrow> item_time s (snd i) \<le> blocktime"
      using t(2) that by auto
    moreover have "min blocktime received \<le> max t (min blocktime (max t received))"
      "max t (min blocktime (max t received)) \<le> received + 300" using t(1) by auto
    moreover have "max t (min blocktime (max t received)) = blocktime" if "blocktime \<le> received" "t \<le> blocktime"
      using that by auto
    ultimately show ?thesis unfolding st by blast
  qed
qed

section \<open>Concrete wallets\<close>

definition spend_tx :: "nat \<Rightarrow> CTransaction" where
  "spend_tx n = \<lparr>tx_nVersion = 1, vin = [\<lparr>prevout = \<lparr>op_hash = set64 8 7, op_n = 0\<rparr>, scriptSig = [], nSequence = -1\<rparr>],
     vout = [\<lparr>nValue = 5, scriptPubKey = []\<rparr>], nLockTime = of_nat n\<rparr>"

definition demo_wtx :: "nat \<Rightarrow> CWalletTx" where
  "demo_wtx n = \<lparr>wt_tx = spend_tx n, wt_hashBlock = 0, wt_nIndex = -1, wt_vMerkleBranch = [], mapValue = [(''comment'', [CHR ''a''])],
     vOrderForm = [], fTimeReceivedIsTxTime = 0, nTimeReceived = 0, nTimeSmart = 0, fFromMe = True,
     strFromAccount = ''savings'', nOrderPos = -1, fDebitCached = False, fCreditCached = False,
     fAvailableCreditCached = False, fChangeCached = False\<rparr>"

definition demo_wtx_env :: wtx_env where
  "demo_wtx_env = \<lparr>we_GetHash = (\<lambda>t. unat (nLockTime t)),
     we_blank = (demo_wtx 0)\<lparr>wt_tx := CTransaction_Null, mapValue := [], fFromMe := False, strFromAccount := []\<rparr>,
     we_depth = (\<lambda>w. 0), we_BlockTime = (\<lambda>b. Some 90), we_accounting = [(0, 50)], we_WriteTx = (\<lambda>w. True),
     we_walletnotify = False\<rparr>"

definition empty_wallet :: wtx_state where
  "empty_wallet = \<lparr>mapWallet = [], mapTxSpends = [], nOrderPosNext = 0, wtx_events = []\<rparr>"

lemma empty_wallet_ok: "wallet_ok E empty_wallet"
  by (simp add: wallet_ok_def sorted_index_def empty_wallet_def spenders_def)

definition after_first :: wtx_state where
  "after_first = \<lparr>mapWallet = [(1, (demo_wtx 1)\<lparr>nTimeReceived := 100, nTimeSmart := 100, nOrderPos := 0\<rparr>)],
     mapTxSpends = [(OutKey 7 0, 1)], nOrderPosNext = 1, wtx_events = [TransactionChanged 1 True]\<rparr>"

lemma demo_not_coinbase: "\<not> IsCoinBase (spend_tx n)"
  by (simp add: IsCoinBase_def spend_tx_def OutPoint_IsNull_def ueq64_def set64_def)

lemma demo_inputs: "wt_tx w = spend_tx n \<Longrightarrow> inputs w = [OutKey 7 0]"
  by (simp add: inputs_def spend_tx_def key_of_def set64_def)

lemmas demo_eval = AddToWallet_def insert_new_tx_def finish_add_def put_tx_def AddToSpends_def AddToSpends_out_def SyncMetaData_def
  equal_range_def tx_touch_def tx_at_def Let_def max_int_def demo_not_coinbase demo_inputs BindWallet_def wtx_MarkDirty_def
  copy_meta_def demo_wtx_env_def demo_wtx_def

lemma demo_hash: "unat (nLockTime (spend_tx 1)) = 1" "unat (nLockTime (spend_tx 2)) = 2"
  by (simp_all add: spend_tx_def del: One_nat_def)

lemma demo_first: "AddToWallet demo_wtx_env 100 (demo_wtx 1) False empty_wallet = Inr (True, after_first)"
  by (simp add: demo_eval demo_hash empty_wallet_def after_first_def del: One_nat_def)

lemma after_first_ok: "wallet_ok demo_wtx_env after_first"
proof -
  have "0 < max_int" by (simp add: max_int_def)
  from AddToWallet_new_ok[OF empty_wallet_ok, of demo_wtx_env 100 "demo_wtx 1"] this demo_first show ?thesis
    by (auto simp: empty_wallet_def)
qed

text \<open>
  \<open>EraseFromWallet\<close> leaves the index as it is. When a conflict of an erased transaction comes in,
  \<open>SyncMetaData\<close> makes a blank entry under the erased id; with a blank order position below all
  others it is the oldest, and its empty metadata overwrites that of the new transaction.
\<close>

lemma erased_entry_comes_back:
  "AddToWallet demo_wtx_env 200 (demo_wtx 2) False (EraseFromWallet True 1 after_first) =
     Inr (True, \<lparr>mapWallet = [(1, we_blank demo_wtx_env),
        (2, (demo_wtx 2)\<lparr>nTimeReceived := 200, nTimeSmart := 0, nOrderPos := 1, mapValue := [], fFromMe := False,
              strFromAccount := []\<rparr>)],
       mapTxSpends = [(OutKey 7 0, 1), (OutKey 7 0, 2)], nOrderPosNext = 2,
       wtx_events = [TransactionChanged 1 True, TransactionChanged 2 True]\<rparr>)"
  by (simp add: demo_eval demo_hash after_first_def EraseFromWallet_def smap_del_def del: One_nat_def)

definition two_spends :: wtx_state where
  "two_spends = after_first\<lparr>mapWallet := mapWallet after_first @ [(2, (demo_wtx 2)\<lparr>nOrderPos := 1\<rparr>)]\<rparr>"

theorem conflicts_share_metadata_witness:
  "\<exists>s' src. AddToSpends_out demo_wtx_env (OutKey 7 0) 2 two_spends = Inr s' \<and>
      src \<in> set (equal_range (OutKey 7 0) (mapTxSpends s')) \<and>
      (\<forall>h \<in> set (equal_range (OutKey 7 0) (mapTxSpends s')).
         nOrderPos (tx_at demo_wtx_env src (mapWallet two_spends)) \<le> nOrderPos (tx_at demo_wtx_env h (mapWallet two_spends))) \<and>
      map_of (mapWallet s') = (\<lambda>h. if h \<in> set (equal_range (OutKey 7 0) (mapTxSpends s'))
         then Some (copy_meta (tx_at demo_wtx_env src (mapWallet two_spends)) (tx_at demo_wtx_env h (mapWallet two_spends)))
         else map_of (mapWallet two_spends) h)"
proof (rule conflicts_share_metadata)
  show "smap_ok (mapWallet two_spends)" by (simp add: two_spends_def after_first_def smap_ok_def)
  show "ids_known two_spends"
    by (auto simp: ids_known_def two_spends_def after_first_def known_def max_int_def split: if_splits)
  show "map_of (mapWallet two_spends) 2 = Some ((demo_wtx 2)\<lparr>nOrderPos := 1\<rparr>)"
    by (simp add: two_spends_def after_first_def)
qed

theorem AddToWallet_keeps_index_witness:
  "\<exists>r s'. AddToWallet demo_wtx_env 200 (demo_wtx 2) False after_first = Inr (r, s') \<and> wallet_ok demo_wtx_env s' \<and>
    known (mapWallet s') = insert (we_GetHash demo_wtx_env (wt_tx (demo_wtx 2))) (known (mapWallet after_first))"
  by (rule AddToWallet_keeps_index[OF after_first_ok]) (simp_all add: after_first_def max_int_def)

theorem is_spent_exact_witness:
  "is_spent demo_wtx_env 7 0 after_first \<longleftrightarrow>
    (\<exists>h w. map_of (mapWallet after_first) h = Some w \<and> \<not> IsCoinBase (wt_tx w) \<and>
      OutKey 7 0 \<in> set (inputs w) \<and> we_depth demo_wtx_env w \<ge> 0)"
  by (rule is_spent_exact[OF after_first_ok])

theorem GetConflicts_exact_witness:
  "GetConflicts 1 after_first = {h. \<exists>o1 \<in> set (inputs ((demo_wtx 1)\<lparr>nTimeReceived := 100, nTimeSmart := 100, nOrderPos := 0\<rparr>)).
    (o1, h) \<in> spenders (mapWallet after_first) \<and> (\<exists>g. g \<noteq> 1 \<and> (o1, g) \<in> spenders (mapWallet after_first))}"
  by (rule GetConflicts_exact[OF after_first_ok]) (simp_all add: after_first_def demo_not_coinbase demo_wtx_def)

theorem smart_time_bounds_witness:
  "min 90 100 \<le> smart_time demo_wtx_env 1 100 90 after_first \<and> smart_time demo_wtx_env 1 100 90 after_first \<le> 100 + 300"
  using smart_time_bounds[of 100 90 demo_wtx_env 1 after_first] by simp

end
