(* ===== verification/Crypter.thy ===== *)
theory Crypter
  imports StdMap
begin

text \<open>
  Private keys and their encryption: \<open>CKey\<close> (key.h), \<open>CCrypter\<close>, \<open>EncryptSecret\<close>,
  \<open>DecryptSecret\<close> and \<open>CCryptoKeyStore\<close> (crypter.cpp, crypter.h) on the maps of
  \<open>CBasicKeyStore\<close> (keystore.h). OpenSSL, the elliptic curve functions and the file
  keystore.cpp are not part of the repository: they are the fields of a record \<open>crypto_env\<close>
  that the definitions take, and what the code relies on them for is stated as hypotheses
  (\<open>cipher_laws\<close>, \<open>key_ok\<close>).
\<close>

section \<open>Keys\<close>

type_synonym CPubKey = bytes
type_synonym CKeyID = "160 word"

record CKey =
  fValid :: bool
  fCompressed :: bool
  vch :: bytes

record crypto_env =
  BytesToKey :: "bytes \<Rightarrow> bytes \<Rightarrow> u32 \<Rightarrow> int \<times> bytes \<times> bytes"
  EncUpdate :: "bytes \<Rightarrow> bytes \<Rightarrow> bytes \<Rightarrow> bytes option"
  EncFinal :: "bytes \<Rightarrow> bytes \<Rightarrow> bytes \<Rightarrow> bytes option"
  DecUpdate :: "bytes \<Rightarrow> bytes \<Rightarrow> bytes \<Rightarrow> bytes option"
  DecFinal :: "bytes \<Rightarrow> bytes \<Rightarrow> bytes \<Rightarrow> bytes option"
  CipherInit :: "bytes \<Rightarrow> bytes \<Rightarrow> bool"
  KeyCheck :: "bytes \<Rightarrow> bool"
  GetPubKey :: "CKey \<Rightarrow> CPubKey"
  PubKey_GetID :: "CPubKey \<Rightarrow> CKeyID"
  PubKey_GetHash :: "CPubKey \<Rightarrow> bytes"
  PubKey_IsCompressed :: "CPubKey \<Rightarrow> bool"
  BasicAddKeyPubKey :: "CKey \<Rightarrow> CPubKey \<Rightarrow> (CKeyID, CKey) smap \<Rightarrow> bool \<times> (CKeyID, CKey) smap"

definition CKey_Null :: CKey where
  "CKey_Null = \<lparr>fValid = False, fCompressed = False, vch = replicate 32 0\<rparr>"

definition CKey_Set :: "'e crypto_env_scheme \<Rightarrow> bytes \<Rightarrow> bool \<Rightarrow> CKey \<Rightarrow> CKey" where
  "CKey_Set E p fCompressedIn k =
     (if length p \<noteq> 32 then k\<lparr>fValid := False\<rparr>
      else if KeyCheck E p then k\<lparr>vch := p, fValid := True, fCompressed := fCompressedIn\<rparr>
      else k\<lparr>fValid := False\<rparr>)"

definition key_size :: "CKey \<Rightarrow> nat" where
  "key_size k = (if fValid k then 32 else 0)"

definition key_bytes :: "CKey \<Rightarrow> bytes" where
  "key_bytes k = take (key_size k) (vch k)"

definition key_eq :: "CKey \<Rightarrow> CKey \<Rightarrow> bool" where
  "key_eq a b \<longleftrightarrow> fCompressed a = fCompressed b \<and> key_size a = key_size b \<and>
     take (key_size a) (vch a) = take (key_size a) (vch b)"

section \<open>The cipher\<close>

definition WALLET_CRYPTO_KEY_SIZE :: nat where "WALLET_CRYPTO_KEY_SIZE = 32"
definition WALLET_CRYPTO_SALT_SIZE :: nat where "WALLET_CRYPTO_SALT_SIZE = 8"
definition AES_BLOCK_SIZE :: nat where "AES_BLOCK_SIZE = 16"

record CMasterKey =
  vchCryptedKey :: bytes
  vchSalt :: bytes
  nDerivationMethod :: u32
  nDeriveIterations :: u32
  vchOtherDerivationParameters :: bytes

definition CMasterKey_Init :: CMasterKey where
  "CMasterKey_Init = \<lparr>vchCryptedKey = [], vchSalt = [], nDerivationMethod = 0,
     nDeriveIterations = 25000, vchOtherDerivationParameters = []\<rparr>"

record CCrypter =
  chKey :: bytes
  chIV :: bytes
  fKeySet :: bool

text \<open>\<open>OPENSSL_cleanse\<close> overwrites with zeros. The arrays of a new \<open>CCrypter\<close> are not initialised.\<close>

definition cleanse :: "bytes \<Rightarrow> bytes" where
  "cleanse b = replicate (length b) 0"

definition CleanKey :: "CCrypter \<Rightarrow> CCrypter" where
  "CleanKey c = c\<lparr>chKey := cleanse (chKey c), chIV := cleanse (chIV c), fKeySet := False\<rparr>"

definition new_crypter :: "bytes \<Rightarrow> bytes \<Rightarrow> CCrypter" where
  "new_crypter k0 iv0 = \<lparr>chKey = k0, chIV = iv0, fKeySet = False\<rparr>"

definition SetKeyFromPassphrase ::
    "'e crypto_env_scheme \<Rightarrow> bytes \<Rightarrow> bytes \<Rightarrow> u32 \<Rightarrow> u32 \<Rightarrow> CCrypter \<Rightarrow> bool \<times> CCrypter" where
  "SetKeyFromPassphrase E strKeyData chSalt nRounds nMethod c =
     (if nRounds < 1 \<or> length chSalt \<noteq> WALLET_CRYPTO_SALT_SIZE then (False, c)
      else
        let (i, k, v) = (if nMethod = 0 then BytesToKey E chSalt strKeyData nRounds else (0, chKey c, chIV c));
            c1 = c\<lparr>chKey := k, chIV := v\<rparr> in
        if i \<noteq> int WALLET_CRYPTO_KEY_SIZE
        then (False, c1\<lparr>chKey := cleanse (chKey c1), chIV := cleanse (chIV c1)\<rparr>)
        else (True, c1\<lparr>fKeySet := True\<rparr>))"

definition SetKey :: "bytes \<Rightarrow> bytes \<Rightarrow> CCrypter \<Rightarrow> bool \<times> CCrypter" where
  "SetKey chNewKey chNewIV c =
     (if length chNewKey \<noteq> WALLET_CRYPTO_KEY_SIZE \<or> length chNewIV \<noteq> WALLET_CRYPTO_KEY_SIZE then (False, c)
      else (True, c\<lparr>chKey := chNewKey, chIV := chNewIV, fKeySet := True\<rparr>))"

text \<open>
  The three calls of the cipher write into one buffer, the second behind the first, and
  \<open>resize\<close> cuts it to what was written. \<open>None\<close> stands for a call that returns 0.
\<close>

definition run_cipher ::
    "bool \<Rightarrow> bytes option \<Rightarrow> bytes option \<Rightarrow> nat \<Rightarrow> bytes option" where
  "run_cipher init upd fin nBuf =
     (if \<not> init then None else
      case upd of None \<Rightarrow> None | Some u \<Rightarrow>
      (case fin of None \<Rightarrow> None | Some f \<Rightarrow>
        Some (take (length u + length f) (memcpy_at (length u) f (memcpy_at 0 u (replicate nBuf 0))))))"

definition Encrypt :: "'e crypto_env_scheme \<Rightarrow> CCrypter \<Rightarrow> bytes \<Rightarrow> bytes option" where
  "Encrypt E c p =
     (if \<not> fKeySet c then None
      else run_cipher (CipherInit E (chKey c) (chIV c)) (EncUpdate E (chKey c) (chIV c) p)
             (EncFinal E (chKey c) (chIV c) p) (length p + AES_BLOCK_SIZE))"

definition Decrypt :: "'e crypto_env_scheme \<Rightarrow> CCrypter \<Rightarrow> bytes \<Rightarrow> bytes option" where
  "Decrypt E c p =
     (if \<not> fKeySet c then None
      else run_cipher (CipherInit E (chKey c) (chIV c)) (DecUpdate E (chKey c) (chIV c) p)
             (DecFinal E (chKey c) (chIV c) p) (length p))"

definition EncryptSecret :: "'e crypto_env_scheme \<Rightarrow> bytes \<Rightarrow> bytes \<Rightarrow> bytes \<Rightarrow> bytes option" where
  "EncryptSecret E vMasterKey vchPlaintext nIV =
     (case SetKey vMasterKey (take WALLET_CRYPTO_KEY_SIZE nIV) (new_crypter [] []) of
        (ok, c) \<Rightarrow> if \<not> ok then None else Encrypt E c vchPlaintext)"

definition DecryptSecret :: "'e crypto_env_scheme \<Rightarrow> bytes \<Rightarrow> bytes \<Rightarrow> bytes \<Rightarrow> bytes option" where
  "DecryptSecret E vMasterKey vchCiphertext nIV =
     (case SetKey vMasterKey (take WALLET_CRYPTO_KEY_SIZE nIV) (new_crypter [] []) of
        (ok, c) \<Rightarrow> if \<not> ok then None else Decrypt E c vchCiphertext)"

section \<open>The key store\<close>

record CCryptoKeyStore =
  mapKeys :: "(CKeyID, CKey) smap"
  mapCryptedKeys :: "(CKeyID, CPubKey \<times> bytes) smap"
  ks_vMasterKey :: bytes
  fUseCrypto :: bool
  fDecryptionThoroughlyChecked :: bool

definition CCryptoKeyStore_Init :: CCryptoKeyStore where
  "CCryptoKeyStore_Init = \<lparr>mapKeys = [], mapCryptedKeys = [], ks_vMasterKey = [],
     fUseCrypto = False, fDecryptionThoroughlyChecked = False\<rparr>"

definition ks_IsCrypted :: "CCryptoKeyStore \<Rightarrow> bool" where
  "ks_IsCrypted s = fUseCrypto s"

definition ks_IsLocked :: "CCryptoKeyStore \<Rightarrow> bool" where
  "ks_IsLocked s = (if \<not> ks_IsCrypted s then False else ks_vMasterKey s = [])"

definition SetCrypted :: "CCryptoKeyStore \<Rightarrow> bool \<times> CCryptoKeyStore" where
  "SetCrypted s =
     (if fUseCrypto s then (True, s)
      else if mapKeys s \<noteq> [] then (False, s)
      else (True, s\<lparr>fUseCrypto := True\<rparr>))"

definition ks_Lock :: "CCryptoKeyStore \<Rightarrow> bool \<times> CCryptoKeyStore" where
  "ks_Lock s =
     (case SetCrypted s of (ok, s1) \<Rightarrow>
        if \<not> ok then (False, s1) else (True, s1\<lparr>ks_vMasterKey := []\<rparr>))"

text \<open>What the loop of \<open>Unlock\<close> checks for one entry, and the loop: the flags \<open>keyPass\<close>, \<open>keyFail\<close>.\<close>

definition opens :: "'e crypto_env_scheme \<Rightarrow> bytes \<Rightarrow> CPubKey \<times> bytes \<Rightarrow> bool" where
  "opens E mk e =
     (case DecryptSecret E mk (snd e) (PubKey_GetHash E (fst e)) of
        None \<Rightarrow> False
      | Some vchSecret \<Rightarrow>
          if length vchSecret \<noteq> 32 then False
          else GetPubKey E (CKey_Set E vchSecret (PubKey_IsCompressed E (fst e)) CKey_Null) = fst e)"

fun unlock_loop ::
    "'e crypto_env_scheme \<Rightarrow> bytes \<Rightarrow> bool \<Rightarrow> (CKeyID, CPubKey \<times> bytes) smap \<Rightarrow> bool \<Rightarrow> bool \<times> bool" where
  "unlock_loop E mk checked [] keyPass = (keyPass, False)"
| "unlock_loop E mk checked ((a, e) # m) keyPass =
     (if \<not> opens E mk e then (keyPass, True)
      else if checked then (True, False)
      else unlock_loop E mk checked m True)"

definition ks_Unlock :: "'e crypto_env_scheme \<Rightarrow> bytes \<Rightarrow> CCryptoKeyStore \<Rightarrow> (bool \<times> CCryptoKeyStore) result" where
  "ks_Unlock E vMasterKeyIn s =
     (case SetCrypted s of (ok, s1) \<Rightarrow>
        if \<not> ok then Inr (False, s1)
        else case unlock_loop E vMasterKeyIn (fDecryptionThoroughlyChecked s1) (mapCryptedKeys s1) False of
          (keyPass, keyFail) \<Rightarrow>
            if keyPass \<and> keyFail then Inl AssertFailed
            else if keyFail \<or> \<not> keyPass then Inr (False, s1)
            else Inr (True, s1\<lparr>ks_vMasterKey := vMasterKeyIn, fDecryptionThoroughlyChecked := True\<rparr>))"

definition ks_AddCryptedKey ::
    "'e crypto_env_scheme \<Rightarrow> CPubKey \<Rightarrow> bytes \<Rightarrow> CCryptoKeyStore \<Rightarrow> bool \<times> CCryptoKeyStore" where
  "ks_AddCryptedKey E vchPubKey vchCryptedSecret s =
     (case SetCrypted s of (ok, s1) \<Rightarrow>
        if \<not> ok then (False, s1)
        else (True, s1\<lparr>mapCryptedKeys :=
               smap_put (PubKey_GetID E vchPubKey) (vchPubKey, vchCryptedSecret) (mapCryptedKeys s1)\<rparr>))"

definition ks_AddKeyPubKey ::
    "'e crypto_env_scheme \<Rightarrow> CKey \<Rightarrow> CPubKey \<Rightarrow> CCryptoKeyStore \<Rightarrow> bool \<times> CCryptoKeyStore" where
  "ks_AddKeyPubKey E key pubkey s =
     (if \<not> ks_IsCrypted s then
        (case BasicAddKeyPubKey E key pubkey (mapKeys s) of (ok, m) \<Rightarrow> (ok, s\<lparr>mapKeys := m\<rparr>))
      else if ks_IsLocked s then (False, s)
      else case EncryptSecret E (ks_vMasterKey s) (key_bytes key) (PubKey_GetHash E pubkey) of
             None \<Rightarrow> (False, s)
           | Some vchCryptedSecret \<Rightarrow> ks_AddCryptedKey E pubkey vchCryptedSecret s)"

definition ks_HaveKey :: "CCryptoKeyStore \<Rightarrow> CKeyID \<Rightarrow> bool" where
  "ks_HaveKey s a =
     (if \<not> ks_IsCrypted s then map_of (mapKeys s) a \<noteq> None else map_of (mapCryptedKeys s) a \<noteq> None)"

definition ks_GetKey :: "'e crypto_env_scheme \<Rightarrow> CCryptoKeyStore \<Rightarrow> CKeyID \<Rightarrow> CKey \<Rightarrow> bool \<times> CKey" where
  "ks_GetKey E s a keyOut =
     (if \<not> ks_IsCrypted s then
        (case map_of (mapKeys s) a of None \<Rightarrow> (False, keyOut) | Some k \<Rightarrow> (True, k))
      else case map_of (mapCryptedKeys s) a of
        None \<Rightarrow> (False, keyOut)
      | Some (vchPubKey, vchCryptedSecret) \<Rightarrow>
          (case DecryptSecret E (ks_vMasterKey s) vchCryptedSecret (PubKey_GetHash E vchPubKey) of
             None \<Rightarrow> (False, keyOut)
           | Some vchSecret \<Rightarrow>
               if length vchSecret \<noteq> 32 then (False, keyOut)
               else (True, CKey_Set E vchSecret (PubKey_IsCompressed E vchPubKey) keyOut)))"

definition ks_GetKeys :: "CCryptoKeyStore \<Rightarrow> CKeyID list" where
  "ks_GetKeys s = (if \<not> ks_IsCrypted s then List.map fst (mapKeys s) else List.map fst (mapCryptedKeys s))"

fun encrypt_loop ::
    "'e crypto_env_scheme \<Rightarrow> bytes \<Rightarrow> (CKeyID, CKey) smap \<Rightarrow> CCryptoKeyStore \<Rightarrow> bool \<times> CCryptoKeyStore" where
  "encrypt_loop E mk [] s = (True, s)"
| "encrypt_loop E mk ((a, key) # m) s =
     (case EncryptSecret E mk (key_bytes key) (PubKey_GetHash E (GetPubKey E key)) of
        None \<Rightarrow> (False, s)
      | Some vchCryptedSecret \<Rightarrow>
          (case ks_AddCryptedKey E (GetPubKey E key) vchCryptedSecret s of (ok, s1) \<Rightarrow>
             if \<not> ok then (False, s1) else encrypt_loop E mk m s1))"

definition ks_EncryptKeys ::
    "'e crypto_env_scheme \<Rightarrow> bytes \<Rightarrow> CCryptoKeyStore \<Rightarrow> bool \<times> CCryptoKeyStore" where
  "ks_EncryptKeys E vMasterKeyIn s =
     (if mapCryptedKeys s \<noteq> [] \<or> ks_IsCrypted s then (False, s)
      else case encrypt_loop E vMasterKeyIn (mapKeys s) (s\<lparr>fUseCrypto := True\<rparr>) of
        (ok, s1) \<Rightarrow> if \<not> ok then (False, s1) else (True, s1\<lparr>mapKeys := []\<rparr>))"

section \<open>What the cipher and the keys are relied on for\<close>

text \<open>
  AES-256-CBC with a 32-byte key and initialisation vector: the calls succeed, what they write
  fits the buffers, and decryption inverts encryption.
\<close>

definition cipher_laws :: "'e crypto_env_scheme \<Rightarrow> bool" where
  "cipher_laws E \<longleftrightarrow>
     (\<forall>k iv p. length k = 32 \<longrightarrow> length iv = 32 \<longrightarrow>
        CipherInit E k iv \<and>
        (\<exists>u f u' f'. EncUpdate E k iv p = Some u \<and> EncFinal E k iv p = Some f \<and>
           length u + length f \<le> length p + 16 \<and>
           DecUpdate E k iv (u @ f) = Some u' \<and> DecFinal E k iv (u @ f) = Some f' \<and>
           length u' + length f' \<le> length (u @ f) \<and> u' @ f' = p))"

text \<open>A valid key under its own id: its public key tells whether it is compressed.\<close>

definition key_ok :: "'e crypto_env_scheme \<Rightarrow> CKeyID \<Rightarrow> CKey \<Rightarrow> bool" where
  "key_ok E a k \<longleftrightarrow>
     fValid k \<and> length (vch k) = 32 \<and> KeyCheck E (vch k) \<and>
     PubKey_IsCompressed E (GetPubKey E k) = fCompressed k \<and>
     PubKey_GetID E (GetPubKey E k) = a \<and> length (PubKey_GetHash E (GetPubKey E k)) = 32"

text \<open>\<open>CBasicKeyStore::AddKeyPubKey\<close> (keystore.cpp): the key is stored under the id of its public key.\<close>

definition basic_add_law :: "'e crypto_env_scheme \<Rightarrow> bool" where
  "basic_add_law E \<longleftrightarrow> (\<forall>k p m. BasicAddKeyPubKey E k p m = (True, smap_put (PubKey_GetID E p) k m))"

lemma run_cipher_Some:
  "length u + length f \<le> n \<Longrightarrow> run_cipher True (Some u) (Some f) n = Some (u @ f)"
  by (simp add: run_cipher_def memcpy_at_def)

lemma EncryptSecret_DecryptSecret:
  assumes "cipher_laws E" "length mk = 32" "length iv = 32"
  shows "\<exists>c. EncryptSecret E mk p iv = Some c \<and> DecryptSecret E mk c iv = Some p"
proof -
  from assms obtain u f u' f' where
      i: "CipherInit E mk iv" and e: "EncUpdate E mk iv p = Some u" "EncFinal E mk iv p = Some f"
      and l: "length u + length f \<le> length p + 16"
      and d: "DecUpdate E mk iv (u @ f) = Some u'" "DecFinal E mk iv (u @ f) = Some f'"
      and l': "length u' + length f' \<le> length (u @ f)" and "u' @ f' = p"
    unfolding cipher_laws_def by metis
  have "EncryptSecret E mk p iv = Some (u @ f)"
    using assms(2,3) run_cipher_Some[OF l]
    by (simp add: EncryptSecret_def SetKey_def WALLET_CRYPTO_KEY_SIZE_def AES_BLOCK_SIZE_def Encrypt_def i e)
  moreover have "DecryptSecret E mk (u @ f) iv = Some p"
    using assms(2,3) run_cipher_Some[OF l'] \<open>u' @ f' = p\<close>
    by (simp add: DecryptSecret_def SetKey_def WALLET_CRYPTO_KEY_SIZE_def Decrypt_def i d)
  ultimately show ?thesis by blast
qed

lemma DecryptSecret_locked [simp]: "DecryptSecret E [] c iv = None"
  by (simp add: DecryptSecret_def SetKey_def WALLET_CRYPTO_KEY_SIZE_def)

text \<open>The entry that encryption makes of a key, and its reading back.\<close>

definition crypt :: "'e crypto_env_scheme \<Rightarrow> bytes \<Rightarrow> CKey \<Rightarrow> CPubKey \<times> bytes" where
  "crypt E mk k = (GetPubKey E k, the (EncryptSecret E mk (key_bytes k) (PubKey_GetHash E (GetPubKey E k))))"

lemma key_ok_bytes: "key_ok E a k \<Longrightarrow> key_bytes k = vch k"
  by (simp add: key_ok_def key_bytes_def key_size_def)

lemma key_ok_Set: "key_ok E a k \<Longrightarrow> CKey_Set E (vch k) (fCompressed k) out = k"
  by (cases k) (simp add: key_ok_def CKey_Set_def)

lemma crypt_reads_back:
  assumes "cipher_laws E" "length mk = 32" "key_ok E a k"
  shows "EncryptSecret E mk (key_bytes k) (PubKey_GetHash E (GetPubKey E k)) = Some (snd (crypt E mk k))"
    and "DecryptSecret E mk (snd (crypt E mk k)) (PubKey_GetHash E (GetPubKey E k)) = Some (vch k)"
proof -
  from assms(3) have "length (PubKey_GetHash E (GetPubKey E k)) = 32" by (simp add: key_ok_def)
  from EncryptSecret_DecryptSecret[OF assms(1,2) this, of "key_bytes k"] key_ok_bytes[OF assms(3)]
  show "EncryptSecret E mk (key_bytes k) (PubKey_GetHash E (GetPubKey E k)) = Some (snd (crypt E mk k))"
    and "DecryptSecret E mk (snd (crypt E mk k)) (PubKey_GetHash E (GetPubKey E k)) = Some (vch k)"
    by (auto simp: crypt_def)
qed

lemma fst_crypt [simp]: "fst (crypt E mk k) = GetPubKey E k"
  by (simp add: crypt_def)

lemma opens_crypt:
  assumes "cipher_laws E" "length mk = 32" "key_ok E a k"
  shows "opens E mk (crypt E mk k)"
  using crypt_reads_back(2)[OF assms] key_ok_Set[OF assms(3)] assms(3)
  by (simp add: opens_def key_ok_def)

section \<open>Locking and unlocking\<close>

lemma unlock_loop_unchecked:
  "unlock_loop E mk False m p =
     (p \<or> (m \<noteq> [] \<and> opens E mk (snd (hd m))), \<exists>e \<in> set m. \<not> opens E mk (snd e))"
  by (induction m arbitrary: p) auto

lemma unlock_loop_all:
  "\<forall>e \<in> set m. opens E mk (snd e) \<Longrightarrow> unlock_loop E mk c m p = (p \<or> m \<noteq> [], False)"
  by (induction m arbitrary: p) auto

lemma SetCrypted_crypted [simp]: "fUseCrypto s \<Longrightarrow> SetCrypted s = (True, s)"
  by (simp add: SetCrypted_def)

text \<open>The first \<open>Unlock\<close> of an encrypted store tries every key: it succeeds, and then keeps
  the master key, exactly when there is a key and all of them decrypt to the secret of their public key; when the
  first one does not it changes nothing and returns false; when the first does and a later one does not, the process aborts.
\<close>

theorem Unlock_outcome:
  assumes "fUseCrypto s" "\<not> fDecryptionThoroughlyChecked s"
  shows "ks_Unlock E mk s =
    (if mapCryptedKeys s = [] \<or> \<not> opens E mk (snd (mapCryptedKeys s ! 0)) then Inr (False, s)
     else if list_all (\<lambda>e. opens E mk (snd e)) (mapCryptedKeys s)
     then Inr (True, s\<lparr>ks_vMasterKey := mk, fDecryptionThoroughlyChecked := True\<rparr>)
     else Inl AssertFailed)"
proof (cases "mapCryptedKeys s")
  case Nil
  then show ?thesis using assms by (simp add: ks_Unlock_def)
next
  case (Cons e m)
  then show ?thesis
    using assms by (auto simp: ks_Unlock_def unlock_loop_unchecked list_all_iff)
qed

section \<open>The store as a map from ids to keys\<close>

text \<open>
  The runs of a store under one master key, with the keys added so far: keys are added, the
  store is encrypted, locked and unlocked, each call with whatever it returns.
\<close>

inductive ks_run :: "'e crypto_env_scheme \<Rightarrow> bytes \<Rightarrow> CCryptoKeyStore \<Rightarrow> (CKeyID \<rightharpoonup> CKey) \<Rightarrow> bool"
  for E :: "'e crypto_env_scheme" and mk :: bytes where
  run_init: "ks_run E mk CCryptoKeyStore_Init Map.empty"
| run_add: "ks_run E mk s A \<Longrightarrow> key_ok E (PubKey_GetID E (GetPubKey E k)) k \<Longrightarrow>
    ks_AddKeyPubKey E k (GetPubKey E k) s = (True, s') \<Longrightarrow>
    ks_run E mk s' (A(PubKey_GetID E (GetPubKey E k) \<mapsto> k))"
| run_refused: "ks_run E mk s A \<Longrightarrow> key_ok E (PubKey_GetID E (GetPubKey E k)) k \<Longrightarrow>
    ks_AddKeyPubKey E k (GetPubKey E k) s = (False, s') \<Longrightarrow> ks_run E mk s' A"
| run_lock: "ks_run E mk s A \<Longrightarrow> ks_Lock s = (b, s') \<Longrightarrow> ks_run E mk s' A"
| run_unlock: "ks_run E mk s A \<Longrightarrow> ks_Unlock E mk s = Inr (b, s') \<Longrightarrow> ks_run E mk s' A"
| run_encrypt: "ks_run E mk s A \<Longrightarrow> ks_EncryptKeys E mk s = (b, s') \<Longrightarrow> ks_run E mk s' A"

text \<open>The two shapes of the store, as the comment in crypter.h describes them.\<close>

definition plain_rep :: "CCryptoKeyStore \<Rightarrow> (CKeyID \<rightharpoonup> CKey) \<Rightarrow> bool" where
  "plain_rep s A \<longleftrightarrow> \<not> fUseCrypto s \<and> mapCryptedKeys s = [] \<and> ks_vMasterKey s = [] \<and>
     smap_ok (mapKeys s) \<and> map_of (mapKeys s) = A"

definition crypted_rep :: "'e crypto_env_scheme \<Rightarrow> bytes \<Rightarrow> CCryptoKeyStore \<Rightarrow> (CKeyID \<rightharpoonup> CKey) \<Rightarrow> bool" where
  "crypted_rep E mk s A \<longleftrightarrow> fUseCrypto s \<and> mapKeys s = [] \<and> smap_ok (mapCryptedKeys s) \<and>
     ks_vMasterKey s \<in> {[], mk} \<and> map_of (mapCryptedKeys s) = map_option (crypt E mk) \<circ> A"

definition keys_ok :: "'e crypto_env_scheme \<Rightarrow> (CKeyID \<rightharpoonup> CKey) \<Rightarrow> bool" where
  "keys_ok E A \<longleftrightarrow> (\<forall>a k. A a = Some k \<longrightarrow> key_ok E a k)"

definition ks_rep :: "'e crypto_env_scheme \<Rightarrow> bytes \<Rightarrow> CCryptoKeyStore \<Rightarrow> (CKeyID \<rightharpoonup> CKey) \<Rightarrow> bool" where
  "ks_rep E mk s A \<longleftrightarrow> keys_ok E A \<and> (plain_rep s A \<or> crypted_rep E mk s A)"

lemmas rep_defs = ks_rep_def plain_rep_def crypted_rep_def

lemma ks_rep_empty_crypted:
  "plain_rep s A \<Longrightarrow> mapKeys s = [] \<Longrightarrow> crypted_rep E mk (s\<lparr>fUseCrypto := True\<rparr>) A"
  by (auto simp: plain_rep_def crypted_rep_def)

lemma SetCrypted_rep:
  assumes "ks_rep E mk s A" "SetCrypted s = (ok, s')"
  shows "ks_rep E mk s' A \<and> (ok \<longrightarrow> crypted_rep E mk s' A)"
  using assms ks_rep_empty_crypted[of s A E mk]
  by (auto simp: SetCrypted_def ks_rep_def plain_rep_def split: if_splits)
     (auto simp: crypted_rep_def)

lemma keys_ok_put: "keys_ok E A \<Longrightarrow> key_ok E a k \<Longrightarrow> keys_ok E (A(a \<mapsto> k))"
  by (simp add: keys_ok_def)

lemma rep_lock: "ks_rep E mk s A \<Longrightarrow> ks_Lock s = (b, s') \<Longrightarrow> ks_rep E mk s' A"
  using SetCrypted_rep[of E mk s A]
  by (auto simp: ks_Lock_def ks_rep_def crypted_rep_def split: prod.splits if_splits)

lemma rep_unlock:
  assumes "ks_rep E mk s A" "ks_Unlock E mk s = Inr (b, s')"
  shows "ks_rep E mk s' A"
  using assms SetCrypted_rep[of E mk s A]
  by (auto simp: ks_Unlock_def ks_rep_def crypted_rep_def split: prod.splits if_splits)

lemma crypt_pair: "(GetPubKey E k, snd (crypt E mk k)) = crypt E mk k"
  by (simp add: crypt_def)

lemma crypted_rep_put:
  "crypted_rep E mk s A \<Longrightarrow>
   crypted_rep E mk (s\<lparr>mapCryptedKeys := smap_put a (crypt E mk k) (mapCryptedKeys s)\<rparr>) (A(a \<mapsto> k))"
  by (simp add: crypted_rep_def smap_simps fun_eq_iff)

lemma AddKeyPubKey_rep:
  assumes "cipher_laws E" "basic_add_law E" "length mk = 32" "ks_rep E mk s A" "key_ok E a k"
    "ks_AddKeyPubKey E k (GetPubKey E k) s = (b, s')"
  shows "ks_rep E mk s' (if b then A(a \<mapsto> k) else A)"
proof -
  have a: "a = PubKey_GetID E (GetPubKey E k)" using assms(5) by (simp add: key_ok_def)
  consider "plain_rep s A" | "crypted_rep E mk s A" "ks_vMasterKey s = []"
    | "crypted_rep E mk s A" "ks_vMasterKey s = mk"
    using assms(4) by (auto simp: rep_defs)
  then show ?thesis
  proof cases
    case 1
    then show ?thesis
      using assms(2,4-6) keys_ok_put[OF _ assms(5)]
      by (auto simp: ks_AddKeyPubKey_def basic_add_law_def ks_IsCrypted_def rep_defs smap_simps a)
  next
    case 2
    then show ?thesis
      using assms(4,6) by (auto simp: ks_AddKeyPubKey_def ks_IsCrypted_def ks_IsLocked_def rep_defs)
  next
    case 3
    then have "mk \<noteq> []" "fUseCrypto s" using assms(3) by (auto simp: crypted_rep_def)
    with assms(6) 3(2) crypt_reads_back(1)[OF assms(1,3,5)]
    have "b" "s' = s\<lparr>mapCryptedKeys := smap_put a (crypt E mk k) (mapCryptedKeys s)\<rparr>"
      by (auto simp: ks_AddKeyPubKey_def ks_IsCrypted_def ks_IsLocked_def ks_AddCryptedKey_def crypt_pair a)
    with crypted_rep_put[OF 3(1), of a k] keys_ok_put[OF _ assms(5)] assms(4)
    show ?thesis by (simp add: ks_rep_def)
  qed
qed

lemma encrypt_loop_spec:
  assumes "cipher_laws E" "length mk = 32" "\<forall>e \<in> set m. key_ok E (fst e) (snd e)" "fUseCrypto s"
  shows "encrypt_loop E mk m s =
     (True, s\<lparr>mapCryptedKeys := fold (\<lambda>e. smap_put (fst e) (crypt E mk (snd e))) m (mapCryptedKeys s)\<rparr>)"
  using assms(3,4)
proof (induction m arbitrary: s)
  case (Cons e m)
  then have k: "key_ok E (fst e) (snd e)" by simp
  then have "PubKey_GetID E (GetPubKey E (snd e)) = fst e" by (simp add: key_ok_def)
  with Cons crypt_reads_back(1)[OF assms(1,2) k] show ?case
    by (cases e) (simp add: ks_AddCryptedKey_def crypt_pair)
qed simp

lemma map_of_crypted:
  assumes "smap_ok m"
  shows "map_of (fold (\<lambda>e. smap_put (fst e) (g (snd e))) m []) = map_option g \<circ> map_of m"
proof -
  have "map_of (fold (\<lambda>e. smap_put (fst e) (g (snd e))) m []) = map_of (List.map (\<lambda>e. (fst e, g (snd e))) m)"
    using smap.lookup_fold[of "[]" fst m "\<lambda>e. g (snd e)"] smap_ok_distinct[OF assms] by simp
  also have "\<dots> = map_option g \<circ> map_of m"
    by (induction m) (auto simp: fun_eq_iff)
  finally show ?thesis .
qed

lemma rep_encrypt:
  assumes "cipher_laws E" "length mk = 32" "ks_rep E mk s A" "ks_EncryptKeys E mk s = (b, s')"
  shows "ks_rep E mk s' A \<and> (plain_rep s A \<longrightarrow> b \<and> crypted_rep E mk s' A \<and> ks_vMasterKey s' = [])"
proof (cases "plain_rep s A")
  case True
  then have m: "smap_ok (mapKeys s)" "map_of (mapKeys s) = A" by (auto simp: plain_rep_def)
  then have "\<forall>e \<in> set (mapKeys s). key_ok E (fst e) (snd e)"
    using assms(3) by (auto simp: ks_rep_def keys_ok_def smap_ok_distinct)
  from encrypt_loop_spec[OF assms(1,2) this, of "s\<lparr>fUseCrypto := True\<rparr>"] True assms(4)
  have "b" and s': "s' = s\<lparr>fUseCrypto := True, mapKeys := [],
      mapCryptedKeys := fold (\<lambda>e. smap_put (fst e) (crypt E mk (snd e))) (mapKeys s) []\<rparr>"
    by (auto simp: ks_EncryptKeys_def ks_IsCrypted_def plain_rep_def)
  have "smap_ok (fold (\<lambda>e. smap_put (fst e) (crypt E mk (snd e))) (mapKeys s) [])"
    by (rule smap.ok_fold) simp
  with True map_of_crypted[OF m(1)] m(2) have "crypted_rep E mk s' A"
    by (simp add: s' crypted_rep_def plain_rep_def)
  with assms(3) \<open>b\<close> True show ?thesis by (simp add: ks_rep_def s' plain_rep_def)
next
  case False
  with assms(3,4) show ?thesis
    by (auto simp: ks_EncryptKeys_def ks_IsCrypted_def ks_rep_def crypted_rep_def)
qed

lemma ks_run_rep:
  assumes "cipher_laws E" "basic_add_law E" "length mk = 32" "ks_run E mk s A"
  shows "ks_rep E mk s A"
  using assms(4)
proof induction
  case run_init
  show ?case by (simp add: rep_defs keys_ok_def CCryptoKeyStore_Init_def)
next
  case (run_add s A k s')
  then show ?case using AddKeyPubKey_rep[OF assms(1-3) run_add.IH run_add.hyps(2,3)] by (simp only: if_True)
next
  case (run_refused s A k s')
  then show ?case using AddKeyPubKey_rep[OF assms(1-3) run_refused.IH run_refused.hyps(2,3)] by simp
qed (auto intro: rep_lock rep_unlock dest: rep_encrypt[OF assms(1,3)])

lemma crypted_GetKey:
  assumes "cipher_laws E" "length mk = 32" "keys_ok E A" "crypted_rep E mk s A" "ks_vMasterKey s = mk"
  shows "ks_GetKey E s a out = (case A a of None \<Rightarrow> (False, out) | Some k \<Rightarrow> (True, k))"
proof (cases "A a")
  case None
  then show ?thesis using assms(4) by (simp add: ks_GetKey_def ks_IsCrypted_def crypted_rep_def)
next
  case (Some k)
  with assms(3) have k: "key_ok E a k" by (simp add: keys_ok_def)
  from Some assms(4,5) crypt_reads_back(2)[OF assms(1,2) k] key_ok_Set[OF k] k show ?thesis
    by (simp add: ks_GetKey_def ks_IsCrypted_def crypted_rep_def key_ok_def case_prod_unfold)
qed

lemma locked_GetKey:
  "ks_IsLocked s \<Longrightarrow> ks_GetKey E s a out = (False, out)"
  by (auto simp: ks_IsLocked_def ks_GetKey_def split: if_splits option.splits)


text \<open>An environment with a cipher that changes nothing, and a run: a key is added, the store encrypted and unlocked.\<close>

definition demo_env :: crypto_env where
  "demo_env = \<lparr>BytesToKey = \<lambda>salt d n. (32, replicate 32 1, replicate 32 2),
     EncUpdate = \<lambda>k iv p. Some p, EncFinal = \<lambda>k iv p. Some [],
     DecUpdate = \<lambda>k iv p. Some p, DecFinal = \<lambda>k iv p. Some [], CipherInit = \<lambda>k iv. True,
     KeyCheck = \<lambda>b. True, GetPubKey = \<lambda>k. (if fCompressed k then 2 else 4) # vch k,
     PubKey_GetID = \<lambda>p. ucast (p ! 1), PubKey_GetHash = \<lambda>p. replicate 32 0,
     PubKey_IsCompressed = \<lambda>p. p ! 0 = 2,
     BasicAddKeyPubKey = \<lambda>k p m. (True, smap_put (ucast (p ! 1)) k m)\<rparr>"

definition demo_key :: CKey where
  "demo_key = \<lparr>fValid = True, fCompressed = True, vch = replicate 32 7\<rparr>"

definition demo_store :: "CPubKey \<times> bytes \<Rightarrow> bool \<Rightarrow> bytes \<Rightarrow> CCryptoKeyStore" where
  "demo_store e checked mk = \<lparr>mapKeys = [], mapCryptedKeys = [(7, e)], ks_vMasterKey = mk,
     fUseCrypto = True, fDecryptionThoroughlyChecked = checked\<rparr>"

definition demo_entry :: "CPubKey \<times> bytes" where
  "demo_entry = (2 # replicate 32 7, replicate 32 7)"

lemma demo_laws: "cipher_laws demo_env" "basic_add_law demo_env"
  by (simp_all add: cipher_laws_def basic_add_law_def demo_env_def)

lemma demo_key_ok: "key_ok demo_env (PubKey_GetID demo_env (GetPubKey demo_env demo_key)) demo_key"
  by (simp add: key_ok_def demo_env_def demo_key_def)

lemma demo_id: "PubKey_GetID demo_env (GetPubKey demo_env demo_key) = 7"
  by (simp add: demo_env_def demo_key_def)

lemma demo_crypt: "crypt demo_env (replicate 32 9) demo_key = demo_entry"
  using EncryptSecret_DecryptSecret[OF demo_laws(1), of "replicate 32 9" "replicate 32 0"]
  by (simp add: crypt_def demo_env_def demo_key_def demo_entry_def key_bytes_def key_size_def
      EncryptSecret_def SetKey_def Encrypt_def run_cipher_def WALLET_CRYPTO_KEY_SIZE_def memcpy_at_def)

lemma demo_locked: "ks_run demo_env (replicate 32 9) (demo_store demo_entry False []) [7 \<mapsto> demo_key]"
proof -
  let ?s = "CCryptoKeyStore_Init\<lparr>mapKeys := [(7, demo_key)]\<rparr>"
  have "ks_AddKeyPubKey demo_env demo_key (GetPubKey demo_env demo_key) CCryptoKeyStore_Init = (True, ?s)"
    by (simp add: ks_AddKeyPubKey_def CCryptoKeyStore_Init_def ks_IsCrypted_def demo_env_def demo_key_def)
  from run_add[OF run_init demo_key_ok this]
  have r: "ks_run demo_env (replicate 32 9) ?s [7 \<mapsto> demo_key]" by (simp add: demo_id)
  have "ks_EncryptKeys demo_env (replicate 32 9) ?s = (True, demo_store demo_entry False [])"
    using encrypt_loop_spec[OF demo_laws(1), of "replicate 32 9" "[(7, demo_key)]" "?s\<lparr>fUseCrypto := True\<rparr>"]
      demo_key_ok demo_crypt
    by (simp add: ks_EncryptKeys_def CCryptoKeyStore_Init_def ks_IsCrypted_def demo_store_def demo_id)
  from run_encrypt[OF r this] show ?thesis .
qed


text \<open>C28. The right passphrase always opens an encrypted store that has a key: \<open>Unlock\<close> with the
  master key of the run never aborts, and it returns true, leaving the store unlocked, exactly when a key was added.
  (A store that was locked while it was empty stays locked for good.)
\<close>

theorem Unlock_right_key:
  assumes "cipher_laws E" "basic_add_law E" "length mk = 32" "ks_run E mk s A" "fUseCrypto s"
  shows "\<exists>s'. ks_Unlock E mk s = Inr (A \<noteq> Map.empty, s') \<and>
    (A \<noteq> Map.empty \<longrightarrow> \<not> ks_IsLocked s' \<and> mapCryptedKeys s' = mapCryptedKeys s)"
proof -
  from ks_run_rep[OF assms(1-4)] assms(5) have k: "keys_ok E A" and c: "crypted_rep E mk s A"
    by (auto simp: rep_defs)
  have "\<forall>e \<in> set (mapCryptedKeys s). opens E mk (snd e)"
  proof
    fix e assume "e \<in> set (mapCryptedKeys s)"
    moreover have "smap_ok (mapCryptedKeys s)" and m: "map_of (mapCryptedKeys s) = map_option (crypt E mk) \<circ> A"
      using c by (auto simp: crypted_rep_def)
    ultimately have "map_of (mapCryptedKeys s) (fst e) = Some (snd e)"
      by (metis map_of_is_SomeI prod.collapse smap_ok_distinct)
    with m obtain x where "A (fst e) = Some x" "snd e = crypt E mk x"
      by auto
    with k opens_crypt[OF assms(1,3)] show "opens E mk (snd e)" by (auto simp: keys_ok_def)
  qed
  from unlock_loop_all[OF this] have u: "unlock_loop E mk b (mapCryptedKeys s) False = (mapCryptedKeys s \<noteq> [], False)" for b
    by simp
  have "map_of (mapCryptedKeys s) = Map.empty \<longleftrightarrow> A = Map.empty"
    using c by (auto simp: crypted_rep_def fun_eq_iff)
  then have "mapCryptedKeys s = [] \<longleftrightarrow> A = Map.empty"
    by (cases "mapCryptedKeys s") (auto simp: fun_eq_iff split: if_splits)
  moreover have "mk \<noteq> []" using assms(3) by auto
  ultimately show ?thesis
    using assms(5) by (auto simp: ks_Unlock_def u ks_IsLocked_def ks_IsCrypted_def)
qed

theorem Unlock_right_key_witness:
  "\<exists>s'. ks_Unlock demo_env (replicate 32 9) (demo_store demo_entry False []) = Inr (True, s')"
  using Unlock_right_key[OF demo_laws _ demo_locked] by (auto simp: demo_store_def dest: fun_cong[of _ _ 7])

theorem Unlock_outcome_witness:
  "ks_Unlock demo_env [] (demo_store demo_entry False []) = Inr (False, demo_store demo_entry False [])"
  using Unlock_outcome[of "demo_store demo_entry False []" demo_env "[]"]
  by (simp add: demo_store_def opens_def)

end
