(* ===== verification/KeyPool.thy ===== *)
theory KeyPool
  imports Crypter
begin

text \<open>
  The part of \<open>CWallet\<close> (wallet.cpp, wallet.h) that makes and hands out keys: the wallet versions,
  \<open>GenerateNewKey\<close> and \<open>AddKeyPubKey\<close> on the key store of theory Crypter, the key pool with its
  entries in the wallet file, and \<open>CReserveKey\<close>. A call that throws keeps the state it has reached,
  so every operation returns its result with the wallet. The database, the clock, the random keys and
  keystore.cpp are the fields of \<open>wallet_env\<close>; the calls that write to the file can fail.
\<close>

section \<open>The wallet\<close>

record CKeyPool =
  kp_nTime :: int
  kp_vchPubKey :: CPubKey

record wallet_env = crypto_env +
  MakeNewKey :: "bool \<Rightarrow> nat \<Rightarrow> CKey"
  VerifyPubKey :: "CKey \<Rightarrow> CPubKey \<Rightarrow> bool"
  Hash160 :: "bytes \<Rightarrow> CKeyID"
  ScriptForID :: "CKeyID \<Rightarrow> bytes"
  BasicHaveWatchOnly :: "bytes \<Rightarrow> bytes set \<Rightarrow> bool"
  BasicRemoveWatchOnly :: "bytes \<Rightarrow> bytes set \<Rightarrow> bool \<times> bytes set"
  WriteKey :: "CPubKey \<Rightarrow> bool"
  EraseWatchOnly :: "bytes \<Rightarrow> bool"
  WritePool :: "int \<Rightarrow> CKeyPool \<Rightarrow> bool"
  WalletTime :: int
  ArgKeypool :: int

record CWallet =
  keystore :: CCryptoKeyStore
  nWalletVersion :: int
  nWalletMaxVersion :: int
  fFileBacked :: bool
  setKeyPool :: "int list"
  vchDefaultKey :: CPubKey
  mapKeyMetadata :: "(CKeyID, int) smap"
  nTimeFirstKey :: int
  setWatchOnly :: "bytes set"
  poolFile :: "int \<rightharpoonup> CKeyPool"
  nDraws :: nat

definition FEATURE_BASE :: int where "FEATURE_BASE = 10000"
definition FEATURE_WALLETCRYPT :: int where "FEATURE_WALLETCRYPT = 10000"
definition FEATURE_COMPRPUBKEY :: int where "FEATURE_COMPRPUBKEY = 20000"
definition FEATURE_LATEST :: int where "FEATURE_LATEST = 20000"

definition CWallet_Init :: "bool \<Rightarrow> CWallet" where
  "CWallet_Init fileBacked = \<lparr>keystore = CCryptoKeyStore_Init, nWalletVersion = FEATURE_BASE,
     nWalletMaxVersion = FEATURE_BASE, fFileBacked = fileBacked, setKeyPool = [], vchDefaultKey = [],
     mapKeyMetadata = [], nTimeFirstKey = 0, setWatchOnly = {}, poolFile = Map.empty, nDraws = 0\<rparr>"

section \<open>Versions\<close>

definition CanSupportFeature :: "CWallet \<Rightarrow> int \<Rightarrow> bool" where
  "CanSupportFeature w feature \<longleftrightarrow> nWalletMaxVersion w \<ge> feature"

definition LoadMinVersion :: "int \<Rightarrow> CWallet \<Rightarrow> bool \<times> CWallet" where
  "LoadMinVersion nVersion w =
     (True, w\<lparr>nWalletVersion := nVersion, nWalletMaxVersion := max (nWalletMaxVersion w) nVersion\<rparr>)"

definition SetMinVersion :: "int \<Rightarrow> bool \<Rightarrow> CWallet \<Rightarrow> bool \<times> CWallet" where
  "SetMinVersion nVersion fExplicit w =
     (if nWalletVersion w \<ge> nVersion then (True, w)
      else let nVersion = (if fExplicit \<and> nVersion > nWalletMaxVersion w then FEATURE_LATEST else nVersion);
               w = w\<lparr>nWalletVersion := nVersion\<rparr>;
               w = (if nVersion > nWalletMaxVersion w then w\<lparr>nWalletMaxVersion := nVersion\<rparr> else w)
           in (True, w))"

definition SetMaxVersion :: "int \<Rightarrow> CWallet \<Rightarrow> bool \<times> CWallet" where
  "SetMaxVersion nVersion w =
     (if nWalletVersion w > nVersion then (False, w) else (True, w\<lparr>nWalletMaxVersion := nVersion\<rparr>))"

section \<open>New keys\<close>

text \<open>Sequencing of calls that may throw and keep the state.\<close>

definition bindS ::
    "('s \<Rightarrow> 'a result \<times> 's) \<Rightarrow> ('a \<Rightarrow> 's \<Rightarrow> 'b result \<times> 's) \<Rightarrow> 's \<Rightarrow> 'b result \<times> 's" where
  "bindS m f s = (case m s of (Inl e, s1) \<Rightarrow> (Inl e, s1) | (Inr x, s1) \<Rightarrow> f x s1)"

definition wallet_IsLocked :: "CWallet \<Rightarrow> bool" where
  "wallet_IsLocked w = ks_IsLocked (keystore w)"

definition wallet_HaveKey :: "CWallet \<Rightarrow> CKeyID \<Rightarrow> bool" where
  "wallet_HaveKey w a = ks_HaveKey (keystore w) a"

definition RemoveWatchOnly :: "'e wallet_env_scheme \<Rightarrow> bytes \<Rightarrow> CWallet \<Rightarrow> bool \<times> CWallet" where
  "RemoveWatchOnly E dest w =
     (case BasicRemoveWatchOnly E dest (setWatchOnly w) of (ok, S) \<Rightarrow>
        if \<not> ok then (False, w\<lparr>setWatchOnly := S\<rparr>)
        else if fFileBacked w \<and> \<not> EraseWatchOnly E dest then (False, w\<lparr>setWatchOnly := S\<rparr>)
        else (True, w\<lparr>setWatchOnly := S\<rparr>))"

definition AddKeyPubKey :: "'e wallet_env_scheme \<Rightarrow> CKey \<Rightarrow> CPubKey \<Rightarrow> CWallet \<Rightarrow> bool \<times> CWallet" where
  "AddKeyPubKey E secret pubkey w =
     (case ks_AddKeyPubKey E secret pubkey (keystore w) of (ok, k) \<Rightarrow>
        let w = w\<lparr>keystore := k\<rparr> in
        if \<not> ok then (False, w)
        else
          let script = ScriptForID E (PubKey_GetID E pubkey);
              w = (if BasicHaveWatchOnly E script (setWatchOnly w) then snd (RemoveWatchOnly E script w) else w) in
          if \<not> fFileBacked w then (True, w)
          else if \<not> ks_IsCrypted (keystore w) then (WriteKey E pubkey, w)
          else (True, w))"

text \<open>The steps of \<open>GenerateNewKey\<close>: the secret, its entry in \<open>mapKeyMetadata\<close>, the store.\<close>

definition draw_key :: "'e wallet_env_scheme \<Rightarrow> CWallet \<Rightarrow> CKey \<times> CWallet" where
  "draw_key E w =
     (let compressed = CanSupportFeature w FEATURE_COMPRPUBKEY;
          secret = MakeNewKey E compressed (nDraws w);
          w = w\<lparr>nDraws := Suc (nDraws w)\<rparr>
      in (secret, if compressed then snd (SetMinVersion FEATURE_COMPRPUBKEY False w) else w))"

definition note_key :: "'e wallet_env_scheme \<Rightarrow> CPubKey \<Rightarrow> CWallet \<Rightarrow> CWallet" where
  "note_key E pubkey w =
     (let w = w\<lparr>mapKeyMetadata := smap_put (PubKey_GetID E pubkey) (WalletTime E) (mapKeyMetadata w)\<rparr>
      in if nTimeFirstKey w = 0 \<or> WalletTime E < nTimeFirstKey w
         then w\<lparr>nTimeFirstKey := WalletTime E\<rparr> else w)"

definition GenerateNewKey :: "'e wallet_env_scheme \<Rightarrow> CWallet \<Rightarrow> CPubKey result \<times> CWallet" where
  "GenerateNewKey E w =
     (case draw_key E w of (secret, w) \<Rightarrow>
        let pubkey = GetPubKey E secret in
        if \<not> VerifyPubKey E secret pubkey then (Inl AssertFailed, w)
        else case AddKeyPubKey E secret pubkey (note_key E pubkey w) of (ok, w) \<Rightarrow>
          if \<not> ok then (Inl (Thrown ''CWallet::GenerateNewKey() : AddKey failed''), w)
          else (Inr pubkey, w))"

section \<open>The key pool\<close>

text \<open>\<open>std::set<int64>\<close>: the indices in order.\<close>

definition pool_insert :: "int \<Rightarrow> int list \<Rightarrow> int list" where
  "pool_insert i p = (if i \<in> set p then p else insort i p)"

definition new_pool_entry :: "'e wallet_env_scheme \<Rightarrow> CPubKey \<Rightarrow> CKeyPool" where
  "new_pool_entry E pub = \<lparr>kp_nTime = WalletTime E, kp_vchPubKey = pub\<rparr>"

definition write_pool :: "'e wallet_env_scheme \<Rightarrow> int \<Rightarrow> CKeyPool \<Rightarrow> CWallet \<Rightarrow> bool \<times> CWallet" where
  "write_pool E i kp w =
     (if WritePool E i kp then (True, w\<lparr>poolFile := (poolFile w)(i \<mapsto> kp)\<rparr>) else (False, w))"

fun fill_pool :: "'e wallet_env_scheme \<Rightarrow> nat \<Rightarrow> int \<Rightarrow> CWallet \<Rightarrow> unit result \<times> CWallet" where
  "fill_pool E 0 i w = (Inr (), w)"
| "fill_pool E (Suc n) i w =
     bindS (GenerateNewKey E)
       (\<lambda>pub w. let w = snd (write_pool E (i + 1) (new_pool_entry E pub) w)
                in fill_pool E n (i + 1) (w\<lparr>setKeyPool := pool_insert (i + 1) (setKeyPool w)\<rparr>)) w"

definition NewKeyPool :: "'e wallet_env_scheme \<Rightarrow> CWallet \<Rightarrow> bool result \<times> CWallet" where
  "NewKeyPool E w =
     (let w = w\<lparr>poolFile := (\<lambda>i. if i \<in> set (setKeyPool w) then None else poolFile w i), setKeyPool := []\<rparr> in
      if wallet_IsLocked w then (Inr False, w)
      else let nKeys = max (ArgKeypool E) 0
           in bindS (fill_pool E (nat nKeys) 0) (\<lambda>_ w. (Inr True, w)) w)"

definition top_up_one :: "'e wallet_env_scheme \<Rightarrow> CWallet \<Rightarrow> unit result \<times> CWallet" where
  "top_up_one E w =
     (let nEnd = (if setKeyPool w \<noteq> [] then last (setKeyPool w) + 1 else 1) in
      bindS (GenerateNewKey E)
        (\<lambda>pub w. case write_pool E nEnd (new_pool_entry E pub) w of (ok, w) \<Rightarrow>
           if \<not> ok then (Inl (Thrown ''TopUpKeyPool() : writing generated key failed''), w)
           else (Inr (), w\<lparr>setKeyPool := pool_insert nEnd (setKeyPool w)\<rparr>)) w)"

text \<open>The loop: every round adds an index above all others, so the missing indices count the rounds.\<close>

fun top_up_loop :: "'e wallet_env_scheme \<Rightarrow> nat \<Rightarrow> u32 \<Rightarrow> CWallet \<Rightarrow> unit result \<times> CWallet" where
  "top_up_loop E 0 nTargetSize w = (Inr (), w)"
| "top_up_loop E (Suc n) nTargetSize w =
     (if length (setKeyPool w) < unat (nTargetSize + 1)
      then bindS (top_up_one E) (\<lambda>_. top_up_loop E n nTargetSize) w
      else (Inr (), w))"

definition TopUpKeyPool :: "'e wallet_env_scheme \<Rightarrow> CWallet \<Rightarrow> bool result \<times> CWallet" where
  "TopUpKeyPool E w =
     (if wallet_IsLocked w then (Inr False, w)
      else let nTargetSize = of_int (max (ArgKeypool E) 0)
           in bindS (top_up_loop E (unat (nTargetSize + 1) - length (setKeyPool w)) nTargetSize)
                (\<lambda>_ w. (Inr True, w)) w)"

text \<open>\<open>ReserveKeyFromKeyPool\<close> assigns \<open>nIndex\<close> before it can throw: the index comes with the result.\<close>

definition take_key :: "'e wallet_env_scheme \<Rightarrow> CWallet \<Rightarrow> CKeyPool result \<times> int \<times> CWallet" where
  "take_key E w =
     (let nIndex = setKeyPool w ! 0; w = w\<lparr>setKeyPool := tl (setKeyPool w)\<rparr> in
      case poolFile w nIndex of
        None \<Rightarrow> (Inl (Thrown ''ReserveKeyFromKeyPool() : read failed''), nIndex, w)
      | Some keypool \<Rightarrow>
          if \<not> wallet_HaveKey w (Hash160 E (kp_vchPubKey keypool))
          then (Inl (Thrown ''ReserveKeyFromKeyPool() : unknown key in key pool''), nIndex, w)
          else if kp_vchPubKey keypool = [] then (Inl AssertFailed, nIndex, w)
          else (Inr keypool, nIndex, w))"

definition ReserveKeyFromKeyPool :: "'e wallet_env_scheme \<Rightarrow> CWallet \<Rightarrow> CKeyPool result \<times> int \<times> CWallet" where
  "ReserveKeyFromKeyPool E w =
     (case (if \<not> wallet_IsLocked w then TopUpKeyPool E w else (Inr False, w)) of
        (Inl e, w) \<Rightarrow> (Inl e, -1, w)
      | (Inr _, w) \<Rightarrow>
          if setKeyPool w = [] then (Inr (new_pool_entry E []), -1, w) else take_key E w)"

definition AddReserveKey :: "'e wallet_env_scheme \<Rightarrow> CKeyPool \<Rightarrow> CWallet \<Rightarrow> int result \<times> CWallet" where
  "AddReserveKey E keypool w =
     (if setKeyPool w = [] then (Inl OutOfRange, w)
      else let nIndex = 1 + last (setKeyPool w) in
        case write_pool E nIndex keypool w of (ok, w) \<Rightarrow>
          if \<not> ok then (Inl (Thrown ''AddReserveKey() : writing added key failed''), w)
          else (Inr nIndex, w\<lparr>setKeyPool := pool_insert nIndex (setKeyPool w)\<rparr>))"

definition KeepKey :: "int \<Rightarrow> CWallet \<Rightarrow> CWallet" where
  "KeepKey nIndex w = (if fFileBacked w then w\<lparr>poolFile := (poolFile w)(nIndex := None)\<rparr> else w)"

definition ReturnKey :: "int \<Rightarrow> CWallet \<Rightarrow> CWallet" where
  "ReturnKey nIndex w = w\<lparr>setKeyPool := pool_insert nIndex (setKeyPool w)\<rparr>"

text \<open>\<open>None\<close> in the result stands for the return value false, which leaves \<open>result\<close> unset.\<close>

definition GetKeyFromPool :: "'e wallet_env_scheme \<Rightarrow> bool \<Rightarrow> CWallet \<Rightarrow> CPubKey option result \<times> CWallet" where
  "GetKeyFromPool E fAllowReuse w =
     (case ReserveKeyFromKeyPool E w of
        (Inl e, _, w) \<Rightarrow> (Inl e, w)
      | (Inr keypool, nIndex, w) \<Rightarrow>
          if nIndex = -1 then
            (if fAllowReuse \<and> vchDefaultKey w \<noteq> [] then (Inr (Some (vchDefaultKey w)), w)
             else if wallet_IsLocked w then (Inr None, w)
             else bindS (GenerateNewKey E) (\<lambda>pub w. (Inr (Some pub), w)) w)
          else (Inr (Some (kp_vchPubKey keypool)), KeepKey nIndex w))"

definition GetOldestKeyPoolTime :: "'e wallet_env_scheme \<Rightarrow> CWallet \<Rightarrow> int result \<times> CWallet" where
  "GetOldestKeyPoolTime E w =
     (case ReserveKeyFromKeyPool E w of
        (Inl e, _, w) \<Rightarrow> (Inl e, w)
      | (Inr keypool, nIndex, w) \<Rightarrow>
          if nIndex = -1 then (Inr (WalletTime E), w)
          else (Inr (kp_nTime keypool), ReturnKey nIndex w))"

section \<open>Reserved keys\<close>

record CReserveKey =
  rk_nIndex :: int
  rk_vchPubKey :: CPubKey

definition CReserveKey_Init :: CReserveKey where
  "CReserveKey_Init = \<lparr>rk_nIndex = -1, rk_vchPubKey = []\<rparr>"

definition GetReservedKey ::
    "'e wallet_env_scheme \<Rightarrow> CReserveKey \<Rightarrow> CWallet \<Rightarrow> CPubKey result \<times> CReserveKey \<times> CWallet" where
  "GetReservedKey E r w =
     (case (if rk_nIndex r = -1 then
              (case ReserveKeyFromKeyPool E w of
                 (Inl e, i, w) \<Rightarrow> (Some e, r\<lparr>rk_nIndex := i\<rparr>, w)
               | (Inr keypool, i, w) \<Rightarrow>
                   if i \<noteq> -1 then (None, \<lparr>rk_nIndex = i, rk_vchPubKey = kp_vchPubKey keypool\<rparr>, w)
                   else (None, \<lparr>rk_nIndex = i, rk_vchPubKey = vchDefaultKey w\<rparr>, w))
            else (None, r, w)) of
        (Some e, r, w) \<Rightarrow> (Inl e, r, w)
      | (None, r, w) \<Rightarrow>
          if rk_vchPubKey r = [] then (Inl AssertFailed, r, w) else (Inr (rk_vchPubKey r), r, w))"

definition rk_KeepKey :: "CReserveKey \<Rightarrow> CWallet \<Rightarrow> CReserveKey \<times> CWallet" where
  "rk_KeepKey r w = (CReserveKey_Init, if rk_nIndex r \<noteq> -1 then KeepKey (rk_nIndex r) w else w)"

definition rk_ReturnKey :: "CReserveKey \<Rightarrow> CWallet \<Rightarrow> CReserveKey \<times> CWallet" where
  "rk_ReturnKey r w = (CReserveKey_Init, if rk_nIndex r \<noteq> -1 then ReturnKey (rk_nIndex r) w else w)"

section \<open>Versions stay in order\<close>

lemma SetMinVersion_ok:
  assumes "nWalletVersion w \<le> nWalletMaxVersion w" "nVersion \<le> FEATURE_LATEST"
  shows "SetMinVersion nVersion ex w = (True, w') \<Longrightarrow>
    nVersion \<le> nWalletVersion w' \<and> nWalletVersion w \<le> nWalletVersion w' \<and> nWalletVersion w' \<le> nWalletMaxVersion w'"
  using assms by (auto simp: SetMinVersion_def Let_def split: if_splits)

lemma SetMaxVersion_ok:
  "nWalletVersion w \<le> nWalletMaxVersion w \<Longrightarrow> SetMaxVersion nVersion w = (ok, w') \<Longrightarrow>
   nWalletVersion w' \<le> nWalletMaxVersion w' \<and> ok = (nWalletVersion w \<le> nVersion)"
  by (auto simp: SetMaxVersion_def split: if_splits)

section \<open>What a new key changes\<close>

lemma bindS_Inr: "bindS m f s = (Inr y, s') \<longleftrightarrow> (\<exists>x s1. m s = (Inr x, s1) \<and> f x s1 = (Inr y, s'))"
  by (auto simp: bindS_def split: prod.splits sum.splits)

lemma bindS_cases:
  assumes "bindS m f s = (r, s')"
  obtains (thrown) e where "m s = (Inl e, s')" "r = Inl e"
    | (returned) x s1 where "m s = (Inr x, s1)" "f x s1 = (r, s')"
  using assms by (auto simp: bindS_def split: prod.splits sum.splits)

text \<open>The pool, its file and the default key are untouched; keys are only added to the store.\<close>

definition pool_frame :: "CWallet \<Rightarrow> CWallet \<Rightarrow> bool" where
  "pool_frame w w' \<longleftrightarrow> setKeyPool w' = setKeyPool w \<and> poolFile w' = poolFile w \<and>
     fFileBacked w' = fFileBacked w \<and> nDraws w \<le> nDraws w' \<and> wallet_IsLocked w' = wallet_IsLocked w \<and>
     (\<forall>a. wallet_HaveKey w a \<longrightarrow> wallet_HaveKey w' a)"

lemma pool_frame_refl [simp]: "pool_frame w w"
  by (simp add: pool_frame_def)

lemma pool_frame_trans: "pool_frame w w' \<Longrightarrow> pool_frame w' w'' \<Longrightarrow> pool_frame w w''"
  by (auto simp: pool_frame_def)

lemma pool_frame_fields:
  "keystore w' = keystore w \<Longrightarrow> setKeyPool w' = setKeyPool w \<Longrightarrow> poolFile w' = poolFile w \<Longrightarrow>
   fFileBacked w' = fFileBacked w \<Longrightarrow> nDraws w \<le> nDraws w' \<Longrightarrow> pool_frame w w'"
  by (simp add: pool_frame_def wallet_IsLocked_def wallet_HaveKey_def)

lemma ks_HaveKey_iff:
  "ks_HaveKey s a \<longleftrightarrow>
     (if fUseCrypto s then a \<in> fst ` set (mapCryptedKeys s) else a \<in> fst ` set (mapKeys s))"
  by (simp add: ks_HaveKey_def ks_IsCrypted_def map_of_eq_None_iff)

lemma ks_AddKeyPubKey_frame:
  assumes "basic_add_law E" "ks_AddKeyPubKey E k p s = (ok, s')"
  shows "ks_IsLocked s' = ks_IsLocked s \<and> (\<forall>a. ks_HaveKey s a \<longrightarrow> ks_HaveKey s' a) \<and>
    (ok \<longrightarrow> ks_HaveKey s' (PubKey_GetID E p))"
  using assms unfolding ks_HaveKey_iff
  by (auto simp: ks_AddKeyPubKey_def basic_add_law_def ks_AddCryptedKey_def ks_IsLocked_def ks_IsCrypted_def
      SetCrypted_def split: if_splits option.splits prod.splits) force+

lemma AddKeyPubKey_frame:
  assumes "basic_add_law E" "AddKeyPubKey E k p w = (ok, w')"
  shows "pool_frame w w' \<and> nDraws w' = nDraws w \<and> (ok \<longrightarrow> wallet_HaveKey w' (PubKey_GetID E p))"
proof -
  obtain ok1 s1 where a: "ks_AddKeyPubKey E k p (keystore w) = (ok1, s1)" by fastforce
  let ?w = "w\<lparr>keystore := s1\<rparr>"
  have f: "pool_frame w ?w" and h: "ok1 \<Longrightarrow> wallet_HaveKey ?w (PubKey_GetID E p)"
    using ks_AddKeyPubKey_frame[OF assms(1) a]
    by (auto simp: pool_frame_def wallet_IsLocked_def wallet_HaveKey_def)
  have "pool_frame ?w w' \<and> keystore w' = s1 \<and> nDraws w' = nDraws w \<and> (ok \<longrightarrow> ok1)"
    using assms(2) a
    by (auto simp: AddKeyPubKey_def Let_def RemoveWatchOnly_def pool_frame_def wallet_IsLocked_def
        wallet_HaveKey_def split: if_splits prod.splits)
  with f h show ?thesis by (auto simp: wallet_HaveKey_def intro: pool_frame_trans)
qed

text \<open>The public keys of the first \<open>n\<close> draws.\<close>

definition born :: "'e wallet_env_scheme \<Rightarrow> nat \<Rightarrow> CPubKey \<Rightarrow> bool" where
  "born E n pub \<longleftrightarrow> (\<exists>c. \<exists>m < n. pub = GetPubKey E (MakeNewKey E c m))"

definition drawn_at :: "'e wallet_env_scheme \<Rightarrow> nat \<Rightarrow> CPubKey \<Rightarrow> bool" where
  "drawn_at E n pub \<longleftrightarrow> (\<exists>c. pub = GetPubKey E (MakeNewKey E c n))"

lemma draw_key_frame:
  "draw_key E w = (secret, w') \<Longrightarrow>
   pool_frame w w' \<and> nDraws w' = Suc (nDraws w) \<and> drawn_at E (nDraws w) (GetPubKey E secret)"
  by (auto simp: draw_key_def Let_def SetMinVersion_def drawn_at_def intro!: pool_frame_fields split: if_splits)

lemma note_key_frame: "pool_frame w (note_key E pub w) \<and> nDraws (note_key E pub w) = nDraws w"
  by (auto simp: note_key_def Let_def intro!: pool_frame_fields)

lemma GenerateNewKey_frame:
  assumes "basic_add_law E" "GenerateNewKey E w = (r, w')"
  shows "pool_frame w w' \<and> nDraws w' = Suc (nDraws w) \<and>
    (\<forall>pub. r = Inr pub \<longrightarrow> drawn_at E (nDraws w) pub \<and> wallet_HaveKey w' (PubKey_GetID E pub))"
proof -
  obtain secret w1 where d: "draw_key E w = (secret, w1)" by fastforce
  let ?pub = "GetPubKey E secret"
  obtain ok w2 where a: "AddKeyPubKey E secret ?pub (note_key E ?pub w1) = (ok, w2)" by fastforce
  have f: "pool_frame w1 w2" and h: "nDraws w2 = nDraws w1" "ok \<Longrightarrow> wallet_HaveKey w2 (PubKey_GetID E ?pub)"
    using AddKeyPubKey_frame[OF assms(1) a] note_key_frame[of w1 E ?pub] by (auto intro: pool_frame_trans)
  show ?thesis
    using assms(2) draw_key_frame[OF d] h pool_frame_trans[OF _ f]
    by (auto simp: GenerateNewKey_def d a Let_def split: if_splits)
qed

section \<open>The invariant of the pool\<close>

text \<open>An index whose entry in the file holds a key of the wallet, drawn before.\<close>

definition good_index :: "'e wallet_env_scheme \<Rightarrow> CWallet \<Rightarrow> int \<Rightarrow> bool" where
  "good_index E w i \<longleftrightarrow> 1 \<le> i \<and> (\<exists>kp. poolFile w i = Some kp \<and>
     wallet_HaveKey w (Hash160 E (kp_vchPubKey kp)) \<and> born E (nDraws w) (kp_vchPubKey kp))"

definition pool_key :: "CWallet \<Rightarrow> int \<Rightarrow> CPubKey" where
  "pool_key w i = kp_vchPubKey (the (poolFile w i))"

definition is_out :: "(nat \<Rightarrow> CReserveKey) \<Rightarrow> nat \<Rightarrow> bool" where
  "is_out hs h \<longleftrightarrow> rk_nIndex (hs h) \<noteq> -1"

definition live :: "CWallet \<Rightarrow> (nat \<Rightarrow> CReserveKey) \<Rightarrow> int set" where
  "live w hs = set (setKeyPool w) \<union> {rk_nIndex (hs h) | h. is_out hs h}"

definition outs_ok :: "CWallet \<Rightarrow> (nat \<Rightarrow> CReserveKey) \<Rightarrow> bool" where
  "outs_ok w hs \<longleftrightarrow>
     (\<forall>h. is_out hs h \<longrightarrow> rk_vchPubKey (hs h) = pool_key w (rk_nIndex (hs h)) \<and>
        rk_nIndex (hs h) \<notin> set (setKeyPool w) \<and> (\<exists>m \<in> set (setKeyPool w). rk_nIndex (hs h) < m)) \<and>
     (\<forall>h h'. is_out hs h \<longrightarrow> is_out hs h' \<longrightarrow> rk_nIndex (hs h) = rk_nIndex (hs h') \<longrightarrow> h = h')"

definition kept_ok :: "'e wallet_env_scheme \<Rightarrow> CWallet \<Rightarrow> int set \<Rightarrow> CPubKey list \<Rightarrow> bool" where
  "kept_ok E w L K \<longleftrightarrow> distinct K \<and> (\<forall>k \<in> set K. born E (nDraws w) k) \<and> pool_key w ` L \<inter> set K = {}"

definition pool_inv :: "'e wallet_env_scheme \<Rightarrow> CWallet \<Rightarrow> (nat \<Rightarrow> CReserveKey) \<Rightarrow> CPubKey list \<Rightarrow> bool" where
  "pool_inv E w hs K \<longleftrightarrow> sorted_wrt (<) (setKeyPool w) \<and> (\<forall>i \<in> live w hs. good_index E w i) \<and>
     outs_ok w hs \<and> inj_on (pool_key w) (live w hs) \<and> kept_ok E w (live w hs) K"

text \<open>Fresh draws: no two draws give the same public key, none is empty, and the pool looks keys up by the id they are stored under.\<close>

definition fresh_draws :: "'e wallet_env_scheme \<Rightarrow> bool" where
  "fresh_draws E \<longleftrightarrow>
     (\<forall>c c' m n. GetPubKey E (MakeNewKey E c m) = GetPubKey E (MakeNewKey E c' n) \<longrightarrow> m = n) \<and>
     (\<forall>c n. GetPubKey E (MakeNewKey E c n) \<noteq> []) \<and> (\<forall>p. Hash160 E p = PubKey_GetID E p)"

lemma born_mono: "born E m k \<Longrightarrow> m \<le> n \<Longrightarrow> born E n k"
  by (auto simp: born_def intro: less_le_trans)

lemma drawn_born: "drawn_at E n k \<Longrightarrow> n < m \<Longrightarrow> born E m k"
  by (auto simp: born_def drawn_at_def)

lemma drawn_not_born: "fresh_draws E \<Longrightarrow> drawn_at E n k \<Longrightarrow> \<not> born E n k"
  by (metis born_def drawn_at_def fresh_draws_def less_irrefl)

lemma born_not_Nil: "fresh_draws E \<Longrightarrow> born E n k \<Longrightarrow> k \<noteq> []"
  by (auto simp: fresh_draws_def born_def)

lemma good_index_frame: "pool_frame w w' \<Longrightarrow> good_index E w i \<Longrightarrow> good_index E w' i"
  by (auto simp: good_index_def pool_frame_def intro: born_mono)

lemma pool_inv_frame:
  assumes "pool_frame w w'" "pool_inv E w hs K"
  shows "pool_inv E w' hs K"
proof -
  have "live w' hs = live w hs" "pool_key w' = pool_key w" "setKeyPool w' = setKeyPool w" "nDraws w \<le> nDraws w'"
    using assms(1) by (auto simp: live_def pool_key_def pool_frame_def fun_eq_iff)
  with assms show ?thesis
    by (auto simp: pool_inv_def kept_ok_def outs_ok_def intro: good_index_frame born_mono)
qed

lemma sorted_last_less:
  "sorted_wrt (<) p \<Longrightarrow> i \<in> set p \<Longrightarrow> i \<le> last (p :: int list)"
  by (induction p) (auto simp: order_le_less)

lemma pool_insert_above: "\<forall>i \<in> set p. i < e \<Longrightarrow> pool_insert e p = p @ [e]"
  by (auto simp: pool_insert_def) (induction p, auto)

lemma live_key_born:
  "pool_inv E w hs K \<Longrightarrow> i \<in> live w hs \<Longrightarrow> born E (nDraws w) (pool_key w i)"
  by (auto simp: pool_inv_def good_index_def pool_key_def)

lemma pool_inv_add:
  assumes inv: "pool_inv E w hs K" and e: "e \<notin> live w hs" "1 \<le> e" "\<forall>i \<in> set (setKeyPool w). i < e"
    and k: "wallet_HaveKey w (Hash160 E (kp_vchPubKey kp))" "born E (nDraws w) (kp_vchPubKey kp)"
      "kp_vchPubKey kp \<notin> pool_key w ` live w hs" "kp_vchPubKey kp \<notin> set K"
  shows "pool_inv E (w\<lparr>poolFile := (poolFile w)(e \<mapsto> kp), setKeyPool := setKeyPool w @ [e]\<rparr>) hs K"
proof -
  let ?w = "w\<lparr>poolFile := (poolFile w)(e \<mapsto> kp), setKeyPool := setKeyPool w @ [e]\<rparr>"
  have l: "live ?w hs = insert e (live w hs)" by (auto simp: live_def)
  have old: "pool_key ?w i = pool_key w i" if "i \<noteq> e" for i using that by (simp add: pool_key_def)
  have new: "pool_key ?w e = kp_vchPubKey kp" by (simp add: pool_key_def)
  have im: "pool_key ?w ` live w hs = pool_key w ` live w hs"
    using e(1) old by (metis image_cong)
  have "good_index E ?w i" if "i \<in> live ?w hs" for i
    using inv that e(2) k(1,2) by (auto simp: l good_index_def pool_inv_def wallet_HaveKey_def)
  moreover have "outs_ok ?w hs"
  proof -
    have "rk_nIndex (hs h) \<noteq> e" if "is_out hs h" for h using e(1) that by (auto simp: live_def)
    then show ?thesis using inv old by (auto simp: pool_inv_def outs_ok_def)
  qed
  moreover have "inj_on (pool_key ?w) (live ?w hs)"
  proof -
    have "inj_on (pool_key ?w) (live w hs)"
      using inv e(1) old unfolding pool_inv_def by (metis inj_on_cong)
    then show ?thesis using e(1) k(3) im new by (simp add: l)
  qed
  moreover have "kept_ok E ?w (live ?w hs) K"
    using inv im new k(4) by (auto simp: l kept_ok_def pool_inv_def)
  moreover have "sorted_wrt (<) (setKeyPool ?w)"
    using inv e(3) by (auto simp: pool_inv_def sorted_wrt_append)
  ultimately show ?thesis by (simp add: pool_inv_def)
qed

lemma next_index_fresh:
  assumes "pool_inv E w hs K" "e = (if setKeyPool w \<noteq> [] then last (setKeyPool w) + 1 else 1)"
  shows "e \<notin> live w hs \<and> 1 \<le> e \<and> (\<forall>i \<in> set (setKeyPool w). i < e)"
proof -
  have s: "sorted_wrt (<) (setKeyPool w)" and g: "\<And>i. i \<in> set (setKeyPool w) \<Longrightarrow> 1 \<le> i"
    and o: "\<And>h. is_out hs h \<Longrightarrow> \<exists>m \<in> set (setKeyPool w). rk_nIndex (hs h) < m"
    using assms(1) by (auto simp: pool_inv_def live_def good_index_def outs_ok_def)
  have lt: "i < e" if "i \<in> set (setKeyPool w)" for i
    using sorted_last_less[OF s that] that assms(2) by auto
  have "i < e" if "i \<in> live w hs" for i
    using that lt by (auto simp: live_def dest!: o intro: less_trans)
  moreover have "1 \<le> e" using assms(2) g[OF last_in_set] by (auto split: if_splits)
  ultimately show ?thesis using lt by (auto simp: less_le)
qed

lemma top_up_one_inv:
  assumes "basic_add_law E" "fresh_draws E" "pool_inv E w hs K" "top_up_one E w = (r, w')"
  shows "pool_inv E w' hs K \<and> wallet_IsLocked w' = wallet_IsLocked w \<and>
    (\<forall>u. r = Inr u \<longrightarrow> length (setKeyPool w') = Suc (length (setKeyPool w)))"
proof -
  define e where "e = (if setKeyPool w \<noteq> [] then last (setKeyPool w) + 1 else 1)"
  note f = GenerateNewKey_frame[OF assms(1)]
  have "bindS (GenerateNewKey E)
        (\<lambda>pub w. case write_pool E e (new_pool_entry E pub) w of (ok, w) \<Rightarrow>
           if \<not> ok then (Inl (Thrown ''TopUpKeyPool() : writing generated key failed''), w)
           else (Inr (), w\<lparr>setKeyPool := pool_insert e (setKeyPool w)\<rparr>)) w = (r, w')"
    using assms(4) unfolding top_up_one_def Let_def e_def .
  then show ?thesis
  proof (cases rule: bindS_cases)
    case (thrown x)
    then show ?thesis
      using f[OF thrown(1)] pool_inv_frame[OF _ assms(3)] by (auto simp: pool_frame_def)
  next
    case (returned pub w1)
    from f[OF returned(1)] have fr: "pool_frame w w1" and n: "nDraws w1 = Suc (nDraws w)"
      and d: "drawn_at E (nDraws w) pub" and h: "wallet_HaveKey w1 (PubKey_GetID E pub)" by auto
    have inv1: "pool_inv E w1 hs K" by (rule pool_inv_frame[OF fr assms(3)])
    have "e = (if setKeyPool w1 \<noteq> [] then last (setKeyPool w1) + 1 else 1)"
      using fr by (simp add: pool_frame_def e_def)
    from next_index_fresh[OF inv1 this] have e: "e \<notin> live w1 hs" "1 \<le> e" "\<forall>i \<in> set (setKeyPool w1). i < e"
      by auto
    have "pub \<notin> pool_key w ` live w hs" "pub \<notin> set K"
      using drawn_not_born[OF assms(2) d] live_key_born[OF assms(3)] assms(3)
      by (auto simp: pool_inv_def kept_ok_def)
    moreover have "live w1 hs = live w hs" "pool_key w1 = pool_key w"
      using fr by (auto simp: live_def pool_frame_def pool_key_def fun_eq_iff)
    moreover have "Hash160 E pub = PubKey_GetID E pub" using assms(2) by (simp add: fresh_draws_def)
    ultimately have "pool_inv E (w1\<lparr>poolFile := (poolFile w1)(e \<mapsto> new_pool_entry E pub),
        setKeyPool := setKeyPool w1 @ [e]\<rparr>) hs K"
      using h drawn_born[OF d] n by (intro pool_inv_add[OF inv1 e]) (simp_all add: new_pool_entry_def)
    then show ?thesis
      using returned(2) inv1 fr pool_insert_above[OF e(3)]
      by (auto simp: write_pool_def pool_frame_def wallet_IsLocked_def split: if_splits)
  qed
qed

lemma top_up_loop_inv:
  assumes "basic_add_law E" "fresh_draws E"
  shows "pool_inv E w hs K \<Longrightarrow> top_up_loop E n t w = (r, w') \<Longrightarrow>
    unat (t + 1) \<le> n + length (setKeyPool w) \<Longrightarrow>
    pool_inv E w' hs K \<and> wallet_IsLocked w' = wallet_IsLocked w \<and>
    (\<forall>u. r = Inr u \<longrightarrow> unat (t + 1) \<le> length (setKeyPool w'))"
proof (induction n arbitrary: w)
  case (Suc n)
  show ?case
  proof (cases "length (setKeyPool w) < unat (t + 1)")
    case True
    with Suc.prems(2) have "bindS (top_up_one E) (\<lambda>_. top_up_loop E n t) w = (r, w')" by simp
    then show ?thesis
    proof (cases rule: bindS_cases)
      case (thrown x)
      then show ?thesis using top_up_one_inv[OF assms Suc.prems(1) thrown(1)] by simp
    next
      case (returned x w1)
      from top_up_one_inv[OF assms Suc.prems(1) returned(1)] Suc.prems(3)
        Suc.IH[OF _ returned(2)] show ?thesis by simp
    qed
  qed (use Suc.prems in auto)
qed auto

lemma TopUpKeyPool_inv:
  assumes "basic_add_law E" "fresh_draws E" "pool_inv E w hs K" "TopUpKeyPool E w = (r, w')" "\<not> wallet_IsLocked w"
  shows "pool_inv E w' hs K \<and> \<not> wallet_IsLocked w' \<and>
    (\<forall>b. r = Inr b \<longrightarrow> b \<and> unat (of_int (max (ArgKeypool E) 0) + 1 :: u32) \<le> length (setKeyPool w'))"
proof -
  define t :: u32 where "t = of_int (max (ArgKeypool E) 0)"
  have "bindS (top_up_loop E (unat (t + 1) - length (setKeyPool w)) t) (\<lambda>_ w. (Inr True, w)) w = (r, w')"
    using assms(4,5) by (simp add: TopUpKeyPool_def Let_def t_def)
  then show ?thesis
  proof (cases rule: bindS_cases)
    case (thrown x)
    then show ?thesis
      using top_up_loop_inv[OF assms(1-3) thrown(1)] assms(5) by simp
  next
    case (returned x w1)
    then show ?thesis
      using top_up_loop_inv[OF assms(1-3) returned(1)] assms(5) by (auto simp: t_def)
  qed
qed

text \<open>The smallest index leaves the pool: it is taken by a handle, or kept, or put back.\<close>

lemma take_key_good:
  assumes "fresh_draws E" "pool_inv E w hs K" "setKeyPool w = i # p"
  shows "\<exists>kp. take_key E w = (Inr kp, i, w\<lparr>setKeyPool := p\<rparr>) \<and> kp_vchPubKey kp = pool_key w i"
proof -
  have "good_index E w i" using assms(2,3) by (simp add: pool_inv_def live_def)
  then obtain kp where "poolFile w i = Some kp" "wallet_HaveKey w (Hash160 E (kp_vchPubKey kp))"
      "kp_vchPubKey kp \<noteq> []"
    using born_not_Nil[OF assms(1)] by (auto simp: good_index_def)
  then show ?thesis
    using assms(3) by (simp add: take_key_def Let_def pool_key_def wallet_HaveKey_def)
qed

lemma outs_okI:
  assumes "\<And>h. is_out hs h \<Longrightarrow> rk_vchPubKey (hs h) = pool_key w (rk_nIndex (hs h)) \<and>
      rk_nIndex (hs h) \<notin> set (setKeyPool w) \<and> (\<exists>m \<in> set (setKeyPool w). rk_nIndex (hs h) < m)"
    and "\<And>h h'. is_out hs h \<Longrightarrow> is_out hs h' \<Longrightarrow> rk_nIndex (hs h) = rk_nIndex (hs h') \<Longrightarrow> h = h'"
  shows "outs_ok w hs"
  using assms unfolding outs_ok_def by blast

lemma pool_inv_take:
  assumes "pool_inv E w hs K" "setKeyPool w = i # p" "p \<noteq> []" "\<not> is_out hs h"
  shows "pool_inv E (w\<lparr>setKeyPool := p\<rparr>) (hs(h := \<lparr>rk_nIndex = i, rk_vchPubKey = pool_key w i\<rparr>)) K"
proof -
  let ?w = "w\<lparr>setKeyPool := p\<rparr>" and ?hs = "hs(h := \<lparr>rk_nIndex = i, rk_vchPubKey = pool_key w i\<rparr>)"
  have s: "sorted_wrt (<) p" "\<forall>j \<in> set p. i < j" and g: "good_index E w i"
    using assms(1,2) by (auto simp: pool_inv_def live_def)
  then have i: "i \<noteq> -1" by (auto simp: good_index_def)
  have l: "live ?w ?hs = live w hs"
    using assms(2,4) i by (fastforce simp: live_def is_out_def)
  have k: "pool_key ?w = pool_key w" by (simp add: pool_key_def fun_eq_iff)
  have o: "outs_ok w hs" using assms(1) by (simp add: pool_inv_def)
  obtain m where m: "m \<in> set p" using assms(3) by (cases p) auto
  have above: "\<exists>m \<in> set p. x < m" if "\<exists>m \<in> set (i # p). x < m" for x
    using that s(2) m by (auto intro: less_trans)
  have "outs_ok ?w ?hs"
  proof (rule outs_okI)
    fix h' assume "is_out ?hs h'"
    then show "rk_vchPubKey (?hs h') = pool_key ?w (rk_nIndex (?hs h')) \<and>
        rk_nIndex (?hs h') \<notin> set (setKeyPool ?w) \<and> (\<exists>m \<in> set (setKeyPool ?w). rk_nIndex (?hs h') < m)"
      using o s(2) m assms(2) above[of "rk_nIndex (hs h')"]
      by (cases "h' = h") (auto simp: outs_ok_def is_out_def k)
  next
    fix h1 h2 assume "is_out ?hs h1" "is_out ?hs h2" "rk_nIndex (?hs h1) = rk_nIndex (?hs h2)"
    then show "h1 = h2"
      using o assms(2) by (auto simp: outs_ok_def is_out_def split: if_splits)
  qed
  then show ?thesis
    using assms(1) s(1) by (auto simp: pool_inv_def l k good_index_def wallet_HaveKey_def kept_ok_def)
qed

lemma out_indices:
  assumes "pool_inv E w hs K" "is_out hs h" "i = rk_nIndex (hs h)"
  shows "i \<in> live w hs" "i \<notin> set (setKeyPool w)" "rk_vchPubKey (hs h) = pool_key w i"
    "is_out hs h' \<Longrightarrow> rk_nIndex (hs h') = i \<Longrightarrow> h' = h"
  using assms by (auto simp: pool_inv_def outs_ok_def live_def)

lemma live_release:
  assumes "rk_nIndex r = -1"
  shows "live w (hs(h := r)) = set (setKeyPool w) \<union> {rk_nIndex (hs x) | x. is_out hs x \<and> x \<noteq> h}"
proof -
  have "rk_nIndex ((hs(h := r)) x) = z \<and> is_out (hs(h := r)) x \<longleftrightarrow> rk_nIndex (hs x) = z \<and> is_out hs x \<and> x \<noteq> h"
    for x z using assms by (simp add: is_out_def)
  then show ?thesis unfolding live_def by (metis (mono_tags, lifting))
qed

lemma others_out:
  assumes "pool_inv E w hs K" "is_out hs h" "i = rk_nIndex (hs h)"
  shows "is_out hs x \<and> x \<noteq> h \<longleftrightarrow> is_out hs x \<and> rk_nIndex (hs x) \<noteq> i"
  using out_indices(4)[OF assms] assms(3) by blast

lemma outs_ok_release:
  assumes "outs_ok w hs" "rk_nIndex r = -1"
    and "\<And>x. is_out hs x \<Longrightarrow> x \<noteq> h \<Longrightarrow> pool_key w' (rk_nIndex (hs x)) = pool_key w (rk_nIndex (hs x)) \<and>
      (rk_nIndex (hs x) \<in> set (setKeyPool w') \<longrightarrow> rk_nIndex (hs x) \<in> set (setKeyPool w))"
    and "set (setKeyPool w) \<subseteq> set (setKeyPool w')"
  shows "outs_ok w' (hs(h := r))"
proof (rule outs_okI)
  fix x assume x: "is_out (hs(h := r)) x"
  then have x': "is_out hs x" "x \<noteq> h" using assms(2) by (auto simp: is_out_def split: if_splits)
  with assms(1) have "rk_vchPubKey (hs x) = pool_key w (rk_nIndex (hs x))"
      "rk_nIndex (hs x) \<notin> set (setKeyPool w)" "\<exists>m \<in> set (setKeyPool w). rk_nIndex (hs x) < m"
    by (auto simp: outs_ok_def)
  with x'(2) assms(3)[OF x'] assms(4)
  show "rk_vchPubKey ((hs(h := r)) x) = pool_key w' (rk_nIndex ((hs(h := r)) x)) \<and>
      rk_nIndex ((hs(h := r)) x) \<notin> set (setKeyPool w') \<and>
      (\<exists>m \<in> set (setKeyPool w'). rk_nIndex ((hs(h := r)) x) < m)"
    by auto
next
  fix x y assume "is_out (hs(h := r)) x" "is_out (hs(h := r)) y" "rk_nIndex ((hs(h := r)) x) = rk_nIndex ((hs(h := r)) y)"
  with assms(1,2) show "x = y" by (auto simp: outs_ok_def is_out_def split: if_splits)
qed

lemma pool_inv_keep:
  assumes "pool_inv E w hs K" "is_out hs h" "i = rk_nIndex (hs h)" "rk_nIndex r = -1"
  shows "pool_inv E (KeepKey i w) (hs(h := r)) (rk_vchPubKey (hs h) # K)"
proof -
  let ?w = "KeepKey i w" and ?hs = "hs(h := r)"
  note o = out_indices[OF assms(1-3)]
  have p: "setKeyPool ?w = setKeyPool w" "nDraws ?w = nDraws w" "wallet_HaveKey ?w = wallet_HaveKey w"
    by (auto simp: KeepKey_def wallet_HaveKey_def fun_eq_iff)
  have l: "live ?w ?hs = live w hs - {i}"
    using o(2) unfolding live_release[OF assms(4)] others_out[OF assms(1-3)] p
    unfolding live_def by blast
  have f: "poolFile ?w j = poolFile w j" if "j \<in> live w hs - {i}" for j
    using that by (auto simp: KeepKey_def)
  then have k: "pool_key ?w j = pool_key w j" if "j \<in> live w hs - {i}" for j
    using that by (simp add: pool_key_def)
  have inj: "inj_on (pool_key w) (live w hs)" using assms(1) by (simp add: pool_inv_def)
  have "inj_on (pool_key ?w) (live w hs - {i})"
    using inj_on_diff[OF inj] k by (metis inj_on_cong)
  moreover have "pool_key ?w ` (live w hs - {i}) = pool_key w ` (live w hs - {i})"
    by (rule image_cong[OF refl k])
  then have "pool_key ?w ` (live w hs - {i}) = pool_key w ` live w hs - {pool_key w i}"
    using inj o(1) by (auto simp: inj_on_def)
  then have "kept_ok E ?w (live w hs - {i}) (rk_vchPubKey (hs h) # K)"
    using assms(1) o(1,3) live_key_born[OF assms(1) o(1)] by (auto simp: kept_ok_def pool_inv_def p)
  moreover have "outs_ok ?w ?hs"
  proof (rule outs_ok_release[OF _ assms(4)])
    show "outs_ok w hs" using assms(1) by (simp add: pool_inv_def)
    fix x assume "is_out hs x" "x \<noteq> h"
    then have "rk_nIndex (hs x) \<in> live w hs - {i}" using o(4) by (auto simp: live_def)
    from k[OF this] show "pool_key ?w (rk_nIndex (hs x)) = pool_key w (rk_nIndex (hs x)) \<and>
      (rk_nIndex (hs x) \<in> set (setKeyPool ?w) \<longrightarrow> rk_nIndex (hs x) \<in> set (setKeyPool w))" by (simp add: p)
  qed (simp add: p)
  ultimately show ?thesis
    using assms(1) f by (auto simp: pool_inv_def l p good_index_def)
qed

lemma pool_inv_return:
  assumes "pool_inv E w hs K" "is_out hs h" "i = rk_nIndex (hs h)" "rk_nIndex r = -1"
  shows "pool_inv E (ReturnKey i w) (hs(h := r)) K"
proof -
  let ?w = "ReturnKey i w" and ?hs = "hs(h := r)"
  note o = out_indices[OF assms(1-3)]
  have p: "setKeyPool ?w = insort i (setKeyPool w)" "nDraws ?w = nDraws w"
      "wallet_HaveKey ?w = wallet_HaveKey w" "poolFile ?w = poolFile w"
    using o(2) by (auto simp: ReturnKey_def pool_insert_def wallet_HaveKey_def fun_eq_iff)
  have l: "live ?w ?hs = live w hs"
    using assms(2,3) unfolding live_release[OF assms(4)] others_out[OF assms(1-3)] p set_insort_key
    unfolding live_def by blast
  have k: "pool_key ?w = pool_key w" by (simp add: pool_key_def p fun_eq_iff)
  have "sorted_wrt (<) (setKeyPool ?w)"
    using assms(1) o(2) by (simp add: p pool_inv_def strict_sorted_iff sorted_insort distinct_insort)
  moreover have "outs_ok ?w ?hs"
  proof (rule outs_ok_release[OF _ assms(4)])
    show "outs_ok w hs" using assms(1) by (simp add: pool_inv_def)
    fix x assume "is_out hs x" "x \<noteq> h"
    then have "rk_nIndex (hs x) \<noteq> i" using o(4) by blast
    then show "pool_key ?w (rk_nIndex (hs x)) = pool_key w (rk_nIndex (hs x)) \<and>
      (rk_nIndex (hs x) \<in> set (setKeyPool ?w) \<longrightarrow> rk_nIndex (hs x) \<in> set (setKeyPool w))"
      by (simp add: p k set_insort_key)
  qed (auto simp: p set_insort_key)
  ultimately show ?thesis
    using assms(1) by (auto simp: pool_inv_def l k p good_index_def kept_ok_def)
qed

section \<open>Runs\<close>

text \<open>
  The calls of an unlocked wallet with any number of \<open>CReserveKey\<close> handles, in any order and with
  whatever each returns or throws; between them the key store may change as long as it loses no
  key (it may be encrypted, locked and unlocked). \<open>K\<close> collects the public keys that were given
  out for good: kept by a handle, or returned by \<open>GetKeyFromPool(result, false)\<close>.
\<close>

inductive pool_run :: "'e wallet_env_scheme \<Rightarrow> CWallet \<Rightarrow> (nat \<Rightarrow> CReserveKey) \<Rightarrow> CPubKey list \<Rightarrow> bool"
  for E :: "'e wallet_env_scheme" where
  start: "setKeyPool w = [] \<Longrightarrow> pool_run E w (\<lambda>_. CReserveKey_Init) []"
| topup: "pool_run E w hs K \<Longrightarrow> \<not> wallet_IsLocked w \<Longrightarrow> TopUpKeyPool E w = (r, w') \<Longrightarrow> pool_run E w' hs K"
| reserve: "pool_run E w hs K \<Longrightarrow> \<not> wallet_IsLocked w \<Longrightarrow> GetReservedKey E (hs h) w = (r, rk, w') \<Longrightarrow>
    pool_run E w' (hs(h := rk)) K"
| keep: "pool_run E w hs K \<Longrightarrow> rk_KeepKey (hs h) w = (rk, w') \<Longrightarrow>
    pool_run E w' (hs(h := rk)) (if is_out hs h then rk_vchPubKey (hs h) # K else K)"
| give_back: "pool_run E w hs K \<Longrightarrow> rk_ReturnKey (hs h) w = (rk, w') \<Longrightarrow> pool_run E w' (hs(h := rk)) K"
| direct: "pool_run E w hs K \<Longrightarrow> \<not> wallet_IsLocked w \<Longrightarrow> GetKeyFromPool E False w = (r, w') \<Longrightarrow>
    pool_run E w' hs (case r of Inr (Some pub) \<Rightarrow> pub # K | _ \<Rightarrow> K)"
| oldest: "pool_run E w hs K \<Longrightarrow> \<not> wallet_IsLocked w \<Longrightarrow> GetOldestKeyPoolTime E w = (r, w') \<Longrightarrow> pool_run E w' hs K"
| store: "pool_run E w hs K \<Longrightarrow> \<forall>a. ks_HaveKey (keystore w) a \<longrightarrow> ks_HaveKey k a \<Longrightarrow>
    pool_run E (w\<lparr>keystore := k\<rparr>) hs K"

definition pool_target :: "'e wallet_env_scheme \<Rightarrow> nat" where
  "pool_target E = unat (of_int (max (ArgKeypool E) 0) + 1 :: u32)"

text \<open>An unlocked wallet with at least two keys wanted in its pool: the call takes the smallest index of a topped-up pool, or throws.\<close>

lemma Reserve_unlocked:
  assumes "basic_add_law E" "fresh_draws E" "2 \<le> pool_target E" "pool_inv E w hs K" "\<not> wallet_IsLocked w"
    "ReserveKeyFromKeyPool E w = (r, j, w')"
  shows "(\<exists>e. r = Inl e \<and> j = -1 \<and> pool_inv E w' hs K) \<or>
    (\<exists>w1 i p kp. r = Inr kp \<and> j = i \<and> i \<noteq> -1 \<and> w' = w1\<lparr>setKeyPool := p\<rparr> \<and> pool_inv E w1 hs K \<and>
       setKeyPool w1 = i # p \<and> p \<noteq> [] \<and> kp_vchPubKey kp = pool_key w1 i \<and> \<not> wallet_IsLocked w1)"
proof -
  obtain t w1 where t: "TopUpKeyPool E w = (t, w1)" by fastforce
  note inv = TopUpKeyPool_inv[OF assms(1,2,4) t assms(5)]
  show ?thesis
  proof (cases t)
    case (Inl e)
    then show ?thesis using assms(5,6) t inv by (auto simp: ReserveKeyFromKeyPool_def)
  next
    case (Inr b)
    with inv assms(3) have "2 \<le> length (setKeyPool w1)" by (simp add: pool_target_def)
    then obtain i p where p: "setKeyPool w1 = i # p" "p \<noteq> []"
      by (cases "setKeyPool w1" rule: remdups_adj.cases) auto
    from inv have inv1: "pool_inv E w1 hs K" by simp
    then have "i \<noteq> -1" using p(1) by (auto simp: pool_inv_def live_def good_index_def)
    with take_key_good[OF assms(2) inv1 p(1)] p inv inv1 show ?thesis
      using assms(5,6) t Inr by (auto simp: ReserveKeyFromKeyPool_def)
  qed
qed

lemma handle_not_out: "\<not> is_out hs h \<Longrightarrow> pool_inv E w hs K \<Longrightarrow> rk_nIndex r = -1 \<Longrightarrow> pool_inv E w (hs(h := r)) K"
proof -
  assume h: "\<not> is_out hs h" "rk_nIndex r = -1" and inv: "pool_inv E w hs K"
  then have "is_out (hs(h := r)) x \<and> rk_nIndex ((hs(h := r)) x) = z \<longleftrightarrow> is_out hs x \<and> rk_nIndex (hs x) = z" for x z
    by (auto simp: is_out_def)
  then have "live w (hs(h := r)) = live w hs" unfolding live_def by metis
  moreover have "outs_ok w (hs(h := r))"
    using inv h by (intro outs_ok_release[of w]) (auto simp: pool_inv_def)
  ultimately show ?thesis using inv by (simp add: pool_inv_def)
qed

lemma GetReservedKey_inv:
  assumes "basic_add_law E" "fresh_draws E" "2 \<le> pool_target E" "pool_inv E w hs K" "\<not> wallet_IsLocked w"
    "GetReservedKey E (hs h) w = (r, rk, w')"
  shows "pool_inv E w' (hs(h := rk)) K"
proof (cases "is_out hs h")
  case True
  then have "rk = hs h" "w' = w" using assms(6) by (auto simp: GetReservedKey_def is_out_def split: if_splits)
  then show ?thesis using assms(4) by simp
next
  case False
  then have n: "rk_nIndex (hs h) = -1" by (simp add: is_out_def)
  obtain x j w2 where "ReserveKeyFromKeyPool E w = (x, j, w2)" by (metis prod_cases3)
  note x = this Reserve_unlocked[OF assms(1-5) this]
  from x(2) show ?thesis
  proof (elim disjE exE conjE)
    fix e assume "x = Inl e" "j = -1" and i: "pool_inv E w2 hs K"
    then show ?thesis
      using assms(6) n x(1) handle_not_out[OF False i] by (auto simp: GetReservedKey_def)
  next
    fix w1 i p kp
    assume a: "x = Inr kp" "j = i" "i \<noteq> -1" "w2 = w1\<lparr>setKeyPool := p\<rparr>" "pool_inv E w1 hs K"
      "setKeyPool w1 = i # p" "p \<noteq> []" "kp_vchPubKey kp = pool_key w1 i"
    then have "rk = \<lparr>rk_nIndex = i, rk_vchPubKey = pool_key w1 i\<rparr>" "w' = w2"
      using assms(6) n x(1) by (auto simp: GetReservedKey_def split: if_splits)
    with pool_inv_take[OF a(5-7) False] a(4) show ?thesis by simp
  qed
qed

text \<open>A call that takes a key without a handle is one with a handle of its own, put before the others.\<close>

lemma pool_inv_shift:
  assumes "rk_nIndex r = -1"
  shows "pool_inv E w (case_nat r hs) K = pool_inv E w hs K"
proof -
  have n: "is_out (case_nat r hs) x \<longleftrightarrow> (\<exists>y. x = Suc y \<and> is_out hs y)" for x
    using assms by (cases x) (auto simp: is_out_def)
  have "live w (case_nat r hs) = live w hs"
    unfolding live_def n by (auto; metis nat.case(2))
  moreover have "outs_ok w (case_nat r hs) = outs_ok w hs"
  proof
    assume o: "outs_ok w (case_nat r hs)"
    show "outs_ok w hs"
    proof (rule outs_okI)
      fix h assume "is_out hs h"
      with o[unfolded outs_ok_def n, THEN conjunct1, THEN spec[of _ "Suc h"]]
      show "rk_vchPubKey (hs h) = pool_key w (rk_nIndex (hs h)) \<and> rk_nIndex (hs h) \<notin> set (setKeyPool w) \<and>
          (\<exists>m \<in> set (setKeyPool w). rk_nIndex (hs h) < m)" by simp
    next
      fix h h' assume "is_out hs h" "is_out hs h'" "rk_nIndex (hs h) = rk_nIndex (hs h')"
      with o[unfolded outs_ok_def n, THEN conjunct2, THEN spec[of _ "Suc h"], THEN spec[of _ "Suc h'"]]
      show "h = h'" by simp
    qed
  next
    assume "outs_ok w hs"
    then show "outs_ok w (case_nat r hs)" unfolding outs_ok_def n by auto
  qed
  ultimately show ?thesis by (simp add: pool_inv_def)
qed

lemma pool_inv_direct:
  assumes "pool_inv E w hs K" "setKeyPool w = i # p" "p \<noteq> []" "i \<noteq> -1"
  shows "pool_inv E (KeepKey i (w\<lparr>setKeyPool := p\<rparr>)) hs (pool_key w i # K)"
    and "pool_inv E (ReturnKey i (w\<lparr>setKeyPool := p\<rparr>)) hs K"
proof -
  let ?hs = "case_nat CReserveKey_Init hs" and ?r = "\<lparr>rk_nIndex = i, rk_vchPubKey = pool_key w i\<rparr>"
  have r: "rk_nIndex CReserveKey_Init = -1" by (simp add: CReserveKey_Init_def)
  have inv: "pool_inv E (w\<lparr>setKeyPool := p\<rparr>) (?hs(0 := ?r)) K"
    using assms(1-3) by (intro pool_inv_take) (simp_all add: pool_inv_shift[OF r] is_out_def r)
  have out: "is_out (?hs(0 := ?r)) 0" using assms(4) by (simp add: is_out_def)
  have restored: "(?hs(0 := ?r))(0 := CReserveKey_Init) = ?hs" by (auto simp: fun_eq_iff split: nat.splits)
  show "pool_inv E (KeepKey i (w\<lparr>setKeyPool := p\<rparr>)) hs (pool_key w i # K)"
    using pool_inv_keep[OF inv out _ r] restored by (simp add: pool_inv_shift[OF r])
  show "pool_inv E (ReturnKey i (w\<lparr>setKeyPool := p\<rparr>)) hs K"
    using pool_inv_return[OF inv out _ r] restored by (simp add: pool_inv_shift[OF r])
qed

lemma GetKeyFromPool_inv:
  assumes "basic_add_law E" "fresh_draws E" "2 \<le> pool_target E" "pool_inv E w hs K" "\<not> wallet_IsLocked w"
    "GetKeyFromPool E False w = (r, w')"
  shows "pool_inv E w' hs (case r of Inr (Some pub) \<Rightarrow> pub # K | _ \<Rightarrow> K)"
proof -
  obtain x j w2 where "ReserveKeyFromKeyPool E w = (x, j, w2)" by (metis prod_cases3)
  note x = this Reserve_unlocked[OF assms(1-5) this]
  from x(2) show ?thesis
  proof (elim disjE exE conjE)
    fix e assume "x = Inl e" "pool_inv E w2 hs K"
    then show ?thesis using assms(6) x(1) by (auto simp: GetKeyFromPool_def)
  next
    fix w1 i p kp
    assume a: "x = Inr kp" "j = i" "i \<noteq> -1" "w2 = w1\<lparr>setKeyPool := p\<rparr>" "pool_inv E w1 hs K"
      "setKeyPool w1 = i # p" "p \<noteq> []" "kp_vchPubKey kp = pool_key w1 i"
    then have "r = Inr (Some (pool_key w1 i))" "w' = KeepKey i w2"
      using assms(6) x(1) by (auto simp: GetKeyFromPool_def)
    with pool_inv_direct(1)[OF a(5-7,3)] a(4) show ?thesis by simp
  qed
qed

lemma GetOldestKeyPoolTime_inv:
  assumes "basic_add_law E" "fresh_draws E" "2 \<le> pool_target E" "pool_inv E w hs K" "\<not> wallet_IsLocked w"
    "GetOldestKeyPoolTime E w = (r, w')"
  shows "pool_inv E w' hs K"
proof -
  obtain x j w2 where "ReserveKeyFromKeyPool E w = (x, j, w2)" by (metis prod_cases3)
  note x = this Reserve_unlocked[OF assms(1-5) this]
  from x(2) show ?thesis
  proof (elim disjE exE conjE)
    fix e assume "x = Inl e" "pool_inv E w2 hs K"
    then show ?thesis using assms(6) x(1) by (auto simp: GetOldestKeyPoolTime_def)
  next
    fix w1 i p kp
    assume a: "x = Inr kp" "j = i" "i \<noteq> -1" "w2 = w1\<lparr>setKeyPool := p\<rparr>" "pool_inv E w1 hs K"
      "setKeyPool w1 = i # p" "p \<noteq> []"
    then have "w' = ReturnKey i w2"
      using assms(6) x(1) by (auto simp: GetOldestKeyPoolTime_def)
    with pool_inv_direct(2)[OF a(5-7,3)] a(4) show ?thesis by simp
  qed
qed

lemma pool_run_inv:
  assumes "basic_add_law E" "fresh_draws E" "2 \<le> pool_target E" "pool_run E w hs K"
  shows "pool_inv E w hs K"
  using assms(4)
proof induction
  case (start w)
  then show ?case
    by (auto simp: pool_inv_def live_def outs_ok_def is_out_def CReserveKey_Init_def kept_ok_def)
next
  case (topup w hs K r w')
  then show ?case using TopUpKeyPool_inv[OF assms(1,2)] by blast
next
  case (reserve w hs K h r rk w')
  then show ?case using GetReservedKey_inv[OF assms(1-3)] by blast
next
  case (keep w hs K h rk w')
  show ?case
  proof (cases "is_out hs h")
    case True
    with keep pool_inv_keep[OF keep.IH True refl, of rk] show ?thesis
      by (auto simp: rk_KeepKey_def is_out_def CReserveKey_Init_def simp del: fun_upd_apply)
  next
    case False
    with keep handle_not_out[OF False keep.IH, of rk] show ?thesis
      by (auto simp: rk_KeepKey_def is_out_def CReserveKey_Init_def simp del: fun_upd_apply)
  qed
next
  case (give_back w hs K h rk w')
  show ?case
  proof (cases "is_out hs h")
    case True
    with give_back pool_inv_return[OF give_back.IH True refl, of rk] show ?thesis
      by (auto simp: rk_ReturnKey_def is_out_def CReserveKey_Init_def simp del: fun_upd_apply)
  next
    case False
    with give_back handle_not_out[OF False give_back.IH, of rk] show ?thesis
      by (auto simp: rk_ReturnKey_def is_out_def CReserveKey_Init_def simp del: fun_upd_apply)
  qed
next
  case (direct w hs K r w')
  then show ?case using GetKeyFromPool_inv[OF assms(1-3)] by blast
next
  case (oldest w hs K r w')
  then show ?case using GetOldestKeyPoolTime_inv[OF assms(1-3)] by blast
next
  case (store w hs K k)
  let ?w = "w\<lparr>keystore := k\<rparr>"
  have "live ?w = live w" "pool_key ?w = pool_key w" by (simp_all add: fun_eq_iff live_def pool_key_def)
  moreover have "good_index E w i \<Longrightarrow> good_index E ?w i" for i
    using store.hyps(2) by (auto simp: good_index_def wallet_HaveKey_def)
  ultimately show ?case
    using store.IH by (simp add: pool_inv_def outs_ok_def kept_ok_def)
qed


text \<open>A wallet that wants one key in its pool, with keys told apart by their length, and two handles one after the other.\<close>

definition demo_wenv :: "int \<Rightarrow> wallet_env" where
  "demo_wenv n = \<lparr>BytesToKey = \<lambda>salt d n. (32, replicate 32 1, replicate 32 2),
     EncUpdate = \<lambda>k iv p. Some p, EncFinal = \<lambda>k iv p. Some [],
     DecUpdate = \<lambda>k iv p. Some p, DecFinal = \<lambda>k iv p. Some [], CipherInit = \<lambda>k iv. True,
     KeyCheck = \<lambda>b. True, GetPubKey = \<lambda>k. vch k,
     PubKey_GetID = \<lambda>p. of_nat (length p), PubKey_GetHash = \<lambda>p. replicate 32 0,
     PubKey_IsCompressed = \<lambda>p. False,
     BasicAddKeyPubKey = \<lambda>k p m. (True, smap_put (of_nat (length p)) k m),
     MakeNewKey = \<lambda>c n. \<lparr>fValid = True, fCompressed = c, vch = replicate (Suc n) 1\<rparr>,
     VerifyPubKey = \<lambda>k p. True, Hash160 = \<lambda>p. of_nat (length p), ScriptForID = \<lambda>a. [],
     BasicHaveWatchOnly = \<lambda>s S. False, BasicRemoveWatchOnly = \<lambda>s S. (False, S),
     WriteKey = \<lambda>p. True, EraseWatchOnly = \<lambda>s. True, WritePool = \<lambda>i kp. True,
     WalletTime = 1000, ArgKeypool = n\<rparr>"

definition demo_reserve :: "int \<Rightarrow> CWallet \<Rightarrow> CPubKey result \<times> CReserveKey \<times> CWallet" where
  "demo_reserve n w = GetReservedKey (demo_wenv n) CReserveKey_Init w"

definition demo_w1 :: "int \<Rightarrow> CWallet" where
  "demo_w1 n = snd (snd (demo_reserve n (CWallet_Init True)))"

definition demo_h1 :: "int \<Rightarrow> CReserveKey" where
  "demo_h1 n = fst (snd (demo_reserve n (CWallet_Init True)))"

definition demo_h2 :: "int \<Rightarrow> CReserveKey" where
  "demo_h2 n = fst (snd (demo_reserve n (demo_w1 n)))"

lemma demo_wenv_laws: "basic_add_law (demo_wenv n)" "fresh_draws (demo_wenv n)" "pool_target (demo_wenv 1) = 2"
  by (auto simp: basic_add_law_def fresh_draws_def demo_wenv_def pool_target_def dest: arg_cong[of _ _ length])

lemma demo_handles: "rk_nIndex (demo_h1 1) = 1" "rk_nIndex (demo_h2 1) = 2" "wallet_IsLocked (demo_w1 1) = False"
  by code_simp+

lemma demo_run:
  "pool_run (demo_wenv 1) (snd (snd (demo_reserve 1 (demo_w1 1))))
     ((\<lambda>_. CReserveKey_Init)(0 := demo_h1 1, 1 := demo_h2 1)) []"
proof -
  let ?i = "\<lambda>_ :: nat. CReserveKey_Init"
  have "pool_run (demo_wenv 1) (CWallet_Init True) ?i []"
    by (rule start) (simp add: CWallet_Init_def)
  then have "pool_run (demo_wenv 1) (demo_w1 1) (?i(0 := demo_h1 1)) []"
    by (rule reserve[where h = 0 and r = "fst (demo_reserve 1 (CWallet_Init True))"])
      (simp_all add: demo_w1_def demo_h1_def demo_reserve_def CWallet_Init_def CCryptoKeyStore_Init_def
        wallet_IsLocked_def ks_IsLocked_def ks_IsCrypted_def)
  then show ?thesis
    by (rule reserve[where h = 1 and r = "fst (demo_reserve 1 (demo_w1 1))"])
      (simp_all add: demo_handles(3) demo_h2_def demo_reserve_def)
qed


text \<open>
  With \<open>-keypool=0\<close> the pool is topped up to one key: the index of a reserved key is used again, its entry
  overwritten, and a key that one handle still holds is given out to another caller.
\<close>

lemma keypool_zero_reuses_key:
  "fst (GetKeyFromPool (demo_wenv 0) False
     (snd (rk_ReturnKey (demo_h1 0) (snd (snd (demo_reserve 0 (demo_w1 0))))))) =
   Inr (Some (rk_vchPubKey (demo_h2 0)))"
  by code_simp

end
