(* ===== verification/Coins.thy ===== *)
theory Coins
  imports Transaction KeyPool "HOL-Library.Multiset" "HOL-Library.Product_Lexorder"
begin

text \<open>
  Coin selection and the making of transactions (wallet.cpp): \<open>ApproximateBestSubset\<close>,
  \<open>SelectCoinsMinConf\<close>, \<open>SelectCoins\<close>, \<open>CreateTransaction\<close>. Pointers to wallet transactions are
  numbers, a coin is a pointer and an output index. The random bits, the amounts fixed elsewhere
  (\<open>CENT\<close>, the fees), signing, serialized sizes and priorities are parameters. Amounts are \<open>int\<close>.
  As written the file does not compile here (\<open>fRReachedTarget\<close>, an inner \<open>vCoins\<close> that hides the
  argument, a missing argument of \<open>SelectCoinsMinConf\<close>): the definitions take the flag that is assigned,
  and the argument \<open>vCoins\<close> in any order.
\<close>

section \<open>Coins\<close>

type_synonym coin = "nat \<times> nat"

record COutput =
  out_tx :: nat
  out_i :: nat
  out_nDepth :: int
  out_fSpendable :: bool

record coin_env =
  wtx :: "nat \<Rightarrow> CTransaction"
  IsFromMe_ALL :: "nat \<Rightarrow> bool"
  CENT :: int

definition coin_value :: "'e coin_env_scheme \<Rightarrow> coin \<Rightarrow> int" where
  "coin_value E c = nValue (vout (wtx E (fst c)) ! snd c)"

definition out_coin :: "COutput \<Rightarrow> coin" where
  "out_coin o1 = (out_tx o1, out_i o1)"

section \<open>The stochastic approximation\<close>

record best =
  nBest :: int
  vfBest :: "bool list"

record pass_state =
  nTotal :: int
  vfIncluded :: "bool list"
  fReachedTarget :: bool
  best_so_far :: best

text \<open>One coin: \<open>pick\<close> is the condition of the \<open>if\<close>, a random bit in the first pass, \<open>!vfIncluded[i]\<close> in the second.\<close>

definition subset_step :: "int list \<Rightarrow> int \<Rightarrow> (bool list \<Rightarrow> nat \<Rightarrow> bool) \<Rightarrow> nat \<Rightarrow> pass_state \<Rightarrow> pass_state" where
  "subset_step v nTarget pick i s =
     (if \<not> pick (vfIncluded s) i then s
      else
        let t = nTotal s + v ! i; inc = (vfIncluded s)[i := True] in
        if t \<ge> nTarget then
          \<lparr>nTotal = t - v ! i, vfIncluded = inc[i := False], fReachedTarget = True,
           best_so_far = (if t < nBest (best_so_far s) then \<lparr>nBest = t, vfBest = inc\<rparr> else best_so_far s)\<rparr>
        else s\<lparr>nTotal := t, vfIncluded := inc\<rparr>)"

definition subset_pass :: "int list \<Rightarrow> int \<Rightarrow> (bool list \<Rightarrow> nat \<Rightarrow> bool) \<Rightarrow> pass_state \<Rightarrow> pass_state" where
  "subset_pass v nTarget pick s = fold (subset_step v nTarget pick) [0..<length v] s"

definition subset_rep :: "int list \<Rightarrow> int \<Rightarrow> (nat \<Rightarrow> bool) \<Rightarrow> best \<Rightarrow> best" where
  "subset_rep v nTarget rnd b =
     (let s = \<lparr>nTotal = 0, vfIncluded = replicate (length v) False, fReachedTarget = False, best_so_far = b\<rparr>;
          s = subset_pass v nTarget (\<lambda>_ i. rnd i) s;
          s = (if fReachedTarget s then s else subset_pass v nTarget (\<lambda>inc i. \<not> inc ! i) s)
      in best_so_far s)"

fun subset_reps :: "int list \<Rightarrow> int \<Rightarrow> (nat \<Rightarrow> nat \<Rightarrow> bool) \<Rightarrow> nat \<Rightarrow> nat \<Rightarrow> best \<Rightarrow> best" where
  "subset_reps v nTarget rnd 0 nRep b = b"
| "subset_reps v nTarget rnd (Suc k) nRep b =
     (if nBest b = nTarget then b
      else subset_reps v nTarget rnd k (Suc nRep) (subset_rep v nTarget (rnd nRep) b))"

definition ApproximateBestSubset :: "int list \<Rightarrow> int \<Rightarrow> int \<Rightarrow> (nat \<Rightarrow> nat \<Rightarrow> bool) \<Rightarrow> nat \<Rightarrow> best" where
  "ApproximateBestSubset v nTotalLower nTarget rnd iterations =
     subset_reps v nTarget rnd iterations 0 \<lparr>nBest = nTotalLower, vfBest = replicate (length v) True\<rparr>"

section \<open>Selection\<close>

definition CAmount_max :: int where
  "CAmount_max = 2 ^ 63 - 1"

text \<open>The scan of the outputs: a coin worth the target ends it; the others are sorted into the two variables.\<close>

fun scan_coins ::
    "'e coin_env_scheme \<Rightarrow> int \<Rightarrow> int \<Rightarrow> int \<Rightarrow> COutput list \<Rightarrow> (int \<times> coin) list \<Rightarrow> int \<Rightarrow> int \<times> coin option
     \<Rightarrow> (int \<times> coin) + ((int \<times> coin) list \<times> int \<times> (int \<times> coin option))" where
  "scan_coins E nTarget nMine nTheirs [] vValue nTotalLower larger = Inr (vValue, nTotalLower, larger)"
| "scan_coins E nTarget nMine nTheirs (out # outs) vValue nTotalLower larger =
     (if \<not> out_fSpendable out then scan_coins E nTarget nMine nTheirs outs vValue nTotalLower larger
      else if out_nDepth out < (if IsFromMe_ALL E (out_tx out) then nMine else nTheirs)
      then scan_coins E nTarget nMine nTheirs outs vValue nTotalLower larger
      else
        let n = coin_value E (out_coin out) in
        if n = nTarget then Inl (n, out_coin out)
        else if n < nTarget + CENT E
        then scan_coins E nTarget nMine nTheirs outs (vValue @ [(n, out_coin out)]) (nTotalLower + n) larger
        else if n < fst larger
        then scan_coins E nTarget nMine nTheirs outs vValue nTotalLower (n, Some (out_coin out))
        else scan_coins E nTarget nMine nTheirs outs vValue nTotalLower larger)"

definition add_coin :: "int \<times> coin \<Rightarrow> coin set \<times> int \<Rightarrow> coin set \<times> int" where
  "add_coin c r = (insert (snd c) (fst r), snd r + fst c)"

text \<open>\<open>sort(rbegin, rend, CompareValueOnly())\<close>: the values go down.\<close>

definition sort_down :: "(int \<times> coin) list \<Rightarrow> (int \<times> coin) list" where
  "sort_down vValue = rev (sort_key fst vValue)"

definition best_subset ::
    "'e coin_env_scheme \<Rightarrow> (nat \<Rightarrow> nat \<Rightarrow> nat \<Rightarrow> bool) \<Rightarrow> int \<Rightarrow> (int \<times> coin) list \<Rightarrow> int \<Rightarrow> best" where
  "best_subset E rnd nTarget vValue nTotalLower =
     (let b = ApproximateBestSubset (List.map fst vValue) nTotalLower nTarget (rnd 0) 1000 in
      if nBest b \<noteq> nTarget \<and> nTotalLower \<ge> nTarget + CENT E
      then ApproximateBestSubset (List.map fst vValue) nTotalLower (nTarget + CENT E) (rnd 1) 1000
      else b)"

definition SelectCoinsMinConf ::
    "'e coin_env_scheme \<Rightarrow> (nat \<Rightarrow> nat \<Rightarrow> nat \<Rightarrow> bool) \<Rightarrow> int \<Rightarrow> int \<Rightarrow> int \<Rightarrow> COutput list
     \<Rightarrow> bool \<times> coin set \<times> int" where
  "SelectCoinsMinConf E rnd nTarget nConfMine nConfTheirs vCoins =
     (case scan_coins E nTarget nConfMine nConfTheirs vCoins [] 0 (CAmount_max, None) of
        Inl c \<Rightarrow> (True, add_coin c ({}, 0))
      | Inr (vValue, nTotalLower, larger) \<Rightarrow>
          if nTotalLower = nTarget then (True, fold add_coin vValue ({}, 0))
          else if nTotalLower < nTarget then
            (case snd larger of
               None \<Rightarrow> (False, {}, 0)
             | Some c \<Rightarrow> (True, add_coin (fst larger, c) ({}, 0)))
          else
            let vValue = sort_down vValue;
                b = best_subset E rnd nTarget vValue nTotalLower in
            case snd larger of
              Some c \<Rightarrow>
                if (nBest b \<noteq> nTarget \<and> nBest b < nTarget + CENT E) \<or> fst larger \<le> nBest b
                then (True, add_coin (fst larger, c) ({}, 0))
                else (True, fold add_coin (List.map fst (List.filter snd (zip vValue (vfBest b)))) ({}, 0))
            | None \<Rightarrow> (True, fold add_coin (List.map fst (List.filter snd (zip vValue (vfBest b)))) ({}, 0)))"

definition SelectCoins ::
    "'e coin_env_scheme \<Rightarrow> (nat \<Rightarrow> nat \<Rightarrow> nat \<Rightarrow> nat \<Rightarrow> bool) \<Rightarrow> int \<Rightarrow> COutput list \<Rightarrow> bool \<times> coin set \<times> int" where
  "SelectCoins E rnd nTarget vCoins =
     (let r = SelectCoinsMinConf E (rnd 0) nTarget 1 6 vCoins in if fst r then r
      else let r = SelectCoinsMinConf E (rnd 1) nTarget 1 1 vCoins in if fst r then r
      else SelectCoinsMinConf E (rnd 2) nTarget 0 1 vCoins)"

section \<open>The approximation finds a subset that is worth its value\<close>

definition chosen_sum :: "int list \<Rightarrow> bool list \<Rightarrow> int" where
  "chosen_sum v inc = sum_list (List.map fst (List.filter snd (zip v inc)))"

lemma chosen_sum_Cons [simp]:
  "chosen_sum (x # v) (b # inc) = (if b then x else 0) + chosen_sum v inc"
  by (simp add: chosen_sum_def)

lemma chosen_sum_Nil [simp]: "chosen_sum v [] = 0"
  by (simp add: chosen_sum_def)

lemma chosen_sum_False: "chosen_sum v (replicate (length v) False) = 0"
  by (induction v) (simp_all add: chosen_sum_def)

lemma chosen_sum_True: "chosen_sum v (replicate (length v) True) = sum_list v"
  by (induction v) (simp_all add: chosen_sum_def)

lemma chosen_sum_insert:
  "length inc = length v \<Longrightarrow> i < length v \<Longrightarrow> \<not> inc ! i \<Longrightarrow> chosen_sum v (inc[i := True]) = chosen_sum v inc + v ! i"
proof (induction v arbitrary: inc i)
  case (Cons x v)
  then show ?case by (cases inc; cases i) auto
qed simp

definition best_ok :: "int list \<Rightarrow> int \<Rightarrow> int \<Rightarrow> best \<Rightarrow> bool" where
  "best_ok v nTarget hi b \<longleftrightarrow> length (vfBest b) = length v \<and> chosen_sum v (vfBest b) = nBest b \<and>
     nTarget \<le> nBest b \<and> nBest b \<le> hi"

definition pass_ok :: "int list \<Rightarrow> int \<Rightarrow> int \<Rightarrow> pass_state \<Rightarrow> bool" where
  "pass_ok v nTarget hi s \<longleftrightarrow> length (vfIncluded s) = length v \<and> nTotal s = chosen_sum v (vfIncluded s) \<and>
     best_ok v nTarget hi (best_so_far s)"

lemma subset_step_ok:
  assumes "pass_ok v t hi s" "i < length v" "pick (vfIncluded s) i \<Longrightarrow> \<not> vfIncluded s ! i"
  shows "pass_ok v t hi (subset_step v t pick i s) \<and>
    (\<forall>j. j \<noteq> i \<longrightarrow> vfIncluded (subset_step v t pick i s) ! j = vfIncluded s ! j)"
proof (cases "pick (vfIncluded s) i")
  case True
  with assms(3) have n: "\<not> vfIncluded s ! i" by simp
  have "(vfIncluded s)[i := False] = vfIncluded s" using n by (metis list_update_id)
  with assms(1,2) chosen_sum_insert[OF _ assms(2) n] show ?thesis
    by (auto simp: subset_step_def pass_ok_def best_ok_def Let_def True)
qed (use assms in \<open>simp add: subset_step_def\<close>)

lemma first_pass_ok:
  assumes "pass_ok v t hi s" "\<forall>j < length v. \<not> vfIncluded s ! j" "n \<le> length v"
  shows "pass_ok v t hi (fold (subset_step v t (\<lambda>_ i. rnd i)) [0..<n] s) \<and>
    (\<forall>j. n \<le> j \<longrightarrow> j < length v \<longrightarrow> \<not> vfIncluded (fold (subset_step v t (\<lambda>_ i. rnd i)) [0..<n] s) ! j)"
  using assms(3)
proof (induction n)
  case (Suc n)
  then show ?case
    using subset_step_ok[of v t hi "fold (subset_step v t (\<lambda>_ i. rnd i)) [0..<n] s" n "\<lambda>_ i. rnd i"] by auto
qed (use assms in auto)

lemma second_pass_ok:
  "pass_ok v t hi s \<Longrightarrow> n \<le> length v \<Longrightarrow> pass_ok v t hi (fold (subset_step v t (\<lambda>inc i. \<not> inc ! i)) [0..<n] s)"
  by (induction n) (auto simp: subset_step_ok)

lemma subset_rep_ok:
  assumes "best_ok v t hi b"
  shows "best_ok v t hi (subset_rep v t rnd b)"
proof -
  let ?s = "\<lparr>nTotal = 0, vfIncluded = replicate (length v) False, fReachedTarget = False, best_so_far = b\<rparr>"
  have "pass_ok v t hi ?s" using assms by (simp add: pass_ok_def chosen_sum_False)
  then have "pass_ok v t hi (subset_pass v t (\<lambda>_ i. rnd i) ?s)"
    using first_pass_ok[of v t hi ?s "length v" rnd] by (simp add: subset_pass_def)
  then show ?thesis
    using second_pass_ok by (auto simp: subset_rep_def Let_def pass_ok_def subset_pass_def)
qed

lemma subset_reps_ok: "best_ok v t hi b \<Longrightarrow> best_ok v t hi (subset_reps v t rnd k n b)"
  by (induction v t rnd k n b rule: subset_reps.induct) (auto simp: subset_rep_ok)

lemma approximation_ok:
  "nTarget \<le> sum_list v \<Longrightarrow> best_ok v nTarget (sum_list v) (ApproximateBestSubset v (sum_list v) nTarget rnd iterations)"
  unfolding ApproximateBestSubset_def by (rule subset_reps_ok) (simp add: best_ok_def chosen_sum_True)

text \<open>The stochastic approximation is sound whatever the random bits are: from coins that together are worth at
  least the target it selects a subset that is worth exactly the \<open>nBest\<close> it reports, at least the target and at
  most the total it started from.
\<close>

theorem ApproximateBestSubset_sound:
  assumes "nTarget \<le> sum_list v"
  shows "length (vfBest (ApproximateBestSubset v (sum_list v) nTarget rnd iterations)) = length v \<and>
    chosen_sum v (vfBest (ApproximateBestSubset v (sum_list v) nTarget rnd iterations)) =
      nBest (ApproximateBestSubset v (sum_list v) nTarget rnd iterations) \<and>
    nTarget \<le> nBest (ApproximateBestSubset v (sum_list v) nTarget rnd iterations) \<and>
    nBest (ApproximateBestSubset v (sum_list v) nTarget rnd iterations) \<le> sum_list v"
  using approximation_ok[OF assms] by (simp add: best_ok_def)

theorem ApproximateBestSubset_sound_witness:
  "4 \<le> nBest (ApproximateBestSubset [3, 2, 2] (sum_list [3, 2, 2]) 4 (\<lambda>r i. even (r + i)) 5)"
  using ApproximateBestSubset_sound[of 4 "[3, 2, 2]" "\<lambda>r i. even (r + i)" 5] by simp

section \<open>What is selected\<close>

definition eligible :: "'e coin_env_scheme \<Rightarrow> int \<Rightarrow> int \<Rightarrow> COutput list \<Rightarrow> coin list" where
  "eligible E nMine nTheirs outs = List.map out_coin (List.filter (\<lambda>out. out_fSpendable out \<and>
     (if IsFromMe_ALL E (out_tx out) then nMine else nTheirs) \<le> out_nDepth out) outs)"

definition priced :: "'e coin_env_scheme \<Rightarrow> coin list \<Rightarrow> (int \<times> coin) list" where
  "priced E cs = List.map (\<lambda>c. (coin_value E c, c)) cs"

definition small :: "'e coin_env_scheme \<Rightarrow> int \<Rightarrow> coin list \<Rightarrow> coin list" where
  "small E nTarget cs = List.filter (\<lambda>c. coin_value E c < nTarget + CENT E) cs"

definition total :: "'e coin_env_scheme \<Rightarrow> coin list \<Rightarrow> int" where
  "total E cs = sum_list (List.map (coin_value E) cs)"

lemma eligible_Cons:
  "eligible E a b (out # outs) =
     (if out_fSpendable out \<and> \<not> out_nDepth out < (if IsFromMe_ALL E (out_tx out) then a else b)
      then [out_coin out] else []) @ eligible E a b outs"
  by (simp add: eligible_def)

lemma set_eligible: "set (eligible E a b outs) \<subseteq> out_coin ` set outs"
  by (auto simp: eligible_def)

lemma distinct_eligible: "distinct (List.map out_coin outs) \<Longrightarrow> distinct (eligible E a b outs)"
  by (auto simp: eligible_def distinct_map inj_on_def)

text \<open>The scan reads the eligible coins only.\<close>

fun scan_core ::
    "'e coin_env_scheme \<Rightarrow> int \<Rightarrow> coin list \<Rightarrow> (int \<times> coin) list \<Rightarrow> int \<Rightarrow> int \<times> coin option
     \<Rightarrow> (int \<times> coin) + ((int \<times> coin) list \<times> int \<times> (int \<times> coin option))" where
  "scan_core E t [] vValue low larger = Inr (vValue, low, larger)"
| "scan_core E t (c # cs) vValue low larger =
     (if coin_value E c = t then Inl (coin_value E c, c)
      else if coin_value E c < t + CENT E
      then scan_core E t cs (vValue @ [(coin_value E c, c)]) (low + coin_value E c) larger
      else if coin_value E c < fst larger then scan_core E t cs vValue low (coin_value E c, Some c)
      else scan_core E t cs vValue low larger)"

lemma scan_coins_core:
  "scan_coins E t a b outs vValue low larger = scan_core E t (eligible E a b outs) vValue low larger"
proof (induction outs arbitrary: vValue low larger)
  case Nil
  show ?case by (simp add: eligible_def)
next
  case (Cons out outs)
  then show ?case by (simp add: eligible_Cons Let_def)
qed

lemma scan_core_exact: "scan_core E t cs vV low larger = Inl c \<Longrightarrow> c = (t, snd c) \<and> coin_value E (snd c) = t \<and> snd c \<in> set cs"
  by (induction cs arbitrary: vV low larger) (auto split: if_splits)

lemma scan_core_small:
  "scan_core E t cs vV low larger = Inr (vV', low', larger') \<Longrightarrow>
   vV' = vV @ priced E (small E t cs) \<and> low' = low + total E (small E t cs)"
  by (induction cs arbitrary: vV low larger)
     (fastforce simp: small_def priced_def total_def split: if_splits)+

text \<open>The candidate for the larger coin stays what it was, when no coin of the list undercuts it, or is one of the list.\<close>

definition larger_ok :: "'e coin_env_scheme \<Rightarrow> int \<Rightarrow> coin list \<Rightarrow> int \<times> coin option \<Rightarrow> int \<times> coin option \<Rightarrow> bool" where
  "larger_ok E t cs larger larger' \<longleftrightarrow>
     larger' = larger \<and> list_all (\<lambda>c. t + CENT E \<le> coin_value E c \<longrightarrow> fst larger \<le> coin_value E c) cs \<or>
     list_ex (\<lambda>c. larger' = (coin_value E c, Some c) \<and> t + CENT E \<le> coin_value E c) cs"

lemma scan_core_larger:
  "scan_core E t cs vV low larger = Inr (vV', low', larger') \<Longrightarrow> larger_ok E t cs larger larger'"
proof (induction cs arbitrary: vV low larger)
  case (Cons c cs)
  from Cons.prems have n: "coin_value E c \<noteq> t" by auto
  consider (low) "coin_value E c < t + CENT E"
    | (taken) "\<not> coin_value E c < t + CENT E" "coin_value E c < fst larger"
    | (kept) "\<not> coin_value E c < t + CENT E" "\<not> coin_value E c < fst larger" by blast
  then show ?case
  proof cases
    case low
    with Cons.prems n have "larger_ok E t cs larger larger'" by (intro Cons.IH) simp
    with low show ?thesis by (auto simp: larger_ok_def)
  next
    case taken
    with Cons.prems n have "larger_ok E t cs (coin_value E c, Some c) larger'" by (intro Cons.IH) simp
    with taken show ?thesis by (auto simp: larger_ok_def)
  next
    case kept
    with Cons.prems n have "larger_ok E t cs larger larger'" by (intro Cons.IH) simp
    with kept show ?thesis by (auto simp: larger_ok_def)
  qed
qed (simp add: larger_ok_def)

lemma fold_add_coin:
  "fold add_coin xs (S, v) = (S \<union> snd ` set xs, v + sum_list (List.map fst xs))"
  by (induction xs arbitrary: S v) (auto simp: add_coin_def)

text \<open>A list of priced coins without repetition adds up to the value of its set.\<close>

definition priced_set :: "'e coin_env_scheme \<Rightarrow> (int \<times> coin) list \<Rightarrow> bool" where
  "priced_set E xs \<longleftrightarrow> distinct (List.map snd xs) \<and> (\<forall>x \<in> set xs. fst x = coin_value E (snd x))"

lemma priced_set_sum:
  "priced_set E xs \<Longrightarrow> (\<Sum>c \<in> snd ` set xs. coin_value E c) = sum_list (List.map fst xs)"
  by (induction xs) (auto simp: priced_set_def)

lemma priced_set_priced: "distinct cs \<Longrightarrow> priced_set E (priced E cs)"
  by (simp add: priced_set_def priced_def comp_def)

lemma snd_priced [simp]: "snd ` set (priced E cs) = set cs"
  by (auto simp: priced_def image_iff)

lemma fst_priced [simp]: "sum_list (List.map fst (priced E cs)) = total E cs"
  by (simp add: priced_def total_def comp_def)

lemma set_sort_down [simp]: "set (sort_down xs) = set xs"
  by (simp add: sort_down_def)

lemma mset_sort_down [simp]: "mset (sort_down xs) = mset xs"
  by (simp add: sort_down_def)

lemma sum_sort_down: "sum_list (List.map fst (sort_down xs)) = sum_list (List.map fst xs)"
  by (metis mset_map mset_sort_down sum_mset_sum_list)

lemma priced_set_sort_down: "priced_set E xs \<Longrightarrow> priced_set E (sort_down xs)"
  unfolding priced_set_def set_sort_down by (metis mset_eq_imp_distinct_iff mset_map mset_sort_down)

lemma distinct_chosen: "distinct (List.map f xs) \<Longrightarrow> distinct (List.map f (List.map fst (List.filter snd (zip xs bs))))"
proof (induction xs arbitrary: bs)
  case (Cons x xs)
  then show ?case by (cases bs) (auto dest: set_zip_leftD)
qed simp

lemma priced_set_chosen: "priced_set E xs \<Longrightarrow> priced_set E (List.map fst (List.filter snd (zip xs bs)))"
  unfolding priced_set_def using distinct_chosen[of snd xs bs] by (fastforce dest: set_zip_leftD)

lemma chosen_sum_map: "sum_list (List.map fst (List.map fst (List.filter snd (zip xs bs)))) = chosen_sum (List.map fst xs) bs"
proof (induction xs arbitrary: bs)
  case (Cons x xs)
  then show ?case by (cases bs) auto
qed (simp add: chosen_sum_def)

lemma best_subset_ok:
  assumes "t \<le> sum_list (List.map fst xs)" "0 \<le> CENT E"
  shows "best_ok (List.map fst xs) t (sum_list (List.map fst xs)) (best_subset E rnd t xs (sum_list (List.map fst xs)))"
  using approximation_ok[of t "List.map fst xs" "rnd 0" 1000] approximation_ok[of "t + CENT E" "List.map fst xs" "rnd 1" 1000] assms
  by (auto simp: best_subset_def Let_def best_ok_def)

text \<open>What a successful selection must return from the list of eligible coins.\<close>

definition selection_ok :: "'e coin_env_scheme \<Rightarrow> int \<Rightarrow> coin list \<Rightarrow> coin set \<times> int \<Rightarrow> bool" where
  "selection_ok E nTarget cs r \<longleftrightarrow> fst r \<subseteq> set cs \<and> snd r = (\<Sum>c \<in> fst r. coin_value E c) \<and> nTarget \<le> snd r"

lemma selection_one: "c \<in> set cs \<Longrightarrow> t \<le> coin_value E c \<Longrightarrow> selection_ok E t cs (add_coin (coin_value E c, c) ({}, 0))"
  by (simp add: selection_ok_def add_coin_def)

lemma selection_fold:
  "priced_set E xs \<Longrightarrow> snd ` set xs \<subseteq> set cs \<Longrightarrow> t \<le> sum_list (List.map fst xs) \<Longrightarrow>
   selection_ok E t cs (fold add_coin xs ({}, 0))"
  by (simp add: selection_ok_def fold_add_coin priced_set_sum)

lemma total_mono:
  "\<forall>c \<in> set cs. 0 \<le> coin_value E c \<Longrightarrow> 0 \<le> total E cs"
  "\<forall>c \<in> set cs. 0 \<le> coin_value E c \<Longrightarrow> total E (List.filter P cs) \<le> total E cs"
  "\<forall>c \<in> set cs. 0 \<le> coin_value E c \<Longrightarrow> c \<in> set cs \<Longrightarrow> coin_value E c \<le> total E cs"
  by (induction cs) (auto simp: total_def)

lemma chosen_subset:
  assumes "distinct cs" "t \<le> total E cs" "0 \<le> CENT E" "set cs \<subseteq> set ds"
    and "xs = sort_down (priced E cs)" "b = best_subset E rnd t xs (total E cs)"
  shows "selection_ok E t ds (fold add_coin (List.map fst (List.filter snd (zip xs (vfBest b)))) ({}, 0)) \<and> t \<le> nBest b"
proof -
  have s: "sum_list (List.map fst xs) = total E cs" by (simp add: assms(5) sum_sort_down)
  from best_subset_ok[of t xs E rnd] assms(2,3) have b: "best_ok (List.map fst xs) t (total E cs) b"
    by (simp add: s assms(6))
  have p: "priced_set E xs" unfolding assms(5) by (intro priced_set_sort_down priced_set_priced assms(1))
  have "snd ` set (List.map fst (List.filter snd (zip xs (vfBest b)))) \<subseteq> snd ` set xs"
    by (force dest: set_zip_leftD)
  also have "\<dots> \<subseteq> set ds" using assms(4) by (simp add: assms(5))
  finally have sub: "snd ` set (List.map fst (List.filter snd (zip xs (vfBest b)))) \<subseteq> set ds" .
  have "t \<le> sum_list (List.map fst (List.map fst (List.filter snd (zip xs (vfBest b)))))"
    unfolding chosen_sum_map using b by (simp add: best_ok_def)
  from selection_fold[OF priced_set_chosen[OF p] sub this] b show ?thesis by (simp add: best_ok_def)
qed

lemma SelectCoinsMinConf_spec:
  assumes "0 \<le> CENT E" "distinct cs" "cs = eligible E nMine nTheirs vCoins"
    "\<forall>c \<in> set cs. 0 \<le> coin_value E c \<and> coin_value E c < CAmount_max"
  shows "case SelectCoinsMinConf E rnd t nMine nTheirs vCoins of
    (ok, r) \<Rightarrow> ok = (t \<le> total E cs) \<and> (ok \<longrightarrow> selection_ok E t cs r)"
proof (cases "scan_coins E t nMine nTheirs vCoins [] 0 (CAmount_max, None)")
  case (Inl c)
  from scan_core_exact[OF Inl[unfolded scan_coins_core]]
  have c: "c = (t, snd c)" "coin_value E (snd c) = t" "snd c \<in> set cs" by (simp_all add: assms(3))
  then have "t \<le> total E cs" using total_mono(3)[of cs E "snd c"] assms(4) by auto
  with selection_one[OF c(3), of t E] c show ?thesis by (simp add: SelectCoinsMinConf_def Inl)
next
  case (Inr r)
  obtain vV low larger where r: "r = (vV, low, larger)" by (cases r) auto
  let ?cs = "small E t cs"
  have v: "vV = priced E ?cs" "low = total E ?cs"
    using scan_core_small[OF Inr[unfolded r scan_coins_core]] by (simp_all add: assms(3))
  have l: "larger_ok E t cs (CAmount_max, None) larger"
    using scan_core_larger[OF Inr[unfolded r scan_coins_core]] by (simp add: assms(3))
  have sub: "set ?cs \<subseteq> set cs" and d: "distinct ?cs" using assms(2) by (auto simp: small_def)
  have le: "total E ?cs \<le> total E cs" unfolding small_def using assms(4) by (intro total_mono(2)) auto
  have none: "total E cs = total E ?cs" if "snd larger = None"
  proof -
    have "\<forall>c \<in> set cs. coin_value E c < t + CENT E"
      using l assms(4) that by (fastforce simp: larger_ok_def list_all_iff list_ex_iff)
    then show ?thesis by (simp add: small_def)
  qed
  have some: "c \<in> set cs \<and> fst larger = coin_value E c \<and> t \<le> coin_value E c \<and> t \<le> total E cs"
    if "snd larger = Some c" for c
    using l that assms(1,4) total_mono(3)[of cs E c] by (force simp: larger_ok_def list_ex_iff)
  consider "low = t" | "low < t" | "t < low" by linarith
  then show ?thesis
  proof cases
    case 1
    then show ?thesis
      using selection_fold[OF priced_set_priced[OF d, of E], of cs t] sub le
      by (simp add: SelectCoinsMinConf_def Inr r v)
  next
    case 2
    then show ?thesis
      using none some selection_one[of _ cs t E] 
      by (cases "snd larger") (auto simp: SelectCoinsMinConf_def Inr r v)
  next
    case 3
    then show ?thesis
      using chosen_subset[OF d _ assms(1) sub refl refl, of t rnd] some selection_one[of _ cs t E] le
      by (auto simp: SelectCoinsMinConf_def Inr r v Let_def split: option.splits)
  qed
qed

text \<open>C14. Coin selection succeeds exactly when the eligible coins (spendable, deep enough) are together worth the
  target; it then returns a set of them, the value it reports is what they are worth, and that is at least
  the target. This holds for all random bits.
\<close>

theorem SelectCoinsMinConf_exact:
  assumes "0 \<le> CENT E" "distinct (List.map out_coin vCoins)"
    "\<forall>out \<in> set vCoins. 0 \<le> coin_value E (out_coin out) \<and> coin_value E (out_coin out) < CAmount_max"
    "SelectCoinsMinConf E rnd nTarget nMine nTheirs vCoins = (ok, coins, nValueRet)"
  shows "(ok \<longleftrightarrow> nTarget \<le> total E (eligible E nMine nTheirs vCoins)) \<and>
    (ok \<longrightarrow> coins \<subseteq> set (eligible E nMine nTheirs vCoins) \<and>
       nValueRet = (\<Sum>c \<in> coins. coin_value E c) \<and> nTarget \<le> nValueRet)"
proof -
  have "\<forall>c \<in> set (eligible E nMine nTheirs vCoins). 0 \<le> coin_value E c \<and> coin_value E c < CAmount_max"
    using assms(3) set_eligible[of E nMine nTheirs vCoins] by blast
  from SelectCoinsMinConf_spec[OF assms(1) distinct_eligible[OF assms(2)] refl this, of nTarget rnd] assms(4)
  show ?thesis by (auto simp: selection_ok_def)
qed

lemma SelectCoins_ok:
  assumes "0 \<le> CENT E" "distinct (List.map out_coin vCoins)"
    "\<forall>out \<in> set vCoins. 0 \<le> coin_value E (out_coin out) \<and> coin_value E (out_coin out) < CAmount_max"
    "SelectCoins E rnd t vCoins = (True, coins, v)"
  shows "coins \<subseteq> set (eligible E 0 1 vCoins) \<and> v = (\<Sum>c \<in> coins. coin_value E c) \<and> t \<le> v"
proof -
  have e: "\<forall>c \<in> set (eligible E a b vCoins). 0 \<le> coin_value E c \<and> coin_value E c < CAmount_max" for a b
    using assms(3) set_eligible[of E a b vCoins] by blast
  note spec = SelectCoinsMinConf_spec[OF assms(1) distinct_eligible[OF assms(2)] refl e, of t]
  consider "SelectCoinsMinConf E (rnd 0) t 1 6 vCoins = (True, coins, v)"
    | "SelectCoinsMinConf E (rnd 1) t 1 1 vCoins = (True, coins, v)"
    | "SelectCoinsMinConf E (rnd 2) t 0 1 vCoins = (True, coins, v)"
    using assms(4) by (auto simp: SelectCoins_def Let_def split: if_splits)
  then have "\<exists>a b. selection_ok E t (eligible E a b vCoins) (coins, v) \<and> 0 \<le> a \<and> 1 \<le> b"
  proof cases
    case 1
    with spec[of 1 6 "rnd 0"] show ?thesis by (intro exI[of _ 1] exI[of _ 6]) simp
  next
    case 2
    with spec[of 1 1 "rnd 1"] show ?thesis by (intro exI[of _ 1] exI[of _ 1]) simp
  next
    case 3
    with spec[of 0 1 "rnd 2"] show ?thesis by (intro exI[of _ 0] exI[of _ 1]) simp
  qed
  moreover have "0 \<le> a \<Longrightarrow> 1 \<le> b \<Longrightarrow> set (eligible E a b vCoins) \<subseteq> set (eligible E 0 1 vCoins)" for a b
    by (auto simp: eligible_def split: if_splits)
  ultimately show ?thesis by (force simp: selection_ok_def)
qed

section \<open>Making a transaction\<close>

record send_env = coin_env +
  nTransactionFee :: int
  MIN_TX_FEE :: int
  MAX_BLOCK_SIZE_GEN :: nat
  TxHash :: "CTransaction \<Rightarrow> base_uint"
  ScriptForAddress :: "CPubKey \<Rightarrow> bytes"
  SignSignature :: "CTransaction \<Rightarrow> nat \<Rightarrow> coin \<Rightarrow> CTransaction option"
  SerializeSize :: "CTransaction \<Rightarrow> nat"
  AllowFree :: "coin list \<Rightarrow> nat \<Rightarrow> bool"
  GetMinFee :: "CTransaction \<Rightarrow> bool \<Rightarrow> int"
  select_rnd :: "nat \<Rightarrow> nat \<Rightarrow> nat \<Rightarrow> nat \<Rightarrow> nat \<Rightarrow> bool"
  GetRandInt :: "nat \<Rightarrow> nat \<Rightarrow> nat"

text \<open>The total of the payments; \<open>None\<close> when the loop returns false.\<close>

fun sum_sends :: "(bytes \<times> int) list \<Rightarrow> int \<Rightarrow> int option" where
  "sum_sends [] acc = Some acc"
| "sum_sends (s # rest) acc = (if acc < 0 then None else sum_sends rest (acc + snd s))"

fun sign_all :: "'e send_env_scheme \<Rightarrow> coin list \<Rightarrow> nat \<Rightarrow> CTransaction \<Rightarrow> CTransaction option" where
  "sign_all E [] nIn tx = Some tx"
| "sign_all E (c # cs) nIn tx =
     (case SignSignature E tx nIn c of None \<Rightarrow> None | Some tx \<Rightarrow> sign_all E cs (Suc nIn) tx)"

definition coin_outpoint :: "'e send_env_scheme \<Rightarrow> coin \<Rightarrow> COutPoint" where
  "coin_outpoint E c = \<lparr>op_hash = TxHash E (wtx E (fst c)), op_n = of_nat (snd c)\<rparr>"

text \<open>The change: a key is reserved and an output put at a random place, or the reserved key goes back.\<close>

definition add_change ::
    "'e send_env_scheme \<Rightarrow> 'w wallet_env_scheme \<Rightarrow> nat \<Rightarrow> int \<Rightarrow> CTransaction \<Rightarrow> CReserveKey \<Rightarrow> CWallet
     \<Rightarrow> CTransaction result \<times> CReserveKey \<times> CWallet" where
  "add_change E W k nChange tx rk w =
     (if nChange > 0 then
        (case GetReservedKey W rk w of
           (Inl e, rk, w) \<Rightarrow> (Inl e, rk, w)
         | (Inr vchPubKey, rk, w) \<Rightarrow>
             let out = \<lparr>nValue = nChange, scriptPubKey = ScriptForAddress E vchPubKey\<rparr>;
                 pos = GetRandInt E k (length (vout tx))
             in (Inr (tx\<lparr>vout := take pos (vout tx) @ [out] @ drop pos (vout tx)\<rparr>), rk, w))
      else case rk_ReturnKey rk w of (rk, w) \<Rightarrow> (Inr tx, rk, w))"

definition move_to_fee :: "'e send_env_scheme \<Rightarrow> int \<Rightarrow> int \<Rightarrow> int \<times> int" where
  "move_to_fee E nChange nFeeRet =
     (if nFeeRet < MIN_TX_FEE E \<and> nChange > 0 \<and> nChange < CENT E
      then let nMoveToFee = min nChange (MIN_TX_FEE E - nFeeRet) in (nChange - nMoveToFee, nFeeRet + nMoveToFee)
      else (nChange, nFeeRet))"

text \<open>How a round of the loop ends. What is left in \<open>wtxNew\<close> after a failure is not kept.\<close>

datatype outcome = GiveUp int | RaiseFee int | Created CTransaction int

definition finish_round :: "'e send_env_scheme \<Rightarrow> coin list \<Rightarrow> int \<Rightarrow> CTransaction \<Rightarrow> outcome" where
  "finish_round E coins nFeeRet tx =
     (case sign_all E coins 0 (tx\<lparr>vin := List.map (\<lambda>c. mk_txin (coin_outpoint E c) [] (-1)) coins\<rparr>) of
        None \<Rightarrow> GiveUp nFeeRet
      | Some tx \<Rightarrow>
          let nBytes = SerializeSize E tx in
          if nBytes \<ge> MAX_BLOCK_SIZE_GEN E div 5 then GiveUp nFeeRet
          else
            let nPayFee = nTransactionFee E * (1 + int nBytes div 1000);
                nMinFee = GetMinFee E tx (AllowFree E coins nBytes) in
            if nFeeRet < max nPayFee nMinFee then RaiseFee (max nPayFee nMinFee)
            else Created tx nFeeRet)"

definition create_round ::
    "'e send_env_scheme \<Rightarrow> 'w wallet_env_scheme \<Rightarrow> (bytes \<times> int) list \<Rightarrow> int \<Rightarrow> COutput list \<Rightarrow> nat \<Rightarrow> int
     \<Rightarrow> CTransaction \<Rightarrow> CReserveKey \<Rightarrow> CWallet \<Rightarrow> outcome result \<times> CReserveKey \<times> CWallet" where
  "create_round E W vecSend nValueOut vCoins k nFeeRet tx rk w =
     (let tx = tx\<lparr>vin := [], vout := List.map (\<lambda>s. \<lparr>nValue = snd s, scriptPubKey = fst s\<rparr>) vecSend\<rparr>;
          nTotalValue = nValueOut + nFeeRet in
      case SelectCoins E (select_rnd E k) nTotalValue vCoins of (ok, setCoins, nValueIn) \<Rightarrow>
        if \<not> ok then (Inr (GiveUp nFeeRet), rk, w)
        else case move_to_fee E (nValueIn - nValueOut - nFeeRet) nFeeRet of (nChange, nFeeRet) \<Rightarrow>
          (case add_change E W k nChange tx rk w of
             (Inl e, rk, w) \<Rightarrow> (Inl e, rk, w)
           | (Inr tx, rk, w) \<Rightarrow> (Inr (finish_round E (sorted_list_of_set setCoins) nFeeRet tx), rk, w)))"

fun create_loop ::
    "'e send_env_scheme \<Rightarrow> 'w wallet_env_scheme \<Rightarrow> (bytes \<times> int) list \<Rightarrow> int \<Rightarrow> COutput list \<Rightarrow> nat \<Rightarrow> nat \<Rightarrow> int
     \<Rightarrow> CTransaction \<Rightarrow> CReserveKey \<Rightarrow> CWallet
     \<Rightarrow> (bool result \<times> CTransaction \<times> int \<times> CReserveKey \<times> CWallet) option" where
  "create_loop E W vecSend nValueOut vCoins 0 k nFeeRet tx rk w = None"
| "create_loop E W vecSend nValueOut vCoins (Suc fuel) k nFeeRet tx rk w =
     (case create_round E W vecSend nValueOut vCoins k nFeeRet tx rk w of
        (Inl e, rk, w) \<Rightarrow> Some (Inl e, tx, nFeeRet, rk, w)
      | (Inr (GiveUp nFeeRet), rk, w) \<Rightarrow> Some (Inr False, tx, nFeeRet, rk, w)
      | (Inr (Created tx nFeeRet), rk, w) \<Rightarrow> Some (Inr True, tx, nFeeRet, rk, w)
      | (Inr (RaiseFee nFeeRet), rk, w) \<Rightarrow>
          create_loop E W vecSend nValueOut vCoins fuel (Suc k) nFeeRet tx rk w)"

definition CreateTransaction ::
    "'e send_env_scheme \<Rightarrow> 'w wallet_env_scheme \<Rightarrow> nat \<Rightarrow> (bytes \<times> int) list \<Rightarrow> COutput list
     \<Rightarrow> CTransaction \<Rightarrow> int \<Rightarrow> CReserveKey \<Rightarrow> CWallet
     \<Rightarrow> (bool result \<times> CTransaction \<times> int \<times> CReserveKey \<times> CWallet) option" where
  "CreateTransaction E W fuel vecSend vCoins tx nFeeRet rk w =
     (case sum_sends vecSend 0 of
        None \<Rightarrow> Some (Inr False, tx, nFeeRet, rk, w)
      | Some nValueOut \<Rightarrow>
          if vecSend = [] \<or> nValueOut < 0 then Some (Inr False, tx, nFeeRet, rk, w)
          else create_loop E W vecSend nValueOut vCoins fuel 0 (nTransactionFee E) tx rk w)"

section \<open>The books balance\<close>

text \<open>Signing fills in scripts: outputs and the outpoints that are spent stay.\<close>

definition signs_only :: "'e send_env_scheme \<Rightarrow> bool" where
  "signs_only E \<longleftrightarrow> (\<forall>tx n c tx'. SignSignature E tx n c = Some tx' \<longrightarrow>
     vout tx' = vout tx \<and> List.map prevout (vin tx') = List.map prevout (vin tx))"

lemma sign_all_keeps:
  "signs_only E \<Longrightarrow> sign_all E cs n tx = Some tx' \<Longrightarrow>
   vout tx' = vout tx \<and> List.map prevout (vin tx') = List.map prevout (vin tx)"
  by (induction E cs n tx rule: sign_all.induct) (auto simp: signs_only_def split: option.splits)

lemma sum_sends_total: "sum_sends s v = Some t \<Longrightarrow> t = v + sum_list (List.map snd s)"
  by (induction s v rule: sum_sends.induct) (auto split: if_splits)

definition payees :: "(bytes \<times> int) list \<Rightarrow> CTxOut list" where
  "payees vecSend = List.map (\<lambda>s. \<lparr>nValue = snd s, scriptPubKey = fst s\<rparr>) vecSend"

lemma payees_total: "sum_list (List.map nValue (payees s)) = sum_list (List.map snd s)"
  by (simp add: payees_def comp_def)

definition outputs_total :: "CTransaction \<Rightarrow> int" where
  "outputs_total tx = sum_list (List.map nValue (vout tx))"

text \<open>The outputs are the payments in order with at most one output of change put between them.\<close>

definition pays :: "(bytes \<times> int) list \<Rightarrow> CTransaction \<Rightarrow> bool" where
  "pays vecSend tx \<longleftrightarrow> (\<exists>pos change. vout tx = take pos (payees vecSend) @ change @ drop pos (payees vecSend) \<and>
     length change \<le> 1 \<and> list_all (\<lambda>out. 0 < nValue out) change)"

lemma add_change_ok:
  assumes "add_change E W k nChange tx rk w = (Inr tx', rk', w')" "vout tx = payees s" "0 \<le> nChange"
  shows "pays s tx' \<and> outputs_total tx' = sum_list (List.map snd s) + nChange"
proof (cases "0 < nChange")
  case True
  then obtain pos out where v: "vout tx' = take pos (payees s) @ [out] @ drop pos (payees s)" "nValue out = nChange"
    using assms by (auto simp: add_change_def Let_def split: prod.splits sum.splits)
  have "sum_list (List.map nValue (take pos (payees s))) + sum_list (List.map nValue (drop pos (payees s))) =
      sum_list (List.map snd s)"
    by (metis append_take_drop_id map_append payees_total sum_list_append)
  with v True show ?thesis
    unfolding pays_def outputs_total_def by (intro conjI exI[of _ pos] exI[of _ "[out]"]) auto
next
  case False
  then have "vout tx' = payees s" "nChange = 0"
    using assms by (auto simp: add_change_def split: prod.splits)
  then show ?thesis
    unfolding pays_def outputs_total_def by (auto simp: payees_total intro!: exI[of _ 0] exI[of _ "[]"])
qed

lemma move_to_fee_ok:
  "move_to_fee E nChange nFee = (nChange', nFee') \<Longrightarrow> 0 \<le> nChange \<Longrightarrow>
   0 \<le> nChange' \<and> nFee \<le> nFee' \<and> nChange' + nFee' = nChange + nFee"
  by (auto simp: move_to_fee_def Let_def split: if_splits)

definition fee_due :: "'e send_env_scheme \<Rightarrow> coin list \<Rightarrow> CTransaction \<Rightarrow> int" where
  "fee_due E coins tx = max (nTransactionFee E * (1 + int (SerializeSize E tx) div 1000))
     (GetMinFee E tx (AllowFree E coins (SerializeSize E tx)))"

lemma finish_round_Created:
  assumes "signs_only E" "finish_round E coins nFee tx = Created tx' nFee'"
  shows "vout tx' = vout tx \<and> List.map prevout (vin tx') = List.map (coin_outpoint E) coins \<and> nFee' = nFee \<and>
    fee_due E coins tx' \<le> nFee \<and> SerializeSize E tx' < MAX_BLOCK_SIZE_GEN E div 5"
  using assms(2) sign_all_keeps[OF assms(1)]
  by (fastforce simp: finish_round_def fee_due_def Let_def mk_txin_def comp_def split: option.splits if_splits)

text \<open>A transaction as \<open>CreateTransaction\<close> must leave it.\<close>

definition balanced :: "'e send_env_scheme \<Rightarrow> (bytes \<times> int) list \<Rightarrow> COutput list \<Rightarrow> CTransaction \<Rightarrow> int \<Rightarrow> bool" where
  "balanced E vecSend vCoins tx nFeeRet \<longleftrightarrow>
     (\<exists>coins. distinct coins \<and> set coins \<subseteq> set (eligible E 0 1 vCoins) \<and>
        List.map prevout (vin tx) = List.map (coin_outpoint E) coins \<and>
        total E coins = outputs_total tx + nFeeRet \<and> fee_due E coins tx \<le> nFeeRet) \<and>
     pays vecSend tx \<and> SerializeSize E tx < MAX_BLOCK_SIZE_GEN E div 5"

lemma create_round_balanced:
  assumes "0 \<le> CENT E" "distinct (List.map out_coin vCoins)"
    "\<forall>out \<in> set vCoins. 0 \<le> coin_value E (out_coin out) \<and> coin_value E (out_coin out) < CAmount_max"
    "signs_only E" "t = sum_list (List.map snd vecSend)"
    "create_round E W vecSend t vCoins k nFee tx rk w = (Inr (Created tx' nFee'), rk', w')"
  shows "balanced E vecSend vCoins tx' nFee'"
proof -
  obtain ok coins v where sel: "SelectCoins E (select_rnd E k) (t + nFee) vCoins = (ok, coins, v)"
    by (metis prod_cases3)
  obtain nChange f where m: "move_to_fee E (v - t - nFee) nFee = (nChange, f)" by fastforce
  let ?tx = "tx\<lparr>vin := [], vout := payees vecSend\<rparr>"
  from assms(6) sel m obtain tx1 where ok: ok
    and a: "add_change E W k nChange ?tx rk w = (Inr tx1, rk', w')"
    and f: "finish_round E (sorted_list_of_set coins) f tx1 = Created tx' nFee'"
    by (auto simp: create_round_def Let_def payees_def split: if_splits prod.splits sum.splits)
  from SelectCoins_ok[OF assms(1-3)] sel ok
  have s: "coins \<subseteq> set (eligible E 0 1 vCoins)" "v = (\<Sum>c \<in> coins. coin_value E c)" "t + nFee \<le> v" by auto
  from s(1) have fin: "finite coins" using finite_subset by blast
  from move_to_fee_ok[OF m] s(3) have c: "0 \<le> nChange" "nChange + f = v - t" by auto
  have p: "pays vecSend tx1" "outputs_total tx1 = t + nChange"
    using add_change_ok[OF a _ c(1), of vecSend] assms(5) by auto
  note r = finish_round_Created[OF assms(4) f]
  have "total E (sorted_list_of_set coins) = v"
    using fin s(2) by (simp add: total_def sum_list_distinct_conv_sum_set)
  moreover have "pays vecSend tx'" "outputs_total tx' = outputs_total tx1"
    using p(1) r by (simp_all add: pays_def outputs_total_def)
  ultimately show ?thesis
    unfolding balanced_def using r s(1) fin c(2) p(2)
    by (intro conjI exI[of _ "sorted_list_of_set coins"]) auto
qed

lemma create_loop_balanced:
  assumes "0 \<le> CENT E" "distinct (List.map out_coin vCoins)"
    "\<forall>out \<in> set vCoins. 0 \<le> coin_value E (out_coin out) \<and> coin_value E (out_coin out) < CAmount_max"
    "signs_only E" "t = sum_list (List.map snd vecSend)"
  shows "create_loop E W vecSend t vCoins fuel k nFee tx rk w = Some (Inr True, tx', nFee', rk', w') \<Longrightarrow>
    balanced E vecSend vCoins tx' nFee'"
proof (induction fuel arbitrary: k nFee rk w)
  case (Suc fuel)
  then show ?case
    using create_round_balanced[OF assms, of W k nFee tx rk w tx' nFee']
    by (auto split: prod.splits sum.splits outcome.splits)
qed simp

text \<open>C3. \<open>CreateTransaction\<close> keeps the books balanced: a transaction it returns spends distinct coins that the
  wallet may spend, in outputs that are the payments in their order and at most one output of change, and the coins are worth exactly
  the outputs plus the fee it reports, which covers what the size and \<open>GetMinFee\<close> ask for.
\<close>

theorem CreateTransaction_balanced:
  assumes "0 \<le> CENT E" "distinct (List.map out_coin vCoins)"
    "\<forall>out \<in> set vCoins. 0 \<le> coin_value E (out_coin out) \<and> coin_value E (out_coin out) < CAmount_max"
    "signs_only E"
    "CreateTransaction E W fuel vecSend vCoins tx nFee rk w = Some (Inr True, tx', nFeeRet, rk', w')"
  shows "balanced E vecSend vCoins tx' nFeeRet"
proof -
  from assms(5) obtain t where t: "sum_sends vecSend 0 = Some t"
    and l: "create_loop E W vecSend t vCoins fuel 0 (nTransactionFee E) tx rk w = Some (Inr True, tx', nFeeRet, rk', w')"
    by (auto simp: CreateTransaction_def split: option.splits if_splits)
  from sum_sends_total[OF t] have "t = sum_list (List.map snd vecSend)" by simp
  from create_loop_balanced[OF assms(1-4) this l] show ?thesis .
qed

section \<open>The fee loop ends\<close>

lemma finish_round_Raise:
  "finish_round E coins nFee tx = RaiseFee nFee' \<Longrightarrow> \<forall>x y. GetMinFee E x y \<le> B \<Longrightarrow> 0 \<le> nTransactionFee E \<Longrightarrow>
   nFee < nFee' \<and> nFee' \<le> max B (nTransactionFee E * (1 + int (MAX_BLOCK_SIZE_GEN E) div 5000))"
proof -
  assume a: "finish_round E coins nFee tx = RaiseFee nFee'" "\<forall>x y. GetMinFee E x y \<le> B" "0 \<le> nTransactionFee E"
  then obtain tx1 where "sign_all E coins 0 (tx\<lparr>vin := List.map (\<lambda>c. mk_txin (coin_outpoint E c) [] (-1)) coins\<rparr>) = Some tx1"
    by (auto simp: finish_round_def split: option.splits)
  with a(1) have s: "SerializeSize E tx1 < MAX_BLOCK_SIZE_GEN E div 5" "nFee < nFee'" "nFee' = fee_due E coins tx1"
    by (auto simp: finish_round_def fee_due_def Let_def split: if_splits)
  have "int (SerializeSize E tx1) div 1000 \<le> int (MAX_BLOCK_SIZE_GEN E) div 5000" using s(1) by linarith
  then have "nTransactionFee E * (1 + int (SerializeSize E tx1) div 1000) \<le>
      nTransactionFee E * (1 + int (MAX_BLOCK_SIZE_GEN E) div 5000)"
    using a(3) by (intro mult_left_mono) auto
  with a(2) have "fee_due E coins tx1 \<le> max B (nTransactionFee E * (1 + int (MAX_BLOCK_SIZE_GEN E) div 5000))"
    unfolding fee_due_def by (meson max.coboundedI1 max.coboundedI2 max.boundedI)
  with s show ?thesis by simp
qed

lemma create_round_Raise:
  assumes "create_round E W vecSend t vCoins k nFee tx rk w = (Inr (RaiseFee nFee'), rk', w')"
    "0 \<le> CENT E" "distinct (List.map out_coin vCoins)"
    "\<forall>out \<in> set vCoins. 0 \<le> coin_value E (out_coin out) \<and> coin_value E (out_coin out) < CAmount_max"
    "\<forall>x y. GetMinFee E x y \<le> B" "0 \<le> nTransactionFee E"
  shows "nFee < nFee' \<and> nFee' \<le> max B (nTransactionFee E * (1 + int (MAX_BLOCK_SIZE_GEN E) div 5000))"
proof -
  obtain ok coins v where sel: "SelectCoins E (select_rnd E k) (t + nFee) vCoins = (ok, coins, v)"
    by (metis prod_cases3)
  obtain nChange f where m: "move_to_fee E (v - t - nFee) nFee = (nChange, f)" by fastforce
  from assms(1) sel m obtain tx1 where ok: ok and f: "finish_round E (sorted_list_of_set coins) f tx1 = RaiseFee nFee'"
    by (auto simp: create_round_def Let_def split: if_splits prod.splits sum.splits)
  from SelectCoins_ok[OF assms(2-4)] sel ok have "t + nFee \<le> v" by auto
  with move_to_fee_ok[OF m] have "nFee \<le> f" by auto
  with finish_round_Raise[OF f assms(5,6)] show ?thesis by auto
qed

lemma create_loop_ends:
  assumes "0 \<le> CENT E" "distinct (List.map out_coin vCoins)"
    "\<forall>out \<in> set vCoins. 0 \<le> coin_value E (out_coin out) \<and> coin_value E (out_coin out) < CAmount_max"
    "\<forall>x y. GetMinFee E x y \<le> B" "0 \<le> nTransactionFee E"
    "M = max B (nTransactionFee E * (1 + int (MAX_BLOCK_SIZE_GEN E) div 5000))"
  shows "M - nFee < int fuel \<Longrightarrow> 0 < fuel \<Longrightarrow> create_loop E W vecSend t vCoins fuel k nFee tx rk w \<noteq> None"
proof (induction fuel arbitrary: k nFee rk w)
  case (Suc fuel)
  obtain r rk' w' where r: "create_round E W vecSend t vCoins k nFee tx rk w = (r, rk', w')"
    by (metis prod_cases3)
  show ?case
  proof (cases "\<exists>f. r = Inr (RaiseFee f)")
    case True
    then obtain f where f: "r = Inr (RaiseFee f)" by blast
    from create_round_Raise[OF r[unfolded f] assms(1-5)] assms(6) have "nFee < f" "f \<le> M" by auto
    with Suc.prems have "M - f < int fuel" "0 < fuel" by auto
    from Suc.IH[OF this] show ?thesis by (simp add: r f)
  next
    case False
    with r show ?thesis by (auto split: sum.splits outcome.splits)
  qed
qed simp

text \<open>C15. The endless loop of \<open>CreateTransaction\<close> ends: every further round starts with a strictly higher fee and
  the fee is bounded by the minimum fee and the largest size, so that many rounds always return.
\<close>

theorem CreateTransaction_returns:
  assumes "0 \<le> CENT E" "distinct (List.map out_coin vCoins)"
    "\<forall>out \<in> set vCoins. 0 \<le> coin_value E (out_coin out) \<and> coin_value E (out_coin out) < CAmount_max"
    "\<forall>x y. GetMinFee E x y \<le> B" "0 \<le> nTransactionFee E"
    "max B (nTransactionFee E * (1 + int (MAX_BLOCK_SIZE_GEN E) div 5000)) - nTransactionFee E < int fuel" "0 < fuel"
  shows "\<exists>r. CreateTransaction E W fuel vecSend vCoins tx nFee rk w = Some r"
  using create_loop_ends[OF assms(1-5) refl assms(6,7)]
  by (auto simp: CreateTransaction_def split: option.splits)

text \<open>A wallet with two coins, worth 500 and 300, that pays 400.\<close>

definition demo_send :: send_env where
  "demo_send = \<lparr>wtx = \<lambda>p. CTransaction_Null\<lparr>vout := [\<lparr>nValue = 500, scriptPubKey = []\<rparr>, \<lparr>nValue = 300, scriptPubKey = []\<rparr>]\<rparr>,
     IsFromMe_ALL = \<lambda>p. False, CENT = 10, nTransactionFee = 1, MIN_TX_FEE = 1, MAX_BLOCK_SIZE_GEN = 10000,
     TxHash = \<lambda>tx. replicate 8 0, ScriptForAddress = \<lambda>p. p, SignSignature = \<lambda>tx n c. Some tx,
     SerializeSize = \<lambda>tx. 250, AllowFree = \<lambda>cs n. False, GetMinFee = \<lambda>tx f. 1,
     select_rnd = \<lambda>k j r i n. even (r + i), GetRandInt = \<lambda>k n. 0\<rparr>"

definition demo_coins :: "COutput list" where
  "demo_coins = [\<lparr>out_tx = 0, out_i = 0, out_nDepth = 10, out_fSpendable = True\<rparr>,
     \<lparr>out_tx = 0, out_i = 1, out_nDepth = 10, out_fSpendable = True\<rparr>]"

definition demo_created :: "bool result \<times> CTransaction \<times> int \<times> CReserveKey \<times> CWallet" where
  "demo_created = the (CreateTransaction demo_send (demo_wenv 1) 5 [([1], 400)] demo_coins CTransaction_Null 0
     CReserveKey_Init (CWallet_Init True))"

lemma demo_values: "0 \<le> CENT demo_send" "distinct (List.map out_coin demo_coins)"
  "\<forall>out \<in> set demo_coins. 0 \<le> coin_value demo_send (out_coin out) \<and> coin_value demo_send (out_coin out) < CAmount_max"
  by (simp_all add: demo_send_def demo_coins_def coin_value_def out_coin_def CAmount_max_def CTransaction_Null_def)

lemma demo_laws_send: "signs_only demo_send" "\<forall>x y. GetMinFee demo_send x y \<le> 1" "0 \<le> nTransactionFee demo_send"
  "max 1 (nTransactionFee demo_send * (1 + int (MAX_BLOCK_SIZE_GEN demo_send) div 5000)) - nTransactionFee demo_send < int 5"
  by (simp_all add: demo_send_def signs_only_def)

theorem CreateTransaction_returns_witness:
  "\<exists>r. CreateTransaction demo_send (demo_wenv 1) 5 [([1], 400)] demo_coins CTransaction_Null 0
     CReserveKey_Init (CWallet_Init True) = Some r"
  by (rule CreateTransaction_returns[OF demo_values demo_laws_send(2-4)]) simp

lemma demo_fees: "select_rnd demo_send 0 = (\<lambda>j r i n. even (r + i))" "MIN_TX_FEE demo_send = 1" "nTransactionFee demo_send = 1"
  by (simp_all add: demo_send_def)

lemma demo_selected: "SelectCoins demo_send (\<lambda>j r i n. even (r + i)) 401 demo_coins = (True, {(0, 0)}, 500)"
  by (simp add: SelectCoins_def SelectCoinsMinConf_def scan_coins_core eligible_def demo_coins_def demo_send_def
      coin_value_def out_coin_def CTransaction_Null_def CAmount_max_def add_coin_def)

lemma demo_key: "fst (GetReservedKey (demo_wenv 1) CReserveKey_Init (CWallet_Init True)) = Inr [1]"
  by code_simp

lemma demo_created_ok:
  "CreateTransaction demo_send (demo_wenv 1) 5 [([1], 400)] demo_coins CTransaction_Null 0
     CReserveKey_Init (CWallet_Init True) \<noteq> None \<and> fst demo_created = Inr True"
proof -
  obtain rk w where k: "GetReservedKey (demo_wenv 1) CReserveKey_Init (CWallet_Init True) = (Inr [1], rk, w)"
    using demo_key by (metis prod.collapse)
  have f: "\<exists>tx'. finish_round demo_send [(0, 0)] 1 tx = Created tx' 1" for tx
    by (simp add: finish_round_def demo_send_def)
  let ?r = "create_round demo_send (demo_wenv 1) [([1], 400)] 400 demo_coins 0 1 CTransaction_Null CReserveKey_Init (CWallet_Init True)"
  have "\<exists>tx. ?r = (Inr (Created tx 1), rk, w)"
    using k demo_selected f
    by (simp add: create_round_def move_to_fee_def add_change_def demo_fees Let_def)
  then show ?thesis
    by (auto simp: demo_created_def CreateTransaction_def numeral_eq_Suc) (simp_all add: demo_send_def)
qed

theorem CreateTransaction_balanced_witness:
  "balanced demo_send [([1], 400)] demo_coins (fst (snd demo_created)) (fst (snd (snd demo_created)))"
proof (rule CreateTransaction_balanced[OF demo_values demo_laws_send(1)])
  show "CreateTransaction demo_send (demo_wenv 1) 5 [([1], 400)] demo_coins CTransaction_Null 0
     CReserveKey_Init (CWallet_Init True) = Some (Inr True, fst (snd demo_created), fst (snd (snd demo_created)),
       fst (snd (snd (snd demo_created))), snd (snd (snd (snd demo_created))))"
    using demo_created_ok by (auto simp: demo_created_def)
qed

theorem SelectCoinsMinConf_exact_witness:
  "fst (SelectCoinsMinConf demo_send (\<lambda>j r i. True) 600 1 6 demo_coins)"
proof -
  obtain ok coins v where r: "SelectCoinsMinConf demo_send (\<lambda>j r i. True) 600 1 6 demo_coins = (ok, coins, v)"
    by (metis prod_cases3)
  have "total demo_send (eligible demo_send 1 6 demo_coins) = 800"
    by (simp add: total_def eligible_def demo_coins_def demo_send_def coin_value_def out_coin_def CTransaction_Null_def)
  with SelectCoinsMinConf_exact[OF demo_values r] r show ?thesis by simp
qed

end
