(* ===== verification/WalletView.thy ===== *)
theory WalletView
  imports WalletTx Coins
begin

text \<open>
  What a wallet makes of its transactions (wallet.cpp): which belong to it, what they debit and
  credit, the entries and the fee that are reported, the coins that can be spent, the balances, and
  the arrival of transactions from the chain. Ownership of a script (\<open>IsMine\<close>), destinations,
  finality, trust and maturity are parameters; script/ismine.h is not in the repository, so the
  values of \<open>isminetype\<close> are too.
\<close>

section \<open>The environment\<close>

record 'd wallet_view = wtx_env +
  wv_IsMine :: "bytes \<Rightarrow> u32"
  wv_ISMINE_NO :: u32
  wv_ISMINE_SPENDABLE :: u32
  wv_ISMINE_ALL :: u32
  wv_MoneyRange :: "int \<Rightarrow> bool"
  wv_ExtractDestination :: "bytes \<Rightarrow> 'd option"
  wv_CNoDestination :: 'd
  wv_address_book :: "('d \<times> string) list"
  wv_IsFinalTx :: "CTransaction \<Rightarrow> bool"
  wv_IsTrusted :: "CWalletTx \<Rightarrow> bool"
  wv_BlocksToMaturity :: "CWalletTx \<Rightarrow> int"
  wv_IsLockedCoin :: "nat \<Rightarrow> nat \<Rightarrow> bool"
  wv_SetMerkleBranch :: "nat \<Rightarrow> CWalletTx \<Rightarrow> CWalletTx"

text \<open>The environment of the wallet's map, as \<open>WalletTx\<close> has it.\<close>

definition core_env :: "'d wallet_view \<Rightarrow> wtx_env" where
  "core_env V = wtx_env.truncate V"

lemma core_env_simps [simp]:
  "we_GetHash (core_env V) = we_GetHash V" "we_depth (core_env V) = we_depth V" "we_blank (core_env V) = we_blank V"
  by (simp_all add: core_env_def wtx_env.truncate_def)

section \<open>Ownership and amounts\<close>

definition IsMine_out :: "'d wallet_view \<Rightarrow> CTxOut \<Rightarrow> u32" where
  "IsMine_out V txout = wv_IsMine V (scriptPubKey txout)"

definition prev_out :: "wtx_state \<Rightarrow> CTxIn \<Rightarrow> CTxOut option" where
  "prev_out s txin =
     (case map_of (mapWallet s) (uval (op_hash (prevout txin))) of
        None \<Rightarrow> None
      | Some prev \<Rightarrow>
          if unat (op_n (prevout txin)) < length (vout (wt_tx prev))
          then Some (vout (wt_tx prev) ! unat (op_n (prevout txin))) else None)"

definition IsMine_in :: "'d wallet_view \<Rightarrow> CTxIn \<Rightarrow> wtx_state \<Rightarrow> u32" where
  "IsMine_in V txin s = (case prev_out s txin of Some out \<Rightarrow> IsMine_out V out | None \<Rightarrow> wv_ISMINE_NO V)"

definition GetDebit_in :: "'d wallet_view \<Rightarrow> u32 \<Rightarrow> CTxIn \<Rightarrow> wtx_state \<Rightarrow> int" where
  "GetDebit_in V flt txin s =
     (case prev_out s txin of
        Some out \<Rightarrow> if IsMine_out V out AND flt \<noteq> 0 then nValue out else 0
      | None \<Rightarrow> 0)"

text \<open>The sums of wallet.h stop at the first partial sum that is out of range.\<close>

fun sum_in_range :: "(int \<Rightarrow> bool) \<Rightarrow> string \<Rightarrow> int list \<Rightarrow> int \<Rightarrow> int result" where
  "sum_in_range MoneyRange msg [] n = Inr n"
| "sum_in_range MoneyRange msg (x # xs) n =
     (let n = n + x in if \<not> MoneyRange n then Inl (Thrown msg) else sum_in_range MoneyRange msg xs n)"

definition GetDebit_tx :: "'d wallet_view \<Rightarrow> u32 \<Rightarrow> CTransaction \<Rightarrow> wtx_state \<Rightarrow> int result" where
  "GetDebit_tx V flt tx s = sum_in_range (wv_MoneyRange V) ''CWallet::GetDebit() : value out of range''
     (List.map (\<lambda>txin. GetDebit_in V flt txin s) (vin tx)) 0"

definition IsMine_tx :: "'d wallet_view \<Rightarrow> CTransaction \<Rightarrow> bool" where
  "IsMine_tx V tx = list_ex (\<lambda>txout. IsMine_out V txout \<noteq> 0) (vout tx)"

definition IsFromMe_tx :: "'d wallet_view \<Rightarrow> CTransaction \<Rightarrow> wtx_state \<Rightarrow> bool result" where
  "IsFromMe_tx V tx s = bindR (GetDebit_tx V (wv_ISMINE_ALL V) tx s) (\<lambda>d. Inr (d > 0))"

definition in_book :: "'d wallet_view \<Rightarrow> 'd \<Rightarrow> bool" where
  "in_book V d \<longleftrightarrow> map_of (wv_address_book V) d \<noteq> None"

definition IsChange :: "'d wallet_view \<Rightarrow> CTxOut \<Rightarrow> bool" where
  "IsChange V txout =
     (if IsMine_out V txout \<noteq> 0 then
        (case wv_ExtractDestination V (scriptPubKey txout) of
           None \<Rightarrow> True
         | Some address \<Rightarrow> if \<not> in_book V address then True else False)
      else False)"

section \<open>Reported entries\<close>

record 'd output_entry =
  oe_destination :: 'd
  oe_amount :: int
  oe_vout :: nat

record 'd tx_amounts =
  listReceived :: "'d output_entry list"
  listSent :: "'d output_entry list"
  nFee :: int
  strSentAccount :: string

definition entry_of :: "'d wallet_view \<Rightarrow> nat \<Rightarrow> CTxOut \<Rightarrow> 'd output_entry" where
  "entry_of V i txout = \<lparr>oe_destination = (case wv_ExtractDestination V (scriptPubKey txout) of Some d \<Rightarrow> d | None \<Rightarrow> wv_CNoDestination V),
     oe_amount = nValue txout, oe_vout = i\<rparr>"

fun amounts_loop :: "'d wallet_view \<Rightarrow> u32 \<Rightarrow> int \<Rightarrow> nat \<Rightarrow> CTxOut list \<Rightarrow> 'd tx_amounts \<Rightarrow> 'd tx_amounts" where
  "amounts_loop V flt nDebit i [] r = r"
| "amounts_loop V flt nDebit i (txout # outs) r =
     (if (if nDebit > 0 then IsChange V txout else IsMine_out V txout AND flt = 0)
      then amounts_loop V flt nDebit (Suc i) outs r
      else
        let r = (if nDebit > 0 then r\<lparr>listSent := listSent r @ [entry_of V i txout]\<rparr> else r);
            r = (if IsMine_out V txout AND flt \<noteq> 0 then r\<lparr>listReceived := listReceived r @ [entry_of V i txout]\<rparr> else r)
        in amounts_loop V flt nDebit (Suc i) outs r)"

definition GetAmounts :: "'d wallet_view \<Rightarrow> u32 \<Rightarrow> CWalletTx \<Rightarrow> wtx_state \<Rightarrow> 'd tx_amounts result" where
  "GetAmounts V flt w s =
     bindR (GetDebit_tx V flt (wt_tx w) s) (\<lambda>nDebit.
     bindR (if nDebit > 0 then bindR (GetValueOut (wv_MoneyRange V) (wt_tx w)) (\<lambda>v. Inr (nDebit - v)) else Inr 0) (\<lambda>fee.
     Inr (amounts_loop V flt nDebit 0 (vout (wt_tx w))
            \<lparr>listReceived = [], listSent = [], nFee = fee, strSentAccount = strFromAccount w\<rparr>)))"

definition GetAccountAmounts ::
    "'d wallet_view \<Rightarrow> u32 \<Rightarrow> string \<Rightarrow> CWalletTx \<Rightarrow> wtx_state \<Rightarrow> (int \<times> int \<times> int) result" where
  "GetAccountAmounts V flt strAccount w s =
     bindR (GetAmounts V flt w s) (\<lambda>a.
       let (nSent, nFeeRet) = (if strAccount = strSentAccount a
             then (sum_list (List.map oe_amount (listSent a)), nFee a) else (0, 0));
           nReceived = sum_list (List.map (\<lambda>r.
             case map_of (wv_address_book V) (oe_destination r) of
               Some name \<Rightarrow> if name = strAccount then oe_amount r else 0
             | None \<Rightarrow> if strAccount = [] then oe_amount r else 0) (listReceived a))
       in Inr (nReceived, nSent, nFeeRet))"

section \<open>Spendable coins and balances\<close>

text \<open>\<open>coinControl\<close> is None for a null pointer, otherwise whether it has a selection, and the selection.\<close>

type_synonym coin_control = "(bool \<times> (nat \<times> nat) set) option"

definition offered ::
    "'d wallet_view \<Rightarrow> coin_control \<Rightarrow> nat \<Rightarrow> CWalletTx \<Rightarrow> wtx_state \<Rightarrow> nat \<Rightarrow> bool" where
  "offered V coinControl wtxid w s i \<longleftrightarrow>
     \<not> is_spent (core_env V) wtxid i s \<and> IsMine_out V (vout (wt_tx w) ! i) \<noteq> wv_ISMINE_NO V \<and>
     \<not> wv_IsLockedCoin V wtxid i \<and> nValue (vout (wt_tx w) ! i) > 0 \<and>
     (case coinControl of None \<Rightarrow> True | Some (HasSelected, sel) \<Rightarrow> \<not> HasSelected \<or> (wtxid, i) \<in> sel)"

definition tx_usable :: "'d wallet_view \<Rightarrow> bool \<Rightarrow> CWalletTx \<Rightarrow> bool" where
  "tx_usable V fOnlyConfirmed w =
     (if \<not> wv_IsFinalTx V (wt_tx w) then False
      else if fOnlyConfirmed \<and> \<not> wv_IsTrusted V w then False
      else if IsCoinBase (wt_tx w) \<and> wv_BlocksToMaturity V w > 0 then False
      else if we_depth V w < 0 then False
      else True)"

definition tx_coins :: "'d wallet_view \<Rightarrow> coin_control \<Rightarrow> wtx_state \<Rightarrow> nat \<times> CWalletTx \<Rightarrow> COutput list" where
  "tx_coins V coinControl s e =
     List.map (\<lambda>i. \<lparr>out_tx = fst e, out_i = i, out_nDepth = we_depth V (snd e),
         out_fSpendable = (IsMine_out V (vout (wt_tx (snd e)) ! i) AND wv_ISMINE_SPENDABLE V \<noteq> wv_ISMINE_NO V)\<rparr>)
       (List.filter (offered V coinControl (fst e) (snd e) s) [0..<length (vout (wt_tx (snd e)))])"

definition AvailableCoins :: "'d wallet_view \<Rightarrow> bool \<Rightarrow> coin_control \<Rightarrow> wtx_state \<Rightarrow> COutput list" where
  "AvailableCoins V fOnlyConfirmed coinControl s =
     concat (List.map (tx_coins V coinControl s) (List.filter (\<lambda>e. tx_usable V fOnlyConfirmed (snd e)) (mapWallet s)))"

text \<open>The sums over the wallet: the credit of a transaction (wallet.h, older than wallet.cpp) is a parameter.\<close>

definition GetBalance :: "'d wallet_view \<Rightarrow> (CWalletTx \<Rightarrow> int) \<Rightarrow> wtx_state \<Rightarrow> int" where
  "GetBalance V GetAvailableCredit s =
     fold (\<lambda>e nTotal. if wv_IsTrusted V (snd e) then nTotal + GetAvailableCredit (snd e) else nTotal) (mapWallet s) 0"

definition GetUnconfirmedBalance :: "'d wallet_view \<Rightarrow> (CWalletTx \<Rightarrow> int) \<Rightarrow> wtx_state \<Rightarrow> int" where
  "GetUnconfirmedBalance V GetAvailableCredit s =
     fold (\<lambda>e nTotal. if \<not> wv_IsFinalTx V (wt_tx (snd e)) \<or> (\<not> wv_IsTrusted V (snd e) \<and> we_depth V (snd e) = 0)
             then nTotal + GetAvailableCredit (snd e) else nTotal) (mapWallet s) 0"

definition GetImmatureBalance :: "(CWalletTx \<Rightarrow> int) \<Rightarrow> wtx_state \<Rightarrow> int" where
  "GetImmatureBalance GetImmatureCredit s = fold (\<lambda>e nTotal. nTotal + GetImmatureCredit (snd e)) (mapWallet s) 0"

section \<open>Transactions from the chain\<close>

text \<open>\<open>CWalletTx(this, tx)\<close>, and the branch of the block when there is one.\<close>

definition make_wtx :: "'d wallet_view \<Rightarrow> CTransaction \<Rightarrow> nat option \<Rightarrow> CWalletTx" where
  "make_wtx V tx pblock =
     (let wtx = (we_blank V)\<lparr>wt_tx := tx\<rparr> in
      case pblock of None \<Rightarrow> wtx | Some b \<Rightarrow> wv_SetMerkleBranch V b wtx)"

definition AddToWalletIfInvolvingMe ::
    "'d wallet_view \<Rightarrow> int \<Rightarrow> CTransaction \<Rightarrow> nat option \<Rightarrow> bool \<Rightarrow> wtx_state \<Rightarrow> (bool \<times> wtx_state) result" where
  "AddToWalletIfInvolvingMe V now tx pblock fUpdate s =
     (let fExisted = map_of (mapWallet s) (we_GetHash V tx) \<noteq> None in
      if fExisted \<and> \<not> fUpdate then Inr (False, s)
      else bindR (if fExisted \<or> IsMine_tx V tx then Inr True else IsFromMe_tx V tx s) (\<lambda>mine.
        if mine then AddToWallet (core_env V) now (make_wtx V tx pblock) False s
        else Inr (False, s)))"

definition dirty_prev :: "CTxIn \<Rightarrow> wtx_state \<Rightarrow> wtx_state" where
  "dirty_prev txin s =
     (case map_of (mapWallet s) (uval (op_hash (prevout txin))) of
        None \<Rightarrow> s
      | Some w \<Rightarrow> put_tx (uval (op_hash (prevout txin))) (wtx_MarkDirty w) s)"

definition SyncTransaction :: "'d wallet_view \<Rightarrow> int \<Rightarrow> CTransaction \<Rightarrow> nat option \<Rightarrow> wtx_state \<Rightarrow> wtx_state result" where
  "SyncTransaction V now tx pblock s =
     bindR (AddToWalletIfInvolvingMe V now tx pblock True s) (\<lambda>(r, s).
       if \<not> r then Inr s else Inr (fold dirty_prev (vin tx) s))"

section \<open>The wallet stays consistent as the chain moves\<close>

lemma put_dirty_ok:
  assumes "wallet_ok E s" "map_of (mapWallet s) h = Some w"
  shows "wallet_ok E (put_tx h (wtx_MarkDirty w) s) \<and> known (mapWallet (put_tx h (wtx_MarkDirty w) s)) = known (mapWallet s)"
proof -
  have ok: "smap_ok (mapWallet s)" "sorted_index s" using assms(1) by (auto simp: wallet_ok_def sorted_index_def)
  have st: "same_txs (mapWallet s) (smap_put h (wtx_MarkDirty w) (mapWallet s))"
    by (rule put_same[OF ok(1) assms(2)]) (simp add: tx_core_def wtx_MarkDirty_def)
  have "sorted_index (put_tx h (wtx_MarkDirty w) s)" using ok by (simp add: sorted_index_def put_tx_def smap_simps)
  with wallet_ok_same[OF assms(1), of "put_tx h (wtx_MarkDirty w) s"] st same_txs_known[OF st] show ?thesis
    by (simp add: put_tx_def)
qed

lemma dirty_prev_ok:
  "wallet_ok E s \<Longrightarrow> wallet_ok E (fold dirty_prev txins s) \<and> known (mapWallet (fold dirty_prev txins s)) = known (mapWallet s)"
proof (induction txins arbitrary: s)
  case (Cons txin txins)
  have "wallet_ok E (dirty_prev txin s) \<and> known (mapWallet (dirty_prev txin s)) = known (mapWallet s)"
    using put_dirty_ok[OF Cons.prems] Cons.prems by (auto simp: dirty_prev_def split: option.splits)
  with Cons.IH[of "dirty_prev txin s"] show ?case by simp
qed simp

definition involves :: "'d wallet_view \<Rightarrow> CTransaction \<Rightarrow> wtx_state \<Rightarrow> bool" where
  "involves V tx s \<longleftrightarrow> we_GetHash V tx \<in> known (mapWallet s) \<or> IsMine_tx V tx \<or> IsFromMe_tx V tx s = Inr True"

text \<open>C25. A transaction reported by the chain or the pool enters the wallet exactly when the wallet has it
  already, owns one of its outputs or pays for it; the wallet stays consistent, and the only failure is
  the exception of a debit that is out of range.\<close>
theorem SyncTransaction_involved:
  assumes "wallet_ok (core_env V) s" "nOrderPosNext s < max_int" "\<And>b w. wt_tx (wv_SetMerkleBranch V b w) = wt_tx w"
  shows "case SyncTransaction V now tx pblock s of
     Inl e \<Rightarrow> GetDebit_tx V (wv_ISMINE_ALL V) tx s = Inl e
   | Inr s' \<Rightarrow> wallet_ok (core_env V) s' \<and>
       known (mapWallet s') = known (mapWallet s) \<union> (if involves V tx s then {we_GetHash V tx} else {})"
proof -
  let ?w = "make_wtx V tx pblock"
  have w: "wt_tx ?w = tx" using assms(3) by (simp add: make_wtx_def Let_def split: option.splits)
  from AddToWallet_new_ok[OF assms(1,2), of now ?w] obtain r s1 where
    a: "AddToWallet (core_env V) now ?w False s = Inr (r, s1)" "wallet_ok (core_env V) s1"
      "known (mapWallet s1) = insert (we_GetHash V tx) (known (mapWallet s))" by (auto simp: w)
  have e: "map_of (mapWallet s) (we_GetHash V tx) \<noteq> None \<longleftrightarrow> we_GetHash V tx \<in> known (mapWallet s)" by (simp add: known_def)
  show ?thesis
  proof (cases "involves V tx s")
    case True
    then have "bindR (if map_of (mapWallet s) (we_GetHash V tx) \<noteq> None \<or> IsMine_tx V tx then Inr True else IsFromMe_tx V tx s)
       (\<lambda>mine. if mine then AddToWallet (core_env V) now ?w False s else Inr (False, s)) = Inr (r, s1)"
      using a(1) unfolding e involves_def by auto
    then have "SyncTransaction V now tx pblock s = Inr (if r then fold dirty_prev (vin tx) s1 else s1)"
      by (simp add: SyncTransaction_def AddToWalletIfInvolvingMe_def Let_def)
    with True a dirty_prev_ok[OF a(2), of "vin tx"] show ?thesis by auto
  next
    case False
    then have n: "\<not> (map_of (mapWallet s) (we_GetHash V tx) \<noteq> None \<or> IsMine_tx V tx)" "IsFromMe_tx V tx s \<noteq> Inr True"
      unfolding e involves_def by auto
    show ?thesis
    proof (cases "IsFromMe_tx V tx s")
      case (Inl x)
      with n(1) have "SyncTransaction V now tx pblock s = Inl x"
        by (simp add: SyncTransaction_def AddToWalletIfInvolvingMe_def)
      with Inl show ?thesis by (cases "GetDebit_tx V (wv_ISMINE_ALL V) tx s") (simp_all add: IsFromMe_tx_def)
    next
      case (Inr b)
      with n have "SyncTransaction V now tx pblock s = Inr s"
        by (simp add: SyncTransaction_def AddToWalletIfInvolvingMe_def)
      with False assms(1) show ?thesis by simp
    qed
  qed
qed

section \<open>The coins on offer\<close>

lemma out_coin_tx_coins:
  "List.map out_coin (tx_coins V cc s e) = List.map (Pair (fst e)) (List.filter (offered V cc (fst e) (snd e) s) [0..<length (vout (wt_tx (snd e)))])"
  by (simp add: tx_coins_def out_coin_def o_def)

lemma distinct_tx_coins:
  "distinct (List.map fst es) \<Longrightarrow> distinct (List.map out_coin (concat (List.map (tx_coins V cc s) es)))"
proof (induction es)
  case (Cons e es)
  have "distinct (List.map out_coin (tx_coins V cc s e))" by (simp add: out_coin_tx_coins distinct_map inj_on_def)
  moreover have "out_coin ` set (tx_coins V cc s e) \<inter> out_coin ` set (concat (List.map (tx_coins V cc s) es)) = {}"
  proof -
    have o1: "fst c = fst f" if "c \<in> out_coin ` set (tx_coins V cc s f)" for c and f :: "nat \<times> CWalletTx"
      using that by (auto simp: tx_coins_def out_coin_def)
    have "fst c \<noteq> fst e" if c: "c \<in> out_coin ` set (concat (List.map (tx_coins V cc s) es))" for c
    proof -
      from c obtain f where f: "f \<in> set es" "c \<in> out_coin ` set (tx_coins V cc s f)" by (simp add: image_UN) blast
      from f(1) have "fst f \<in> fst ` set es" by (rule imageI)
      moreover have "fst e \<notin> fst ` set es" using Cons.prems by simp
      ultimately show ?thesis using o1[OF f(2)] by metis
    qed
    moreover note o1[of _ e]
    ultimately show ?thesis by blast
  qed
  ultimately show ?case using Cons by simp
qed simp

lemma distinct_available: "smap_ok (mapWallet s) \<Longrightarrow> distinct (List.map out_coin (AvailableCoins V fc cc s))"
  unfolding AvailableCoins_def by (rule distinct_tx_coins) (simp add: distinct_map_filter smap_ok_distinct)

lemma set_available:
  assumes "smap_ok (mapWallet s)"
  shows "out \<in> set (AvailableCoins V fc cc s) \<longleftrightarrow> (\<exists>w. map_of (mapWallet s) (out_tx out) = Some w \<and> tx_usable V fc w \<and>
    out_i out < length (vout (wt_tx w)) \<and> offered V cc (out_tx out) w s (out_i out) \<and> out_nDepth out = we_depth V w \<and>
    out_fSpendable out = (IsMine_out V (vout (wt_tx w) ! out_i out) AND wv_ISMINE_SPENDABLE V \<noteq> wv_ISMINE_NO V))"
proof -
  have m: "(h, w) \<in> set (mapWallet s) \<longleftrightarrow> map_of (mapWallet s) h = Some w" for h w
    using smap_ok_distinct[OF assms] by (simp add: map_of_eq_Some_iff)
  show ?thesis
    by (cases out) (auto simp: AvailableCoins_def tx_coins_def m)
qed


section \<open>Selection from the coins on offer\<close>

definition coin_env_of :: "wtx_env \<Rightarrow> (nat \<Rightarrow> bool) \<Rightarrow> int \<Rightarrow> wtx_state \<Rightarrow> coin_env" where
  "coin_env_of E fromMe cent s = \<lparr>wtx = (\<lambda>h. wt_tx (tx_at E h (mapWallet s))), IsFromMe_ALL = fromMe, CENT = cent\<rparr>"

text \<open>C2. The coins that a successful selection takes from those on offer are spendable outputs of final
  transactions of the wallet, no transaction of the wallet that is not conflicted spends any of them, and
  together they are worth the target.\<close>
theorem selected_coins_unspent:
  assumes "wallet_ok (core_env V) s" "0 \<le> cent"
    "\<And>h w out. map_of (mapWallet s) h = Some w \<Longrightarrow> out \<in> set (vout (wt_tx w)) \<Longrightarrow> nValue out < CAmount_max"
    "SelectCoins (coin_env_of (core_env V) fromMe cent s) rnd t (AvailableCoins V fc cc s) = (True, coins, v)"
  shows "t \<le> (\<Sum>c \<in> coins. coin_value (coin_env_of (core_env V) fromMe cent s) c) \<and>
    (\<forall>(h, i) \<in> coins. \<not> is_spent (core_env V) h i s \<and>
      (\<exists>w. map_of (mapWallet s) h = Some w \<and> i < length (vout (wt_tx w)) \<and> wv_IsFinalTx V (wt_tx w) \<and>
        IsMine_out V (vout (wt_tx w) ! i) AND wv_ISMINE_SPENDABLE V \<noteq> wv_ISMINE_NO V))"
proof -
  let ?E = "coin_env_of (core_env V) fromMe cent s" and ?cs = "AvailableCoins V fc cc s"
  have ok: "smap_ok (mapWallet s)" using assms(1) by (simp add: wallet_ok_def sorted_index_def)
  have val: "\<forall>out \<in> set ?cs. 0 \<le> coin_value ?E (out_coin out) \<and> coin_value ?E (out_coin out) < CAmount_max"
  proof
    fix out
    assume "out \<in> set ?cs"
    then obtain w where w: "map_of (mapWallet s) (out_tx out) = Some w" "out_i out < length (vout (wt_tx w))"
        "offered V cc (out_tx out) w s (out_i out)" using set_available[OF ok] by blast
    then have "coin_value ?E (out_coin out) = nValue (vout (wt_tx w) ! out_i out)"
      by (simp add: coin_value_def out_coin_def coin_env_of_def)
    with w assms(3)[OF w(1) nth_mem[OF w(2)]] show "0 \<le> coin_value ?E (out_coin out) \<and> coin_value ?E (out_coin out) < CAmount_max"
      by (simp add: offered_def)
  qed
  have cent: "0 \<le> CENT ?E" using assms(2) by (simp add: coin_env_of_def)
  from SelectCoins_ok[OF cent distinct_available[OF ok] val assms(4)] have
    sel: "coins \<subseteq> set (eligible ?E 0 1 ?cs)" "t \<le> (\<Sum>c \<in> coins. coin_value ?E c)" by auto
  have "\<not> is_spent (core_env V) h i s \<and>
      (\<exists>w. map_of (mapWallet s) h = Some w \<and> i < length (vout (wt_tx w)) \<and> wv_IsFinalTx V (wt_tx w) \<and>
        IsMine_out V (vout (wt_tx w) ! i) AND wv_ISMINE_SPENDABLE V \<noteq> wv_ISMINE_NO V)" if "(h, i) \<in> coins" for h i
  proof -
    from that sel(1) obtain out where out: "out \<in> set ?cs" "out_coin out = (h, i)" "out_fSpendable out"
      by (auto simp: eligible_def)
    with set_available[OF ok, of out V fc cc] show ?thesis
      by (auto simp: out_coin_def offered_def tx_usable_def split: if_splits)
  qed
  with sel(2) show ?thesis by blast
qed

section \<open>Reported amounts\<close>

lemma amounts_loop_sent:
  "sum_list (List.map oe_amount (listSent (amounts_loop V flt d i outs r))) =
     sum_list (List.map oe_amount (listSent r)) + (if d > 0 then sum_list (List.map nValue (List.filter (\<lambda>out. \<not> IsChange V out) outs)) else 0)"
  by (induction V flt d i outs r rule: amounts_loop.induct) (auto simp: Let_def entry_of_def)

lemma amounts_loop_fields [simp]:
  "nFee (amounts_loop V flt d i outs r) = nFee r" "strSentAccount (amounts_loop V flt d i outs r) = strSentAccount r"
  by (induction V flt d i outs r rule: amounts_loop.induct) (auto simp: Let_def)

lemma value_out_sum: "value_out_loop MR outs n = Inr v \<Longrightarrow> v = n + sum_list (List.map nValue outs)"
  by (induction MR outs n rule: value_out_loop.induct) (auto simp: Let_def split: if_splits)

lemma sum_change: "sum_list (List.map nValue (List.filter (\<lambda>out. \<not> P out) outs)) + sum_list (List.map nValue (List.filter P outs)) =
  (sum_list (List.map nValue outs) :: int)"
  by (induction outs) auto

text \<open>The entries reported for a transaction that spends coins of the wallet account for every unit: what
  was sent, the change and the fee make up the debit; nothing counts as sent when the wallet paid nothing.\<close>
theorem GetAmounts_balance:
  assumes "GetAmounts V flt w s = Inr a" "GetDebit_tx V flt (wt_tx w) s = Inr d"
  shows "if d > 0
     then sum_list (List.map oe_amount (listSent a)) + sum_list (List.map nValue (List.filter (IsChange V) (vout (wt_tx w)))) + nFee a = d
     else sum_list (List.map oe_amount (listSent a)) = 0 \<and> nFee a = 0"
proof (cases "d > 0")
  case True
  with assms obtain v where v: "GetValueOut (wv_MoneyRange V) (wt_tx w) = Inr v"
      "a = amounts_loop V flt d 0 (vout (wt_tx w)) \<lparr>listReceived = [], listSent = [], nFee = d - v, strSentAccount = strFromAccount w\<rparr>"
    by (auto simp: GetAmounts_def bindR_Inr_iff)
  have "v = sum_list (List.map nValue (vout (wt_tx w)))" using value_out_sum[OF v(1)[unfolded GetValueOut_def]] by simp
  with v(2) True sum_change[of "IsChange V" "vout (wt_tx w)"] show ?thesis by (simp add: amounts_loop_sent)
next
  case False
  with assms show ?thesis by (auto simp: GetAmounts_def amounts_loop_sent)
qed

section \<open>Concrete values\<close>

definition demo_view :: "bytes wallet_view" where
  "demo_view = wtx_env.extend demo_wtx_env (wallet_view.fields (\<lambda>script. if script = [1] then 0 else 2) 0 2 3
     (\<lambda>n. 0 \<le> n \<and> n \<le> 1000) Some [] [([1], ''shop'')] (\<lambda>tx. True) (\<lambda>w. True) (\<lambda>w. 0) (\<lambda>h i. False) (\<lambda>b w. w))"

lemma demo_view_simps [simp]:
  "wtx_env.truncate demo_view = demo_wtx_env" "wv_IsMine demo_view = (\<lambda>script. if script = [1] then 0 else 2)"
  "wv_ISMINE_NO demo_view = 0" "wv_ISMINE_SPENDABLE demo_view = 2" "wv_ISMINE_ALL demo_view = 3"
  "wv_MoneyRange demo_view = (\<lambda>n. 0 \<le> n \<and> n \<le> 1000)" "wv_ExtractDestination demo_view = Some"
  "wv_address_book demo_view = [([1], ''shop'')]" "wv_IsFinalTx demo_view = (\<lambda>tx. True)"
  "wv_IsTrusted demo_view = (\<lambda>w. True)" "wv_BlocksToMaturity demo_view = (\<lambda>w. 0)"
  "wv_IsLockedCoin demo_view = (\<lambda>h i. False)" "wv_SetMerkleBranch demo_view = (\<lambda>b w. w)"
  "we_depth demo_view = (\<lambda>w. 0)"
  by (simp_all add: demo_view_def wtx_env.defs wallet_view.defs demo_wtx_env_def)

lemma demo_core [simp]: "core_env demo_view = demo_wtx_env"
  by (simp add: core_env_def)

theorem SyncTransaction_involved_witness:
  "case SyncTransaction demo_view 200 (spend_tx 2) None after_first of
     Inl e \<Rightarrow> GetDebit_tx demo_view (wv_ISMINE_ALL demo_view) (spend_tx 2) after_first = Inl e
   | Inr s' \<Rightarrow> wallet_ok (core_env demo_view) s' \<and>
       known (mapWallet s') = known (mapWallet after_first) \<union>
         (if involves demo_view (spend_tx 2) after_first then {we_GetHash demo_view (spend_tx 2)} else {})"
  by (rule SyncTransaction_involved) (simp_all add: after_first_ok, simp_all add: after_first_def max_int_def)


lemma demo_available:
  "AvailableCoins demo_view True None after_first = [\<lparr>out_tx = 1, out_i = 0, out_nDepth = 0, out_fSpendable = True\<rparr>]"
  by (simp add: AvailableCoins_def after_first_def tx_usable_def tx_coins_def offered_def is_spent_def equal_range_def
      IsMine_out_def demo_wtx_def spend_tx_def)

definition demo_coin_env :: coin_env where
  "demo_coin_env = coin_env_of (core_env demo_view) (\<lambda>h. True) 1 after_first"

lemma demo_coin_simps:
  "coin_value demo_coin_env (1, 0) = 5" "IsFromMe_ALL demo_coin_env h" "CENT demo_coin_env = 1"
  by (simp_all add: demo_coin_env_def coin_env_of_def coin_value_def after_first_def demo_wtx_def spend_tx_def)

lemma demo_select: "SelectCoins demo_coin_env (\<lambda>j r i n. True) 5 (AvailableCoins demo_view True None after_first) = (True, {(1, 0)}, 5)"
  by (simp add: demo_available SelectCoins_def SelectCoinsMinConf_def Let_def out_coin_def demo_coin_simps add_coin_def
      del: One_nat_def)

theorem selected_coins_unspent_witness: "5 \<le> (\<Sum>c \<in> {(1, 0)}. coin_value demo_coin_env c)"
  unfolding demo_coin_env_def
  by (rule selected_coins_unspent[OF _ _ _ demo_select[unfolded demo_coin_env_def], THEN conjunct1])
     (simp_all add: after_first_ok, auto simp: after_first_def demo_wtx_def spend_tx_def CAmount_max_def split: if_splits)

definition demo_payment :: CWalletTx where
  "demo_payment = (demo_wtx 3)\<lparr>wt_tx := \<lparr>tx_nVersion = 1,
     vin = [\<lparr>prevout = \<lparr>op_hash = set64 8 1, op_n = 0\<rparr>, scriptSig = [], nSequence = -1\<rparr>],
     vout = [\<lparr>nValue = 3, scriptPubKey = [1]\<rparr>, \<lparr>nValue = 1, scriptPubKey = [2]\<rparr>], nLockTime = 3\<rparr>\<rparr>"

lemma demo_debit: "GetDebit_tx demo_view 3 (wt_tx demo_payment) after_first = Inr 5"
  by (simp add: GetDebit_tx_def demo_payment_def GetDebit_in_def prev_out_def set64_def after_first_def demo_wtx_def
      spend_tx_def IsMine_out_def Let_def)

lemma demo_amounts: "GetAmounts demo_view 3 demo_payment after_first = Inr
   \<lparr>listReceived = [], listSent = [\<lparr>oe_destination = [1], oe_amount = 3, oe_vout = 0\<rparr>], nFee = 1, strSentAccount = ''savings''\<rparr>"
  by (simp add: GetAmounts_def demo_debit)
     (simp add: demo_payment_def GetValueOut_def Let_def IsChange_def IsMine_out_def in_book_def entry_of_def demo_wtx_def)

theorem GetAmounts_balance_witness:
  "3 + sum_list (List.map nValue (List.filter (IsChange demo_view) (vout (wt_tx demo_payment)))) + 1 = (5 :: int)"
  using GetAmounts_balance[OF demo_amounts demo_debit] by simp

end
