(* ===== verification/Accounts.thy ===== *)
theory Accounts
  imports WalletView "HOL-Library.List_Lexorder" "HOL-Library.Char_ord"
begin

text \<open>
  The accounts of a wallet (rpcwallet.cpp, walletdb.cpp): the accounting entries in the wallet file, moves
  between accounts, the balance of one account and the balances of all of them. The wallet file is the
  list of its records in the order of the cursor. The order of the database on keys, its failures and the
  address book are parameters; \<open>db_order_ok\<close> is what the order of the bytes of the keys gives: the entries of
  an account stand together, as do all entries, and number zero comes first. \<open>nOrderPos\<close>, which
  \<open>movecmd\<close> sets and \<open>OrderedTxItems\<close> reads, is kept as a field of the entries, although the class in
  wallet.h does not declare it.
\<close>

section \<open>The accounting entries of the wallet file\<close>

record acentry =
  ae_strAccount :: string
  ae_nCreditDebit :: int
  ae_nTime :: int
  ae_strOtherAccount :: string
  ae_strComment :: string
  ae_nOrderPos :: int

text \<open>A record is an accounting entry, under its account and number, or of another type.\<close>

datatype db_key = AcKey string u64 | OtherKey bytes

record acc_db =
  db_before :: "db_key \<Rightarrow> db_key \<Rightarrow> bool"
  db_cursor :: bool
  db_bad :: "db_key \<Rightarrow> bool"
  db_write_ok :: "acentry \<Rightarrow> bool"
  db_begin_ok :: bool
  db_commit_ok :: bool

type_synonym rows = "(db_key \<times> acentry) list"

fun acentry_scan :: "acc_db \<Rightarrow> bool \<Rightarrow> string \<Rightarrow> rows \<Rightarrow> acentry list result" where
  "acentry_scan D fAllAccounts strAccount [] = Inr []"
| "acentry_scan D fAllAccounts strAccount ((k, e) # rs) =
     (if db_bad D k then Inl (Thrown ''CWalletDB::ListAccountCreditDebit() : error scanning DB'')
      else case k of
        OtherKey _ \<Rightarrow> Inr []
      | AcKey a n \<Rightarrow>
          if \<not> fAllAccounts \<and> a \<noteq> strAccount then Inr []
          else bindR (acentry_scan D fAllAccounts strAccount rs) (\<lambda>es. Inr (e\<lparr>ae_strAccount := a\<rparr> # es)))"

definition ListAccountCreditDebit :: "acc_db \<Rightarrow> string \<Rightarrow> rows \<Rightarrow> acentry list result" where
  "ListAccountCreditDebit D strAccount rs =
     (let fAllAccounts = (strAccount = ''*'') in
      if \<not> db_cursor D then Inl (Thrown ''CWalletDB::ListAccountCreditDebit() : cannot create DB cursor'')
      else
        let first = AcKey (if fAllAccounts then [] else strAccount) 0
        in acentry_scan D fAllAccounts strAccount (dropWhile (\<lambda>r. db_before D (fst r) first) rs))"

definition GetAccountCreditDebit :: "acc_db \<Rightarrow> string \<Rightarrow> rows \<Rightarrow> int result" where
  "GetAccountCreditDebit D strAccount rs =
     bindR (ListAccountCreditDebit D strAccount rs) (\<lambda>es. Inr (fold (\<lambda>e n. n + ae_nCreditDebit e) es 0))"

fun db_put :: "acc_db \<Rightarrow> db_key \<Rightarrow> acentry \<Rightarrow> rows \<Rightarrow> rows" where
  "db_put D k e [] = [(k, e)]"
| "db_put D k e ((a, b) # rs) =
     (if k = a then (k, e) # rs
      else if db_before D k a then (k, e) # (a, b) # rs
      else (a, b) # db_put D k e rs)"

text \<open>The rows, the counter \<open>nAccountingEntryNumber\<close> and the next order position of the wallet.\<close>

record acc_state =
  acc_rows :: rows
  acc_number :: u64
  acc_pos :: int

definition WriteAccountingEntry :: "acc_db \<Rightarrow> acentry \<Rightarrow> acc_state \<Rightarrow> acc_state" where
  "WriteAccountingEntry D e s =
     (let n = acc_number s + 1; s = s\<lparr>acc_number := n\<rparr> in
      if db_write_ok D e then s\<lparr>acc_rows := db_put D (AcKey (ae_strAccount e) n) e (acc_rows s)\<rparr> else s)"

section \<open>Moves\<close>

definition AccountFromValue :: "string \<Rightarrow> string result" where
  "AccountFromValue strAccount = (if strAccount = ''*'' then Inl (Thrown ''Invalid account name'') else Inr strAccount)"

definition IncOrderPosNext :: "acc_state \<Rightarrow> int \<times> acc_state" where
  "IncOrderPosNext s = (acc_pos s, s\<lparr>acc_pos := acc_pos s + 1\<rparr>)"

definition move_entries :: "acc_db \<Rightarrow> int \<Rightarrow> string \<Rightarrow> string \<Rightarrow> int \<Rightarrow> string \<Rightarrow> acc_state \<Rightarrow> acc_state" where
  "move_entries D nNow strFrom strTo nAmount strComment s =
     (let (pos, s) = IncOrderPosNext s;
          debit = \<lparr>ae_strAccount = strFrom, ae_nCreditDebit = - nAmount, ae_nTime = nNow, ae_strOtherAccount = strTo,
            ae_strComment = strComment, ae_nOrderPos = pos\<rparr>;
          s = WriteAccountingEntry D debit s;
          (pos, s) = IncOrderPosNext s;
          credit = \<lparr>ae_strAccount = strTo, ae_nCreditDebit = nAmount, ae_nTime = nNow, ae_strOtherAccount = strFrom,
            ae_strComment = strComment, ae_nOrderPos = pos\<rparr>
      in WriteAccountingEntry D credit s)"

text \<open>A transaction of the database that is not committed leaves its rows as they were.\<close>

definition movecmd ::
    "acc_db \<Rightarrow> int \<Rightarrow> string \<Rightarrow> string \<Rightarrow> int \<Rightarrow> string \<Rightarrow> acc_state \<Rightarrow> bool result \<times> acc_state" where
  "movecmd D nNow p0 p1 nAmount strComment s =
     (case AccountFromValue p0 of Inl e \<Rightarrow> (Inl e, s) | Inr strFrom \<Rightarrow>
      case AccountFromValue p1 of Inl e \<Rightarrow> (Inl e, s) | Inr strTo \<Rightarrow>
      if \<not> db_begin_ok D then (Inl (Thrown ''database error''), s)
      else
        let s' = move_entries D nNow strFrom strTo nAmount strComment s
        in if \<not> db_commit_ok D then (Inl (Thrown ''database error''), s'\<lparr>acc_rows := acc_rows s\<rparr>)
           else (Inr True, s'))"

section \<open>Balances\<close>

fun account_tally ::
    "'d wallet_view \<Rightarrow> u32 \<Rightarrow> string \<Rightarrow> int \<Rightarrow> wtx_state \<Rightarrow> (nat \<times> CWalletTx) list \<Rightarrow> int \<Rightarrow> int result" where
  "account_tally V flt strAccount nMinDepth s [] nBalance = Inr nBalance"
| "account_tally V flt strAccount nMinDepth s ((h, w) # es) nBalance =
     (if \<not> wv_IsFinalTx V (wt_tx w) \<or> wv_BlocksToMaturity V w > 0 \<or> we_depth V w < 0
      then account_tally V flt strAccount nMinDepth s es nBalance
      else bindR (GetAccountAmounts V flt strAccount w s) (\<lambda>(nReceived, nSent, nFee).
        let nBalance = (if nReceived \<noteq> 0 \<and> we_depth V w \<ge> nMinDepth then nBalance + nReceived else nBalance);
            nBalance = nBalance - (nSent + nFee)
        in account_tally V flt strAccount nMinDepth s es nBalance))"

definition GetAccountBalance ::
    "'d wallet_view \<Rightarrow> acc_db \<Rightarrow> string \<Rightarrow> int \<Rightarrow> u32 \<Rightarrow> wtx_state \<Rightarrow> rows \<Rightarrow> int result" where
  "GetAccountBalance V D strAccount nMinDepth flt s rs =
     bindR (account_tally V flt strAccount nMinDepth s (mapWallet s) 0) (\<lambda>nBalance.
     bindR (GetAccountCreditDebit D strAccount rs) (\<lambda>n. Inr (nBalance + n)))"

text \<open>\<open>mapAccountBalances[name] += x\<close>: the operator makes the entry, zero, when there is none.\<close>

type_synonym balances = "(string, int) smap"

definition balance_of :: "balances \<Rightarrow> string \<Rightarrow> int" where
  "balance_of m a = (case map_of m a of Some n \<Rightarrow> n | None \<Rightarrow> 0)"

definition add_balance :: "string \<Rightarrow> int \<Rightarrow> balances \<Rightarrow> balances" where
  "add_balance name x m = smap_put name (balance_of m name + x) m"

definition account_of :: "'d wallet_view \<Rightarrow> 'd \<Rightarrow> string" where
  "account_of V d = (case map_of (wv_address_book V) d of Some name \<Rightarrow> name | None \<Rightarrow> [])"

definition book_accounts :: "'d wallet_view \<Rightarrow> ('d \<Rightarrow> u32) \<Rightarrow> u32 \<Rightarrow> balances" where
  "book_accounts V IsMine flt =
     fold (\<lambda>(d, name) m. if IsMine d AND flt \<noteq> 0 then smap_put name 0 m else m) (wv_address_book V) []"

fun accounts_loop ::
    "'d wallet_view \<Rightarrow> u32 \<Rightarrow> int \<Rightarrow> wtx_state \<Rightarrow> (nat \<times> CWalletTx) list \<Rightarrow> balances \<Rightarrow> balances result" where
  "accounts_loop V flt nMinDepth s [] m = Inr m"
| "accounts_loop V flt nMinDepth s ((h, w) # es) m =
     (let nDepth = we_depth V w in
      if wv_BlocksToMaturity V w > 0 \<or> nDepth < 0 then accounts_loop V flt nMinDepth s es m
      else bindR (GetAmounts V flt w s) (\<lambda>a.
        let m = add_balance (strSentAccount a) (- nFee a) m;
            m = fold (\<lambda>e. add_balance (strSentAccount a) (- oe_amount e)) (listSent a) m;
            m = (if nDepth \<ge> nMinDepth
                 then fold (\<lambda>r. add_balance (account_of V (oe_destination r)) (oe_amount r)) (listReceived a) m else m)
        in accounts_loop V flt nMinDepth s es m))"

definition listaccounts ::
    "'d wallet_view \<Rightarrow> acc_db \<Rightarrow> ('d \<Rightarrow> u32) \<Rightarrow> int \<Rightarrow> u32 \<Rightarrow> wtx_state \<Rightarrow> rows \<Rightarrow> balances result" where
  "listaccounts V D IsMine nMinDepth flt s rs =
     bindR (accounts_loop V flt nMinDepth s (mapWallet s) (book_accounts V IsMine flt)) (\<lambda>m.
     bindR (ListAccountCreditDebit D ''*'' rs) (\<lambda>es.
       Inr (fold (\<lambda>e. add_balance (ae_strAccount e) (ae_nCreditDebit e)) es m)))"

section \<open>The cursor finds the entries of an account\<close>

definition db_order_ok :: "acc_db \<Rightarrow> bool" where
  "db_order_ok D \<longleftrightarrow>
     (\<forall>k. \<not> db_before D k k) \<and>
     (\<forall>j k l. db_before D j k \<longrightarrow> db_before D k l \<longrightarrow> db_before D j l) \<and>
     (\<forall>j k. j \<noteq> k \<longrightarrow> db_before D j k \<or> db_before D k j) \<and>
     (\<forall>a n. n \<noteq> 0 \<longrightarrow> db_before D (AcKey a 0) (AcKey a n)) \<and>
     (\<forall>a n. AcKey a n \<noteq> AcKey [] 0 \<longrightarrow> db_before D (AcKey [] 0) (AcKey a n)) \<and>
     (\<forall>a m n k. db_before D (AcKey a m) k \<longrightarrow> db_before D k (AcKey a n) \<longrightarrow> (\<exists>l. k = AcKey a l)) \<and>
     (\<forall>a b m n k. db_before D (AcKey a m) k \<longrightarrow> db_before D k (AcKey b n) \<longrightarrow> (\<exists>c l. k = AcKey c l))"

lemma db_orderD:
  assumes "db_order_ok D"
  shows "\<not> db_before D k k"
    and "db_before D j k \<Longrightarrow> db_before D k l \<Longrightarrow> db_before D j l"
    and "j \<noteq> k \<Longrightarrow> db_before D j k \<or> db_before D k j"
    and "n \<noteq> 0 \<Longrightarrow> db_before D (AcKey b 0) (AcKey b n)"
    and "AcKey b n \<noteq> AcKey [] 0 \<Longrightarrow> db_before D (AcKey [] 0) (AcKey b n)"
    and "db_before D (AcKey b m) k \<Longrightarrow> db_before D k (AcKey b n) \<Longrightarrow> \<exists>l. k = AcKey b l"
    and "db_before D (AcKey b m) k \<Longrightarrow> db_before D k (AcKey c n) \<Longrightarrow> \<exists>d l. k = AcKey d l"
proof -
  note o = assms [unfolded db_order_ok_def]
  note o2 = conjunct2 [OF o] note o3 = conjunct2 [OF o2] note o4 = conjunct2 [OF o3] note o5 = conjunct2 [OF o4]
  note o6 = conjunct2 [OF o5]
  show "\<not> db_before D k k" by (rule conjunct1 [OF o, rule_format])
  show "db_before D j k \<Longrightarrow> db_before D k l \<Longrightarrow> db_before D j l" by (rule conjunct1 [OF o2, rule_format])
  show "j \<noteq> k \<Longrightarrow> db_before D j k \<or> db_before D k j" by (rule conjunct1 [OF o3, rule_format])
  show "n \<noteq> 0 \<Longrightarrow> db_before D (AcKey b 0) (AcKey b n)" by (rule conjunct1 [OF o4, rule_format])
  show "AcKey b n \<noteq> AcKey [] 0 \<Longrightarrow> db_before D (AcKey [] 0) (AcKey b n)" by (rule conjunct1 [OF o5, rule_format])
  show "db_before D (AcKey b m) k \<Longrightarrow> db_before D k (AcKey b n) \<Longrightarrow> \<exists>l. k = AcKey b l" by (rule conjunct1 [OF o6, rule_format])
  show "db_before D (AcKey b m) k \<Longrightarrow> db_before D k (AcKey c n) \<Longrightarrow> \<exists>d l. k = AcKey d l" by (rule conjunct2 [OF o6, rule_format])
qed

definition rows_sorted :: "acc_db \<Rightarrow> rows \<Rightarrow> bool" where
  "rows_sorted D rs \<longleftrightarrow> sorted_wrt (db_before D) (List.map fst rs)"

text \<open>The database can be read from beginning to end.\<close>

definition readable :: "acc_db \<Rightarrow> rows \<Rightarrow> bool" where
  "readable D rs \<longleftrightarrow> db_cursor D \<and> (\<forall>r \<in> set rs. \<not> db_bad D (fst r))"

definition belongs :: "string \<Rightarrow> db_key \<Rightarrow> bool" where
  "belongs a k = (case k of AcKey b n \<Rightarrow> a = ''*'' \<or> b = a | OtherKey _ \<Rightarrow> False)"

fun key_account :: "db_key \<Rightarrow> string" where
  "key_account (AcKey a n) = a" | "key_account (OtherKey _) = []"

definition entry_of_row :: "db_key \<times> acentry \<Rightarrow> acentry" where
  "entry_of_row r = (snd r)\<lparr>ae_strAccount := key_account (fst r)\<rparr>"

definition entries :: "string \<Rightarrow> rows \<Rightarrow> acentry list" where
  "entries a rs = List.map entry_of_row (List.filter (\<lambda>r. belongs a (fst r)) rs)"

lemma takeWhile_eq_filter:
  assumes "sorted_wrt R xs" "\<And>x y. x \<in> set xs \<Longrightarrow> \<not> P x \<Longrightarrow> R x y \<Longrightarrow> \<not> P y"
  shows "takeWhile P xs = List.filter P xs"
  using assms
proof (induction xs)
  case (Cons x xs)
  have "List.filter P xs = []" if "\<not> P x"
    using Cons.prems(1) Cons.prems(2) [of x] that by (auto simp: filter_empty_conv)
  moreover have "takeWhile P xs = List.filter P xs" by (rule Cons.IH) (use Cons.prems in auto)
  ultimately show ?case by (cases "P x") simp_all
qed simp

lemma takeWhile_dropWhile_eq_filter:
  assumes "sorted_wrt R xs" "\<And>x. P x \<Longrightarrow> \<not> B x" "\<And>x y. R x y \<Longrightarrow> \<not> B x \<Longrightarrow> \<not> B y"
    "\<And>x y. \<not> B x \<Longrightarrow> \<not> P x \<Longrightarrow> R x y \<Longrightarrow> \<not> P y"
  shows "takeWhile P (dropWhile B xs) = List.filter P xs"
  using assms(1)
proof (induction xs)
  case (Cons x xs)
  show ?case
  proof (cases "B x")
    case True
    then show ?thesis using Cons assms(2) by auto
  next
    case False
    then have nb: "\<not> B y" if "y \<in> set (x # xs)" for y using Cons.prems assms(3) [of x y] that by auto
    have "takeWhile P (x # xs) = List.filter P (x # xs)"
      by (rule takeWhile_eq_filter [OF Cons.prems]) (rule assms(4) [OF nb])
    then show ?thesis using False by simp
  qed
qed simp

lemma acentry_scan_takeWhile:
  "\<forall>r \<in> set rs. \<not> db_bad D (fst r) \<Longrightarrow>
   acentry_scan D (a = ''*'') a rs = Inr (List.map entry_of_row (takeWhile (\<lambda>r. belongs a (fst r)) rs))"
  by (induction D "a = ''*''" a rs rule: acentry_scan.induct) (auto simp: belongs_def entry_of_row_def split: db_key.splits)

lemma ListAccountCreditDebit_entries:
  assumes "db_order_ok D" "rows_sorted D rs" "readable D rs"
  shows "ListAccountCreditDebit D a rs = Inr (entries a rs)"
proof -
  define first where "first = AcKey (if a = ''*'' then [] else a) 0"
  define B where "B = (\<lambda>r :: db_key \<times> acentry. db_before D (fst r) first)"
  define P where "P = (\<lambda>r :: db_key \<times> acentry. belongs a (fst r))"
  note irr = db_orderD(1) [OF assms(1)] and tr = db_orderD(2) [OF assms(1)] and tot = db_orderD(3) [OF assms(1)]
    and least = db_orderD(4,5) [OF assms(1)] and conv = db_orderD(6) [OF assms(1)] and convs = db_orderD(7) [OF assms(1)]
  have PB: "\<not> B r" if p: "P r" for r
  proof -
    obtain b n where r: "fst r = AcKey b n" "a = ''*'' \<or> b = a"
      using p by (cases "fst r") (auto simp: P_def belongs_def)
    have "fst r = first \<or> db_before D first (fst r)"
      using r least(1) [of n b] least(2) [of b n] by (cases "a = ''*''"; cases "n = 0") (auto simp: first_def)
    then show ?thesis unfolding B_def using irr tr by blast
  qed
  have BB: "\<not> B r'" if "db_before D (fst r) (fst r')" "\<not> B r" for r r' using that tr unfolding B_def by blast
  have PP: "\<not> P r'" if "\<not> B r" "\<not> P r" "db_before D (fst r) (fst r')" for r r'
  proof
    assume p: "P r'"
    have "fst r \<noteq> first" using that(2) by (auto simp: P_def belongs_def first_def)
    then have f: "db_before D first (fst r)" using that(1) tot unfolding B_def by blast
    obtain b n where r': "fst r' = AcKey b n" "a = ''*'' \<or> b = a"
      using p by (cases "fst r'") (auto simp: P_def belongs_def)
    note before = that(3)
    have "P r"
    proof (cases "a = ''*''")
      case True
      obtain c l where "fst r = AcKey c l" using convs [OF f [unfolded first_def]] before r' by metis
      then show ?thesis using True by (simp add: P_def belongs_def)
    next
      case False
      then have "db_before D (AcKey a 0) (fst r)" "db_before D (fst r) (AcKey a n)"
        using f before r' by (simp_all add: first_def)
      then obtain l where "fst r = AcKey a l" using conv by blast
      then show ?thesis by (simp add: P_def belongs_def)
    qed
    with that(2) show False ..
  qed
  have "takeWhile P (dropWhile B rs) = List.filter P rs"
    by (rule takeWhile_dropWhile_eq_filter [of "\<lambda>r r'. db_before D (fst r) (fst r')", OF _ PB BB PP])
       (use assms(2) in \<open>simp_all add: rows_sorted_def sorted_wrt_map\<close>)
  moreover have "\<forall>r \<in> set (dropWhile B rs). \<not> db_bad D (fst r)"
    using assms(3) by (auto simp: readable_def dest: set_dropWhileD)
  ultimately show ?thesis
    using assms(3) acentry_scan_takeWhile [of "dropWhile B rs" D a]
    by (simp add: ListAccountCreditDebit_def Let_def readable_def entries_def first_def [symmetric] B_def [symmetric] P_def [symmetric])
qed

definition credit :: "string \<Rightarrow> rows \<Rightarrow> int" where
  "credit a rs = sum_list (List.map ae_nCreditDebit (entries a rs))"

lemma fold_sum: "fold (\<lambda>e n. n + f e) es (k :: int) = k + sum_list (List.map f es)"
  by (induction es arbitrary: k) simp_all

lemma GetAccountCreditDebit_credit:
  "db_order_ok D \<Longrightarrow> rows_sorted D rs \<Longrightarrow> readable D rs \<Longrightarrow> GetAccountCreditDebit D a rs = Inr (credit a rs)"
  by (simp add: GetAccountCreditDebit_def ListAccountCreditDebit_entries fold_sum credit_def)

section \<open>Moves change two accounts\<close>

text \<open>Loading a wallet leaves the counter at the largest number in use.\<close>

definition numbered :: "acc_state \<Rightarrow> bool" where
  "numbered s \<longleftrightarrow> (\<forall>a n. AcKey a n \<in> fst ` set (acc_rows s) \<longrightarrow> n \<le> acc_number s)"

definition accounts_ok :: "acc_db \<Rightarrow> acc_state \<Rightarrow> bool" where
  "accounts_ok D s \<longleftrightarrow> rows_sorted D (acc_rows s) \<and> readable D (acc_rows s) \<and> numbered s"

lemma set_db_put: "k \<notin> fst ` set rs \<Longrightarrow> set (db_put D k e rs) = insert (k, e) (set rs)"
  by (induction D k e rs rule: db_put.induct) auto

lemma db_put_sorted:
  assumes "db_order_ok D"
  shows "rows_sorted D rs \<Longrightarrow> k \<notin> fst ` set rs \<Longrightarrow> rows_sorted D (db_put D k e rs)"
proof (induction rs)
  case (Cons r rs)
  obtain a b where r: "r = (a, b)" by (cases r)
  show ?case
  proof (cases "db_before D k a")
    case True
    then have "\<forall>j \<in> fst ` set rs. db_before D k j"
      using Cons.prems(1) db_orderD(2) [OF assms True] by (auto simp: rows_sorted_def r)
    then show ?thesis using Cons.prems True by (auto simp: rows_sorted_def r)
  next
    case False
    then have "db_before D a k" using Cons.prems(2) db_orderD(3) [OF assms, of a k] by (auto simp: r)
    moreover have "rows_sorted D (db_put D k e rs)" using Cons by (simp add: rows_sorted_def r)
    ultimately show ?thesis using False Cons.prems set_db_put [of k rs D e] by (auto simp: rows_sorted_def r)
  qed
qed (simp add: rows_sorted_def)

lemma credit_simps:
  "credit a [] = 0"
  "credit a ((k, e) # rs) = (if belongs a k then ae_nCreditDebit e else 0) + credit a rs"
  by (simp_all add: credit_def entries_def entry_of_row_def)

lemma credit_db_put:
  "k \<notin> fst ` set rs \<Longrightarrow> credit a (db_put D k e rs) = credit a rs + (if belongs a k then ae_nCreditDebit e else 0)"
  by (induction rs) (auto simp: credit_simps)

lemma WriteAccountingEntry_ok:
  assumes "db_order_ok D" "accounts_ok D s" "unat (acc_number s) + 1 < 2 ^ 64" "db_write_ok D e" "\<And>a n. \<not> db_bad D (AcKey a n)"
  defines "s' \<equiv> WriteAccountingEntry D e s"
  shows "accounts_ok D s'" "unat (acc_number s') = unat (acc_number s) + 1" "acc_pos s' = acc_pos s"
    "credit a (acc_rows s') = credit a (acc_rows s) + (if a = ''*'' \<or> ae_strAccount e = a then ae_nCreditDebit e else 0)"
proof -
  define n where "n = acc_number s + 1"
  have un: "unat n = unat (acc_number s) + 1" unfolding n_def using assms(3) by (simp add: unat_word_ariths)
  have s': "s' = s\<lparr>acc_number := n, acc_rows := db_put D (AcKey (ae_strAccount e) n) e (acc_rows s)\<rparr>"
    using assms(4) by (simp add: s'_def WriteAccountingEntry_def n_def Let_def)
  have less: "acc_number s < n" by (simp add: word_less_nat_alt un)
  then have fresh: "AcKey (ae_strAccount e) n \<notin> fst ` set (acc_rows s)"
    using assms(2) unfolding accounts_ok_def numbered_def by (meson not_le)
  show "unat (acc_number s') = unat (acc_number s) + 1" "acc_pos s' = acc_pos s" by (simp_all add: s' un)
  show "credit a (acc_rows s') = credit a (acc_rows s) + (if a = ''*'' \<or> ae_strAccount e = a then ae_nCreditDebit e else 0)"
    using fresh by (simp add: s' credit_db_put belongs_def)
  have "b \<noteq> n \<longrightarrow> b \<le> acc_number s \<Longrightarrow> b \<le> n" for b using less by (cases "b = n") auto
  then have "numbered s'"
    using assms(2) fresh by (auto simp: s' numbered_def accounts_ok_def set_db_put)
  moreover have "readable D (acc_rows s')"
    using assms(2,5) fresh by (auto simp: s' readable_def accounts_ok_def set_db_put)
  moreover have "rows_sorted D (acc_rows s')"
    using assms(2) db_put_sorted [OF assms(1) _ fresh] by (simp add: s' accounts_ok_def)
  ultimately show "accounts_ok D s'" by (simp add: accounts_ok_def)
qed

lemma accounts_ok_pos [simp]: "accounts_ok D (s\<lparr>acc_pos := p\<rparr>) = accounts_ok D s"
  by (simp add: accounts_ok_def numbered_def)

lemma move_entries_ok:
  fixes t :: int and f g :: string and n :: int and c :: string
  assumes "db_order_ok D" "accounts_ok D s" "unat (acc_number s) + 2 < 2 ^ 64" "\<And>e. db_write_ok D e" "\<And>a n. \<not> db_bad D (AcKey a n)"
  defines "s' \<equiv> move_entries D t f g n c s"
  shows "accounts_ok D s' \<and> acc_pos s' = acc_pos s + 2 \<and>
    credit a (acc_rows s') = credit a (acc_rows s) - (if a = ''*'' \<or> f = a then n else 0) + (if a = ''*'' \<or> g = a then n else 0)"
proof -
  define e1 where "e1 = \<lparr>ae_strAccount = f, ae_nCreditDebit = - n, ae_nTime = t, ae_strOtherAccount = g, ae_strComment = c, ae_nOrderPos = acc_pos s\<rparr>"
  define s0 where "s0 = s\<lparr>acc_pos := acc_pos s + 1\<rparr>"
  define s1 where "s1 = WriteAccountingEntry D e1 s0"
  have a1: "unat (acc_number s0) + 1 < 2 ^ 64" "accounts_ok D s0" using assms(2,3) by (simp_all add: s0_def)
  note w1 = WriteAccountingEntry_ok [OF assms(1) a1(2,1) assms(4,5), where e = e1, folded s1_def]
  define s2 where "s2 = s1\<lparr>acc_pos := acc_pos s1 + 1\<rparr>"
  define e2 where "e2 = \<lparr>ae_strAccount = g, ae_nCreditDebit = n, ae_nTime = t, ae_strOtherAccount = f, ae_strComment = c, ae_nOrderPos = acc_pos s1\<rparr>"
  have a2: "unat (acc_number s2) + 1 < 2 ^ 64" "accounts_ok D s2" using assms(3) w1(1,2) by (simp_all add: s2_def s0_def)
  note w2 = WriteAccountingEntry_ok [OF assms(1) a2(2,1) assms(4,5), where e = e2]
  have s': "s' = WriteAccountingEntry D e2 s2"
    by (simp add: s'_def move_entries_def Let_def IncOrderPosNext_def e1_def [symmetric] s0_def [symmetric] s1_def [symmetric]
        s2_def e2_def)
  have "acc_rows s2 = acc_rows s1" "acc_rows s0 = acc_rows s" by (simp_all add: s2_def s0_def)
  then have "credit a (acc_rows s') = credit a (acc_rows s) - (if a = ''*'' \<or> f = a then n else 0) + (if a = ''*'' \<or> g = a then n else 0)"
    unfolding s' w2(4) using w1(4) [of a] by (simp add: e1_def e2_def)
  then show ?thesis using w2(1,3) w1(3) by (simp add: s' s2_def s0_def)
qed

section \<open>The balances of all accounts\<close>

lemma balance_put: "smap_ok m \<Longrightarrow> smap_ok (add_balance b x m) \<and> balance_of (add_balance b x m) a = balance_of m a + (if a = b then x else 0)"
  by (auto simp: add_balance_def balance_of_def smap_simps)

lemma balance_fold:
  "smap_ok m \<Longrightarrow> smap_ok (fold (\<lambda>e. add_balance (f e) (g e)) es m) \<and>
     balance_of (fold (\<lambda>e. add_balance (f e) (g e)) es m) a = balance_of m a + sum_list (List.map (\<lambda>e. if f e = a then g e else 0) es)"
proof (induction es arbitrary: m)
  case (Cons e es)
  have "smap_ok (add_balance (f e) (g e) m)" using balance_put [OF Cons.prems] by blast
  from Cons.IH [OF this] show ?case using balance_put [OF Cons.prems, of "f e" "g e" a] by auto
qed simp

lemma book_accounts_zero: "smap_ok (book_accounts V IsMine flt) \<and> balance_of (book_accounts V IsMine flt) a = 0"
proof -
  have "smap_ok m \<Longrightarrow> balance_of m a = 0 \<Longrightarrow>
      smap_ok (fold (\<lambda>(d, name) m. if IsMine d AND flt \<noteq> 0 then smap_put name 0 m else m) bs m) \<and>
      balance_of (fold (\<lambda>(d, name) m. if IsMine d AND flt \<noteq> 0 then smap_put name 0 m else m) bs m) a = 0" for bs m
  proof (induction bs arbitrary: m)
    case (Cons b bs)
    obtain d name where b: "b = (d, name)" by (cases b)
    have "balance_of (smap_put name 0 m) a = 0" using Cons.prems by (auto simp: balance_of_def smap_simps)
    with Cons show ?case by (simp add: b smap_simps)
  qed simp
  then show ?thesis by (simp add: book_accounts_def balance_of_def)
qed

lemma sum_if_const: "sum_list (List.map (\<lambda>e. if p then g e else (0 :: int)) es) = (if p then sum_list (List.map g es) else 0)"
  by simp

text \<open>One transaction changes the balance of an account by what \<open>GetAccountAmounts\<close> says of it.\<close>

lemma accounts_step:
  fixes c :: bool
  assumes "smap_ok m" "GetAmounts V flt w s = Inr a" "GetAccountAmounts V flt acct w s = Inr (nReceived, nSent, nFeeRet)"
  defines "m1 \<equiv> add_balance (strSentAccount a) (- nFee a) m"
  defines "m2 \<equiv> fold (\<lambda>e. add_balance (strSentAccount a) (- oe_amount e)) (listSent a) m1"
  defines "m3 \<equiv> if c then fold (\<lambda>r. add_balance (account_of V (oe_destination r)) (oe_amount r)) (listReceived a) m2 else m2"
  shows "smap_ok m3 \<and> balance_of m3 acct = balance_of m acct - (nSent + nFeeRet) + (if c then nReceived else 0)"
proof -
  have "(\<lambda>r :: 'a output_entry. case map_of (wv_address_book V) (oe_destination r) of
             Some name \<Rightarrow> if name = acct then oe_amount r else 0 | None \<Rightarrow> if acct = [] then oe_amount r else 0) =
       (\<lambda>r. if account_of V (oe_destination r) = acct then oe_amount r else 0)"
    by (auto simp: account_of_def fun_eq_iff split: option.splits)
  moreover have "nReceived = sum_list (List.map (\<lambda>r. case map_of (wv_address_book V) (oe_destination r) of
             Some name \<Rightarrow> if name = acct then oe_amount r else 0 | None \<Rightarrow> if acct = [] then oe_amount r else 0) (listReceived a))"
    using assms(2,3) by (auto simp: GetAccountAmounts_def Let_def split: if_splits)
  ultimately have r: "nReceived = sum_list (List.map (\<lambda>r. if account_of V (oe_destination r) = acct then oe_amount r else 0) (listReceived a))"
    by (simp only:)
  have n: "nSent = (if acct = strSentAccount a then sum_list (List.map oe_amount (listSent a)) else 0)"
      "nFeeRet = (if acct = strSentAccount a then nFee a else 0)"
    using assms(2,3) by (auto simp: GetAccountAmounts_def Let_def split: if_splits)
  have neg: "sum_list (List.map (\<lambda>e. - oe_amount e) es) = - sum_list (List.map oe_amount es)" for es :: "'a output_entry list"
    by (induction es) simp_all
  have 1: "smap_ok m1" "balance_of m1 acct = balance_of m acct - nFeeRet"
    using balance_put [OF assms(1)] by (auto simp: m1_def n)
  have 2: "smap_ok m2" "balance_of m2 acct = balance_of m1 acct - nSent"
    using balance_fold [OF 1(1), of "\<lambda>_. strSentAccount a" "\<lambda>e :: 'a output_entry. - oe_amount e" "listSent a" acct]
    by (auto simp: m2_def n neg)
  have 3: "smap_ok m3" "balance_of m3 acct = balance_of m2 acct + (if c then nReceived else 0)"
    using 2(1) balance_fold [OF 2(1), of "\<lambda>r :: 'a output_entry. account_of V (oe_destination r)" oe_amount "listReceived a" acct]
    by (auto simp: m3_def r)
  show ?thesis using 1 2 3 by simp
qed

lemma accounts_loop_tally:
  assumes "smap_ok m" "accounts_loop V flt minDepth s es m = Inr m'" "\<forall>(h, w) \<in> set es. wv_IsFinalTx V (wt_tx w)"
  shows "smap_ok m' \<and> account_tally V flt acct minDepth s es k = Inr (k - balance_of m acct + balance_of m' acct)"
  using assms
proof (induction V flt minDepth s es m arbitrary: k rule: accounts_loop.induct)
  case (2 V flt minDepth s h w es m)
  show ?case
  proof (cases "wv_BlocksToMaturity V w > 0 \<or> we_depth V w < 0")
    case True
    then show ?thesis using 2 by (simp add: Let_def)
  next
    case False
    obtain a where a: "GetAmounts V flt w s = Inr a"
      using "2.prems"(2) False by (cases "GetAmounts V flt w s") (simp_all add: Let_def)
    obtain r where r0: "GetAccountAmounts V flt acct w s = Inr r"
      using a by (cases "GetAccountAmounts V flt acct w s") (simp_all add: GetAccountAmounts_def Let_def split: if_splits)
    obtain nr ns nf where "r = (nr, ns, nf)" by (cases r)
    then have r: "GetAccountAmounts V flt acct w s = Inr (nr, ns, nf)" using r0 by simp
    define m3 where "m3 = (if minDepth \<le> we_depth V w
        then fold (\<lambda>r. add_balance (account_of V (oe_destination r)) (oe_amount r)) (listReceived a)
          (fold (\<lambda>e. add_balance (strSentAccount a) (- oe_amount e)) (listSent a) (add_balance (strSentAccount a) (- nFee a) m))
        else fold (\<lambda>e. add_balance (strSentAccount a) (- oe_amount e)) (listSent a) (add_balance (strSentAccount a) (- nFee a) m))"
    have st: "smap_ok m3" "balance_of m3 acct = balance_of m acct - (ns + nf) + (if minDepth \<le> we_depth V w then nr else 0)"
      using accounts_step [OF "2.prems"(1) a r, of "minDepth \<le> we_depth V w"] by (simp_all add: m3_def)
    have l: "accounts_loop V flt minDepth s es m3 = Inr m'"
      using "2.prems"(2) False a by (simp add: Let_def m3_def)
    have fin: "wv_IsFinalTx V (wt_tx w)" "\<forall>(h, w) \<in> set es. wv_IsFinalTx V (wt_tx w)" using "2.prems"(3) by auto
    define k3 where "k3 = (if nr \<noteq> 0 \<and> minDepth \<le> we_depth V w then k + nr else k) - (ns + nf)"
    have t: "account_tally V flt acct minDepth s ((h, w) # es) k = account_tally V flt acct minDepth s es k3"
      using False fin(1) r by (simp add: Let_def k3_def)
    have "smap_ok m' \<and> account_tally V flt acct minDepth s es k3 = Inr (k3 - balance_of m3 acct + balance_of m' acct)"
      by (rule "2.IH"(2) [OF refl _ refl refl refl, of a, folded m3_def, OF _ st(1) l fin(2)]) (use False in auto)
    then show ?thesis using st(2) unfolding t k3_def by auto
  qed
qed simp

lemma listaccounts_tally:
  assumes "listaccounts V D IsMine minDepth flt s rs = Inr m" "db_order_ok D" "rows_sorted D rs" "readable D rs"
    "\<forall>(h, w) \<in> set (mapWallet s). wv_IsFinalTx V (wt_tx w)" "a \<noteq> ''*''"
  shows "GetAccountBalance V D a minDepth flt s rs = Inr (balance_of m a)"
proof -
  note db = assms(2-4)
  obtain m1 where m1: "accounts_loop V flt minDepth s (mapWallet s) (book_accounts V IsMine flt) = Inr m1"
    "m = fold (\<lambda>e. add_balance (ae_strAccount e) (ae_nCreditDebit e)) (entries ''*'' rs) m1"
    using assms(1) by (auto simp: listaccounts_def bindR_Inr_iff ListAccountCreditDebit_entries [OF db])
  have t: "smap_ok m1" "account_tally V flt a minDepth s (mapWallet s) 0 = Inr (balance_of m1 a)"
    using accounts_loop_tally [OF _ m1(1) assms(5), of a 0] book_accounts_zero [of V IsMine flt a] by simp_all
  have "sum_list (List.map (\<lambda>e. if ae_strAccount e = a then ae_nCreditDebit e else 0) (entries ''*'' rs)) = credit a rs"
    using assms(6) by (induction rs) (auto simp: credit_def entries_def belongs_def entry_of_row_def split: db_key.splits)
  then have "balance_of m a = balance_of m1 a + credit a rs"
    using balance_fold [OF t(1), of ae_strAccount ae_nCreditDebit "entries ''*'' rs" a] by (simp add: m1(2))
  then show ?thesis using t(2) by (simp add: GetAccountBalance_def GetAccountCreditDebit_credit [OF db])
qed

text \<open>The writes of \<open>movecmd\<close> are not checked: when only the debit is stored, the amount is gone.\<close>

lemma move_loses_money:
  fixes t n :: int and f g c :: string
  assumes "db_order_ok D" "accounts_ok D s" "unat (acc_number s) + 2 < 2 ^ 64" "\<And>a n. \<not> db_bad D (AcKey a n)"
    "db_write_ok D = (\<lambda>e. ae_nCreditDebit e < 0)" "db_begin_ok D" "db_commit_ok D" "f \<noteq> ''*''" "g \<noteq> ''*''" "0 < n"
  defines "r \<equiv> movecmd D t f g n c s"
  shows "fst r = Inr True \<and> credit ''*'' (acc_rows (snd r)) = credit ''*'' (acc_rows s) - n"
proof -
  define e where "e = \<lparr>ae_strAccount = f, ae_nCreditDebit = - n, ae_nTime = t, ae_strOtherAccount = g, ae_strComment = c, ae_nOrderPos = acc_pos s\<rparr>"
  define s0 where "s0 = s\<lparr>acc_pos := acc_pos s + 1\<rparr>"
  have s0: "accounts_ok D s0" "unat (acc_number s0) + 1 < 2 ^ 64" "db_write_ok D e"
    using assms(2,3,5,10) by (simp_all add: s0_def e_def)
  note w = WriteAccountingEntry_ok(4) [OF assms(1) s0 assms(4), of "''*''"]
  have "r = (Inr True, move_entries D t f g n c s)"
    using assms(6-9) by (simp add: r_def movecmd_def AccountFromValue_def)
  moreover have "acc_rows (move_entries D t f g n c s) = acc_rows (WriteAccountingEntry D e s0)"
    using assms(5,10) by (simp add: move_entries_def IncOrderPosNext_def WriteAccountingEntry_def Let_def e_def s0_def)
  ultimately show ?thesis using w by (simp add: e_def s0_def)
qed

section \<open>A database\<close>

fun demo_before :: "db_key \<Rightarrow> db_key \<Rightarrow> bool" where
  "demo_before (OtherKey b) (OtherKey c) = (b < c)"
| "demo_before (OtherKey b) (AcKey a n) = True"
| "demo_before (AcKey a n) (OtherKey b) = False"
| "demo_before (AcKey a m) (AcKey b n) = (a < b \<or> a = b \<and> m < n)"

definition demo_db :: acc_db where
  "demo_db = \<lparr>db_before = demo_before, db_cursor = True, db_bad = (\<lambda>k. False), db_write_ok = (\<lambda>e. True),
     db_begin_ok = True, db_commit_ok = True\<rparr>"

lemma demo_db_order: "db_order_ok demo_db"
proof -
  have "\<not> demo_before k k" for k by (cases k) auto
  moreover have "demo_before j k \<Longrightarrow> demo_before k l \<Longrightarrow> demo_before j l" for j k l
    by (cases j; cases k; cases l) auto
  moreover have "j \<noteq> k \<longrightarrow> demo_before j k \<or> demo_before k j" for j k by (cases j; cases k) auto
  moreover have "n \<noteq> 0 \<Longrightarrow> demo_before (AcKey a 0) (AcKey a n)" for a n by (simp add: word_neq_0_conv)
  moreover have "AcKey a n \<noteq> AcKey [] 0 \<Longrightarrow> demo_before (AcKey [] 0) (AcKey a n)" for a n
    by (cases a) (auto simp: word_neq_0_conv)
  moreover have "demo_before (AcKey a m) k \<Longrightarrow> demo_before k (AcKey a n) \<Longrightarrow> \<exists>l. k = AcKey a l" for a m n k
    by (cases k) auto
  moreover have "demo_before (AcKey a m) k \<Longrightarrow> demo_before k (AcKey b n) \<Longrightarrow> \<exists>c l. k = AcKey c l" for a b m n k
    by (cases k) auto
  ultimately show ?thesis unfolding db_order_ok_def demo_db_def by simp
qed

definition demo_accounts :: acc_state where
  "demo_accounts = \<lparr>acc_rows = [], acc_number = 0, acc_pos = 0\<rparr>"

lemma demo_accounts_ok: "accounts_ok demo_db demo_accounts"
  by (simp add: accounts_ok_def rows_sorted_def readable_def numbered_def demo_accounts_def demo_db_def)

section \<open>Properties\<close>




lemma demo_amounts_first: "GetAmounts demo_view 2 w after_first =
    Inr \<lparr>listReceived = [\<lparr>oe_destination = [], oe_amount = 5, oe_vout = 0\<rparr>], listSent = [], nFee = 0, strSentAccount = strFromAccount w\<rparr>"
  if "wt_tx w = spend_tx 1"
  by (simp add: that GetAmounts_def GetDebit_tx_def GetDebit_in_def prev_out_def after_first_def spend_tx_def set64_def
      Let_def IsMine_out_def entry_of_def)

lemma demo_listaccounts:
  "listaccounts demo_view demo_db (\<lambda>d. 2) 0 2 after_first [] = Inr [([], 5), (''savings'', 0), (''shop'', 0)]"
proof -
  define w where "w = (demo_wtx 1)\<lparr>nTimeReceived := 100, nTimeSmart := 100, nOrderPos := 0\<rparr>"
  have w: "wt_tx w = spend_tx 1" "strFromAccount w = ''savings''" "mapWallet after_first = [(1, w)]"
    by (simp_all add: w_def demo_wtx_def after_first_def)
  show ?thesis
    by (simp add: listaccounts_def w demo_amounts_first Let_def book_accounts_def add_balance_def balance_of_def account_of_def
        ListAccountCreditDebit_def demo_db_def)
qed


text \<open>\<open>getbalance\<close> skips a transaction that is not final, \<open>listaccounts\<close> counts it.\<close>

definition stale_view :: "bytes wallet_view" where
  "stale_view = demo_view\<lparr>wv_IsFinalTx := \<lambda>tx. False\<rparr>"

lemma stale_amounts: "GetAmounts stale_view 2 w after_first = GetAmounts demo_view 2 w after_first"
  if "wt_tx w = spend_tx 1"
  unfolding demo_amounts_first [OF that]
  by (simp add: that stale_view_def GetAmounts_def GetDebit_tx_def GetDebit_in_def prev_out_def after_first_def spend_tx_def set64_def
      Let_def IsMine_out_def entry_of_def)

lemma not_final_listed:
  "GetAccountBalance stale_view demo_db [] 0 2 after_first [] = Inr 0 \<and>
    (\<exists>m. listaccounts stale_view demo_db (\<lambda>d. 2) 0 2 after_first [] = Inr m \<and> balance_of m [] = 5)"
proof -
  define w where "w = (demo_wtx 1)\<lparr>nTimeReceived := 100, nTimeSmart := 100, nOrderPos := 0\<rparr>"
  have w: "wt_tx w = spend_tx 1" "strFromAccount w = ''savings''" "mapWallet after_first = [(1, w)]"
    by (simp_all add: w_def demo_wtx_def after_first_def)
  have v: "\<not> wv_IsFinalTx stale_view (wt_tx w)" "wv_BlocksToMaturity stale_view w = 0" "we_depth stale_view w = 0"
    "wv_address_book stale_view = [([1], ''shop'')]" by (simp_all add: stale_view_def)
  have "listaccounts stale_view demo_db (\<lambda>d. 2) 0 2 after_first [] = Inr [([], 5), (''savings'', 0), (''shop'', 0)]"
    by (simp add: listaccounts_def w v stale_amounts demo_amounts_first Let_def book_accounts_def add_balance_def balance_of_def
        account_of_def ListAccountCreditDebit_def demo_db_def)
  moreover have "GetAccountBalance stale_view demo_db [] 0 2 after_first [] = Inr 0"
    using v(1) by (simp add: GetAccountBalance_def w GetAccountCreditDebit_def ListAccountCreditDebit_def demo_db_def Let_def)
  ultimately show ?thesis by (simp add: balance_of_def)
qed

end
