(* ===== verification/Listing.thy ===== *)
theory Listing
  imports Accounts
begin

text \<open>
  The lists that rpcwallet.cpp makes of a wallet: the pages of \<open>listtransactions\<close> and the tallies of
  \<open>ListReceived\<close>. A JSON object is a record of the members it is given; what \<open>WalletTxToJSON\<close> adds is a
  function of the transaction, which is kept in its place. An address is a destination. The counts of a page
  are \<open>int\<close>s whose sum must not overflow.
\<close>

section \<open>The entries of a transaction\<close>

record 'd list_env =
  le_IsMine :: "'d \<Rightarrow> u32"
  le_ISMINE_WATCH_ONLY :: u32
  le_address_ok :: "'d \<Rightarrow> bool"

datatype category = Send | Orphan | Immature | Generate | Receive

record 'd list_entry =
  li_involvesWatchonly :: bool
  li_account :: string
  li_address :: "'d option"
  li_category :: category
  li_amount :: int
  li_vout :: nat
  li_fee :: "int option"
  li_tx :: "CWalletTx option"

record move_entry =
  mv_account :: string
  mv_time :: int
  mv_amount :: int
  mv_otheraccount :: string
  mv_comment :: string

type_synonym 'd json_entry = "'d list_entry + move_entry"

definition MaybePushAddress :: "'d list_env \<Rightarrow> 'd \<Rightarrow> 'd option" where
  "MaybePushAddress A dest = (if le_address_ok A dest then Some dest else None)"

definition sent_entry ::
    "'d list_env \<Rightarrow> bool \<Rightarrow> bool \<Rightarrow> CWalletTx \<Rightarrow> string \<Rightarrow> int \<Rightarrow> 'd output_entry \<Rightarrow> 'd list_entry" where
  "sent_entry A watch fLong w account fee e =
     \<lparr>li_involvesWatchonly = (watch \<or> le_IsMine A (oe_destination e) AND le_ISMINE_WATCH_ONLY A \<noteq> 0),
      li_account = account, li_address = MaybePushAddress A (oe_destination e), li_category = Send,
      li_amount = - oe_amount e, li_vout = oe_vout e, li_fee = Some (- fee), li_tx = (if fLong then Some w else None)\<rparr>"

definition received_category :: "'d wallet_view \<Rightarrow> CWalletTx \<Rightarrow> category" where
  "received_category V w =
     (if IsCoinBase (wt_tx w) then
        if we_depth V w < 1 then Orphan
        else if wv_BlocksToMaturity V w > 0 then Immature
        else Generate
      else Receive)"

definition received_entry ::
    "'d wallet_view \<Rightarrow> 'd list_env \<Rightarrow> bool \<Rightarrow> bool \<Rightarrow> CWalletTx \<Rightarrow> 'd output_entry \<Rightarrow> 'd list_entry" where
  "received_entry V A watch fLong w r =
     \<lparr>li_involvesWatchonly = (watch \<or> le_IsMine A (oe_destination r) AND le_ISMINE_WATCH_ONLY A \<noteq> 0),
      li_account = account_of V (oe_destination r), li_address = MaybePushAddress A (oe_destination r),
      li_category = received_category V w, li_amount = oe_amount r, li_vout = oe_vout r, li_fee = None,
      li_tx = (if fLong then Some w else None)\<rparr>"

definition ListTransactions ::
    "'d wallet_view \<Rightarrow> 'd list_env \<Rightarrow> wtx_state \<Rightarrow> CWalletTx \<Rightarrow> string \<Rightarrow> int \<Rightarrow> bool \<Rightarrow> u32 \<Rightarrow> 'd json_entry list \<Rightarrow>
     'd json_entry list result" where
  "ListTransactions V A s w strAccount nMinDepth fLong flt ret =
     bindR (GetAmounts V flt w s) (\<lambda>a.
     bindR (GetDebit_tx V (le_ISMINE_WATCH_ONLY A) (wt_tx w) s) (\<lambda>d.
       let fAllAccounts = (strAccount = ''*'');
           involvesWatchonly = (d > 0);
           ret = (if (listSent a \<noteq> [] \<or> nFee a \<noteq> 0) \<and> (fAllAccounts \<or> strAccount = strSentAccount a)
             then ret @ List.map (\<lambda>e. Inl (sent_entry A involvesWatchonly fLong w (strSentAccount a) (nFee a) e)) (listSent a)
             else ret);
           ret = (if length (listReceived a) > 0 \<and> we_depth V w \<ge> nMinDepth
             then ret @ List.map (\<lambda>r. Inl (received_entry V A involvesWatchonly fLong w r))
               (List.filter (\<lambda>r. fAllAccounts \<or> account_of V (oe_destination r) = strAccount) (listReceived a))
             else ret)
       in Inr ret))"

definition AcentryToJSON :: "acentry \<Rightarrow> string \<Rightarrow> 'd json_entry list \<Rightarrow> 'd json_entry list" where
  "AcentryToJSON acentry strAccount ret =
     (let fAllAccounts = (strAccount = ''*'') in
      if fAllAccounts \<or> ae_strAccount acentry = strAccount
      then ret @ [Inr \<lparr>mv_account = ae_strAccount acentry, mv_time = ae_nTime acentry, mv_amount = ae_nCreditDebit acentry,
        mv_otheraccount = ae_strOtherAccount acentry, mv_comment = ae_strComment acentry\<rparr>]
      else ret)"

section \<open>Pages\<close>

text \<open>\<open>OrderedTxItems\<close> with the entries themselves: transactions and accounting entries by order position.\<close>

type_synonym tx_items = "(int \<times> (CWalletTx + acentry)) list"

definition OrderedItems :: "acc_db \<Rightarrow> string \<Rightarrow> wtx_state \<Rightarrow> rows \<Rightarrow> tx_items result" where
  "OrderedItems D strAccount s rs =
     bindR (ListAccountCreditDebit D strAccount rs) (\<lambda>acentries.
       let txOrdered = fold (\<lambda>(h, w). mmap_insert (nOrderPos w) (Inl w)) (mapWallet s) [];
           txOrdered = fold (\<lambda>e. mmap_insert (ae_nOrderPos e) (Inr e)) acentries txOrdered
       in Inr txOrdered)"

definition list_item ::
    "'d wallet_view \<Rightarrow> 'd list_env \<Rightarrow> wtx_state \<Rightarrow> string \<Rightarrow> u32 \<Rightarrow> CWalletTx + acentry \<Rightarrow> 'd json_entry list \<Rightarrow>
     'd json_entry list result" where
  "list_item V A s strAccount flt item ret =
     (case item of
        Inl w \<Rightarrow> ListTransactions V A s w strAccount 0 True flt ret
      | Inr e \<Rightarrow> Inr (AcentryToJSON e strAccount ret))"

fun list_loop ::
    "'d wallet_view \<Rightarrow> 'd list_env \<Rightarrow> wtx_state \<Rightarrow> string \<Rightarrow> u32 \<Rightarrow> int \<Rightarrow> tx_items \<Rightarrow> 'd json_entry list \<Rightarrow>
     'd json_entry list result" where
  "list_loop V A s strAccount flt wanted [] ret = Inr ret"
| "list_loop V A s strAccount flt wanted (it # its) ret =
     bindR (list_item V A s strAccount flt (snd it) ret) (\<lambda>ret.
       if int (length ret) \<ge> wanted then Inr ret else list_loop V A s strAccount flt wanted its ret)"

definition listtransactions ::
    "'d wallet_view \<Rightarrow> acc_db \<Rightarrow> 'd list_env \<Rightarrow> string \<Rightarrow> int \<Rightarrow> int \<Rightarrow> u32 \<Rightarrow> wtx_state \<Rightarrow> rows \<Rightarrow> 'd json_entry list result" where
  "listtransactions V D A strAccount nCount nFrom flt s rs =
     (if nCount < 0 then Inl (Thrown ''Negative count'')
      else if nFrom < 0 then Inl (Thrown ''Negative from'')
      else bindR (OrderedItems D strAccount s rs) (\<lambda>txOrdered.
        bindR (list_loop V A s strAccount flt (nCount + nFrom) (rev txOrdered) []) (\<lambda>ret.
          let nFrom = (if nFrom > int (length ret) then int (length ret) else nFrom);
              nCount = (if nFrom + nCount > int (length ret) then int (length ret) - nFrom else nCount);
              ret = take (nat (nFrom + nCount)) ret;
              ret = drop (nat nFrom) ret
          in Inr (rev ret))))"

text \<open>The whole list, newest entry first.\<close>

fun all_entries ::
    "'d wallet_view \<Rightarrow> 'd list_env \<Rightarrow> wtx_state \<Rightarrow> string \<Rightarrow> u32 \<Rightarrow> tx_items \<Rightarrow> 'd json_entry list result" where
  "all_entries V A s strAccount flt [] = Inr []"
| "all_entries V A s strAccount flt (it # its) =
     bindR (list_item V A s strAccount flt (snd it) []) (\<lambda>es.
     bindR (all_entries V A s strAccount flt its) (\<lambda>rest. Inr (es @ rest)))"

lemma list_item_append: "list_item V A s acct flt item ret = bindR (list_item V A s acct flt item []) (\<lambda>es. Inr (ret @ es))"
proof (cases item)
  case (Inl w)
  then show ?thesis
    by (cases "GetAmounts V flt w s"; cases "GetDebit_tx V (le_ISMINE_WATCH_ONLY A) (wt_tx w) s")
       (simp_all add: list_item_def ListTransactions_def Let_def)
qed (simp add: list_item_def AcentryToJSON_def Let_def)

text \<open>The loop stops early with a beginning of the whole list that is long enough.\<close>

lemma list_loop_prefix:
  "all_entries V A s acct flt its = Inr es \<Longrightarrow>
   \<exists>xs. list_loop V A s acct flt wanted its ret = Inr (ret @ xs) \<and> (\<exists>ys. es = xs @ ys \<and> (ys = [] \<or> wanted \<le> int (length (ret @ xs))))"
proof (induction its arbitrary: ret es)
  case (Cons it its)
  obtain e1 where e1: "list_item V A s acct flt (snd it) [] = Inr e1"
    using Cons.prems by (cases "list_item V A s acct flt (snd it) []") auto
  then obtain e2 where e2: "all_entries V A s acct flt its = Inr e2" "es = e1 @ e2"
    using Cons.prems by (cases "all_entries V A s acct flt its") auto
  have i: "list_item V A s acct flt (snd it) ret = Inr (ret @ e1)"
    using list_item_append [of V A s acct flt "snd it" ret] e1 by simp
  show ?case
  proof (cases "wanted \<le> int (length (ret @ e1))")
    case True
    then show ?thesis using i e2 by auto
  next
    case False
    obtain xs ys where "list_loop V A s acct flt wanted its (ret @ e1) = Inr ((ret @ e1) @ xs)"
      "e2 = xs @ ys" "ys = [] \<or> wanted \<le> int (length ((ret @ e1) @ xs))"
      using Cons.IH [OF e2(1), of "ret @ e1"] by blast
    then show ?thesis using i e2(2) False by (intro exI [of _ "e1 @ xs"]) auto
  qed
qed simp

lemma page_of_prefix:
  fixes c f :: nat
  assumes "es = xs @ ys" "ys = [] \<or> c + f \<le> length xs"
  defines "F \<equiv> if int f > int (length xs) then int (length xs) else int f"
  defines "C \<equiv> if F + int c > int (length xs) then int (length xs) - F else int c"
  shows "drop (nat F) (take (nat (F + C)) xs) = take c (drop f es)"
proof (cases "f \<le> length xs")
  case True
  then have F: "F = int f" by (simp add: F_def)
  show ?thesis
  proof (cases "f + c \<le> length xs")
    case True
    then have "C = int c" by (simp add: C_def F)
    then have "drop (nat F) (take (nat (F + C)) xs) = take c (drop f xs)"
      by (simp add: F nat_add_distrib drop_take)
    then show ?thesis using assms(1) True by simp
  next
    case False
    then have "ys = []" using assms(2) by simp
    moreover have "C = int (length xs) - int f" using False True by (simp add: C_def F)
    ultimately show ?thesis using assms(1) True False by (simp add: F)
  qed
next
  case False
  then have "ys = []" "F = int (length xs)" using assms(2) by (auto simp: F_def)
  moreover from this have "C = 0" by (auto simp: C_def)
  ultimately show ?thesis using assms(1) False by simp
qed

lemma listtransactions_pages:
  assumes "OrderedItems D acct s rs = Inr items" "all_entries V A s acct flt (rev items) = Inr es"
    "0 \<le> nCount" "0 \<le> nFrom"
  shows "listtransactions V D A acct nCount nFrom flt s rs = Inr (rev (take (nat nCount) (drop (nat nFrom) es)))"
proof -
  obtain xs ys where l: "list_loop V A s acct flt (nCount + nFrom) (rev items) [] = Inr xs" "es = xs @ ys"
    "ys = [] \<or> nCount + nFrom \<le> int (length xs)"
    using list_loop_prefix [OF assms(2), of "nCount + nFrom" "[]"] by auto
  obtain c f where n: "nCount = int c" "nFrom = int f" using assms(3,4) by (metis int_nat_eq)
  have "ys = [] \<or> c + f \<le> length xs" using l(3) by (auto simp: n)
  note p = page_of_prefix [OF l(2) this]
  have "\<not> int c < 0" "\<not> int f < 0" by simp_all
  then show ?thesis
    unfolding listtransactions_def assms(1) bindR_simps l(1) Let_def unfolding n by (simp only: if_False p nat_int)
qed

section \<open>Tallies of what was received\<close>

record tallyitem =
  ti_nAmount :: int
  ti_nConf :: int
  ti_txids :: "nat list"
  ti_fIsWatchonly :: bool

definition tallyitem_new :: tallyitem where
  "tallyitem_new = \<lparr>ti_nAmount = 0, ti_nConf = max_int, ti_txids = [], ti_fIsWatchonly = False\<rparr>"

definition tally_out ::
    "'d wallet_view \<Rightarrow> 'd list_env \<Rightarrow> u32 \<Rightarrow> CWalletTx \<Rightarrow> CTxOut \<Rightarrow> ('d \<rightharpoonup> tallyitem) \<Rightarrow> ('d \<rightharpoonup> tallyitem)" where
  "tally_out V A flt w txout m =
     (case wv_ExtractDestination V (scriptPubKey txout) of
        None \<Rightarrow> m
      | Some address \<Rightarrow>
          let mine = le_IsMine A address in
          if mine AND flt = 0 then m
          else
            let item = (case m address of Some i \<Rightarrow> i | None \<Rightarrow> tallyitem_new);
                item = item\<lparr>ti_nAmount := ti_nAmount item + nValue txout\<rparr>;
                item = item\<lparr>ti_nConf := min (ti_nConf item) (we_depth V w)\<rparr>;
                item = item\<lparr>ti_txids := ti_txids item @ [we_GetHash V (wt_tx w)]\<rparr>;
                item = (if mine AND le_ISMINE_WATCH_ONLY A \<noteq> 0 then item\<lparr>ti_fIsWatchonly := True\<rparr> else item)
            in m(address \<mapsto> item))"

definition tally_tx ::
    "'d wallet_view \<Rightarrow> 'd list_env \<Rightarrow> u32 \<Rightarrow> int \<Rightarrow> nat \<times> CWalletTx \<Rightarrow> ('d \<rightharpoonup> tallyitem) \<Rightarrow> ('d \<rightharpoonup> tallyitem)" where
  "tally_tx V A flt nMinDepth e m =
     (let w = snd e in
      if IsCoinBase (wt_tx w) \<or> \<not> wv_IsFinalTx V (wt_tx w) then m
      else if we_depth V w < nMinDepth then m
      else fold (tally_out V A flt w) (vout (wt_tx w)) m)"

record 'd received_row =
  rr_involvesWatchonly :: bool
  rr_address :: "'d option"
  rr_account :: string
  rr_amount :: int
  rr_confirmations :: int
  rr_txids :: "nat list"

definition shown_conf :: "int \<Rightarrow> int" where
  "shown_conf n = (if n = max_int then 0 else n)"

definition add_account_tally :: "string \<Rightarrow> tallyitem \<Rightarrow> (string, tallyitem) smap \<Rightarrow> (string, tallyitem) smap" where
  "add_account_tally strAccount t m =
     (let item = (case map_of m strAccount of Some i \<Rightarrow> i | None \<Rightarrow> tallyitem_new);
          item = item\<lparr>ti_nAmount := ti_nAmount item + ti_nAmount t\<rparr>;
          item = item\<lparr>ti_nConf := min (ti_nConf item) (ti_nConf t)\<rparr>;
          item = item\<lparr>ti_fIsWatchonly := ti_fIsWatchonly t\<rparr>
      in smap_put strAccount item m)"

definition reply_address ::
    "('d \<rightharpoonup> tallyitem) \<Rightarrow> bool \<Rightarrow> bool \<Rightarrow> 'd \<times> string \<Rightarrow> 'd received_row list \<times> (string, tallyitem) smap \<Rightarrow>
     'd received_row list \<times> (string, tallyitem) smap" where
  "reply_address mapTally fIncludeEmpty fByAccounts item st =
     (let (ret, mapAccountTally) = st; (address, strAccount) = item in
      if mapTally address = None \<and> \<not> fIncludeEmpty then (ret, mapAccountTally)
      else
        let t = (case mapTally address of Some i \<Rightarrow> i | None \<Rightarrow> tallyitem_new)
        in if fByAccounts then (ret, add_account_tally strAccount t mapAccountTally)
           else (ret @ [\<lparr>rr_involvesWatchonly = ti_fIsWatchonly t, rr_address = Some address, rr_account = strAccount,
                  rr_amount = ti_nAmount t, rr_confirmations = shown_conf (ti_nConf t), rr_txids = ti_txids t\<rparr>],
                 mapAccountTally))"

definition account_row :: "string \<times> tallyitem \<Rightarrow> 'd received_row" where
  "account_row e = \<lparr>rr_involvesWatchonly = ti_fIsWatchonly (snd e), rr_address = None, rr_account = fst e,
     rr_amount = ti_nAmount (snd e), rr_confirmations = shown_conf (ti_nConf (snd e)), rr_txids = []\<rparr>"

definition ListReceived ::
    "'d wallet_view \<Rightarrow> 'd list_env \<Rightarrow> int \<Rightarrow> bool \<Rightarrow> u32 \<Rightarrow> bool \<Rightarrow> wtx_state \<Rightarrow> 'd received_row list" where
  "ListReceived V A nMinDepth fIncludeEmpty flt fByAccounts s =
     (let mapTally = fold (tally_tx V A flt nMinDepth) (mapWallet s) (\<lambda>d. None);
          (ret, mapAccountTally) = fold (reply_address mapTally fIncludeEmpty fByAccounts) (wv_address_book V) ([], [])
      in if fByAccounts then ret @ List.map account_row mapAccountTally else ret)"

text \<open>The sum that \<open>getreceivedbyaccount\<close> prints; \<open>GetAccountAddresses\<close> is not in the repository.\<close>

fun received_outs ::
    "'d wallet_view \<Rightarrow> 'd list_env \<Rightarrow> 'd set \<Rightarrow> int \<Rightarrow> CWalletTx \<Rightarrow> CTxOut list \<Rightarrow> int \<Rightarrow> int" where
  "received_outs V A setAddress nMinDepth w [] nAmount = nAmount"
| "received_outs V A setAddress nMinDepth w (txout # outs) nAmount =
     (case wv_ExtractDestination V (scriptPubKey txout) of
        Some address \<Rightarrow>
          if le_IsMine A address \<noteq> 0 \<and> address \<in> setAddress \<and> we_depth V w \<ge> nMinDepth
          then received_outs V A setAddress nMinDepth w outs (nAmount + nValue txout)
          else received_outs V A setAddress nMinDepth w outs nAmount
      | None \<Rightarrow> received_outs V A setAddress nMinDepth w outs nAmount)"

definition getreceivedbyaccount ::
    "'d wallet_view \<Rightarrow> 'd list_env \<Rightarrow> (string \<Rightarrow> 'd set) \<Rightarrow> string \<Rightarrow> int \<Rightarrow> wtx_state \<Rightarrow> int result" where
  "getreceivedbyaccount V A GetAccountAddresses p0 nMinDepth s =
     bindR (AccountFromValue p0) (\<lambda>strAccount.
       Inr (fold (\<lambda>e nAmount. let w = snd e in
           if IsCoinBase (wt_tx w) \<or> \<not> wv_IsFinalTx V (wt_tx w) then nAmount
           else received_outs V A (GetAccountAddresses strAccount) nMinDepth w (vout (wt_tx w)) nAmount) (mapWallet s) 0))"

text \<open>What an address got, as a sum over the outputs of the wallet that count.\<close>

definition counted_outs :: "'d wallet_view \<Rightarrow> int \<Rightarrow> wtx_state \<Rightarrow> CTxOut list" where
  "counted_outs V nMinDepth s = concat (List.map (\<lambda>e. vout (wt_tx (snd e)))
     (List.filter (\<lambda>e. \<not> IsCoinBase (wt_tx (snd e)) \<and> wv_IsFinalTx V (wt_tx (snd e)) \<and> nMinDepth \<le> we_depth V (snd e)) (mapWallet s)))"

definition pays_to :: "'d wallet_view \<Rightarrow> 'd list_env \<Rightarrow> u32 \<Rightarrow> 'd \<Rightarrow> CTxOut \<Rightarrow> bool" where
  "pays_to V A flt d txout \<longleftrightarrow> wv_ExtractDestination V (scriptPubKey txout) = Some d \<and> le_IsMine A d AND flt \<noteq> 0"

definition received :: "'d wallet_view \<Rightarrow> 'd list_env \<Rightarrow> u32 \<Rightarrow> 'd \<Rightarrow> CTxOut list \<Rightarrow> int" where
  "received V A flt d outs = sum_list (List.map nValue (List.filter (pays_to V A flt d) outs))"

definition tally_amount :: "tallyitem option \<Rightarrow> int" where
  "tally_amount t = (case t of Some i \<Rightarrow> ti_nAmount i | None \<Rightarrow> 0)"

lemma tally_out_amount:
  "tally_amount (tally_out V A flt w txout m d) = tally_amount (m d) + (if pays_to V A flt d txout then nValue txout else 0) \<and>
   (tally_out V A flt w txout m d = None \<longleftrightarrow> m d = None \<and> \<not> pays_to V A flt d txout)"
  by (auto simp: tally_out_def Let_def pays_to_def tally_amount_def tallyitem_new_def split: option.splits)

lemma tally_outs_amount:
  "tally_amount (fold (tally_out V A flt w) outs m d) = tally_amount (m d) + received V A flt d outs \<and>
   (fold (tally_out V A flt w) outs m d = None \<longleftrightarrow> m d = None \<and> list_all (\<lambda>out. \<not> pays_to V A flt d out) outs)"
  by (induction outs arbitrary: m) (auto simp: received_def tally_out_amount)

lemma tally_amount_wallet:
  "tally_amount (fold (tally_tx V A flt nMinDepth) es m d) = tally_amount (m d) + received V A flt d (counted_outs V nMinDepth (s\<lparr>mapWallet := es\<rparr>)) \<and>
   (fold (tally_tx V A flt nMinDepth) es m d = None \<longleftrightarrow>
      m d = None \<and> list_all (\<lambda>out. \<not> pays_to V A flt d out) (counted_outs V nMinDepth (s\<lparr>mapWallet := es\<rparr>)))"
proof (induction es arbitrary: m)
  case (Cons e es)
  then show ?case
    by (auto simp: tally_tx_def Let_def counted_outs_def received_def tally_outs_amount)
qed (simp add: counted_outs_def received_def)

text \<open>The tally of an account: the sum over the addresses of the book that bear its name.\<close>

definition named :: "string \<Rightarrow> ('d \<times> string) list \<Rightarrow> 'd list" where
  "named a book = List.map fst (List.filter (\<lambda>e. snd e = a) book)"

lemma add_account_tally_amount:
  "smap_ok m \<Longrightarrow> smap_ok (add_account_tally b t m) \<and>
     tally_amount (map_of (add_account_tally b t m) a) = tally_amount (map_of m a) + (if a = b then ti_nAmount t else 0) \<and>
     (map_of (add_account_tally b t m) a = None \<longleftrightarrow> map_of m a = None \<and> a \<noteq> b)"
  by (auto simp: add_account_tally_def Let_def smap_simps tally_amount_def tallyitem_new_def split: option.splits)

lemma reply_accounts:
  assumes "smap_ok m"
  shows "\<exists>m'. fold (reply_address mt inc True) book ([], m) = ([], m') \<and> smap_ok m' \<and>
    (\<forall>a. tally_amount (map_of m' a) = tally_amount (map_of m a) + sum_list (List.map (\<lambda>d. tally_amount (mt d)) (named a book)) \<and>
      (map_of m' a = None \<longleftrightarrow> map_of m a = None \<and> (\<forall>d \<in> set (named a book). mt d = None \<and> \<not> inc)))"
  using assms
proof (induction book arbitrary: m)
  case (Cons e book)
  obtain d n where e: "e = (d, n)" by (cases e)
  show ?case
  proof (cases "mt d = None \<and> \<not> inc")
    case True
    then have "fold (reply_address mt inc True) (e # book) ([], m) = fold (reply_address mt inc True) book ([], m)"
      by (simp add: reply_address_def e)
    with Cons.IH [OF Cons.prems] True show ?thesis by (auto simp: named_def e tally_amount_def)
  next
    case False
    define t where "t = (case mt d of Some i \<Rightarrow> i | None \<Rightarrow> tallyitem_new)"
    have t: "ti_nAmount t = tally_amount (mt d)" by (simp add: t_def tally_amount_def tallyitem_new_def split: option.splits)
    have f: "fold (reply_address mt inc True) (e # book) ([], m) = fold (reply_address mt inc True) book ([], add_account_tally n t m)"
      using False by (auto simp: reply_address_def e t_def Let_def)
    note a = add_account_tally_amount [OF Cons.prems, of n t]
    then obtain m' where m': "fold (reply_address mt inc True) book ([], add_account_tally n t m) = ([], m')" "smap_ok m'"
      "\<And>b. tally_amount (map_of m' b) = tally_amount (map_of (add_account_tally n t m) b) + sum_list (List.map (\<lambda>d. tally_amount (mt d)) (named b book))"
      "\<And>b. map_of m' b = None \<longleftrightarrow> map_of (add_account_tally n t m) b = None \<and> (\<forall>d \<in> set (named b book). mt d = None \<and> \<not> inc)"
      using Cons.IH [of "add_account_tally n t m"] by blast
    show ?thesis unfolding f m'(1) using m'(2-4) a False by (auto simp: named_def e t)
  qed
qed (simp add: named_def)

lemma ListReceived_accounts:
  assumes "r \<in> set (ListReceived V A nMinDepth inc flt True s)"
  shows "rr_amount r = sum_list (List.map (\<lambda>d. received V A flt d (counted_outs V nMinDepth s)) (named (rr_account r) (wv_address_book V)))"
proof -
  define mt where "mt = fold (tally_tx V A flt nMinDepth) (mapWallet s) (\<lambda>d. None)"
  have mt: "tally_amount (mt d) = received V A flt d (counted_outs V nMinDepth s)" for d
    using tally_amount_wallet [of V A flt nMinDepth "mapWallet s" "\<lambda>d. None" d s] by (simp add: mt_def tally_amount_def)
  obtain m' where m': "fold (reply_address mt inc True) (wv_address_book V) ([], []) = ([], m')" "smap_ok m'"
    "\<And>a. tally_amount (map_of m' a) = sum_list (List.map (\<lambda>d. tally_amount (mt d)) (named a (wv_address_book V)))"
    using reply_accounts [of "[]" mt inc "wv_address_book V"] by (auto simp: tally_amount_def)
  have "ListReceived V A nMinDepth inc flt True s = List.map account_row m'"
    using m'(1) by (simp add: ListReceived_def Let_def mt_def [symmetric])
  then obtain e where e: "e \<in> set m'" "r = account_row e" using assms by auto
  have "distinct (List.map fst m')" using m'(2) by (rule smap_ok_distinct)
  then have "map_of m' (fst e) = Some (snd e)" using e(1) by simp
  then have "tally_amount (map_of m' (fst e)) = rr_amount r" by (simp add: e(2) account_row_def tally_amount_def)
  then show ?thesis using m'(3) [of "fst e"] by (simp add: mt e(2) account_row_def)
qed

lemma ListReceived_accounts_listed:
  "a \<in> rr_account ` set (ListReceived V A nMinDepth inc flt True s) \<longleftrightarrow>
   (\<exists>d \<in> set (named a (wv_address_book V)). inc \<or> list_ex (pays_to V A flt d) (counted_outs V nMinDepth s))"
proof -
  define mt where "mt = fold (tally_tx V A flt nMinDepth) (mapWallet s) (\<lambda>d. None)"
  have mt: "mt d = None \<longleftrightarrow> \<not> list_ex (pays_to V A flt d) (counted_outs V nMinDepth s)" for d
    using tally_amount_wallet [of V A flt nMinDepth "mapWallet s" "\<lambda>d. None" d s] by (auto simp: mt_def list_ex_iff list_all_iff)
  obtain m' where m': "fold (reply_address mt inc True) (wv_address_book V) ([], []) = ([], m')"
    "\<And>a. map_of m' a = None \<longleftrightarrow> (\<forall>d \<in> set (named a (wv_address_book V)). mt d = None \<and> \<not> inc)"
    using reply_accounts [of "[]" mt inc "wv_address_book V"] by auto
  have "rr_account ` set (ListReceived V A nMinDepth inc flt True s) = fst ` set m'"
    using m'(1) by (simp add: ListReceived_def Let_def mt_def [symmetric] image_image account_row_def)
  then show ?thesis using m'(2) [of a] by (auto simp: mt map_of_eq_None_iff)
qed

section \<open>The two commands agree\<close>

lemma received_outs_sum:
  "received_outs V A S nMinDepth w outs k = k + (if nMinDepth \<le> we_depth V w then
     sum_list (List.map nValue (List.filter (\<lambda>out. \<exists>d \<in> S. wv_ExtractDestination V (scriptPubKey out) = Some d \<and> le_IsMine A d \<noteq> 0) outs)) else 0)"
  by (induction outs arbitrary: k) (auto split: option.splits)

lemma received_set_sum:
  assumes "distinct ds" "\<And>d. le_IsMine A d AND flt = 0 \<longleftrightarrow> le_IsMine A d = 0"
  shows "sum_list (List.map (\<lambda>d. received V A flt d outs) ds) = sum_list (List.map nValue
     (List.filter (\<lambda>out. \<exists>d \<in> set ds. wv_ExtractDestination V (scriptPubKey out) = Some d \<and> le_IsMine A d \<noteq> 0) outs))"
proof (induction outs)
  case (Cons out outs)
  have "received V A flt d (out # outs) = (if pays_to V A flt d out then nValue out else 0) + received V A flt d outs" for d
    by (simp add: received_def)
  then have "sum_list (List.map (\<lambda>d. received V A flt d (out # outs)) ds) =
      sum_list (List.map (\<lambda>d. if pays_to V A flt d out then nValue out else 0) ds) + sum_list (List.map (\<lambda>d. received V A flt d outs) ds)"
    by (simp add: sum_list_addf)
  moreover have "sum_list (List.map (\<lambda>d. if pays_to V A flt d out then nValue out else 0) ds) =
      (if \<exists>d \<in> set ds. wv_ExtractDestination V (scriptPubKey out) = Some d \<and> le_IsMine A d \<noteq> 0 then nValue out else 0)"
    using assms(1) by (induction ds) (auto simp: pays_to_def assms(2))
  ultimately show ?case using Cons.IH by auto
qed (simp add: received_def)

lemma received_agree:
  assumes "distinct (List.map fst (wv_address_book V))" "\<And>d. le_IsMine A d AND flt = 0 \<longleftrightarrow> le_IsMine A d = 0"
    "\<And>a. G a = set (named a (wv_address_book V))" "r \<in> set (ListReceived V A nMinDepth inc flt True s)" "rr_account r \<noteq> ''*''"
  shows "getreceivedbyaccount V A G (rr_account r) nMinDepth s = Inr (rr_amount r)"
proof -
  define ds where "ds = named (rr_account r) (wv_address_book V)"
  define F where "F = (\<lambda>out :: CTxOut. \<exists>d \<in> set ds. wv_ExtractDestination V (scriptPubKey out) = Some d \<and> le_IsMine A d \<noteq> 0)"
  have g: "G (rr_account r) = set ds" by (simp add: assms(3) ds_def)
  have dist: "distinct ds" using assms(1) by (simp add: ds_def named_def distinct_map_filter)
  have "fold (\<lambda>e n. let w = snd e in if IsCoinBase (wt_tx w) \<or> \<not> wv_IsFinalTx V (wt_tx w) then n
        else received_outs V A (set ds) nMinDepth w (vout (wt_tx w)) n) es k =
      k + sum_list (List.map nValue (List.filter F (counted_outs V nMinDepth (s\<lparr>mapWallet := es\<rparr>))))" for es k
    by (induction es arbitrary: k) (auto simp: counted_outs_def Let_def received_outs_sum F_def)
  from this [of "mapWallet s" 0] have "getreceivedbyaccount V A G (rr_account r) nMinDepth s =
      Inr (sum_list (List.map nValue (List.filter F (counted_outs V nMinDepth s))))"
    using assms(5) by (simp add: getreceivedbyaccount_def AccountFromValue_def g cong del: if_weak_cong)
  also have "sum_list (List.map nValue (List.filter F (counted_outs V nMinDepth s))) = rr_amount r"
    using received_set_sum [OF dist assms(2)] ListReceived_accounts [OF assms(4)] by (simp add: F_def ds_def)
  finally show ?thesis .
qed

text \<open>An account with a watch-only address is not marked when another of its addresses comes after it.\<close>

lemma watchonly_overwritten:
  "add_account_tally a (tallyitem_new\<lparr>ti_fIsWatchonly := False\<rparr>)
     (add_account_tally a (tallyitem_new\<lparr>ti_nAmount := 5, ti_fIsWatchonly := True\<rparr>) []) =
   [(a, tallyitem_new\<lparr>ti_nAmount := 5, ti_fIsWatchonly := False\<rparr>)]"
  by (simp add: add_account_tally_def tallyitem_new_def Let_def)

section \<open>Properties\<close>

text \<open>C33. A page of \<open>listtransactions\<close> is the slice of the whole list, newest first, that skips \<open>nFrom\<close> entries
  and takes \<open>nCount\<close>, turned to show the oldest first; that the loop stops as soon as it has enough
  entries does not change it, even when a transaction gives more than one entry.\<close>

theorem listtransactions_page:
  assumes "OrderedItems D acct s rs = Inr items" "all_entries V A s acct flt (rev items) = Inr es"
    "0 \<le> nCount" "0 \<le> nFrom" "nCount + nFrom \<le> max_int"
  shows "listtransactions V D A acct nCount nFrom flt s rs = Inr (rev (take (nat nCount) (drop (nat nFrom) es)))"
  by (rule listtransactions_pages [OF assms(1-4)])

definition demo_list_env :: "bytes list_env" where
  "demo_list_env = \<lparr>le_IsMine = (\<lambda>d. 2), le_ISMINE_WATCH_ONLY = 1, le_address_ok = (\<lambda>d. True)\<rparr>"

definition demo_first :: CWalletTx where
  "demo_first = (demo_wtx 1)\<lparr>nTimeReceived := 100, nTimeSmart := 100, nOrderPos := 0\<rparr>"

lemma demo_first_simps: "wt_tx demo_first = spend_tx 1" "strFromAccount demo_first = ''savings''" "mapWallet after_first = [(1, demo_first)]"
  by (simp_all add: demo_first_def demo_wtx_def after_first_def)

lemma demo_items: "OrderedItems demo_db ''*'' after_first [] = Inr [(0, Inl demo_first)]"
  by (simp add: OrderedItems_def ListAccountCreditDebit_def demo_db_def demo_first_simps Let_def)
     (simp add: demo_first_def)

lemma demo_watch_debit: "GetDebit_tx demo_view 1 (spend_tx 1) after_first = Inr 0"
  by (simp add: GetDebit_tx_def GetDebit_in_def prev_out_def after_first_def spend_tx_def set64_def Let_def)

lemma demo_entries:
  "all_entries demo_view demo_list_env after_first ''*'' 2 (rev [(0, Inl demo_first)]) =
   Inr [Inl (received_entry demo_view demo_list_env False True demo_first \<lparr>oe_destination = [], oe_amount = 5, oe_vout = 0\<rparr>)]"
  by (simp add: list_item_def ListTransactions_def demo_amounts_first demo_first_simps demo_list_env_def demo_watch_debit Let_def
      del: One_nat_def)

lemma listtransactions_page_witness:
  "listtransactions demo_view demo_db demo_list_env ''*'' 10 0 2 after_first [] =
   Inr [Inl (received_entry demo_view demo_list_env False True demo_first \<lparr>oe_destination = [], oe_amount = 5, oe_vout = 0\<rparr>)]"
  using listtransactions_page [OF demo_items demo_entries, of 10 0] by (simp add: max_int_def)


lemma demo_received:
  "ListReceived demo_view demo_list_env 0 True 2 True after_first =
   [\<lparr>rr_involvesWatchonly = False, rr_address = None, rr_account = ''shop'', rr_amount = 0, rr_confirmations = 0, rr_txids = []\<rparr>]"
  by (simp add: ListReceived_def demo_first_simps tally_tx_def demo_not_coinbase tally_out_def)
     (simp add: spend_tx_def tally_out_def demo_list_env_def reply_address_def add_account_tally_def account_row_def tallyitem_new_def shown_conf_def Let_def)


end
