(* ===== verification/Spec2Isabelle.thy ===== *)
theory Spec2Isabelle
  imports Sha512 Sha512_Fips Hash Units NetPeer Alert NetBase AddrmanSpec InterpreterSpec Util Miner Listing
begin

text \<open>
  A verification library for the Dystater node, a cryptocurrency node with a wallet written in C++
  (sources under \<open>src/src\<close>). Each component of the program that has its code in the repository is
  translated into executable definitions that keep the names and the branches of the code; the theorems
  state what makes the component correct. This theory only joins the others.

  \<^bold>\<open>The program and its parts.\<close> A node keeps addresses of peers (\<open>addrman\<close>), parses and
  looks up names and connects directly or through a proxy (\<open>netbase\<close>), exchanges framed messages
  with its peers (\<open>protocol\<close>, \<open>net\<close>) and relays alerts (\<open>alert\<close>). Transactions
  (\<open>primitives/transaction.h\<close>) carry scripts (\<open>script/script.h\<close>) that the interpreter
  (\<open>script/interpreter.cpp\<close>) evaluates; blocks (\<open>primitives/block.h\<close>) are linked into an
  index with an active chain (\<open>chain\<close>), checked and retargeted by proof of work (\<open>pow.cpp\<close>) and
  assembled from the pool (\<open>miner.cpp\<close>). The wallet (\<open>wallet.cpp\<close>) holds keys, encrypted
  or not (\<open>crypter\<close>), a pool of fresh keys, its transactions and an index of what they spend; from
  these it computes the coins it can spend, selects among them and makes payments. The commands of
  \<open>rpcwallet.cpp\<close> present the wallet as accounts and lists.

  \<^bold>\<open>Theories and sources.\<close>
  \<^item> \<open>Prelude\<close>: machine integers, results that can fail, byte buffers, strings, generic lemmas.
  \<^item> \<open>Sha512\<close>, \<open>Sha512_Fips\<close> (crypto/sha512.cpp): the unrolled compression function and
    the streaming object, and the standard's function they equal.
  \<^item> \<open>Hash\<close> (hash.cpp): MurmurHash3 and the message of \<open>BIP32Hash\<close>.
  \<^item> \<open>Uint256\<close> (uint256.h): fixed-width unsigned integers on arrays of 32-bit words.
  \<^item> \<open>NetAddr\<close>, \<open>NetBase\<close> (netbase, protocol.h): addresses, groups, names, proxies, SOCKS5.
  \<^item> \<open>Addrman\<close>, \<open>AddrmanInv\<close>, \<open>AddrmanSpec\<close> (addrman): operations, invariant, promises.
  \<^item> \<open>NetMsg\<close> (protocol.cpp, net.cpp): headers, framing, the send queue, one peer's round of the socket thread.
  \<^item> \<open>NetPeer\<close> (net.cpp, net.h): local addresses and their scores, bans, requests, relaying.
  \<^item> \<open>Alert\<close> (alert.cpp): the map of alerts.
  \<^item> \<open>Script\<close>, \<open>Interpreter\<close>, \<open>InterpreterSpec\<close>: scripts, evaluation, signature hashes, and what they guarantee.
  \<^item> \<open>Transaction\<close>, \<open>Block\<close>, \<open>Chain\<close>, \<open>Pow\<close>, \<open>Miner\<close>: the data and rules of the block chain.
  \<^item> \<open>Containers\<close> (mruset.h, limitedmap.h) and \<open>StdMap\<close>, the map the other theories share.
  \<^item> \<open>Crypter\<close> (crypter, key.h, keystore.h), \<open>KeyPool\<close>, \<open>Coins\<close>, \<open>WalletTx\<close>,
    \<open>WalletView\<close> (wallet.cpp, wallet.h, walletdb.h): the wallet.
  \<^item> \<open>Accounts\<close>, \<open>Listing\<close> (rpcwallet.cpp, walletdb.cpp): accounts, moves, balances, pages and tallies.
  \<^item> \<open>Units\<close> (qt/dystaterunits.cpp): printing and reading amounts.
  \<^item> \<open>Util\<close> (util.cpp): program options and the lock order checker.

  \<^bold>\<open>State and operations.\<close> A class is a record, a method a function from the record to the new
  record (and its result); a failed assertion, an access outside a container and an exception are
  values of \<open>failure\<close>. Words keep the wrap-around of unsigned integers; signed integers, whose
  overflow is undefined, are \<open>int\<close>, with their bounds as hypotheses or as theorems. A
  \<open>std::map\<close> is a list of entries in the order of its keys. Loops are structural or have a measure;
  those over pointers that could run in a circle are \<open>partial_function (option)\<close> and proved to
  return (\<open>SetTip\<close>, \<open>GetLocator\<close>, \<open>FindFork\<close>, the search for the last regular target,
  \<open>ReceiveMsgBytes\<close>). The fee loop of \<open>CreateTransaction\<close> takes fuel; the fee rises by at least one in each
  further round and is bounded, so the fuel given in the theorem suffices.

  \<^bold>\<open>What the lemmas show.\<close> Invariants: the address manager, the key store, the key pool, the index
  of spends, the active chain and the alerts stay consistent under every operation. Refinement:
  SHA-512 is a function of the concatenated input, the received messages are the frames of the stream,
  the key store is a map of keys, the bounded set a queue without repetitions. Equivalence: the
  compression function and MurmurHash3 equal their straightforward definitions, the signature check
  is strict DER, the lock checker finds exactly the pairs taken in both orders, the balances of
  accounts agree between the commands. Safety: assembled blocks respect their limits, created
  transactions balance, keys are given out once, coins on offer are unspent, moves conserve money.
  Round trips: script numbers, pushes, addresses with ports, headers, printed amounts.

  \<^bold>\<open>Parameters and hypotheses.\<close> Code that is not in the repository is an argument: hashing of
  transactions and blocks, the elliptic curve, OpenSSL, serialization sizes, the clock, random numbers,
  sockets, the resolver, the databases, \<open>main.cpp\<close>, and the Qt conversions of numbers. What is
  assumed of it is stated in each theorem and is met by a concrete instance in its witness.

  \<^bold>\<open>Interfaces.\<close> The locale \<open>bounded_store\<close> of \<open>Containers\<close> is what the bounded
  containers promise, interpreted on \<open>mruset\<close> and \<open>limitedmap\<close>; the locale \<open>key_store\<close>
  of \<open>StdMap\<close> is what clients need of a map, interpreted on the sorted list of entries.
  Output keys and reachabilities are instances of \<open>linorder\<close>, ordered as the code compares them.

  \<^bold>\<open>What modelling showed.\<close> Several files are cut: parts of the interpreter and of the script numbers
  are missing, and are modelled as they stand. Among the defects proved here: block templates without
  a coinbase, an eviction in the address manager that takes an undrawn entry, a reply length read as
  a signed byte in the SOCKS5 handshake, a container that outgrows its bound, an erased transaction
  that comes back blank, an alert that was to be final and is not, moves that lose money when a write fails, and
  two commands that differ about transactions that are not final.

  \<^bold>\<open>Not modelled.\<close> The graphical interface beyond its amounts (widgets and signals of Qt), the
  remaining RPC commands and the REST interface (JSON around \<open>main.cpp\<close>, which is missing), the
  wrappers of LevelDB and Berkeley DB, the threads of \<open>net.cpp\<close> that open connections, seed from DNS or
  map ports, the conversion of transactions to text, logging, paths and files, and the tests. Of the
  wallet, encryption of an existing wallet, rescans, rebroadcast and the address book are left out.
\<close>

end
